(* ===== verification/Prelude.thy ===== *)
theory Prelude
  imports Main "HOL-Library.Word" "HOL-Library.Multiset"
begin

text \<open>
  The vocabulary shared by the component theories: the widths of the machine integers the C
  sources use, the faults a C program can run into as values of a sum type, bounded reads and
  writes of C arrays, C strings inside byte arrays, and the list lemmas the components share.
\<close>

unbundle bit_operations_syntax

section \<open>Machine types\<close>

type_synonym byte = "8 word"
type_synonym u32 = "32 word"
type_synonym u64 = "64 word"
type_synonym i32 = "32 word"

section \<open>Faults as values\<close>

text \<open>
  A model of a C function returns \<open>Inl\<close> of a fault where the source calls \<open>exit\<close>, fails an
  assertion, dereferences a null or a poisoned pointer, or touches an array outside its bounds;
  a normal return is \<open>Inr\<close> of the result. \<open>Terminate\<close> is a C++ \<open>throw\<close> that nothing
  catches, \<open>NoReturn\<close> is the value of a loop that spins forever.
\<close>

datatype c_fault =
    Exit int
  | AssertFail
  | NullDeref
  | WildDeref
  | OutOfBounds
  | Terminate
  | NoReturn

type_synonym 'a res = "c_fault + 'a"

definition rbind :: "'a res \<Rightarrow> ('a \<Rightarrow> 'b res) \<Rightarrow> 'b res" where
  "rbind m f = (case m of Inl e \<Rightarrow> Inl e | Inr x \<Rightarrow> f x)"

lemma rbind_simps [simp]:
  "rbind (Inl e) f = Inl e"
  "rbind (Inr x) f = f x"
  by (simp_all add: rbind_def)

lemma rbind_eq_Inr:
  "rbind m f = Inr y \<longleftrightarrow> (\<exists>x. m = Inr x \<and> f x = Inr y)"
  by (cases m) auto

lemma rbind_eq_Inl:
  "rbind m f = Inl e \<longleftrightarrow> m = Inl e \<or> (\<exists>x. m = Inr x \<and> f x = Inl e)"
  by (cases m) auto

lemma rbind_cong [fundef_cong]:
  assumes "m = m'" and "\<And>x. m' = Inr x \<Longrightarrow> f x = g x"
  shows "rbind m f = rbind m' g"
  using assms by (cases m') simp_all

definition guard :: "bool \<Rightarrow> c_fault \<Rightarrow> unit res" where
  "guard b e = (if b then Inr () else Inl e)"

lemma guard_simps [simp]:
  "guard True e = Inr ()"
  "guard False e = Inl e"
  by (simp_all add: guard_def)

lemma guard_eq_Inr [simp]: "guard b e = Inr u \<longleftrightarrow> b"
  by (simp add: guard_def)

text \<open>A null pointer is \<open>None\<close>; dereferencing it faults.\<close>

definition deref :: "'a option \<Rightarrow> 'a res" where
  "deref p = (case p of None \<Rightarrow> Inl NullDeref | Some x \<Rightarrow> Inr x)"

lemma deref_simps [simp]:
  "deref None = Inl NullDeref"
  "deref (Some x) = Inr x"
  by (simp_all add: deref_def)

text \<open>A loop that may not end gives \<open>None\<close> when it does not.\<close>

definition returned :: "'a res option \<Rightarrow> 'a res" where
  "returned r = (case r of None \<Rightarrow> Inl NoReturn | Some x \<Rightarrow> x)"

lemma returned_simps [simp]:
  "returned None = Inl NoReturn"
  "returned (Some x) = x"
  by (simp_all add: returned_def)

section \<open>Arrays\<close>

definition aread :: "'a list \<Rightarrow> nat \<Rightarrow> 'a res" where
  "aread xs i = (if i < length xs then Inr (xs ! i) else Inl OutOfBounds)"

definition awrite :: "'a list \<Rightarrow> nat \<Rightarrow> 'a \<Rightarrow> 'a list res" where
  "awrite xs i x = (if i < length xs then Inr (xs[i := x]) else Inl OutOfBounds)"

lemma aread_ok [simp]: "i < length xs \<Longrightarrow> aread xs i = Inr (xs ! i)"
  by (simp add: aread_def)

lemma awrite_ok [simp]: "i < length xs \<Longrightarrow> awrite xs i x = Inr (xs[i := x])"
  by (simp add: awrite_def)

text \<open>\<open>memcpy\<close> of a block into an array at an offset; the callers stay inside the array.\<close>

definition memcpy :: "'a list \<Rightarrow> nat \<Rightarrow> 'a list \<Rightarrow> 'a list" where
  "memcpy dst off src = take off dst @ src @ drop (off + length src) dst"

lemma length_memcpy [simp]:
  "off + length src \<le> length dst \<Longrightarrow> length (memcpy dst off src) = length dst"
  by (simp add: memcpy_def)

lemma take_memcpy:
  "off \<le> length dst \<Longrightarrow> take (off + length src) (memcpy dst off src) = take off dst @ src"
  by (simp add: memcpy_def)

lemma take_memcpy_0: "take (length src) (memcpy dst 0 src) = src"
  by (simp add: memcpy_def)

section \<open>Words\<close>

lemma unat_byte_lt [simp]: "unat (b :: byte) < 256"
  using unsigned_less [of b] by simp

lemma sint_eq_unat:
  fixes x :: i32
  assumes "unat x < 2 ^ 31"
  shows "sint x = int (unat x)"
proof -
  from assms have "int (unat x) < int (2 ^ 31)" by (simp only: of_nat_less_iff)
  then have "signed_take_bit 31 (uint x) = uint x"
    by (auto simp: signed_take_bit_int_eq_self_iff intro: order_trans [of _ 0])
  moreover have "sint x = signed_take_bit 31 (uint x)"
    by (simp add: sint_uint)
  ultimately show ?thesis by simp
qed

lemma and_bit: "x AND 1 = 0 \<longleftrightarrow> \<not> bit x 0" "x AND 4 = 0 \<longleftrightarrow> \<not> bit x 2" for x :: "'a :: len word"
  using and_exp_eq_0_iff_not_bit [of x 0] and_exp_eq_0_iff_not_bit [of x 2] by simp_all

section \<open>Lists\<close>

lemma split_last_two:
  assumes "2 \<le> length xs"
  shows "xs = butlast (butlast xs) @ [xs ! (length xs - 2), xs ! (length xs - 1)]"
proof -
  from assms obtain ys b where xs: "xs = ys @ [b]"
    by (cases xs rule: rev_cases) auto
  with assms have "ys \<noteq> []" by auto
  from \<open>ys \<noteq> []\<close> obtain zs a where ys: "ys = zs @ [a]"
    by (cases ys rule: rev_cases) auto
  show ?thesis by (simp add: xs ys nth_append butlast_append)
qed

end
