(* ===== verification/Huffman_Compress.thy ===== *)
theory Huffman_Compress
  imports Prelude
begin

text \<open>
  Model of \<open>HuffmanCompress/HuffmanCompress.c\<close>: counting the bytes of a file, building the
  Huffman tree in the sorted array \<open>items\<close>, walking the tree to produce the code of every byte
  and the key section of the compressed file, and packing the codes of the file into bytes.

  The standard library's \<open>qsort\<close> is the argument \<open>qs\<close>: the C standard leaves the order of
  elements that compare equal open. Memory the program reads without having written it is an
  argument too: \<open>pad\<close> for the four bytes of padding in \<open>head_t\<close> and \<open>junk\<close> for the initial
  content of \<open>string_buf\<close>.
\<close>

section \<open>Data\<close>

abbreviation BUFFER_LENGTH :: nat where
  "BUFFER_LENGTH \<equiv> 1024"

record item_t =
  num :: byte
  ntimes :: i32
  flag :: int
  result_string :: string
  result_string_length :: nat
  result :: "byte list"
  result_length :: nat

text \<open>
  A node of the tree owns copies of its two children, made by \<open>memcpy\<close> and never shared, so a
  tree of nodes is a tree of values; a null child is \<open>None\<close>.
\<close>

datatype item = Item (data: item_t) (left: "item option") (right: "item option")

abbreviation item_ntimes :: "item \<Rightarrow> i32" where
  "item_ntimes x \<equiv> ntimes (data x)"

text \<open>The globals of the program that outlive one call, and the array \<open>items\<close>.\<close>

record huff_state =
  path :: string
  key_buf :: "byte list"
  non_zero_nums :: nat
  items :: "item list"

section \<open>Counting\<close>

definition zero_item :: "nat \<Rightarrow> item" where
  "zero_item i = Item \<lparr>num = of_nat i, ntimes = 0, flag = 0, result_string = [],
     result_string_length = 0, result = [0, 0, 0, 0], result_length = 0\<rparr> None None"

definition init_items :: "item list" where
  "init_items = map zero_item [0..<256]"

definition bump :: "item \<Rightarrow> item" where
  "bump x = Item ((data x)\<lparr>ntimes := ntimes (data x) + 1\<rparr>) (left x) (right x)"

fun count_loop :: "byte list \<Rightarrow> item list \<Rightarrow> item list" where
  "count_loop [] ret = ret"
| "count_loop (b # bs) ret = count_loop bs (ret[unat b := bump (ret ! unat b)])"

definition count_numbers :: "byte list \<Rightarrow> item list \<Rightarrow> item list res" where
  "count_numbers buf ret = (if length buf = 0 then Inl (Exit 1) else Inr (count_loop buf ret))"

section \<open>Building the tree\<close>

definition numsort :: "item \<Rightarrow> item \<Rightarrow> int" where
  "numsort p1 p2 = sint (item_ntimes p2 - item_ntimes p1)"

type_synonym qsort = "(item \<Rightarrow> item \<Rightarrow> int) \<Rightarrow> item list \<Rightarrow> item list"

definition merge_items :: "item \<Rightarrow> item \<Rightarrow> item" where
  "merge_items l r = Item ((data l)\<lparr>flag := 1, ntimes := item_ntimes l + item_ntimes r\<rparr>)
     (Some l) (Some r)"

fun build_loop :: "qsort \<Rightarrow> nat \<Rightarrow> item list \<Rightarrow> item list" where
  "build_loop qs 0 its = its"
| "build_loop qs (Suc k) its =
     (if item_ntimes (its ! Suc k) = 0 then build_loop qs k its
      else let its1 = its[k := merge_items (its ! k) (its ! Suc k)]
           in build_loop qs k (qs numsort (take (Suc k) its1) @ drop (Suc k) its1))"

section \<open>Walking the tree\<close>

text \<open>
  \<open>sprintf(result_string, "%s1", result_string)\<close> appends one character to the global
  \<open>char result_string[20]\<close>, whose last byte is the terminator.
\<close>

definition path_push :: "char \<Rightarrow> huff_state \<Rightarrow> huff_state res" where
  "path_push c s = (if length (path s) + 1 < 20 then Inr (s\<lparr>path := path s @ [c]\<rparr>)
     else Inl OutOfBounds)"

definition path_pop :: "huff_state \<Rightarrow> huff_state" where
  "path_pop s = s\<lparr>path := butlast (path s)\<rparr>"

fun print_huffman :: "item \<Rightarrow> huff_state \<Rightarrow> huff_state res" where
  "print_huffman (Item d l r) s =
     (if flag d = 0 then Inr s
      else rbind (path_push (CHR ''1'') s) (\<lambda>s.
           case l of None \<Rightarrow> Inl NullDeref | Some lt \<Rightarrow>
           rbind (print_huffman lt s) (\<lambda>s.
           rbind (path_push (CHR ''0'') (path_pop s)) (\<lambda>s.
           case r of None \<Rightarrow> Inl NullDeref | Some rt \<Rightarrow>
           rbind (print_huffman rt s) (\<lambda>s. Inr (path_pop s))))))"

text \<open>
  The inner loop over the bit pairs of one byte and the loop over the bytes: a code character
  becomes the pair 01 (for 1) or 10 (for 0). \<open>result\<close> has four bytes.
\<close>

function pair_loop :: "string \<Rightarrow> nat \<Rightarrow> nat \<Rightarrow> byte \<Rightarrow> byte" where
  "pair_loop rs i j acc =
     (if j < 8 then
        (let temp = i * 4 + j div 2 in
         if temp \<ge> length rs then acc
         else if rs ! temp = CHR ''1'' then pair_loop rs i (j + 2) (acc + push_bit (6 - j) 1)
         else if rs ! temp = CHR ''0'' then pair_loop rs i (j + 2) (acc + push_bit (6 - j) 2)
         else pair_loop rs i (j + 2) acc)
      else acc)"
  by pat_completeness auto
termination
  by (relation "measure (\<lambda>(rs, i, j, acc). 8 - j)") auto

declare pair_loop.simps [simp del]

fun result_loop :: "string \<Rightarrow> nat \<Rightarrow> nat \<Rightarrow> byte list \<Rightarrow> byte list res" where
  "result_loop rs i 0 res = Inr res"
| "result_loop rs i (Suc n) res =
     (if i * 4 \<ge> length rs then result_loop rs (Suc i) n res
      else if i < length res then result_loop rs (Suc i) n (res[i := pair_loop rs i 0 (res ! i)])
      else Inl OutOfBounds)"

definition key_append :: "byte list \<Rightarrow> huff_state \<Rightarrow> huff_state res" where
  "key_append bs s = (if length (key_buf s) + length bs \<le> 4096
     then Inr (s\<lparr>key_buf := key_buf s @ bs\<rparr>) else Inl OutOfBounds)"

definition leaf_huffman :: "item_t \<Rightarrow> item option \<Rightarrow> item option \<Rightarrow> huff_state \<Rightarrow> huff_state res"
where
  "leaf_huffman d l r s =
     (let n = length (path s); rl = n div 4 + 1 in
      rbind (result_loop (path s) 0 rl (result d)) (\<lambda>res.
      let d' = d\<lparr>result_string := path s, result_string_length := n, result := res,
                 result_length := rl\<rparr> in
      rbind (key_append [num d] s) (\<lambda>s.
      if rl > length res then Inl OutOfBounds
      else rbind (key_append (take rl res) s) (\<lambda>s.
      rbind (awrite (items s) (unat (num d)) (Item d' l r)) (\<lambda>its.
      Inr (s\<lparr>items := its, non_zero_nums := non_zero_nums s + 1\<rparr>))))))"

fun do_huffman :: "item \<Rightarrow> huff_state \<Rightarrow> huff_state res" where
  "do_huffman (Item d l r) s =
     (if flag d = 0 then leaf_huffman d l r s
      else rbind (path_push (CHR ''1'') s) (\<lambda>s.
           case l of None \<Rightarrow> Inl NullDeref | Some lt \<Rightarrow>
           rbind (do_huffman lt s) (\<lambda>s.
           rbind (path_push (CHR ''0'') (path_pop s)) (\<lambda>s.
           case r of None \<Rightarrow> Inl NullDeref | Some rt \<Rightarrow>
           rbind (do_huffman rt s) (\<lambda>s. Inr (path_pop s))))))"

section \<open>Packing\<close>

text \<open>\<open>str_to_unum\<close> reads \<open>n\<close> characters; its only caller passes 8.\<close>

fun str_to_unum :: "string \<Rightarrow> nat \<Rightarrow> byte" where
  "str_to_unum (c # cs) (Suc 0) = (if c = CHR ''1'' then 1 else 0)"
| "str_to_unum (c # cs) (Suc (Suc n)) =
     push_bit (Suc n) (if c = CHR ''1'' then 1 else 0) + str_to_unum cs (Suc n)"

definition pack :: "string \<Rightarrow> nat \<Rightarrow> byte list" where
  "pack string_buf k = map (\<lambda>j. str_to_unum (drop (8 * j) string_buf) 8) [0..<k]"

fun emit_loop :: "item list \<Rightarrow> byte list \<Rightarrow> string \<Rightarrow> nat \<Rightarrow> byte list" where
  "emit_loop its [] string_buf off = []"
| "emit_loop its (b # bs) string_buf off =
     (let p = data (its ! unat b); n = result_string_length p; rs = result_string p in
      if off + n \<ge> BUFFER_LENGTH * 8 then
        (let temp = BUFFER_LENGTH * 8 - off;
             sb1 = memcpy string_buf off (take temp rs);
             off' = n - temp;
             sb2 = (if off' \<noteq> 0 then memcpy sb1 0 (take off' (drop temp rs)) else sb1)
         in pack sb1 BUFFER_LENGTH @ emit_loop its bs sb2 off')
      else
        (let sb1 = memcpy string_buf off (take n rs); off' = off + n in
         if bs = [] then pack sb1 (off' div 8 + (if off' mod 8 \<noteq> 0 then 1 else 0))
         else emit_loop its bs sb1 off'))"

section \<open>The program\<close>

fun le_bytes :: "nat \<Rightarrow> nat \<Rightarrow> byte list" where
  "le_bytes 0 n = []"
| "le_bytes (Suc k) n = of_nat (n mod 256) # le_bytes k (n div 256)"

definition magic_word :: "byte list" where
  "magic_word = map of_char ''ccsexyz'' @ [0]"

definition head_bytes :: "byte list \<Rightarrow> nat \<Rightarrow> nat \<Rightarrow> byte list" where
  "head_bytes pad file_size nonzero =
     magic_word @ le_bytes 8 file_size @ le_bytes 4 nonzero @ pad"

definition one_character :: "item \<Rightarrow> huff_state \<Rightarrow> huff_state" where
  "one_character head s =
     (let i = unat (num (data head)); p = items s ! i;
          d = (data p)\<lparr>result_string := ''1'', result_string_length := 1, result_length := 1,
                        result := (result (data p))[0 := push_bit 6 1]\<rparr>
      in s\<lparr>items := (items s)[i := Item d (left p) (right p)],
           key_buf := [num d, result d ! 0], non_zero_nums := 1\<rparr>)"

definition huffman_tree :: "qsort \<Rightarrow> byte list \<Rightarrow> (bool \<times> item list) res" where
  "huffman_tree qs file =
     rbind (count_numbers file init_items) (\<lambda>its1.
     let flag1 = (sint (item_ntimes (its1 ! 0)) = int (length file));
         its2 = qs numsort its1
     in Inr (flag1, build_loop qs 255 its2))"

definition compress :: "qsort \<Rightarrow> byte list \<Rightarrow> string \<Rightarrow> byte list \<Rightarrow> byte list res" where
  "compress qs pad junk file =
     (if length file = 0 then Inl (Exit 1)
      else rbind (huffman_tree qs file) (\<lambda>(one_character_flag, its).
      let head = its ! 0;
          s0 = \<lparr>path = [], key_buf = [], non_zero_nums = 0, items = its\<rparr> in
      rbind (print_huffman head s0) (\<lambda>s1.
      rbind (if \<not> one_character_flag then do_huffman head s1 else Inr (one_character head s1)) (\<lambda>s2.
      Inr (head_bytes pad (length file) (non_zero_nums s2) @ key_buf s2
           @ emit_loop (items s2) file junk 0)))))"

end
