(* ===== verification/Huffman_Tree.thy ===== *)
theory Huffman_Tree
  imports Huffman_Compress
begin

text \<open>
  The tree of \<open>HuffmanCompress.c\<close> as a prefix code. The loop that merges the two lightest items
  keeps an invariant of the sorted part of \<open>items\<close>: the weights add up to the file size, the
  leaves of the live items are the bytes of the file, and siblings are balanced the way Huffman's
  algorithm makes them, so a tree of height \<open>h\<close> needs a file of at least \<open>fibo h\<close> bytes.
  The sort the loop relies on is the interface \<open>qsort_lib\<close>: the contract of \<open>qsort\<close>.
\<close>

section \<open>The tree as a prefix code\<close>

fun codes :: "item \<Rightarrow> (byte \<times> bool list) list" where
  "codes (Item d l r) =
     (if flag d = 0 then [(num d, [])]
      else (case l of None \<Rightarrow> [] | Some a \<Rightarrow> map (apsnd (Cons True)) (codes a))
         @ (case r of None \<Rightarrow> [] | Some b \<Rightarrow> map (apsnd (Cons False)) (codes b)))"

definition leaves :: "item \<Rightarrow> byte list" where
  "leaves x = map fst (codes x)"

fun height :: "item \<Rightarrow> nat" where
  "height (Item d l r) =
     (if flag d = 0 then 0
      else Suc (max (case l of None \<Rightarrow> 0 | Some a \<Rightarrow> height a)
                    (case r of None \<Rightarrow> 0 | Some b \<Rightarrow> height b)))"

fun wf_item :: "item \<Rightarrow> bool" where
  "wf_item (Item d l r) \<longleftrightarrow>
     result d = [0, 0, 0, 0] \<and>
     (flag d \<noteq> 0 \<longrightarrow>
        (case l of None \<Rightarrow> False | Some a \<Rightarrow> wf_item a) \<and>
        (case r of None \<Rightarrow> False | Some b \<Rightarrow> wf_item b))"

lemma wf_item_induct [consumes 1, case_names Leaf Node]:
  assumes "wf_item x"
    and leaf: "\<And>d l r. flag d = 0 \<Longrightarrow> result d = [0, 0, 0, 0] \<Longrightarrow> P (Item d l r)"
    and node: "\<And>d a b. flag d \<noteq> 0 \<Longrightarrow> wf_item a \<Longrightarrow> wf_item b \<Longrightarrow> P a \<Longrightarrow> P b \<Longrightarrow>
      P (Item d (Some a) (Some b))"
  shows "P x"
  using assms(1)
proof (induction x rule: wf_item.induct)
  case (1 d l r)
  show ?case
  proof (cases "flag d = 0")
    case True
    with "1.prems" show ?thesis by (auto intro: leaf)
  next
    case False
    with "1.prems" obtain a b where "l = Some a" "r = Some b" "wf_item a" "wf_item b"
      by (auto split: option.splits)
    with "1.IH" False show ?thesis by (auto intro: node)
  qed
qed

lemma codes_ne: "wf_item x \<Longrightarrow> codes x \<noteq> []"
  by (induction x rule: wf_item_induct) auto

lemma length_code_le_height: "wf_item x \<Longrightarrow> (b, c) \<in> set (codes x) \<Longrightarrow> length c \<le> height x"
  by (induction x arbitrary: c rule: wf_item_induct) (fastforce simp: le_max_iff_disj)+

lemma ex_code_height: "wf_item x \<Longrightarrow> \<exists>b c. (b, c) \<in> set (codes x) \<and> length c = height x"
proof (induction x rule: wf_item_induct)
  case (Leaf d l r)
  then show ?case by simp
next
  case (Node d a b)
  then obtain b1 c1 b2 c2 where
      1: "(b1, c1) \<in> set (codes a)" "length c1 = height a" and
      2: "(b2, c2) \<in> set (codes b)" "length c2 = height b"
    by blast
  have "(b1, True # c1) \<in> set (codes (Item d (Some a) (Some b)))"
    and "(b2, False # c2) \<in> set (codes (Item d (Some a) (Some b)))"
    using Node.hyps(1) 1(1) 2(1) by force+
  moreover have "height (Item d (Some a) (Some b)) =
      (if height b \<le> height a then length (True # c1) else length (False # c2))"
    using Node.hyps(1) 1(2) 2(2) by simp
  ultimately show ?case by (metis (full_types))
qed

definition live :: "item \<Rightarrow> bool" where
  "live x \<longleftrightarrow> item_ntimes x \<noteq> 0"

abbreviation weight :: "item \<Rightarrow> nat" where
  "weight x \<equiv> unat (item_ntimes x)"

lemma live_weight: "live x \<longleftrightarrow> 0 < weight x"
  by (auto simp: live_def unat_gt_0)

lemma leaves_merge [simp]: "leaves (merge_items a b) = leaves a @ leaves b"
  by (simp add: leaves_def merge_items_def)

lemma wf_merge: "wf_item a \<Longrightarrow> wf_item b \<Longrightarrow> wf_item (merge_items a b)"
  by (cases a) (simp add: merge_items_def)

lemma weight_merge:
  "weight a + weight b < 2 ^ 31 \<Longrightarrow> weight (merge_items a b) = weight a + weight b"
  by (simp add: merge_items_def unat_word_ariths)

lemma numsort_eq:
  assumes "weight a < 2 ^ 31" "weight b < 2 ^ 31"
  shows "numsort a b = int (weight b) - int (weight a)"
proof -
  let ?k = "int (weight b) - int (weight a)"
  have "item_ntimes b - item_ntimes a = word_of_int ?k" by simp
  then have "numsort a b = signed_take_bit 31 ?k"
    by (simp only: numsort_def signed_of_int) simp
  moreover have "signed_take_bit 31 ?k = ?k"
  proof -
    have "int (weight a) < 2 ^ 31" "int (weight b) < 2 ^ 31"
      using assms by (simp_all only: of_nat_less_numeral_power_cancel_iff)
    then have "- (2 ^ 31) \<le> ?k \<and> ?k < 2 ^ 31" by linarith
    then show ?thesis by (simp only: signed_take_bit_int_eq_self_iff)
  qed
  ultimately show ?thesis by simp
qed

lemma numsort_le_iff:
  assumes "weight a < 2 ^ 31" "weight b < 2 ^ 31"
  shows "numsort a b \<le> 0 \<longleftrightarrow> weight b \<le> weight a"
  unfolding numsort_eq [OF assms] by (simp only: diff_le_0_iff_le of_nat_le_iff)

section \<open>The height of the tree\<close>

fun fibo :: "nat \<Rightarrow> nat" where
  "fibo 0 = 1"
| "fibo (Suc 0) = 2"
| "fibo (Suc (Suc n)) = fibo (Suc n) + fibo n"

definition kid_max :: "item \<Rightarrow> nat" where
  "kid_max x = (if flag (data x) = 0 then 0
     else max (case left x of None \<Rightarrow> 0 | Some a \<Rightarrow> weight a)
              (case right x of None \<Rightarrow> 0 | Some b \<Rightarrow> weight b))"

fun siblings_ok :: "item \<Rightarrow> bool" where
  "siblings_ok (Item d l r) \<longleftrightarrow>
     0 < unat (ntimes d) \<and>
     (flag d \<noteq> 0 \<longrightarrow>
       (case l of None \<Rightarrow> False | Some a \<Rightarrow>
        case r of None \<Rightarrow> False | Some b \<Rightarrow>
          siblings_ok a \<and> siblings_ok b \<and> kid_max a \<le> weight b \<and> kid_max b \<le> weight a \<and>
          unat (ntimes d) = weight a + weight b))"

lemma fibo_mono: "m \<le> n \<Longrightarrow> fibo m \<le> fibo n"
proof (rule lift_Suc_mono_le [of fibo])
  show "fibo k \<le> fibo (Suc k)" for k by (cases k rule: fibo.cases) auto
qed

lemma fibo_node:
  assumes "fibo (height a) \<le> weight a" and "height a \<noteq> 0 \<Longrightarrow> fibo (height a - 1) \<le> kid_max a"
    and "kid_max a \<le> wb" and "0 < wb"
  shows "fibo (Suc (height a)) \<le> weight a + wb"
  using assms by (cases "height a") auto

lemma fibo_weight:
  assumes "wf_item x" and "siblings_ok x"
  shows "fibo (height x) \<le> weight x \<and> (height x \<noteq> 0 \<longrightarrow> fibo (height x - 1) \<le> kid_max x)"
  using assms
proof (induction x rule: wf_item_induct)
  case (Leaf d l r)
  then show ?case by auto
next
  case (Node d a b)
  let ?x = "Item d (Some a) (Some b)"
  from Node have w: "weight ?x = weight a + weight b"
    and a: "fibo (height a) \<le> weight a" "height a \<noteq> 0 \<longrightarrow> fibo (height a - 1) \<le> kid_max a"
    and b: "fibo (height b) \<le> weight b" "height b \<noteq> 0 \<longrightarrow> fibo (height b - 1) \<le> kid_max b"
    and ab: "kid_max a \<le> weight b" "kid_max b \<le> weight a" and "siblings_ok a" "siblings_ok b"
    by auto
  then have pos: "0 < weight a" "0 < weight b"
    by (metis item.exhaust_sel siblings_ok.simps)+
  from Node.hyps(1) have h: "height ?x = Suc (max (height a) (height b))"
    and k: "kid_max ?x = max (weight a) (weight b)"
    by (simp_all add: kid_max_def)
  have "fibo (height ?x) \<le> weight ?x"
    using fibo_node [of a "weight b"] fibo_node [of b "weight a"] a b ab pos
    unfolding h w by (auto simp: max_def)
  moreover have "fibo (max (height a) (height b)) \<le> max (weight a) (weight b)"
    using a(1) b(1) by (auto simp: max_def)
  ultimately show ?case unfolding h k by simp
qed

lemma pair_subset_add_mset:
  assumes "{#x, y#} \<subseteq># add_mset m N"
  obtains "{#x, y#} \<subseteq># N" | "x = m" "y \<in># N" | "y = m" "x \<in># N"
proof -
  consider "x = m" | "y = m" | "x \<noteq> m" "y \<noteq> m" by blast
  then show thesis
  proof cases
    case 1
    with assms that(2) show thesis by simp
  next
    case 2
    with assms have "{#m, x#} \<subseteq># add_mset m N" by (simp add: add_mset_commute)
    with 2 that(3) show thesis by simp
  next
    case 3
    with assms have "count {#x, y#} z \<le> count N z" for z
      by (auto simp: subseteq_mset_def split: if_splits dest: spec [of _ z])
    then have "{#x, y#} \<subseteq># N" by (simp add: subseteq_mset_def)
    then show thesis by (rule that(1))
  qed
qed

definition fib_forest :: "item multiset \<Rightarrow> bool" where
  "fib_forest M \<longleftrightarrow>
     (\<forall>x. x \<in># M \<longrightarrow> live x \<longrightarrow> siblings_ok x) \<and>
     (\<forall>x y. {#x, y#} \<subseteq># M \<longrightarrow> live x \<longrightarrow> live y \<longrightarrow> kid_max x \<le> weight y)"

lemma fib_forest_subset: "fib_forest M \<Longrightarrow> N \<subseteq># M \<Longrightarrow> fib_forest N"
  unfolding fib_forest_def by (meson mset_subset_eqD subset_mset.order_trans)

lemma kid_max_merge: "kid_max (merge_items a b) = max (weight a) (weight b)"
  by (simp add: kid_max_def merge_items_def)

lemma siblings_ok_merge:
  assumes "siblings_ok a" "siblings_ok b" "kid_max a \<le> weight b" "kid_max b \<le> weight a"
    and "live a" "weight a + weight b < 2 ^ 31"
  shows "siblings_ok (merge_items a b)"
  using assms weight_merge [OF assms(6)] by (simp add: merge_items_def live_weight)

lemma fib_forest_merge:
  assumes ff: "fib_forest (add_mset a (add_mset b N))" and ab: "live a" "live b"
    and small: "\<And>y. y \<in># N \<Longrightarrow> live y \<Longrightarrow> weight a \<le> weight y \<and> weight b \<le> weight y"
    and lim: "weight a + weight b < 2 ^ 31"
  shows "fib_forest (add_mset (merge_items a b) N)"
proof -
  let ?m = "merge_items a b" and ?M = "add_mset a (add_mset b N)"
  from ff have old: "\<And>x. x \<in># ?M \<Longrightarrow> live x \<Longrightarrow> siblings_ok x"
    and pair: "\<And>x y. {#x, y#} \<subseteq># ?M \<Longrightarrow> live x \<Longrightarrow> live y \<Longrightarrow> kid_max x \<le> weight y"
    unfolding fib_forest_def by blast+
  have wm: "weight ?m = weight a + weight b" using lim by (rule weight_merge)
  have "kid_max a \<le> weight b" "kid_max b \<le> weight a"
    using ab by (auto intro: pair)
  then have m: "siblings_ok ?m"
    using ab lim by (intro siblings_ok_merge old) auto
  have xm: "kid_max x \<le> weight ?m" if "x \<in># N" "live x" for x
  proof -
    have "{#x, a#} \<subseteq># ?M" using that(1) by simp
    from pair [OF this that(2) ab(1)] show ?thesis by (simp add: wm)
  qed
  have my: "kid_max ?m \<le> weight y" if "y \<in># N" "live y" for y
    using small [OF that] by (simp add: kid_max_merge)
  have xy: "kid_max x \<le> weight y" if "{#x, y#} \<subseteq># N" "live x" "live y" for x y
  proof -
    have "N \<subseteq># ?M" by (simp add: subset_mset.order_trans)
    with that(1) have "{#x, y#} \<subseteq># ?M" by (rule subset_mset.order_trans)
    from pair [OF this that(2,3)] show ?thesis .
  qed
  have "\<And>x y. {#x, y#} \<subseteq># add_mset ?m N \<Longrightarrow> live x \<Longrightarrow> live y \<Longrightarrow> kid_max x \<le> weight y"
    by (erule pair_subset_add_mset) (auto intro: xm my xy)
  moreover have "\<And>x. x \<in># add_mset ?m N \<Longrightarrow> live x \<Longrightarrow> siblings_ok x"
    using m old by auto
  ultimately show ?thesis unfolding fib_forest_def by blast
qed

section \<open>The contract of qsort\<close>

definition cmp_consistent :: "('a \<Rightarrow> 'a \<Rightarrow> int) \<Rightarrow> 'a set \<Rightarrow> bool" where
  "cmp_consistent cmp A \<longleftrightarrow>
     (\<forall>x\<in>A. \<forall>y\<in>A. cmp x y \<le> 0 \<or> cmp y x \<le> 0) \<and>
     (\<forall>x\<in>A. \<forall>y\<in>A. \<forall>z\<in>A. cmp x y \<le> 0 \<longrightarrow> cmp y z \<le> 0 \<longrightarrow> cmp x z \<le> 0)"

locale qsort_lib =
  fixes qs :: qsort
  assumes perm: "cmp_consistent cmp (set xs) \<Longrightarrow> mset (qs cmp xs) = mset xs"
    and ordered: "cmp_consistent cmp (set xs) \<Longrightarrow> sorted_wrt (\<lambda>x y. cmp x y \<le> 0) (qs cmp xs)"
begin

lemma length_qs: "cmp_consistent cmp (set xs) \<Longrightarrow> length (qs cmp xs) = length xs"
  by (metis perm size_mset)

lemma set_qs: "cmp_consistent cmp (set xs) \<Longrightarrow> set (qs cmp xs) = set xs"
  by (metis perm set_mset_mset)

end

lemma numsort_consistent:
  assumes "\<forall>x\<in>A. weight x < 2 ^ 31"
  shows "cmp_consistent numsort A"
  using assms by (auto simp: cmp_consistent_def numsort_le_iff)

definition heavy_first :: "item list \<Rightarrow> bool" where
  "heavy_first xs \<longleftrightarrow> sorted_wrt (\<lambda>x y. weight y \<le> weight x) xs"

lemma member_weight_le: "x \<in> set xs \<Longrightarrow> weight x \<le> sum_list (map weight xs)"
  by (induction xs) auto

context qsort_lib
begin

lemma qs_numsort:
  assumes "sum_list (map weight xs) < 2 ^ 31"
  shows "mset (qs numsort xs) = mset xs" and "heavy_first (qs numsort xs)"
    and "length (qs numsort xs) = length xs"
proof -
  from assms have w: "\<forall>x\<in>set xs. weight x < 2 ^ 31"
    using member_weight_le by (meson le_less_trans)
  then have c: "cmp_consistent numsort (set xs)" by (rule numsort_consistent)
  show "mset (qs numsort xs) = mset xs" and "length (qs numsort xs) = length xs"
    using c by (rule perm length_qs)+
  have "sorted_wrt (\<lambda>x y. numsort x y \<le> 0) (qs numsort xs)"
    using c by (rule ordered)
  then show "heavy_first (qs numsort xs)"
    unfolding heavy_first_def
    by (rule sorted_wrt_mono_rel [rotated]) (use w c in \<open>auto simp: set_qs numsort_le_iff\<close>)
qed

end

section \<open>The invariant of the loop that builds the tree\<close>

definition live_leaves :: "item list \<Rightarrow> byte list" where
  "live_leaves xs = concat (map leaves (filter live xs))"

definition forest_inv :: "nat \<Rightarrow> byte multiset \<Rightarrow> item list \<Rightarrow> bool" where
  "forest_inv tot L xs \<longleftrightarrow>
     heavy_first xs \<and> sum_list (map weight xs) = tot \<and> (\<forall>x\<in>set xs. wf_item x) \<and>
     mset (live_leaves xs) = L \<and> fib_forest (mset xs)"

lemma mset_live_leaves_sum:
  "mset (live_leaves xs) = (\<Sum>x\<in>#mset xs. if live x then mset (leaves x) else {#})"
  by (induction xs) (auto simp: live_leaves_def)

lemma mset_live_leaves: "mset xs = mset ys \<Longrightarrow> mset (live_leaves xs) = mset (live_leaves ys)"
  by (simp only: mset_live_leaves_sum)

lemma forest_inv_skip:
  assumes "forest_inv tot L (xs @ [x])" and "item_ntimes x = 0"
  shows "forest_inv tot L xs"
  using assms
  by (auto simp: forest_inv_def heavy_first_def sorted_wrt_append live_leaves_def live_def
      elim: fib_forest_subset)

lemma sum_list_weight_mset: "sum_list (map weight xs) = (\<Sum>x\<in>#mset xs. weight x)"
  by (induction xs) auto

context qsort_lib
begin

lemma forest_inv_merge:
  assumes inv: "forest_inv tot L (xs @ [a, b])" and small: "tot < 2 ^ 31"
    and nz: "item_ntimes b \<noteq> 0"
  shows "forest_inv tot L (qs numsort (xs @ [merge_items a b]))"
proof -
  let ?ys = "xs @ [merge_items a b]"
  from inv have sum: "sum_list (map weight xs) + weight a + weight b = tot"
    by (simp add: forest_inv_def)
  with small have wm: "weight (merge_items a b) = weight a + weight b"
    by (intro weight_merge) linarith
  with sum have sum': "sum_list (map weight ?ys) = tot" by simp
  note qs = qs_numsort [of ?ys, unfolded sum', OF small]
  from nz have lb: "live b" by (simp add: live_def)
  moreover from inv lb have la: "live a"
    by (auto simp: forest_inv_def heavy_first_def sorted_wrt_append live_weight)
  ultimately have "live (merge_items a b)" by (simp add: live_weight wm)
  with la lb have "mset (live_leaves ?ys) = mset (live_leaves (xs @ [a, b]))"
    by (simp add: live_leaves_def)
  with qs(1) inv have "mset (live_leaves (qs numsort ?ys)) = L"
    using mset_live_leaves [OF qs(1)] by (simp add: forest_inv_def)
  moreover have "sum_list (map weight (qs numsort ?ys)) = tot"
    using sum' by (simp only: sum_list_weight_mset qs(1))
  moreover have "\<forall>x\<in>set (qs numsort ?ys). wf_item x"
    using inv mset_eq_setD [OF qs(1)] by (auto simp: forest_inv_def wf_merge)
  moreover have "fib_forest (mset (qs numsort ?ys))"
  proof -
    have "fib_forest (add_mset (merge_items a b) (mset xs))"
      using inv la lb sum small
      by (intro fib_forest_merge) (auto simp: forest_inv_def heavy_first_def sorted_wrt_append)
    with qs(1) show ?thesis by simp
  qed
  ultimately show ?thesis using qs(2) by (simp add: forest_inv_def)
qed

lemma build_loop_inv:
  assumes "forest_inv tot L (take (Suc k) its)" and "tot < 2 ^ 31" and "k < length its"
  shows "forest_inv tot L [build_loop qs k its ! 0] \<and> length (build_loop qs k its) = length its"
  using assms
proof (induction k arbitrary: its)
  case 0
  then show ?case by (cases its) auto
next
  case (Suc k)
  let ?xs = "take k its" and ?a = "its ! k" and ?b = "its ! Suc k"
  have tk: "take (Suc (Suc k)) its = ?xs @ [?a, ?b]"
    using Suc.prems(3) by (simp add: take_Suc_conv_app_nth)
  show ?case
  proof (cases "item_ntimes ?b = 0")
    case True
    have "forest_inv tot L (?xs @ [?a])"
      using Suc.prems(1) True unfolding tk by (intro forest_inv_skip [of _ _ "?xs @ [?a]"]) simp_all
    then have "forest_inv tot L (take (Suc k) its)"
      using Suc.prems(3) by (simp add: take_Suc_conv_app_nth)
    then show ?thesis using Suc True by simp
  next
    case False
    let ?its1 = "its[k := merge_items ?a ?b]"
    let ?ys = "qs numsort (take (Suc k) ?its1)"
    have t1: "take (Suc k) ?its1 = ?xs @ [merge_items ?a ?b]"
      using Suc.prems(3) by (simp add: take_Suc_conv_app_nth)
    have inv: "forest_inv tot L ?ys"
      using Suc.prems False unfolding tk t1 by (intro forest_inv_merge) simp_all
    have len: "length ?ys = Suc k"
    proof -
      have "sum_list (map weight (take (Suc k) ?its1)) < 2 ^ 31"
        using Suc.prems(1,2) weight_merge [of ?a ?b] unfolding t1 tk forest_inv_def by simp
      then show ?thesis using qs_numsort(3) Suc.prems(3) by simp
    qed
    have "forest_inv tot L [build_loop qs k (?ys @ drop (Suc k) ?its1) ! 0] \<and>
        length (build_loop qs k (?ys @ drop (Suc k) ?its1)) = length (?ys @ drop (Suc k) ?its1)"
      using inv len Suc.prems by (intro Suc.IH) simp_all
    then show ?thesis using False len Suc.prems(3) by (simp add: Let_def)
  qed
qed

end

section \<open>Counting the bytes of the file\<close>

definition add_count :: "nat \<Rightarrow> item \<Rightarrow> item" where
  "add_count k x = Item ((data x)\<lparr>ntimes := item_ntimes x + of_nat k\<rparr>) (left x) (right x)"

lemma length_count_loop [simp]: "length (count_loop bs its) = length its"
  by (induction bs its rule: count_loop.induct) auto

lemma byte_eq_of_nat: "j < 256 \<Longrightarrow> (b :: byte) = of_nat j \<longleftrightarrow> unat b = j"
  by (auto simp: unat_of_nat take_bit_eq_mod)

lemma count_loop_nth:
  "length its = 256 \<Longrightarrow> j < 256 \<Longrightarrow>
   count_loop bs its ! j = add_count (count_list bs (of_nat j)) (its ! j)"
proof (induction bs its rule: count_loop.induct)
  case (1 ret)
  then show ?case by (cases "ret ! j") (simp add: add_count_def)
next
  case (2 b bs ret)
  then show ?case
    by (cases "ret ! j")
      (auto simp: nth_list_update byte_eq_of_nat add_count_def bump_def)
qed

lemma sum_count_list: "(\<Sum>j<256. count_list bs (of_nat j :: byte)) = length bs"
proof (induction bs)
  case Nil
  then show ?case by simp
next
  case (Cons b bs)
  have "(\<Sum>j<256. count_list (b # bs) (of_nat j :: byte)) =
      (\<Sum>j<256. (if j = unat b then 1 else 0) + count_list bs (of_nat j :: byte))"
    by (rule sum.cong) (auto simp: byte_eq_of_nat)
  then show ?case using Cons by (simp add: sum.distrib)
qed

definition counted :: "byte list \<Rightarrow> item list" where
  "counted bs = map (\<lambda>j. add_count (count_list bs (of_nat j)) (zero_item j)) [0..<256]"

lemma count_numbers_eq: "bs \<noteq> [] \<Longrightarrow> count_numbers bs init_items = Inr (counted bs)"
  by (auto simp: count_numbers_def counted_def init_items_def count_loop_nth intro!: nth_equalityI)

lemma weight_counted:
  assumes "length bs < 2 ^ 31"
  shows "weight (add_count (count_list bs (of_nat j)) (zero_item j)) = count_list bs (of_nat j)"
proof -
  have "count_list bs (of_nat j) < 2 ^ 32"
    using assms count_le_length [of bs "of_nat j"] by simp
  then show ?thesis
    by (simp add: add_count_def zero_item_def unat_of_nat take_bit_eq_mod)
qed

lemma sum_weight_counted:
  assumes "length bs < 2 ^ 31"
  shows "sum_list (map weight (counted bs)) = length bs"
proof -
  have "map weight (counted bs) = map (\<lambda>j. count_list bs (of_nat j)) [0..<256]"
    by (simp only: counted_def map_map o_def weight_counted [OF assms])
  then have "sum_list (map weight (counted bs)) = (\<Sum>j<256. count_list bs (of_nat j :: byte))"
    by (simp only: sum_set_upt_conv_sum_list_nat [symmetric] atLeast0LessThan set_upt)
  then show ?thesis by (simp only: sum_count_list)
qed

lemma live_leaves_map:
  "(\<And>j. j \<in> set js \<Longrightarrow> leaves (f j) = [g j]) \<Longrightarrow>
   live_leaves (map f js) = map g (filter (\<lambda>j. live (f j)) js)"
  by (induction js) (auto simp: live_leaves_def)

lemma live_leaves_counted:
  assumes "length bs < 2 ^ 31"
  shows "live_leaves (counted bs) =
    map of_nat (filter (\<lambda>j. (of_nat j :: byte) \<in> set bs) [0..<256])"
proof -
  have "live_leaves (counted bs) = map of_nat
      (filter (\<lambda>j. live (add_count (count_list bs (of_nat j)) (zero_item j))) [0..<256])"
    unfolding counted_def
    by (rule live_leaves_map) (simp add: add_count_def zero_item_def leaves_def)
  also have "\<dots> = map of_nat (filter (\<lambda>j. (of_nat j :: byte) \<in> set bs) [0..<256])"
    by (simp only: live_weight weight_counted [OF assms]) (simp add: count_list_0_iff zero_less_iff_neq_zero)
  finally show ?thesis .
qed

lemma distinct_live_counted: "length bs < 2 ^ 31 \<Longrightarrow> distinct (live_leaves (counted bs))"
  by (auto simp: live_leaves_counted distinct_map inj_on_def byte_eq_of_nat unat_of_nat take_bit_eq_mod)

lemma set_live_counted: "length bs < 2 ^ 31 \<Longrightarrow> set (live_leaves (counted bs)) = set bs"
proof -
  assume "length bs < 2 ^ 31"
  moreover have "b \<in> of_nat ` {j. j < 256 \<and> (of_nat j :: byte) \<in> set bs}" if "b \<in> set bs" for b
    using that by (intro image_eqI [of _ _ "unat b"]) auto
  ultimately show ?thesis by (auto simp: live_leaves_counted)
qed

context qsort_lib
begin

lemma forest_inv_counted:
  assumes "length bs < 2 ^ 31"
  shows "forest_inv (length bs) (mset (live_leaves (counted bs))) (qs numsort (counted bs))"
    and "length (qs numsort (counted bs)) = 256"
proof -
  note s = sum_weight_counted [OF assms]
  note qs = qs_numsort [of "counted bs", unfolded s, OF assms]
  show "length (qs numsort (counted bs)) = 256" using qs(3) by (simp add: counted_def)
  have "\<forall>x\<in>set (counted bs). wf_item x"
    by (auto simp: counted_def add_count_def zero_item_def)
  moreover have "fib_forest (mset (counted bs))"
    by (auto simp: fib_forest_def counted_def add_count_def zero_item_def kid_max_def live_weight
        dest!: mset_subset_eqD)
  ultimately show "forest_inv (length bs) (mset (live_leaves (counted bs))) (qs numsort (counted bs))"
    using qs(2) mset_eq_setD [OF qs(1)] mset_live_leaves [OF qs(1)] s
    by (simp add: forest_inv_def sum_list_weight_mset qs(1))
qed

lemma huffman_tree_ok:
  assumes "bs \<noteq> []" and "length bs < 2 ^ 31"
  obtains its where
    "huffman_tree qs bs = Inr (count_list bs 0 = length bs, its)"
    "wf_item (its ! 0)" "distinct (leaves (its ! 0))" "set (leaves (its ! 0)) = set bs"
    "length its = 256" "fibo (height (its ! 0)) \<le> length bs"
proof -
  let ?its2 = "qs numsort (counted bs)"
  let ?its = "build_loop qs 255 ?its2"
  note inv2 = forest_inv_counted [OF assms(2)]
  from inv2(1) have "forest_inv (length bs) (mset (live_leaves (counted bs))) (take (Suc 255) ?its2)"
    by (simp add: inv2(2))
  from build_loop_inv [OF this assms(2)]
  have inv: "forest_inv (length bs) (mset (live_leaves (counted bs))) [?its ! 0]"
    and len: "length ?its = 256"
    by (simp_all add: inv2(2))
  from inv assms(1) have "live (?its ! 0)" and wf: "wf_item (?its ! 0)"
    by (simp_all add: forest_inv_def live_weight)
  with inv have eq: "mset (leaves (?its ! 0)) = mset (live_leaves (counted bs))"
    by (simp add: forest_inv_def live_leaves_def)
  have lv: "distinct (leaves (?its ! 0))" "set (leaves (?its ! 0)) = set bs"
    using distinct_live_counted [OF assms(2)] set_live_counted [OF assms(2)]
      mset_eq_imp_distinct_iff [OF eq] mset_eq_setD [OF eq] by simp_all
  have w0: "weight (counted bs ! 0) = count_list bs 0"
    using weight_counted [OF assms(2), of 0] by (simp only: counted_def) simp
  with assms(2) count_le_length [of bs 0]
  have "sint (item_ntimes (counted bs ! 0)) = int (count_list bs 0)"
    by (simp only: sint_eq_unat w0)
  then have "huffman_tree qs bs = Inr (count_list bs 0 = length bs, ?its)"
    using assms(1) by (simp add: huffman_tree_def count_numbers_eq)
  moreover have "fibo (height (?its ! 0)) \<le> length bs"
    using inv wf \<open>live (?its ! 0)\<close> fibo_weight [of "?its ! 0"]
    by (simp add: forest_inv_def fib_forest_def)
  ultimately show thesis using that wf lv len by blast
qed

end

end
