(* ===== verification/Huffman_Decompress.thy ===== *)
theory Huffman_Decompress
  imports Prelude
begin

text \<open>
  Model of \<open>HuffmanCompress/HuffmanDecompress.c\<close>: reading the header, rebuilding the code tree
  from the key section and decoding the packed bits. Every read of the input buffer outside the
  bytes of the file is the fault \<open>OutOfBounds\<close>, following a null child is \<open>NullDeref\<close>.
\<close>

section \<open>Data\<close>

record ditem_t =
  d_num :: byte
  d_flag :: bool

datatype ditem = DItem (d_data: ditem_t) (d_left: "ditem option") (d_right: "ditem option")

definition alloc_new_item :: ditem where
  "alloc_new_item = DItem \<lparr>d_num = 0, d_flag = False\<rparr> None None"

definition key_trans_iter :: "byte \<Rightarrow> int" where
  "key_trans_iter n =
     (if n = 2 then 0
      else if n = 1 then 1
      else if n = 0 \<or> n = 3 then 2
      else - 1)"

section \<open>Rebuilding the tree\<close>

text \<open>
  One round of the inner loop of \<open>huffman_build\<close> looks at the bit pair \<open>i\<close> of the byte
  \<open>result_key\<close> points to. \<open>build_walk\<close> is that loop, started at the node \<open>cur\<close>: it returns
  the node after the walk has allocated the missing children below it and written the leaf, and
  the bytes behind the key. \<open>n\<close> is the length of the global \<open>char result_string[200]\<close>.
\<close>

fun new_if_null :: "ditem option \<Rightarrow> ditem" where
  "new_if_null None = alloc_new_item"
| "new_if_null (Some t) = t"

function build_walk :: "byte \<Rightarrow> nat \<Rightarrow> nat \<Rightarrow> byte list \<Rightarrow> ditem \<Rightarrow> (ditem \<times> byte list) res" where
  "build_walk symb n i [] cur = Inl OutOfBounds"
| "build_walk symb n i (k # ks) cur =
     (if i \<ge> 4 then build_walk symb n 0 ks cur
      else
        (let step = key_trans_iter (drop_bit (6 - 2 * i) k AND 3) in
         if step = - 1 then Inl (Exit 1)
         else if step = 0 then
           (if n + 1 < 200 then
              rbind (build_walk symb (n + 1) (i + 1) (k # ks) (new_if_null (d_right cur)))
                (\<lambda>(t, rest). Inr (DItem (d_data cur) (d_left cur) (Some t), rest))
            else Inl OutOfBounds)
         else if step = 1 then
           (if n + 1 < 200 then
              rbind (build_walk symb (n + 1) (i + 1) (k # ks) (new_if_null (d_left cur)))
                (\<lambda>(t, rest). Inr (DItem (d_data cur) (Some t) (d_right cur), rest))
            else Inl OutOfBounds)
         else Inr (DItem \<lparr>d_num = symb, d_flag = True\<rparr> (d_left cur) (d_right cur), ks)))"
  by pat_completeness auto
termination
  by (relation "measures [\<lambda>(symb, n, i, ks, cur). length ks, \<lambda>(symb, n, i, ks, cur). 4 - i]") auto

declare build_walk.simps(2) [simp del]

text \<open>
  The outer loop runs while \<open>non_zero_nums\<close> is not zero and decrements it once a key; each
  round consumes at least two bytes. A count below zero is only left by running out of the buffer.
\<close>

lemma build_walk_shorter:
  "build_walk symb n i ks cur = Inr (t, rest) \<Longrightarrow> length rest < length ks"
proof (induction symb n i ks cur arbitrary: t rule: build_walk.induct)
  case (1 symb n i cur)
  then show ?case by simp
next
  case (2 symb n i k ks cur)
  from "2.prems" show ?case
    by (subst (asm) build_walk.simps)
      (auto simp: Let_def rbind_eq_Inr split: if_splits dest: "2.IH" less_imp_le)
qed

function huffman_build :: "int \<Rightarrow> byte list \<Rightarrow> ditem \<Rightarrow> (ditem \<times> byte list) res" where
  "huffman_build m ks root =
     (if m = 0 then Inr (root, ks)
      else case ks of [] \<Rightarrow> Inl OutOfBounds | symb # ks1 \<Rightarrow>
        (case build_walk symb 0 0 ks1 root of Inl e \<Rightarrow> Inl e
         | Inr (root', rest) \<Rightarrow> huffman_build (m - 1) rest root'))"
  by pat_completeness auto
termination
  by (relation "measure (\<lambda>(m, ks, root). length ks)") (auto dest: build_walk_shorter)

declare huffman_build.simps [simp del]

section \<open>Decoding\<close>

text \<open>
  The inner loop of \<open>main\<close> over the bits of one byte writes \<open>wbuf[i]\<close> without looking at
  \<open>new_file_size\<close>, so the symbols written are collected in \<open>wbuf\<close> and the caller sees how many
  of them lie behind the allocation.
\<close>

fun decode_bits :: "ditem \<Rightarrow> bool list \<Rightarrow> ditem \<Rightarrow> byte list \<Rightarrow> (ditem \<times> byte list) res" where
  "decode_bits root [] cur wbuf = Inr (cur, wbuf)"
| "decode_bits root (rc # bs) cur wbuf =
     (case (if rc then d_left cur else d_right cur) of
        None \<Rightarrow> Inl NullDeref
      | Some t \<Rightarrow>
          if d_flag (d_data t) then decode_bits root bs root (wbuf @ [d_num (d_data t)])
          else decode_bits root bs t wbuf)"

definition byte_bits :: "byte \<Rightarrow> bool list" where
  "byte_bits v = map (\<lambda>j. drop_bit (7 - j) v AND 1 \<noteq> 0) [0..<8]"

fun decode_loop :: "ditem \<Rightarrow> nat \<Rightarrow> byte list \<Rightarrow> ditem \<Rightarrow> byte list \<Rightarrow> byte list res" where
  "decode_loop root new_size [] cur wbuf =
     (if length wbuf < new_size then Inl OutOfBounds else Inr wbuf)"
| "decode_loop root new_size (v # vbuf) cur wbuf =
     (if length wbuf < new_size then
        rbind (decode_bits root (byte_bits v) cur wbuf)
          (\<lambda>(cur', wbuf'). decode_loop root new_size vbuf cur' wbuf')
      else Inr wbuf)"

section \<open>The program\<close>

fun le_nat :: "byte list \<Rightarrow> nat" where
  "le_nat [] = 0"
| "le_nat (b # bs) = unat b + 256 * le_nat bs"

definition le_int :: "nat \<Rightarrow> byte list \<Rightarrow> int" where
  "le_int w bs = (let n = int (le_nat bs) in if n < 2 ^ (w - 1) then n else n - 2 ^ w)"

text \<open>\<open>strcmp\<close> stops at the first difference or at the terminator; it is 0 iff no difference.\<close>

fun strcmp_eq :: "byte list \<Rightarrow> byte list \<Rightarrow> bool res" where
  "strcmp_eq [] ys = Inl OutOfBounds"
| "strcmp_eq xs [] = Inl OutOfBounds"
| "strcmp_eq (x # xs) (y # ys) =
     (if x \<noteq> y then Inr False else if x = 0 then Inr True else strcmp_eq xs ys)"

text \<open>
  The result of the program: the bytes written to the output file, and the number of bytes the
  decoder wrote behind the end of \<open>wbuf\<close>.
\<close>

record unpacked =
  out_file :: "byte list"
  overrun :: nat

definition decompress :: "byte list \<Rightarrow> unpacked res" where
  "decompress buf =
     (if length buf = 0 then Inl (Exit 1)
      else rbind (strcmp_eq (map of_char ''ccsexyz'' @ [0]) buf) (\<lambda>eq.
      if \<not> eq then Inl (Exit 1)
      else if length buf < 24 then Inl OutOfBounds
      else
        (let file_size = le_int 64 (take 8 (drop 8 buf));
             non_zero_nums = le_int 32 (take 4 (drop 16 buf)) in
         rbind (huffman_build non_zero_nums (drop 24 buf) alloc_new_item) (\<lambda>(root, vbuf).
         if file_size < 0 then Inl (Exit 1)
         else rbind (decode_loop root (nat file_size) vbuf root []) (\<lambda>wbuf.
         Inr \<lparr>out_file = take (nat file_size) wbuf,
              overrun = length wbuf - nat file_size\<rparr>)))))"

end
