(* ===== verification/Huffman_Codec.thy ===== *)
theory Huffman_Codec
  imports Huffman_Tree Huffman_Decompress
begin

text \<open>
  What the two programs of \<open>HuffmanCompress/\<close> do with the codes of a tree. The key section the
  compressor writes for a code is read back by the decompressor as that code; the tree the
  decompressor rebuilds has the shape of the compressor's tree; decoding the codes of a file on
  that tree gives the file; and the emission loop, with its buffer of 8192 characters that is
  flushed when full, packs exactly the concatenated codes, except that the code of the last byte
  is cut when it straddles a flush (\<open>last_fits\<close>).
\<close>

section \<open>The key section: one code as bit pairs\<close>

definition chars_of :: "bool list \<Rightarrow> string" where
  "chars_of c = map (\<lambda>b. if b then CHR ''1'' else CHR ''0'') c"

lemma length_chars_of [simp]: "length (chars_of c) = length c"
  by (simp add: chars_of_def)

lemma chars_of_append [simp]: "chars_of (c @ c') = chars_of c @ chars_of c'"
  by (simp add: chars_of_def)

definition pair_at :: "bool list \<Rightarrow> nat \<Rightarrow> byte" where
  "pair_at c q = (if q < length c then if c ! q then 1 else 2 else 0)"

lemma pair_at_cases: "pair_at c q = 0 \<or> pair_at c q = 1 \<or> pair_at c q = 2"
  by (simp add: pair_at_def)

lemma pair_loop_end: "length rs \<le> i * 4 + j div 2 \<Longrightarrow> pair_loop rs i j acc = acc"
  by (subst pair_loop.simps) (simp add: Let_def)

lemma pair_loop_8: "pair_loop rs i 8 acc = acc"
  by (subst pair_loop.simps) simp

lemma pair_loop_step:
  assumes "j < 8"
  shows "pair_loop (chars_of c) i j acc =
    pair_loop (chars_of c) i (j + 2) (acc + push_bit (6 - j) (pair_at c (i * 4 + j div 2)))"
proof (cases "i * 4 + j div 2 < length c")
  case True
  with assms show ?thesis
    by (subst pair_loop.simps) (auto simp: Let_def pair_at_def chars_of_def)
next
  case False
  moreover from False have "length (chars_of c) \<le> i * 4 + (j + 2) div 2" by simp
  ultimately show ?thesis by (simp add: pair_loop_end pair_at_def)
qed

definition pair_byte :: "bool list \<Rightarrow> nat \<Rightarrow> byte" where
  "pair_byte c i = push_bit 6 (pair_at c (4 * i)) + push_bit 4 (pair_at c (4 * i + 1))
     + push_bit 2 (pair_at c (4 * i + 2)) + pair_at c (4 * i + 3)"

lemma pair_loop_eq: "pair_loop (chars_of c) i 0 0 = pair_byte c i"
  using pair_loop_step [of 0 c i 0] pair_loop_step [of 2 c i] pair_loop_step [of 4 c i]
    pair_loop_step [of 6 c i] pair_loop_8 [of "chars_of c" i]
  by (simp add: pair_byte_def mult.commute add.assoc numeral_2_eq_2 [symmetric])

lemma pair_byte_nth:
  assumes "j < 4"
  shows "drop_bit (6 - 2 * j) (pair_byte c i) AND 3 = pair_at c (4 * i + j)"
proof -
  from assms have "j = 0 \<or> j = 1 \<or> j = 2 \<or> j = 3" by auto
  then show ?thesis
    using pair_at_cases [of c "4 * i"] pair_at_cases [of c "4 * i + 1"]
      pair_at_cases [of c "4 * i + 2"] pair_at_cases [of c "4 * i + 3"]
    unfolding pair_byte_def by (elim disjE) simp_all
qed

definition key_code :: "bool list \<Rightarrow> byte list" where
  "key_code c = map (pair_byte c) [0..<length c div 4 + 1]"

lemma result_loop_spec:
  assumes "length res = 4" and "\<forall>j. i \<le> j \<longrightarrow> j < 4 \<longrightarrow> res ! j = 0"
    and "i + n = length c div 4 + 1" and "length c \<le> 16"
  shows "\<exists>res'. result_loop (chars_of c) i n res = Inr res' \<and> length res' = 4 \<and>
    (\<forall>j < 4. res' ! j = (if i \<le> j \<and> j < i + n then pair_byte c j else res ! j))"
  using assms
proof (induction "chars_of c" i n res rule: result_loop.induct)
  case (1 i res)
  then show ?case by auto
next
  case (2 i n res)
  show ?case
  proof (cases "i * 4 \<ge> length (chars_of c)")
    case True
    with "2.prems"(3) have n: "n = 0" and i: "i = length c div 4" by auto
    have z: "pair_byte c i = 0" using True by (simp add: pair_byte_def pair_at_def)
    have "\<forall>j<4. res ! j = (if i \<le> j \<and> j < i + Suc n then pair_byte c j else res ! j)"
      using "2.prems"(2) z n by (auto simp: le_less_Suc_eq)
    with True n "2.prems"(1) show ?thesis by simp
  next
    case False
    with "2.prems"(1,4) have i4: "i < length res" by simp
    let ?res1 = "res[i := pair_loop (chars_of c) i 0 (res ! i)]"
    have p: "pair_loop (chars_of c) i 0 (res ! i) = pair_byte c i"
      using "2.prems"(1,2) i4 by (simp add: pair_loop_eq)
    have "\<exists>res'. result_loop (chars_of c) (Suc i) n ?res1 = Inr res' \<and> length res' = 4 \<and>
      (\<forall>j < 4. res' ! j = (if Suc i \<le> j \<and> j < Suc i + n then pair_byte c j else ?res1 ! j))"
      using False i4 "2.prems" by (intro "2.hyps"(2)) auto
    with False i4 p "2.prems"(1) show ?thesis
      by (auto simp: nth_list_update less_Suc_eq_le le_less_Suc_eq Suc_le_eq dest: le_neq_implies_less)
  qed
qed

lemma result_loop_key:
  assumes "length c \<le> 15"
  obtains res where "result_loop (chars_of c) 0 (length c div 4 + 1) [0, 0, 0, 0] = Inr res"
    "length res = 4" "take (length c div 4 + 1) res = key_code c"
proof -
  have "\<forall>j. 0 \<le> j \<longrightarrow> j < 4 \<longrightarrow> [0, 0, 0, 0 :: byte] ! j = 0"
    by (auto simp: nth_Cons less_Suc_eq numeral_eq_Suc split: nat.splits)
  from result_loop_spec [OF _ this, of "length c div 4 + 1" c] assms
  obtain res where r: "result_loop (chars_of c) 0 (length c div 4 + 1) [0, 0, 0, 0] = Inr res"
    "length res = 4" "\<forall>j<4. j < length c div 4 + 1 \<longrightarrow> res ! j = pair_byte c j"
    by auto
  moreover have "take (length c div 4 + 1) res = key_code c"
    using r(2,3) assms by (intro nth_equalityI) (auto simp: key_code_def simp del: upt_Suc)
  ultimately show thesis using that by blast
qed

section \<open>Walking the tree\<close>

definition coded :: "item \<Rightarrow> bool list \<Rightarrow> bool" where
  "coded it c \<longleftrightarrow> result_string (data it) = chars_of c \<and> result_string_length (data it) = length c"

definition key_section :: "(byte \<times> bool list) list \<Rightarrow> byte list" where
  "key_section cs = concat (map (\<lambda>(b, c). b # key_code c) cs)"

lemma key_section_append [simp]: "key_section (xs @ ys) = key_section xs @ key_section ys"
  by (simp add: key_section_def)

lemma length_key_code [simp]: "length (key_code c) = length c div 4 + 1"
  by (simp add: key_code_def)

lemma length_key_section:
  "(\<And>b c. (b, c) \<in> set cs \<Longrightarrow> length c \<le> 15) \<Longrightarrow> length (key_section cs) \<le> 5 * length cs"
proof (induction cs)
  case Nil
  then show ?case by (simp add: key_section_def)
next
  case (Cons x cs)
  obtain b c where x: "x = (b, c)" by fastforce
  have "length (key_section cs) \<le> 5 * length cs" by (rule Cons.IH) (use Cons.prems in auto)
  moreover have "length c \<le> 15" using Cons.prems x by auto
  ultimately show ?case by (simp add: key_section_def x)
qed

lemma print_huffman_ok:
  "wf_item x \<Longrightarrow> length (path s) + height x \<le> 19 \<Longrightarrow> print_huffman x s = Inr s"
  by (induction x arbitrary: s rule: wf_item_induct) (auto simp: path_push_def path_pop_def)

lemma leaf_huffman_ok:
  assumes "result d = [0, 0, 0, 0]" and p: "path s = chars_of pre" and l: "length pre \<le> 15"
    and "length (items s) = 256" and k: "length (key_buf s) + 5 \<le> 4096"
  shows "\<exists>it. leaf_huffman d lt rt s = Inr (s\<lparr>key_buf := key_buf s @ key_section [(num d, pre)],
      non_zero_nums := non_zero_nums s + 1, items := (items s)[unat (num d) := it]\<rparr>) \<and> coded it pre"
proof -
  from result_loop_key [OF l] obtain res where res:
    "result_loop (chars_of pre) 0 (length pre div 4 + 1) [0, 0, 0, 0] = Inr res"
    "length res = 4" "take (length pre div 4 + 1) res = key_code pre" .
  let ?it = "Item (d\<lparr>result_string := path s, result_string_length := length pre, result := res,
      result_length := length pre div 4 + 1\<rparr>) lt rt"
  have "leaf_huffman d lt rt s = Inr (s\<lparr>key_buf := key_buf s @ key_section [(num d, pre)],
      non_zero_nums := non_zero_nums s + 1, items := (items s)[unat (num d) := ?it]\<rparr>)"
    using assms res(2,3) res(1)
    by (simp add: leaf_huffman_def Let_def key_append_def key_section_def)
  moreover have "coded ?it pre" by (simp add: coded_def p)
  ultimately show ?thesis by blast
qed

lemma codes_node:
  "flag d \<noteq> 0 \<Longrightarrow> codes (Item d (Some a) (Some b)) =
     map (apsnd (Cons True)) (codes a) @ map (apsnd (Cons False)) (codes b)"
  by simp

lemma leaves_node: "flag d \<noteq> 0 \<Longrightarrow> leaves (Item d (Some a) (Some b)) = leaves a @ leaves b"
  by (simp add: leaves_def)

lemma length_leaves [simp]: "length (leaves x) = length (codes x)"
  by (simp add: leaves_def)

definition walked :: "huff_state \<Rightarrow> bool list \<Rightarrow> item \<Rightarrow> huff_state \<Rightarrow> bool" where
  "walked s pre x s' \<longleftrightarrow>
     path s' = path s \<and>
     key_buf s' = key_buf s @ key_section (map (apsnd (append pre)) (codes x)) \<and>
     non_zero_nums s' = non_zero_nums s + length (codes x) \<and>
     length (items s') = 256 \<and>
     (\<forall>b c. (b, c) \<in> set (codes x) \<longrightarrow> coded (items s' ! unat b) (pre @ c)) \<and>
     (\<forall>b. b \<notin> set (leaves x) \<longrightarrow> items s' ! unat b = items s ! unat b)"

lemma do_huffman_ok:
  assumes "wf_item x" and "path s = chars_of pre" and "length pre + height x \<le> 15"
    and "length (items s) = 256" and "length (key_buf s) + 5 * length (codes x) \<le> 4096"
    and "distinct (leaves x)"
  shows "\<exists>s'. do_huffman x s = Inr s' \<and> walked s pre x s'"
  using assms
proof (induction x arbitrary: s pre rule: wf_item_induct)
  case (Leaf d l r)
  then obtain it where "leaf_huffman d l r s = Inr (s\<lparr>key_buf := key_buf s @ key_section [(num d, pre)],
      non_zero_nums := non_zero_nums s + 1, items := (items s)[unat (num d) := it]\<rparr>)" "coded it pre"
    using leaf_huffman_ok [of d s pre l r] by auto
  with Leaf show ?case by (auto simp: walked_def leaves_def nth_list_update dest: unsigned_word_eqI)
next
  case (Node d a b)
  let ?s1 = "s\<lparr>path := chars_of (pre @ [True])\<rparr>"
  have push1: "path_push (CHR ''1'') s = Inr ?s1"
    using Node.prems Node.hyps(1) by (simp add: path_push_def chars_of_def)
  have len: "length (codes (Item d (Some a) (Some b))) = length (codes a) + length (codes b)"
    using Node.hyps(1) by simp
  have h: "length pre + height a \<le> 14" "length pre + height b \<le> 14"
    using Node.prems(2) Node.hyps(1) by auto
  obtain s2 where s2: "do_huffman a ?s1 = Inr s2" "walked ?s1 (pre @ [True]) a s2"
    using Node.IH(1) [of ?s1 "pre @ [True]"] Node.prems Node.hyps(1) leaves_node [of d a b] len h
    by auto
  let ?s3 = "s2\<lparr>path := chars_of (pre @ [False])\<rparr>"
  have push0: "path_push (CHR ''0'') (path_pop s2) = Inr ?s3"
    using Node.prems Node.hyps(1) s2(2)
    by (simp add: path_push_def path_pop_def walked_def chars_of_def)
  have "length (key_section (map (apsnd (append (pre @ [True]))) (codes a))) \<le>
      5 * length (map (apsnd (append (pre @ [True]))) (codes a))"
    using h(1) length_code_le_height [OF Node.hyps(2)]
    by (intro length_key_section) fastforce
  then have "length (key_buf ?s3) + 5 * length (codes b) \<le> 4096"
    using s2(2) Node.prems(4) len by (simp add: walked_def)
  then obtain s4 where s4: "do_huffman b ?s3 = Inr s4" "walked ?s3 (pre @ [False]) b s4"
    using Node.IH(2) [of ?s3 "pre @ [False]"] Node.prems Node.hyps(1) leaves_node [of d a b] s2(2) h
    by (auto simp: walked_def)
  have "do_huffman (Item d (Some a) (Some b)) s = Inr (path_pop s4)"
    using Node.hyps(1) push1 push0 s2(1) s4(1) by simp
  moreover have "walked s pre (Item d (Some a) (Some b)) (path_pop s4)"
  proof -
    have disj: "set (leaves a) \<inter> set (leaves b) = {}"
      using Node.prems(5) Node.hyps(1) by (simp add: leaves_node)
    then have "\<forall>x c. (x, c) \<in> set (codes a) \<longrightarrow> x \<notin> set (leaves b)"
      by (force simp: leaves_def)
    with s2(2) s4(2) Node.prems(1) Node.hyps(1) show ?thesis
      unfolding walked_def leaves_node [OF Node.hyps(1)] codes_node [OF Node.hyps(1)]
      by (auto simp: path_pop_def o_def apsnd_def map_prod_def chars_of_def case_prod_unfold)
  qed
  ultimately show ?case by blast
qed

section \<open>Rebuilding the tree\<close>

fun d_insert :: "bool list \<Rightarrow> byte \<Rightarrow> ditem \<Rightarrow> ditem" where
  "d_insert [] b t = DItem \<lparr>d_num = b, d_flag = True\<rparr> (d_left t) (d_right t)"
| "d_insert (x # c) b t =
     (if x then DItem (d_data t) (Some (d_insert c b (new_if_null (d_left t)))) (d_right t)
      else DItem (d_data t) (d_left t) (Some (d_insert c b (new_if_null (d_right t)))))"

lemma build_walk_wrap: "build_walk b n 4 (k # ks) t = build_walk b n 0 ks t"
  by (subst build_walk.simps) simp

lemma build_walk_next:
  assumes "p div 4 < length ks"
  shows "build_walk b n (Suc (p mod 4)) (drop (p div 4) ks) t =
    build_walk b n (Suc p mod 4) (drop (Suc p div 4) ks) t"
proof (cases "p mod 4 = 3")
  case True
  then have "Suc p mod 4 = 0" "Suc p div 4 = Suc (p div 4)" by presburger+
  with True assms show ?thesis
    by (simp add: build_walk_wrap Cons_nth_drop_Suc [symmetric])
next
  case False
  then have "Suc p mod 4 = Suc (p mod 4)" "Suc p div 4 = p div 4" by presburger+
  then show ?thesis by simp
qed

lemma key_code_pair:
  assumes "p \<le> length c"
  shows "drop_bit (6 - 2 * (p mod 4)) ((key_code c @ rest) ! (p div 4)) AND 3 = pair_at c p"
proof -
  have "p div 4 < length c div 4 + 1" using assms by (simp add: div_le_mono less_Suc_eq_le)
  then have "(key_code c @ rest) ! (p div 4) = pair_byte c (p div 4)"
    by (simp add: nth_append key_code_def del: upt_Suc)
  then show ?thesis using pair_byte_nth [of "p mod 4" c "p div 4"] by simp
qed

lemma not_4_le_mod [simp]: "\<not> 4 \<le> (p :: nat) mod 4"
  by (simp add: not_le)

lemma build_walk_from:
  assumes "p \<le> length c" and "n + length c \<le> 199 + p"
  shows "build_walk b n (p mod 4) (drop (p div 4) (key_code c @ rest)) t =
    Inr (d_insert (drop p c) b t, rest)"
  using assms
proof (induction "length c - p" arbitrary: p n t)
  case 0
  then have p: "p = length c" by simp
  have lt: "p div 4 < length (key_code c @ rest)" by (simp add: p)
  have r: "drop (Suc (length c div 4)) (key_code c @ rest) = rest" by simp
  have "pair_at c p = 0" by (simp add: pair_at_def p)
  with key_code_pair [of p c rest] p
  show ?case
    unfolding Cons_nth_drop_Suc [OF lt, symmetric]
    by (subst build_walk.simps) (simp add: key_trans_iter_def r p)
next
  case (Suc m)
  then have p: "p < length c" by simp
  have lt: "p div 4 < length (key_code c @ rest)"
    using p by (simp add: div_le_mono less_Suc_eq_le trans_le_add1)
  have n: "n + 1 < 200" using Suc.prems(2) p by simp
  have IH: "build_walk b (Suc n) (Suc p mod 4) (drop (Suc p div 4) (key_code c @ rest)) u =
      Inr (d_insert (drop (Suc p) c) b u, rest)" for u
    using Suc p by (intro Suc.hyps(1)) auto
  have pr: "pair_at c p = (if c ! p then 1 else 2)" using p by (simp add: pair_at_def)
  have d: "drop p c = c ! p # drop (Suc p) c" using p by (simp add: Cons_nth_drop_Suc)
  have next': "build_walk b (Suc n) (Suc (p mod 4)) ((key_code c @ rest) ! (p div 4) #
      drop (Suc (p div 4)) (key_code c @ rest)) u = Inr (d_insert (drop (Suc p) c) b u, rest)" for u
    using IH [of u] build_walk_next [OF lt, of b "Suc n" u] unfolding Cons_nth_drop_Suc [OF lt]
    by (simp only:)
  show ?case
    using key_code_pair [of p c rest] p n pr next'
    unfolding Cons_nth_drop_Suc [OF lt, symmetric] d
    by (subst build_walk.simps) (auto simp: key_trans_iter_def)
qed

lemma build_walk_key:
  "length c \<le> 199 \<Longrightarrow> build_walk b 0 0 (key_code c @ rest) t = Inr (d_insert c b t, rest)"
  using build_walk_from [of 0 c 0 b rest t] by simp

fun d_insert_all :: "(byte \<times> bool list) list \<Rightarrow> ditem \<Rightarrow> ditem" where
  "d_insert_all [] t = t"
| "d_insert_all ((b, c) # cs) t = d_insert_all cs (d_insert c b t)"

lemma huffman_build_keys:
  "(\<And>b c. (b, c) \<in> set cs \<Longrightarrow> length c \<le> 199) \<Longrightarrow>
   huffman_build (int (length cs)) (key_section cs @ rest) t = Inr (d_insert_all cs t, rest)"
proof (induction cs arbitrary: t)
  case Nil
  then show ?case by (subst huffman_build.simps) (simp add: key_section_def)
next
  case (Cons x cs)
  obtain b c where x: "x = (b, c)" by fastforce
  have "length c \<le> 199" using Cons.prems x by auto
  then have w: "build_walk b 0 0 (key_code c @ (key_section cs @ rest)) t =
      Inr (d_insert c b t, key_section cs @ rest)"
    by (rule build_walk_key)
  have "huffman_build (int (length cs)) (key_section cs @ rest) (d_insert c b t) =
      Inr (d_insert_all cs (d_insert c b t), rest)"
    using Cons.prems by (intro Cons.IH) auto
  with w show ?case
    by (subst huffman_build.simps) (simp add: key_section_def x)
qed

fun dtree :: "item \<Rightarrow> ditem" where
  "dtree (Item d l r) =
     (if flag d = 0 then DItem \<lparr>d_num = num d, d_flag = True\<rparr> None None
      else DItem \<lparr>d_num = 0, d_flag = False\<rparr>
             (case l of None \<Rightarrow> None | Some a \<Rightarrow> Some (dtree a))
             (case r of None \<Rightarrow> None | Some b \<Rightarrow> Some (dtree b)))"

lemma d_insert_all_append: "d_insert_all (xs @ ys) t = d_insert_all ys (d_insert_all xs t)"
  by (induction xs t rule: d_insert_all.induct) auto

lemma d_insert_all_left:
  "cs \<noteq> [] \<Longrightarrow> d_insert_all (map (apsnd (Cons True)) cs) t =
     DItem (d_data t) (Some (d_insert_all cs (new_if_null (d_left t)))) (d_right t)"
proof (induction cs arbitrary: t)
  case (Cons x cs)
  then show ?case by (cases x; cases "cs = []") auto
qed simp

lemma d_insert_all_right:
  "cs \<noteq> [] \<Longrightarrow> d_insert_all (map (apsnd (Cons False)) cs) t =
     DItem (d_data t) (d_left t) (Some (d_insert_all cs (new_if_null (d_right t))))"
proof (induction cs arbitrary: t)
  case (Cons x cs)
  then show ?case by (cases x; cases "cs = []") auto
qed simp

lemma d_insert_all_codes: "wf_item x \<Longrightarrow> d_insert_all (codes x) alloc_new_item = dtree x"
  by (induction x rule: wf_item_induct)
    (auto simp: alloc_new_item_def d_insert_all_append d_insert_all_left d_insert_all_right codes_ne)

section \<open>Decoding one code\<close>

lemma decode_bits_append:
  "decode_bits root (xs @ ys) cur w =
     rbind (decode_bits root xs cur w) (\<lambda>(cur', w'). decode_bits root ys cur' w')"
  by (induction root xs cur w rule: decode_bits.induct) (auto split: option.splits)

lemma decode_bits_code:
  "wf_item x \<Longrightarrow> (b, c) \<in> set (codes x) \<Longrightarrow> c \<noteq> [] \<Longrightarrow>
   decode_bits root (c @ bs) (dtree x) w = decode_bits root bs root (w @ [b])"
proof (induction x arbitrary: c rule: wf_item_induct)
  case (Leaf d l r)
  then show ?case by simp
next
  case (Node d a a')
  have step: "decode_bits root (c' @ bs) (dtree y) w = decode_bits root bs root (w @ [b])"
    if "y \<in> {a, a'}" "(b, c') \<in> set (codes y)" "c' \<noteq> []" for y c'
    using Node.IH that by auto
  from Node.prems Node.hyps(1) obtain v c' y where
    c: "c = v # c'" and y: "(b, c') \<in> set (codes y)" "y = (if v then a else a')"
    by (auto split: if_splits)
  have wf: "wf_item y" using y Node.hyps by (auto split: if_splits)
  show ?case
  proof (cases "c' = []")
    case True
    have "d_flag (d_data (dtree y)) \<and> d_num (d_data (dtree y)) = b"
      using wf y(1) True by (cases y) (auto split: if_splits option.splits)
    with True y(2) c Node.hyps(1) show ?thesis by (auto split: if_splits)
  next
    case False
    have "\<not> d_flag (d_data (dtree y))"
      using wf y(1) False by (cases y) (auto split: if_splits option.splits)
    with False y c Node.hyps(1) step [of y c'] show ?thesis by (auto split: if_splits)
  qed
qed

section \<open>Decoding\<close>

definition inner :: "item \<Rightarrow> bool" where
  "inner x \<longleftrightarrow> wf_item x \<and> flag (data x) \<noteq> 0"

lemma innerE:
  assumes "inner x"
  obtains d a b where "x = Item d (Some a) (Some b)" "flag d \<noteq> 0" "wf_item a" "wf_item b"
  using assms by (cases x) (auto simp: inner_def split: option.splits)

lemma decode_bits_prefix:
  "decode_bits root bs cur w = Inr (cur', w') \<Longrightarrow> \<exists>e. w' = w @ e \<and> length e \<le> length bs"
  by (induction root bs cur w rule: decode_bits.induct)
    (fastforce split: option.splits if_splits)+

lemma decode_bits_total:
  assumes "inner x" and "inner y"
  shows "\<exists>y' w'. inner y' \<and> decode_bits (dtree x) bs (dtree y) w = Inr (dtree y', w')"
  using assms(2)
proof (induction bs arbitrary: y w)
  case Nil
  then show ?case by auto
next
  case (Cons v bs)
  from \<open>inner y\<close> obtain d a b where y: "y = Item d (Some a) (Some b)" "flag d \<noteq> 0"
    "wf_item a" "wf_item b" by (rule innerE)
  let ?t = "if v then a else b"
  show ?case
  proof (cases "flag (data ?t) = 0")
    case True
    then have "d_flag (d_data (dtree ?t))" by (cases ?t) auto
    with Cons.IH [OF assms(1)] y show ?thesis by (auto split: if_splits)
  next
    case False
    then have "\<not> d_flag (d_data (dtree ?t))" by (cases ?t) auto
    moreover from False y have "inner ?t" by (auto simp: inner_def)
    ultimately show ?thesis using Cons.IH [of ?t] y by (auto split: if_splits)
  qed
qed

lemma decode_bits_file:
  assumes "wf_item x" and "\<And>b. b \<in> set bs \<Longrightarrow> (b, code b) \<in> set (codes x) \<and> code b \<noteq> []"
  shows "decode_bits (dtree x) (concat (map code bs) @ pad) (dtree x) w =
    decode_bits (dtree x) pad (dtree x) (w @ bs)"
  using assms(2)
proof (induction bs arbitrary: w)
  case Nil
  then show ?case by simp
next
  case (Cons b bs)
  have "decode_bits (dtree x) (code b @ concat (map code bs) @ pad) (dtree x) w =
      decode_bits (dtree x) (concat (map code bs) @ pad) (dtree x) (w @ [b])"
    using Cons.prems by (intro decode_bits_code [OF assms(1)]) auto
  with Cons show ?case by simp
qed

lemma length_byte_bits [simp]: "length (byte_bits v) = 8"
  by (simp add: byte_bits_def)

lemma decode_loop_stop:
  assumes "decode_bits root (concat (map byte_bits vbuf)) cur w = Inr (cur', wall)"
    and "n \<le> length wall" and "length w < n + 8"
  shows "\<exists>w' e. decode_loop root n vbuf cur w = Inr w' \<and> wall = w' @ e \<and> n \<le> length w' \<and>
    length w' < n + 8"
  using assms
proof (induction vbuf arbitrary: cur w)
  case Nil
  then show ?case by auto
next
  case (Cons v vbuf)
  from Cons.prems(1) obtain c1 w1 where 1: "decode_bits root (byte_bits v) cur w = Inr (c1, w1)"
    and 2: "decode_bits root (concat (map byte_bits vbuf)) c1 w1 = Inr (cur', wall)"
    by (auto simp: decode_bits_append rbind_eq_Inr)
  show ?case
  proof (cases "length w < n")
    case True
    from decode_bits_prefix [OF 1] True have "length w1 < n + 8" by auto
    with Cons.IH [OF 2 Cons.prems(2)] True 1 show ?thesis by simp
  next
    case False
    with Cons.prems decode_bits_prefix [OF Cons.prems(1)] show ?thesis by auto
  qed
qed

section \<open>Packing\<close>

definition tobits :: "string \<Rightarrow> bool list" where
  "tobits s = map (\<lambda>c. c = CHR ''1'') s"

lemma tobits_append [simp]: "tobits (s @ t) = tobits s @ tobits t"
  by (simp add: tobits_def)

lemma tobits_Nil [simp]: "tobits [] = []"
  by (simp add: tobits_def)

lemma length_tobits [simp]: "length (tobits s) = length s"
  by (simp add: tobits_def)

lemma tobits_chars_of [simp]: "tobits (chars_of c) = c"
  by (simp add: tobits_def chars_of_def o_def)

lemma byte_bits_of_bools:
  "byte_bits (push_bit 7 (of_bool a) + (push_bit 6 (of_bool b) + (push_bit 5 (of_bool c) +
     (push_bit 4 (of_bool d) + (push_bit 3 (of_bool e) + (push_bit 2 (of_bool f) +
     (push_bit 1 (of_bool g) + of_bool h))))))) = [a, b, c, d, e, f, g, h]"
  by (cases a; cases b; cases c; cases d; cases e; cases f; cases g; cases h)
    (simp_all add: byte_bits_def upt_rec)

lemma ex_eight:
  assumes "8 \<le> length s"
  obtains a b c d e f g h t where "s = a # b # c # d # e # f # g # h # t"
  using assms by (auto simp: numeral_eq_Suc Suc_le_length_iff)

lemma str_to_unum_one: "str_to_unum (c # cs) 1 = of_bool (c = CHR ''1'')"
  by simp

lemma str_to_unum_more:
  "2 \<le> n \<Longrightarrow> str_to_unum (c # cs) n =
     push_bit (n - 1) (of_bool (c = CHR ''1'')) + str_to_unum cs (n - 1)"
  by (cases n; cases "n - 1") auto

lemma str_to_unum_eight:
  "str_to_unum (a # b # c # d # e # f # g # h # t) 8 =
     push_bit 7 (of_bool (a = CHR ''1'')) + (push_bit 6 (of_bool (b = CHR ''1'')) +
     (push_bit 5 (of_bool (c = CHR ''1'')) + (push_bit 4 (of_bool (d = CHR ''1'')) +
     (push_bit 3 (of_bool (e = CHR ''1'')) + (push_bit 2 (of_bool (f = CHR ''1'')) +
     (push_bit 1 (of_bool (g = CHR ''1'')) + of_bool (h = CHR ''1'')))))))"
  using str_to_unum_more [of 8 a] str_to_unum_more [of 7 b] str_to_unum_more [of 6 c]
    str_to_unum_more [of 5 d] str_to_unum_more [of 4 e] str_to_unum_more [of 3 f]
    str_to_unum_more [of 2 g] str_to_unum_one [of h]
  by simp

lemma byte_bits_str_to_unum: "8 \<le> length s \<Longrightarrow> byte_bits (str_to_unum s 8) = tobits (take 8 s)"
  by (erule ex_eight) (simp only: str_to_unum_eight byte_bits_of_bools, simp add: tobits_def)

lemma pack_bits: "8 * k \<le> length s \<Longrightarrow> concat (map byte_bits (pack s k)) = tobits (take (8 * k) s)"
proof (induction k)
  case 0
  then show ?case by (simp add: pack_def tobits_def)
next
  case (Suc k)
  then have "concat (map byte_bits (pack s k)) = tobits (take (8 * k) s)" by simp
  moreover have "take (8 * Suc k) s = take (8 * k) s @ take 8 (drop (8 * k) s)"
    by (simp add: take_add [symmetric] add.commute)
  ultimately show ?case using Suc.prems by (simp add: pack_def byte_bits_str_to_unum)
qed

section \<open>Emission\<close>

definition code_bits :: "(byte \<Rightarrow> bool list) \<Rightarrow> byte list \<Rightarrow> nat" where
  "code_bits code bs = sum_list (map (\<lambda>b. length (code b)) bs)"

definition last_fits :: "(byte \<Rightarrow> bool list) \<Rightarrow> nat \<Rightarrow> byte list \<Rightarrow> bool" where
  "last_fits code off bs \<longleftrightarrow>
     (off + code_bits code (butlast bs)) mod (BUFFER_LENGTH * 8) + length (code (last bs))
       \<le> BUFFER_LENGTH * 8"

lemma take_all_memcpy:
  "off + length src = length dst \<Longrightarrow> take (length dst) (memcpy dst off src) = take off dst @ src"
  using take_memcpy [of off dst src] by simp

lemma ceil8:
  fixes n :: nat
  defines "k \<equiv> n div 8 + (if n mod 8 \<noteq> 0 then 1 else 0)"
  shows "n \<le> 8 * k" and "8 * k < n + 8" and "n < 8192 \<Longrightarrow> 8 * k \<le> 8192"
  unfolding k_def by (cases "n mod 8 = 0"; simp; presburger)+

lemma emit_last:
  assumes "length sb = 8192" and "off + length c < 8192"
  shows "\<exists>pad. length pad < 8 \<and>
    concat (map byte_bits (pack (memcpy sb off (chars_of c))
      ((off + length c) div 8 + (if (off + length c) mod 8 \<noteq> 0 then 1 else 0)))) =
    tobits (take off sb) @ c @ pad"
proof -
  let ?n = "off + length c" and ?sb = "memcpy sb off (chars_of c)"
  let ?k = "?n div 8 + (if ?n mod 8 \<noteq> 0 then 1 else 0)"
  have len: "length ?sb = 8192" using assms by simp
  have k: "8 * ?k \<le> 8192" using assms(2) by (rule ceil8(3))
  have t: "take ?n ?sb = take off sb @ chars_of c"
    using take_memcpy [of off sb "chars_of c"] assms by simp
  have "concat (map byte_bits (pack ?sb ?k)) = tobits (take (8 * ?k) ?sb)"
    using k len by (intro pack_bits) simp
  also have "take (8 * ?k) ?sb = take ?n ?sb @ take (8 * ?k - ?n) (drop ?n ?sb)"
    using ceil8(1) [of ?n] by (metis le_add_diff_inverse take_add)
  also have "tobits \<dots> = tobits (take off sb) @ c @ tobits (take (8 * ?k - ?n) (drop ?n ?sb))"
    unfolding t by simp
  finally have "concat (map byte_bits (pack ?sb ?k)) =
      tobits (take off sb) @ c @ tobits (take (8 * ?k - ?n) (drop ?n ?sb))" .
  moreover have "length (tobits (take (8 * ?k - ?n) (drop ?n ?sb))) < 8"
    using ceil8(2) [of ?n] by simp
  ultimately show ?thesis by blast
qed

lemma emit_flush:
  assumes "length sb = 8192" and "off < 8192" and "8192 \<le> off + length c" and "length c \<le> 15"
  defines "temp \<equiv> 8192 - off"
  defines "sb1 \<equiv> memcpy sb off (take temp (chars_of c))"
  defines "sb2 \<equiv> (if length c - temp \<noteq> 0 then memcpy sb1 0 (take (length c - temp) (drop temp (chars_of c)))
    else sb1)"
  shows "concat (map byte_bits (pack sb1 1024)) = tobits (take off sb) @ take temp c"
    and "length sb2 = 8192" and "tobits (take (length c - temp) sb2) = drop temp c"
proof -
  have temp: "temp \<le> length c" "off + temp = 8192" using assms by auto
  have tc: "take temp (chars_of c) = chars_of (take temp c)"
    and dc: "drop temp (chars_of c) = chars_of (drop temp c)"
    by (simp_all add: chars_of_def take_map drop_map)
  have len: "length sb1 = 8192" using assms(1) temp by (simp add: sb1_def tc)
  have "take 8192 sb1 = take off sb @ chars_of (take temp c)"
    using take_all_memcpy [of off "chars_of (take temp c)" sb] assms(1) temp
    by (simp add: sb1_def tc)
  moreover have "concat (map byte_bits (pack sb1 1024)) = tobits (take (8 * 1024) sb1)"
    using len by (intro pack_bits) simp
  ultimately show "concat (map byte_bits (pack sb1 1024)) = tobits (take off sb) @ take temp c"
    by simp
  show "length sb2 = 8192"
    using assms(4) temp len by (simp add: sb2_def dc)
  show "tobits (take (length c - temp) sb2) = drop temp c"
    using take_memcpy_0 [of "chars_of (drop temp c)" sb1]
    by (auto simp: sb2_def dc)
qed

lemma mod_wrap: "8192 \<le> (a :: nat) \<Longrightarrow> (a - 8192 + b) mod 8192 = (a + b) mod 8192"
  by (metis add.commute add_diff_assoc2 le_mod_geq trans_le_add1)

definition last_tail :: "bool \<Rightarrow> bool list \<Rightarrow> bool list \<Rightarrow> bool" where
  "last_tail fits c t \<longleftrightarrow>
     (if fits then \<exists>pad. length pad < 8 \<and> t = c @ pad else \<exists>k. k < length c \<and> t = take k c)"

lemma last_fits_Cons:
  assumes "bs \<noteq> []"
  shows "last_fits code off (b # bs) = last_fits code (off + length (code b)) bs"
    and "8192 \<le> off + length (code b) \<Longrightarrow>
      last_fits code off (b # bs) = last_fits code (off + length (code b) - 8192) bs"
  using assms mod_wrap [of "off + length (code b)" "code_bits code (butlast bs)"]
  by (simp_all add: last_fits_def code_bits_def add.assoc)

lemma emit_bits:
  assumes "bs \<noteq> []" and "length sb = 8192" and "off < 8192"
    and "\<And>b. b \<in> set bs \<Longrightarrow> coded (its ! unat b) (code b) \<and> length (code b) \<le> 15"
  shows "\<exists>t. last_tail (last_fits code off bs) (code (last bs)) t \<and>
    concat (map byte_bits (emit_loop its bs sb off)) =
      tobits (take off sb) @ concat (map code (butlast bs)) @ t"
  using assms
proof (induction bs arbitrary: sb off)
  case Nil
  then show ?case by simp
next
  case (Cons b bs)
  let ?c = "code b"
  from Cons.prems(4) [of b] have p: "result_string (data (its ! unat b)) = chars_of ?c"
    "result_string_length (data (its ! unat b)) = length ?c" and lc: "length ?c \<le> 15"
    by (auto simp: coded_def)
  show ?case
  proof (cases "off + length ?c \<ge> 8192")
    case False
    show ?thesis
    proof (cases "bs = []")
      case True
      moreover from True False have "last_fits code off (b # bs)"
        by (simp add: last_fits_def code_bits_def)
      ultimately show ?thesis
        using False p emit_last [OF Cons.prems(2), of off ?c] by (auto simp: Let_def last_tail_def)
    next
      case ne: False
      let ?sb1 = "memcpy sb off (chars_of ?c)"
      have "\<exists>t. last_tail (last_fits code off (b # bs)) (code (last bs)) t \<and>
          concat (map byte_bits (emit_loop its bs ?sb1 (off + length ?c))) =
          tobits (take (off + length ?c) ?sb1) @ concat (map code (butlast bs)) @ t"
        unfolding last_fits_Cons(1) [OF ne] using Cons.prems ne False by (intro Cons.IH) auto
      moreover have "take (off + length ?c) ?sb1 = take off sb @ chars_of ?c"
        using take_memcpy [of off sb "chars_of ?c"] Cons.prems(2,3) by simp
      ultimately show ?thesis using False ne p by (simp add: Let_def)
    qed
  next
    case True
    let ?temp = "8192 - off"
    let ?sb1 = "memcpy sb off (take ?temp (chars_of ?c))"
    let ?off' = "length ?c - ?temp"
    let ?sb2 = "if ?off' \<noteq> 0 then memcpy ?sb1 0 (take ?off' (drop ?temp (chars_of ?c))) else ?sb1"
    note fl = emit_flush [OF Cons.prems(2,3) True lc]
    have em: "emit_loop its (b # bs) sb off = pack ?sb1 1024 @ emit_loop its bs ?sb2 ?off'"
      using True p by (simp add: Let_def)
    have off': "?off' = off + length ?c - 8192" using Cons.prems(3) by simp
    show ?thesis
    proof (cases "bs = []")
      case bs: True
      have "last_fits code off (b # bs) \<longleftrightarrow> length ?c \<le> ?temp"
        using bs Cons.prems(3) by (auto simp: last_fits_def code_bits_def)
      then have "last_tail (last_fits code off (b # bs)) ?c (take ?temp ?c)"
        by (auto simp: last_tail_def intro: exI [of _ ?temp])
      with bs fl(1) show ?thesis unfolding em by (intro exI [of _ "take ?temp ?c"]) simp
    next
      case ne: False
      have "\<exists>t. last_tail (last_fits code off (b # bs)) (code (last bs)) t \<and>
          concat (map byte_bits (emit_loop its bs ?sb2 ?off')) =
          tobits (take ?off' ?sb2) @ concat (map code (butlast bs)) @ t"
        unfolding last_fits_Cons(2) [where code = code and b = b, OF ne True] off' [symmetric]
      proof (intro Cons.IH ne)
        show "?off' < 8192" using lc by simp
      qed (use fl(2) Cons.prems(4) in auto)
      then obtain t where "last_tail (last_fits code off (b # bs)) (code (last bs)) t"
        "concat (map byte_bits (emit_loop its bs ?sb2 ?off')) =
          drop ?temp ?c @ concat (map code (butlast bs)) @ t"
        unfolding fl(3) by blast
      with fl(1) ne show ?thesis unfolding em by (intro exI [of _ t]) simp
    qed
  qed
qed

end
