(* ===== verification/Huffman_Roundtrip.thy ===== *)
theory Huffman_Roundtrip
  imports Huffman_Codec
begin

text \<open>
  The properties of the compressor and the decompressor taken together: the round trip, the code
  lengths the compressor can handle, and the files that do not survive.
\<close>

section \<open>The header\<close>

lemma length_le_bytes [simp]: "length (le_bytes k n) = k"
  by (induction k arbitrary: n) auto

lemma le_nat_le_bytes: "n < 256 ^ k \<Longrightarrow> le_nat (le_bytes k n) = n"
proof (induction k arbitrary: n)
  case (Suc k)
  then have "n div 256 < 256 ^ k" by (simp add: div_less_iff_less_mult mult.commute)
  from Suc.IH [OF this] show ?case by (simp add: unat_of_nat take_bit_eq_mod)
qed simp

lemma le_int_le_bytes:
  assumes "n < 2 ^ 31" "w = 8 * k" "4 \<le> k"
  shows "le_int w (le_bytes k n) = int n"
proof -
  have "(2::nat) ^ 31 \<le> 2 ^ (w - 1)" using assms(2,3) by (intro power_increasing) auto
  moreover have "(2::nat) ^ (w - 1) \<le> 2 ^ w" by (intro power_increasing) auto
  moreover have "(2::nat) ^ w = 256 ^ k" by (simp add: assms(2) power_mult)
  ultimately have "n < 256 ^ k" and lt: "n < 2 ^ (w - 1)" using assms(1) by linarith+
  then have "le_nat (le_bytes k n) = n" by (intro le_nat_le_bytes)
  moreover have "int n < 2 ^ (w - 1)" using lt by (simp only: of_nat_less_numeral_power_cancel_iff)
  ultimately show ?thesis by (simp add: le_int_def)
qed

lemma length_magic [simp]: "length magic_word = 8"
  by (simp add: magic_word_def)

lemma strcmp_magic: "strcmp_eq (map of_char ''ccsexyz'' @ [0]) (magic_word @ rest) = Inr True"
  by (simp add: magic_word_def)

lemma head_bytes_fields:
  assumes "length pad = 4"
  shows "length (head_bytes pad n m @ rest) = 24 + length rest"
    and "take 8 (drop 8 (head_bytes pad n m @ rest)) = le_bytes 8 n"
    and "take 4 (drop 16 (head_bytes pad n m @ rest)) = le_bytes 4 m"
    and "drop 24 (head_bytes pad n m @ rest) = rest"
  using assms by (simp_all add: head_bytes_def)

lemma decompress_head:
  assumes "length pad = 4" and "n < 2 ^ 31" and "m < 2 ^ 31"
  shows "decompress (head_bytes pad n m @ rest) =
    rbind (huffman_build (int m) rest alloc_new_item) (\<lambda>(root, vbuf).
      rbind (decode_loop root n vbuf root []) (\<lambda>wbuf.
      Inr \<lparr>out_file = take n wbuf, overrun = length wbuf - n\<rparr>))"
proof -
  have "le_int 64 (le_bytes 8 n) = int n" "le_int 32 (le_bytes 4 m) = int m"
    using assms(2,3) by (simp_all add: le_int_le_bytes)
  moreover have "strcmp_eq (map of_char ''ccsexyz'' @ [0]) (head_bytes pad n m @ rest) = Inr True"
    using strcmp_magic [of "le_bytes 8 n @ le_bytes 4 m @ pad @ rest"] by (simp add: head_bytes_def)
  ultimately show ?thesis
    unfolding decompress_def head_bytes_fields [OF assms(1)] by (simp add: Let_def)
qed

section \<open>Decoding what was emitted\<close>

definition code_of :: "item \<Rightarrow> byte \<Rightarrow> bool list" where
  "code_of x b = (case map_of (codes x) b of None \<Rightarrow> [] | Some c \<Rightarrow> c)"

lemma code_of_eq:
  assumes "distinct (leaves x)" and "(b, c) \<in> set (codes x)"
  shows "code_of x b = c"
  using assms by (simp add: code_of_def leaves_def map_of_is_SomeI)

lemma code_of_in:
  assumes "distinct (leaves x)" and "b \<in> set (leaves x)"
  shows "(b, code_of x b) \<in> set (codes x)"
  using assms code_of_eq [OF assms(1)] by (auto simp: leaves_def)

lemma inner_codes_ne: "inner x \<Longrightarrow> (b, c) \<in> set (codes x) \<Longrightarrow> c \<noteq> []"
  by (erule innerE) auto

lemma decode_bits_partial:
  "wf_item x \<Longrightarrow> (b, c) \<in> set (codes x) \<Longrightarrow> k < length c \<Longrightarrow>
   \<exists>cur. decode_bits root (take k c) (dtree x) w = Inr (cur, w)"
proof (induction x arbitrary: c k rule: wf_item_induct)
  case (Leaf d l r)
  then show ?case by simp
next
  case (Node d a a')
  from Node.prems Node.hyps(1) obtain v c' y where
    c: "c = v # c'" and y: "(b, c') \<in> set (codes y)" "y = (if v then a else a')"
    by (auto split: if_splits)
  show ?case
  proof (cases k)
    case (Suc k')
    have wf: "wf_item y" using y Node.hyps by (auto split: if_splits)
    from Suc c Node.prems have k': "k' < length c'" by simp
    then have "\<not> d_flag (d_data (dtree y))"
      using wf y(1) by (cases y) (auto split: if_splits option.splits)
    moreover have "\<exists>cur. decode_bits root (take k' c') (dtree y) w = Inr (cur, w)"
      using Node.IH k' y by (auto split: if_splits)
    ultimately show ?thesis using Suc c y(2) Node.hyps(1) by (auto split: if_splits)
  qed simp
qed

lemma decode_emitted:
  assumes x: "inner x" "distinct (leaves x)" "set (leaves x) = set bs" and "bs \<noteq> []"
    and e: "concat (map byte_bits vbuf) = concat (map (code_of x) bs) @ pad"
  shows "\<exists>w. decode_loop (dtree x) (length bs) vbuf (dtree x) [] = Inr w \<and>
    take (length bs) w = bs \<and> length w < length bs + 8"
proof -
  have wf: "wf_item x" using x(1) by (simp add: inner_def)
  have "decode_bits (dtree x) (concat (map byte_bits vbuf)) (dtree x) [] =
      decode_bits (dtree x) pad (dtree x) bs"
    unfolding e using decode_bits_file [OF wf, of bs "code_of x" pad "[]"]
      code_of_in [OF x(2)] inner_codes_ne [OF x(1)] x(3) by auto
  moreover obtain y w where yw: "decode_bits (dtree x) pad (dtree x) bs = Inr (dtree y, w)"
    using decode_bits_total [OF x(1,1)] by blast
  moreover from decode_bits_prefix [OF yw] obtain f where f: "w = bs @ f" by blast
  ultimately obtain w' g where w': "decode_loop (dtree x) (length bs) vbuf (dtree x) [] = Inr w'"
    "w = w' @ g" "length bs \<le> length w'" "length w' < length bs + 8"
    using decode_loop_stop [of "dtree x" vbuf "dtree x" "[]" "dtree y" w "length bs"] by auto
  have "take (length bs) w' = take (length bs) w" using w'(2,3) by simp
  with f w' show ?thesis by simp
qed

lemma decode_loop_short:
  assumes "decode_bits root (concat (map byte_bits vbuf)) cur w = Inr (cur', wall)"
    and "length wall < n"
  shows "decode_loop root n vbuf cur w = Inl OutOfBounds"
  using assms
proof (induction vbuf arbitrary: cur w)
  case Nil
  then show ?case by simp
next
  case (Cons v vbuf)
  from decode_bits_prefix [OF Cons.prems(1)] Cons.prems(2) have "length w < n" by auto
  with Cons show ?case by (auto simp: decode_bits_append rbind_eq_Inr)
qed

lemma decode_truncated:
  assumes x: "inner x" "distinct (leaves x)" "set (leaves x) = set bs" and "bs \<noteq> []"
    and k: "k < length (code_of x (last bs))"
    and e: "concat (map byte_bits vbuf) =
      concat (map (code_of x) (butlast bs)) @ take k (code_of x (last bs))"
  shows "decode_loop (dtree x) (length bs) vbuf (dtree x) [] = Inl OutOfBounds"
proof -
  have wf: "wf_item x" using x(1) by (simp add: inner_def)
  have "(b, code_of x b) \<in> set (codes x) \<and> code_of x b \<noteq> []" if "b \<in> set bs" for b
    using that x code_of_in [OF x(2)] inner_codes_ne [OF x(1)] by blast
  then have "decode_bits (dtree x) (concat (map byte_bits vbuf)) (dtree x) [] =
      decode_bits (dtree x) (take k (code_of x (last bs))) (dtree x) (butlast bs)"
    unfolding e using decode_bits_file [OF wf, of "butlast bs" "code_of x" _ "[]"]
    by (auto dest: in_set_butlastD)
  moreover obtain cur where
    "decode_bits (dtree x) (take k (code_of x (last bs))) (dtree x) (butlast bs) = Inr (cur, butlast bs)"
    using decode_bits_partial [OF wf _ k] code_of_in [OF x(2)] x(3) assms(4) by force
  ultimately show ?thesis
    using assms(4) by (intro decode_loop_short) (auto simp: length_greater_0_conv [symmetric] simp del: length_greater_0_conv)
qed

lemma map_apsnd_Nil [simp]: "map (apsnd ((@) [])) cs = cs"
  by (induction cs) auto

lemma compress_tree:
  assumes tree: "huffman_tree qs file1 = Inr (False, its)" and "file1 \<noteq> []"
    and x: "wf_item (its ! 0)" "distinct (leaves (its ! 0))" "length its = 256"
    and h: "height (its ! 0) \<le> 15"
  shows "\<exists>its'. compress qs pad junk file1 =
      Inr (head_bytes pad (length file1) (length (codes (its ! 0))) @ key_section (codes (its ! 0)) @
        emit_loop its' file1 junk 0) \<and>
    (\<forall>b c. (b, c) \<in> set (codes (its ! 0)) \<longrightarrow> coded (its' ! unat b) c)"
proof -
  let ?x = "its ! 0" and ?s0 = "\<lparr>path = [], key_buf = [], non_zero_nums = 0, items = its\<rparr>"
  have n: "length (codes ?x) \<le> 256"
    using distinct_card [OF x(2)] card_mono [of "UNIV :: byte set" "set (leaves ?x)"]
    by (simp add: card_word)
  obtain s' where s': "do_huffman ?x ?s0 = Inr s'" "walked ?s0 [] ?x s'"
    using do_huffman_ok [OF x(1), of ?s0 "[]"] h x(2,3) n by (auto simp: chars_of_def)
  have "print_huffman ?x ?s0 = Inr ?s0" using x(1) h by (intro print_huffman_ok) auto
  with tree s' assms(2) show ?thesis
    by (intro exI [of _ "items s'"]) (auto simp: compress_def walked_def Let_def)
qed

section \<open>The round trip\<close>

definition huffman_code :: "qsort \<Rightarrow> byte list \<Rightarrow> byte \<Rightarrow> bool list" where
  "huffman_code qs bs = (case huffman_tree qs bs of Inl e \<Rightarrow> (\<lambda>_. []) | Inr (_, its) \<Rightarrow> code_of (its ! 0))"

definition code_height :: "qsort \<Rightarrow> byte list \<Rightarrow> nat" where
  "code_height qs bs = (case huffman_tree qs bs of Inl e \<Rightarrow> 0 | Inr (_, its) \<Rightarrow> height (its ! 0))"

lemma count_all_same: "count_list bs a = length bs \<Longrightarrow> set bs \<subseteq> {a}"
proof (induction bs)
  case (Cons b bs)
  then show ?case using count_le_length [of bs a] by (auto split: if_splits)
qed simp

lemma wf_item_leaf: "wf_item x \<Longrightarrow> flag (data x) = 0 \<Longrightarrow> codes x = [(num (data x), [])]"
  by (cases x) auto

context qsort_lib
begin

lemma two_symbols:
  assumes "2 \<le> card (set bs)" and "length bs < 2 ^ 31"
  obtains its where "huffman_tree qs bs = Inr (False, its)" "inner (its ! 0)"
    "distinct (leaves (its ! 0))" "set (leaves (its ! 0)) = set bs" "length its = 256"
    "fibo (height (its ! 0)) \<le> length bs"
proof -
  from assms(1) have "bs \<noteq> []" by auto
  from huffman_tree_ok [OF this assms(2)] obtain its where its:
    "huffman_tree qs bs = Inr (count_list bs 0 = length bs, its)"
    "wf_item (its ! 0)" "distinct (leaves (its ! 0))" "set (leaves (its ! 0)) = set bs"
    "length its = 256" "fibo (height (its ! 0)) \<le> length bs" .
  have "count_list bs 0 \<noteq> length bs"
    using count_all_same [of bs 0] assms(1) card_mono [of "{0}" "set bs"] by auto
  moreover have "inner (its ! 0)"
  proof (rule ccontr)
    assume "\<not> inner (its ! 0)"
    with its(2) have "codes (its ! 0) = [(num (data (its ! 0)), [])]"
      by (intro wf_item_leaf) (auto simp: inner_def)
    then have "set bs = {num (data (its ! 0))}" using its(4) by (simp add: leaves_def)
    with assms(1) show False by simp
  qed
  ultimately show thesis using that its by simp
qed

lemma compress_out:
  assumes "2 \<le> card (set bs)" and "length bs < 2 ^ 31" and "length junk = 8192"
    and "code_height qs bs \<le> 15"
  obtains x vbuf t where
    "compress qs pad junk bs = Inr (head_bytes pad (length bs) (length (codes x)) @ key_section (codes x) @ vbuf)"
    "inner x" "distinct (leaves x)" "set (leaves x) = set bs" "height x \<le> 15" "huffman_code qs bs = code_of x"
    "last_tail (last_fits (code_of x) 0 bs) (code_of x (last bs)) t"
    "concat (map byte_bits vbuf) = concat (map (code_of x) (butlast bs)) @ t"
proof -
  from assms(1) have ne: "bs \<noteq> []" by auto
  from two_symbols [OF assms(1,2)] obtain its where its: "huffman_tree qs bs = Inr (False, its)"
    "inner (its ! 0)" "distinct (leaves (its ! 0))" "set (leaves (its ! 0)) = set bs" "length its = 256" .
  let ?x = "its ! 0"
  from its(2) have wf: "wf_item ?x" by (simp add: inner_def)
  from its(1) assms(4) have h: "height ?x \<le> 15" by (simp add: code_height_def)
  from compress_tree [OF its(1) ne wf its(3,5) h] obtain its' where c:
    "compress qs pad junk bs = Inr (head_bytes pad (length bs) (length (codes ?x)) @
       key_section (codes ?x) @ emit_loop its' bs junk 0)"
    "\<forall>b c. (b, c) \<in> set (codes ?x) \<longrightarrow> coded (its' ! unat b) c" by blast
  have cd: "coded (its' ! unat b) (code_of ?x b) \<and> length (code_of ?x b) \<le> 15" if "b \<in> set bs" for b
  proof -
    have "(b, code_of ?x b) \<in> set (codes ?x)" using code_of_in [OF its(3)] that its(4) by simp
    with c(2) h length_code_le_height [OF wf, of b "code_of ?x b"] show ?thesis by auto
  qed
  have "\<exists>t. last_tail (last_fits (code_of ?x) 0 bs) (code_of ?x (last bs)) t \<and>
      concat (map byte_bits (emit_loop its' bs junk 0)) =
      tobits (take 0 junk) @ concat (map (code_of ?x) (butlast bs)) @ t"
    using cd by (intro emit_bits ne assms(3)) auto
  with that [OF c(1) its(2,3,4) h] its(1) show thesis by (auto simp: huffman_code_def)
qed

lemma roundtrip:
  assumes "2 \<le> card (set bs)" and "length bs < 2 ^ 31" and "length junk = 8192"
    and "length pad = 4" and "code_height qs bs \<le> 15"
  obtains out where "compress qs pad junk bs = Inr out"
    "last_fits (huffman_code qs bs) 0 bs \<Longrightarrow>
      \<exists>u. decompress out = Inr u \<and> out_file u = bs \<and> overrun u < 8"
    "\<not> last_fits (huffman_code qs bs) 0 bs \<Longrightarrow> decompress out = Inl OutOfBounds"
proof -
  from assms(1) have ne: "bs \<noteq> []" by auto
  from compress_out [OF assms(1,2,3,5)] obtain x vbuf t where c:
    "compress qs pad junk bs = Inr (head_bytes pad (length bs) (length (codes x)) @ key_section (codes x) @ vbuf)"
    "inner x" "distinct (leaves x)" "set (leaves x) = set bs" "height x \<le> 15" "huffman_code qs bs = code_of x"
    "last_tail (last_fits (code_of x) 0 bs) (code_of x (last bs)) t"
    "concat (map byte_bits vbuf) = concat (map (code_of x) (butlast bs)) @ t" .
  from c(2) have wf: "wf_item x" by (simp add: inner_def)
  have "length (codes x) \<le> 256"
    using distinct_card [OF c(3)] card_mono [of "UNIV :: byte set" "set (leaves x)"]
    by (simp add: card_word)
  then have n: "length (codes x) < 2 ^ 31" by simp
  have "huffman_build (int (length (codes x))) (key_section (codes x) @ vbuf) alloc_new_item =
      Inr (dtree x, vbuf)"
    using length_code_le_height [OF wf] c(5) d_insert_all_codes [OF wf]
    by (subst huffman_build_keys) (force dest: order_trans)+
  then have d: "decompress (head_bytes pad (length bs) (length (codes x)) @ key_section (codes x) @ vbuf) =
      rbind (decode_loop (dtree x) (length bs) vbuf (dtree x) []) (\<lambda>wbuf.
      Inr \<lparr>out_file = take (length bs) wbuf, overrun = length wbuf - length bs\<rparr>)"
    by (simp add: decompress_head [OF assms(4,2) n])
  have bs: "concat (map (code_of x) bs) = concat (map (code_of x) (butlast bs)) @ code_of x (last bs)"
    using ne by (cases bs rule: rev_cases) auto
  show thesis
  proof (rule that [OF c(1)])
    assume "last_fits (huffman_code qs bs) 0 bs"
    then obtain p where "concat (map byte_bits vbuf) = concat (map (code_of x) bs) @ p"
      using c(6,7,8) bs by (auto simp: last_tail_def)
    from decode_emitted [OF c(2,3,4) ne this] d
    show "\<exists>u. decompress (head_bytes pad (length bs) (length (codes x)) @ key_section (codes x) @ vbuf) =
        Inr u \<and> out_file u = bs \<and> overrun u < 8"
      by auto
  next
    assume "\<not> last_fits (huffman_code qs bs) 0 bs"
    then obtain k where "k < length (code_of x (last bs))" "concat (map byte_bits vbuf) =
        concat (map (code_of x) (butlast bs)) @ take k (code_of x (last bs))"
      using c(6,7,8) by (auto simp: last_tail_def)
    from decode_truncated [OF c(2,3,4) ne this] d
    show "decompress (head_bytes pad (length bs) (length (codes x)) @ key_section (codes x) @ vbuf) =
        Inl OutOfBounds"
      by simp
  qed
qed

end

section \<open>Codes longer than fifteen bits\<close>

lemma result_loop_out:
  "(case result_loop rs i n res of Inl e \<Rightarrow> e = OutOfBounds | Inr res' \<Rightarrow> length res' = length res)"
  by (induction rs i n res rule: result_loop.induct) (auto split: sum.splits)

lemma leaf_huffman_out:
  assumes "length (result d) = 4" and "length (items s) = 256"
  shows "(case leaf_huffman d l r s of Inl e \<Rightarrow> e = OutOfBounds
    | Inr s' \<Rightarrow> path s' = path s \<and> length (items s') = 256 \<and> length (path s) \<le> 15)"
  using assms result_loop_out [where rs = "path s" and i = 0 and n = "length (path s) div 4 + 1" and res = "result d"]
  by (auto simp: leaf_huffman_def Let_def key_append_def rbind_def awrite_def split: sum.splits if_splits)

lemma path_push_Inl: "path_push c s = Inl e \<Longrightarrow> e = OutOfBounds"
  and path_push_Inr: "path_push c s = Inr s' \<Longrightarrow> path s' = path s @ [c] \<and> items s' = items s"
  by (auto simp: path_push_def split: if_splits)

lemma path_pop_items [simp]: "items (path_pop s) = items s"
  by (simp add: path_pop_def)

lemma do_huffman_out:
  assumes "wf_item x" and "length (items s) = 256"
  shows "(case do_huffman x s of Inl e \<Rightarrow> e = OutOfBounds
    | Inr s' \<Rightarrow> path s' = path s \<and> length (items s') = 256 \<and> length (path s) + height x \<le> 15)"
  using assms
proof (induction x arbitrary: s rule: wf_item_induct)
  case (Leaf d l r)
  then show ?case using leaf_huffman_out [of d s l r] by (simp split: sum.splits)
next
  case (Node d a b)
  show ?case
  proof (cases "do_huffman (Item d (Some a) (Some b)) s")
    case (Inl e)
    then consider "path_push (CHR ''1'') s = Inl e"
      | s1 where "path_push (CHR ''1'') s = Inr s1" "do_huffman a s1 = Inl e"
      | s1 s2 where "path_push (CHR ''1'') s = Inr s1" "do_huffman a s1 = Inr s2"
          "path_push (CHR ''0'') (path_pop s2) = Inl e"
      | s1 s2 s3 where "path_push (CHR ''1'') s = Inr s1" "do_huffman a s1 = Inr s2"
          "path_push (CHR ''0'') (path_pop s2) = Inr s3" "do_huffman b s3 = Inl e"
      using Node.hyps(1) by (auto simp: rbind_eq_Inl)
    then have "e = OutOfBounds"
    proof cases
      case (2 s1)
      with Node.IH(1) [of s1] Node.prems show ?thesis by (auto dest: path_push_Inr)
    next
      case (4 s1 s2 s3)
      from 4(1,3) Node.prems have "length (items s1) = 256" "items s3 = items s2"
        by (auto dest!: path_push_Inr)
      with 4(2,4) Node.IH(1) [of s1] Node.IH(2) [of s3] show ?thesis by auto
    qed (auto dest: path_push_Inl)
    with Inl show ?thesis by simp
  next
    case (Inr s')
    then obtain s1 s2 s3 s4 where
      "path_push (CHR ''1'') s = Inr s1" "do_huffman a s1 = Inr s2"
      "path_push (CHR ''0'') (path_pop s2) = Inr s3" "do_huffman b s3 = Inr s4" "s' = path_pop s4"
      using Node.hyps(1) by (auto simp: rbind_eq_Inr)
    moreover from this have "path s1 = path s @ [CHR ''1'']" "path s3 = butlast (path s2) @ [CHR ''0'']"
      "items s1 = items s" "items s3 = items s2"
      by (auto dest!: path_push_Inr simp: path_pop_def)
    ultimately show ?thesis
      using Inr Node.IH(1) [of s1] Node.IH(2) [of s3] Node.prems Node.hyps(1)
      by (auto simp: path_pop_def max_def)
  qed
qed

lemma print_huffman_out:
  "wf_item x \<Longrightarrow> (case print_huffman x s of Inl e \<Rightarrow> e = OutOfBounds | Inr s' \<Rightarrow> s' = s)"
proof (induction x arbitrary: s rule: wf_item_induct)
  case (Leaf d l r)
  then show ?case by simp
next
  case (Node d a b)
  have "path_pop (s\<lparr>path := path s @ [c]\<rparr>) = s" for c by (simp add: path_pop_def)
  then show ?case
    using Node.hyps(1) Node.IH(1) [of "s\<lparr>path := path s @ [CHR ''1'']\<rparr>"]
      Node.IH(2) [of "s\<lparr>path := path s @ [CHR ''0'']\<rparr>"]
    by (auto simp: path_push_def rbind_def split: sum.splits if_splits)
qed

section \<open>A model of the library's sort\<close>

text \<open>
  The GNU library sorts stably; this is the instance of \<open>qsort_lib\<close> the examples run on.
\<close>

fun insert_stable :: "(item \<Rightarrow> item \<Rightarrow> int) \<Rightarrow> item \<Rightarrow> item list \<Rightarrow> item list" where
  "insert_stable cmp x [] = [x]"
| "insert_stable cmp x (y # ys) = (if cmp x y \<le> 0 then x # y # ys else y # insert_stable cmp x ys)"

definition stable_sort :: qsort where
  "stable_sort cmp xs = foldr (insert_stable cmp) xs []"

lemma mset_insert_stable: "mset (insert_stable cmp x xs) = add_mset x (mset xs)"
  by (induction xs) auto

lemma set_insert_stable: "set (insert_stable cmp x xs) = insert x (set xs)"
  by (induction xs) auto

lemma mset_stable_sort: "mset (stable_sort cmp xs) = mset xs"
  by (induction xs) (auto simp: stable_sort_def mset_insert_stable)

lemma cmp_consistent_subset: "cmp_consistent cmp A \<Longrightarrow> B \<subseteq> A \<Longrightarrow> cmp_consistent cmp B"
  unfolding cmp_consistent_def by blast

lemma cmp_total: "cmp_consistent cmp A \<Longrightarrow> x \<in> A \<Longrightarrow> y \<in> A \<Longrightarrow> \<not> cmp x y \<le> 0 \<Longrightarrow> cmp y x \<le> 0"
  unfolding cmp_consistent_def by blast

lemma cmp_trans:
  "cmp_consistent cmp A \<Longrightarrow> x \<in> A \<Longrightarrow> y \<in> A \<Longrightarrow> z \<in> A \<Longrightarrow> cmp x y \<le> 0 \<Longrightarrow> cmp y z \<le> 0 \<Longrightarrow> cmp x z \<le> 0"
  unfolding cmp_consistent_def by blast

lemma sorted_insert_stable:
  "cmp_consistent cmp (insert x (set xs)) \<Longrightarrow> sorted_wrt (\<lambda>x y. cmp x y \<le> 0) xs \<Longrightarrow>
   sorted_wrt (\<lambda>x y. cmp x y \<le> 0) (insert_stable cmp x xs)"
proof (induction xs)
  case (Cons y ys)
  have "cmp_consistent cmp (insert x (set ys))"
    using Cons.prems(1) by (rule cmp_consistent_subset) auto
  moreover have "\<not> cmp x y \<le> 0 \<Longrightarrow> cmp y x \<le> 0"
    using Cons.prems(1) by (rule cmp_total) auto
  moreover have "cmp x z \<le> 0" if "cmp x y \<le> 0" "z \<in> set ys" for z
    using Cons.prems(1) by (rule cmp_trans [where y = y]) (use Cons.prems(2) that in auto)
  ultimately show ?case
    using Cons.IH Cons.prems(2) by (simp add: set_insert_stable)
qed simp

lemma sorted_stable_sort:
  "cmp_consistent cmp (set xs) \<Longrightarrow> sorted_wrt (\<lambda>x y. cmp x y \<le> 0) (stable_sort cmp xs)"
proof (induction xs)
  case (Cons x xs)
  have c: "cmp_consistent cmp (set xs)"
    using Cons.prems by (rule cmp_consistent_subset) auto
  have "set (stable_sort cmp xs) = set xs"
    using mset_stable_sort mset_eq_setD by blast
  with Cons.prems Cons.IH [OF c] show ?case
    using sorted_insert_stable [of cmp x "stable_sort cmp xs"] by (simp add: stable_sort_def)
qed (simp add: stable_sort_def)

interpretation libc: qsort_lib stable_sort
  by unfold_locales (simp_all add: mset_stable_sort sorted_stable_sort)

section \<open>Bounds on the codes\<close>

lemma fibo_16: "fibo 16 = 2584"
  by code_simp

lemma codes_prefix_free:
  "wf_item x \<Longrightarrow> (b, c) \<in> set (codes x) \<Longrightarrow> (b', c @ d) \<in> set (codes x) \<Longrightarrow> b = b' \<and> d = []"
proof (induction x arbitrary: c rule: wf_item_induct)
  case (Node y l r)
  then show ?case by (cases c) (auto split: if_splits)
qed simp

context qsort_lib
begin

lemma fibo_code_height:
  assumes "2 \<le> card (set bs)" and "length bs < 2 ^ 31"
  shows "fibo (code_height qs bs) \<le> length bs"
proof -
  from two_symbols [OF assms] obtain its where
    "huffman_tree qs bs = Inr (False, its)" "fibo (height (its ! 0)) \<le> length bs" .
  then show ?thesis by (simp add: code_height_def)
qed

lemma code_height_le:
  assumes "2 \<le> card (set bs)" and "length bs < fibo (Suc n)" and "length bs < 2 ^ 31"
  shows "code_height qs bs \<le> n"
proof (rule ccontr)
  assume "\<not> code_height qs bs \<le> n"
  then have "fibo (Suc n) \<le> fibo (code_height qs bs)" by (intro fibo_mono) simp
  with fibo_code_height [OF assms(1,3)] assms(2) show False by simp
qed

lemma huffman_code_in:
  assumes "2 \<le> card (set bs)" and "length bs < 2 ^ 31" and "b \<in> set bs"
  shows "huffman_code qs bs b \<noteq> []" and "length (huffman_code qs bs b) \<le> code_height qs bs"
proof -
  from two_symbols [OF assms(1,2)] obtain its where its: "huffman_tree qs bs = Inr (False, its)"
    "inner (its ! 0)" "distinct (leaves (its ! 0))" "set (leaves (its ! 0)) = set bs" .
  then have "(b, code_of (its ! 0) b) \<in> set (codes (its ! 0))"
    using code_of_in [OF its(3)] assms(3) by simp
  with its(1,2) show "huffman_code qs bs b \<noteq> []"
    and "length (huffman_code qs bs b) \<le> code_height qs bs"
    using length_code_le_height [of "its ! 0" b "code_of (its ! 0) b"] inner_codes_ne [OF its(2)]
    by (auto simp: huffman_code_def code_height_def inner_def)
qed

lemma last_fits_small:
  assumes "2 \<le> card (set bs)" and "length bs < 2 ^ 31"
    and "length bs * code_height qs bs \<le> 8192"
  shows "last_fits (huffman_code qs bs) 0 bs"
proof -
  let ?len = "\<lambda>b. length (huffman_code qs bs b)"
  from assms(1) have ne: "bs \<noteq> []" by auto
  have "code_bits (huffman_code qs bs) (butlast bs) + ?len (last bs) = sum_list (map ?len bs)"
    using ne by (cases bs rule: rev_cases) (auto simp: code_bits_def)
  also have "\<dots> \<le> length bs * code_height qs bs"
    using sum_list_mono [of bs ?len "\<lambda>_. code_height qs bs"] huffman_code_in(2) [OF assms(1,2)]
    by (simp add: sum_list_triv)
  finally have "code_bits (huffman_code qs bs) (butlast bs) + ?len (last bs) \<le> 8192"
    using assms(3) by simp
  then show ?thesis
    using mod_less_eq_dividend [of "code_bits (huffman_code qs bs) (butlast bs)" 8192]
    by (simp add: last_fits_def)
qed

lemma compress_out_of_bounds:
  assumes "2 \<le> card (set bs)" and "length bs < 2 ^ 31" and "15 < code_height qs bs"
  shows "compress qs pad junk bs = Inl OutOfBounds"
proof -
  from assms(1) have ne: "bs \<noteq> []" by auto
  from two_symbols [OF assms(1,2)] obtain its where its: "huffman_tree qs bs = Inr (False, its)"
    "inner (its ! 0)" "length its = 256" .
  then have wf: "wf_item (its ! 0)" and h: "15 < height (its ! 0)"
    using assms(3) by (simp_all add: inner_def code_height_def)
  let ?s = "\<lparr>path = [], key_buf = [], non_zero_nums = 0, items = its\<rparr>"
  show ?thesis
    using print_huffman_out [OF wf, of ?s] do_huffman_out [OF wf, of ?s] its h ne
    by (auto simp: compress_def rbind_def split: sum.splits)
qed

lemma huffman_code_prefix:
  assumes "2 \<le> card (set bs)" and "length bs < 2 ^ 31" and "b \<in> set bs" "b' \<in> set bs"
    and "huffman_code qs bs b' = huffman_code qs bs b @ d"
  shows "b = b'"
proof -
  from two_symbols [OF assms(1,2)] obtain its where its: "huffman_tree qs bs = Inr (False, its)"
    "inner (its ! 0)" "distinct (leaves (its ! 0))" "set (leaves (its ! 0)) = set bs" .
  then have "(b, code_of (its ! 0) b) \<in> set (codes (its ! 0))"
    "(b', code_of (its ! 0) b') \<in> set (codes (its ! 0))"
    using code_of_in [OF its(3)] assms(3,4) by simp_all
  with codes_prefix_free [of "its ! 0" b "code_of (its ! 0) b" b' d] its(1,2) assms(5)
  show ?thesis by (simp add: huffman_code_def inner_def)
qed

end

section \<open>Files with one byte value\<close>

lemma wf_item_single:
  assumes "wf_item x" and "distinct (leaves x)" and "set (leaves x) = {b}"
  shows "flag (data x) = 0" and "num (data x) = b" and "codes x = [(b, [])]"
proof -
  have one: "length (codes x) = 1"
    using distinct_card [OF assms(2)] assms(3) by simp
  show f: "flag (data x) = 0"
    using assms(1) one
  proof (cases x)
    case (Item d l r)
    have "2 \<le> length (codes x)" if "flag d \<noteq> 0"
    proof -
      from that assms(1) Item obtain a b where ab: "l = Some a" "r = Some b" "wf_item a" "wf_item b"
        by (cases l; cases r) auto
      then have "codes a \<noteq> []" "codes b \<noteq> []" by (simp_all add: codes_ne)
      with ab(1,2) Item that show ?thesis by (cases "codes a"; cases "codes b") auto
    qed
    with one Item show ?thesis by (cases "flag d = 0") simp_all
  qed
  show "codes x = [(b, [])]" and "num (data x) = b"
    using wf_item_leaf [OF assms(1) f] assms(3) by (simp_all add: leaves_def)
qed

lemma bits_of_bytes: "length (concat (map byte_bits v)) = 8 * length v"
  by (induction v) (auto simp: byte_bits_def)

context qsort_lib
begin

lemma one_byte_file:
  assumes "set bs = {b}" and "b \<noteq> 0" and "length bs < 2 ^ 31" and "length junk = 8192"
  shows "compress qs pad junk bs = Inr (head_bytes pad (length bs) 1 @ key_section [(b, [])])"
proof -
  from assms(1) have ne: "bs \<noteq> []" by auto
  from huffman_tree_ok [OF this assms(3)] obtain its where its:
    "huffman_tree qs bs = Inr (count_list bs 0 = length bs, its)"
    "wf_item (its ! 0)" "distinct (leaves (its ! 0))" "set (leaves (its ! 0)) = {b}"
    "length its = 256"
    using assms(1) by metis
  note x = wf_item_single [OF its(2-4)]
  have "count_list bs 0 = 0" using assms(1,2) by (simp add: count_list_0_iff)
  with its(1) ne have t: "huffman_tree qs bs = Inr (False, its)" by simp
  have h: "height (its ! 0) \<le> 15"
    using ex_code_height [OF its(2)] x(3) by simp
  from compress_tree [OF t ne its(2,3,5) h] x(3) obtain its' where c:
    "compress qs pad junk bs = Inr (head_bytes pad (length bs) 1 @ key_section [(b, [])] @
       emit_loop its' bs junk 0)" "coded (its' ! unat b) []"
    by auto
  have "\<exists>t. last_tail (last_fits (\<lambda>_. []) 0 bs) [] t \<and> concat (map byte_bits (emit_loop its' bs junk 0)) =
      tobits (take 0 junk) @ concat (map (\<lambda>_. []) (butlast bs)) @ t"
    using c(2) assms(1) by (intro emit_bits ne assms(4)) auto
  moreover have "concat (map (\<lambda>_. [] :: bool list) (butlast bs)) = []" by simp
  ultimately have "length (concat (map byte_bits (emit_loop its' bs junk 0))) < 8"
    by (auto simp: last_tail_def split: if_splits)
  then have "emit_loop its' bs junk 0 = []" unfolding bits_of_bytes by simp
  with c(1) show ?thesis by simp
qed

lemma one_byte_lost:
  assumes "set bs = {b}" and "b \<noteq> 0" and "length bs < 2 ^ 31" and "length junk = 8192"
    and "length pad = 4"
  shows "rbind (compress qs pad junk bs) decompress = Inl OutOfBounds"
proof -
  have "huffman_build (int (length [(b, [] :: bool list)])) (key_section [(b, [])] @ []) alloc_new_item =
      Inr (d_insert_all [(b, [])] alloc_new_item, [])"
    by (rule huffman_build_keys) simp
  then show ?thesis
    using assms(1) decompress_head [OF assms(5,3), of 1 "key_section [(b, [])]"]
    by (auto simp: one_byte_file [OF assms(1-4)])
qed

lemma zero_file:
  assumes "0 < n" and "n < 2 ^ 31" and "length junk = 8192"
  obtains its' where "compress qs pad junk (replicate n 0) = Inr (head_bytes pad n 1 @ key_section [(0, [True])] @
      emit_loop its' (replicate n 0) junk 0)"
    "coded (its' ! 0) [True]"
proof -
  let ?bs = "replicate n 0 :: byte list"
  from assms(1) have ne: "?bs \<noteq> []" and s: "set ?bs = {0}" by auto
  from huffman_tree_ok [OF ne] assms(2) obtain its where its:
    "huffman_tree qs ?bs = Inr (count_list ?bs 0 = length ?bs, its)"
    "wf_item (its ! 0)" "distinct (leaves (its ! 0))" "set (leaves (its ! 0)) = {0}"
    "length its = 256"
    using s by (metis length_replicate)
  note x = wf_item_single [OF its(2-4)]
  obtain d l r where d: "its ! 0 = Item d l r" by (cases "its ! 0")
  with its(2) x(1,2) have dd: "result d = [0, 0, 0, 0]" "flag d = 0" "num d = 0" by auto
  have "count_list ?bs 0 = n" by (induction n) auto
  with its(1) have t: "huffman_tree qs ?bs = Inr (True, its)" by simp
  let ?s0 = "\<lparr>path = [], key_buf = [], non_zero_nums = 0, items = its\<rparr>"
  let ?its = "items (one_character (its ! 0) ?s0)"
  have key: "key_section [(0, [True])] = [0, push_bit 6 1]"
    by code_simp
  have "compress qs pad junk ?bs = Inr (head_bytes pad n 1 @ key_section [(0, [True])] @
      emit_loop ?its ?bs junk 0)"
    using t d dd assms(1) by (simp add: compress_def one_character_def Let_def key)
  moreover have "coded (?its ! 0) [True]"
    using d dd its(5) by (simp add: one_character_def Let_def coded_def chars_of_def)
  ultimately show thesis by (rule that)
qed

lemma zero_file_roundtrip:
  assumes "0 < n" and "n < 2 ^ 31" and "n mod 8 = 0" and "length junk = 8192" and "length pad = 4"
  shows "rbind (compress qs pad junk (replicate n 0)) decompress =
    Inr \<lparr>out_file = replicate n 0, overrun = 0\<rparr>"
proof -
  let ?bs = "replicate n 0 :: byte list" and ?one = "\<lambda>_ :: byte. [True]"
  let ?t = "d_insert_all [(0, [True])] alloc_new_item"
  from zero_file [OF assms(1,2,4)] obtain its' where c:
    "compress qs pad junk ?bs = Inr (head_bytes pad n 1 @ key_section [(0, [True])] @ emit_loop its' ?bs junk 0)"
    "coded (its' ! 0) [True]" by blast
  let ?v = "emit_loop its' ?bs junk 0"
  have "\<exists>t. last_tail (last_fits ?one 0 ?bs) [True] t \<and>
      concat (map byte_bits ?v) = tobits (take 0 junk) @ concat (map ?one (butlast ?bs)) @ t"
    using c(2) assms(1) by (intro emit_bits assms(4)) auto
  moreover have "last_fits ?one 0 ?bs" by (simp add: last_fits_def Suc_leI)
  ultimately obtain p where p: "concat (map byte_bits ?v) = concat (map ?one (butlast ?bs)) @ [True] @ p"
    "length p < 8"
    by (auto simp: last_tail_def)
  moreover have "concat (map ?one (butlast ?bs)) @ [True] @ p = replicate n True @ p"
    using assms(1) by (cases n) (simp_all add: butlast_conv_take map_replicate_const replicate_app_Cons_same)
  ultimately have p: "concat (map byte_bits ?v) = replicate n True @ p" "length p < 8"
    by (simp_all only:)
  then have "8 * length ?v = n + length p"
    using bits_of_bytes [of ?v] by simp
  with p(2) assms(3) have "length p = 0" by presburger
  with p(1) have bits: "concat (map byte_bits ?v) = replicate n True" by simp
  have d: "decode_bits ?t (replicate k True) ?t w = Inr (?t, w @ replicate k 0)" for k w
    by (induction k arbitrary: w) (simp_all add: alloc_new_item_def)
  from decode_loop_stop [of ?t ?v ?t "[]" ?t "replicate n 0" n] d [of n "[]"] assms(1) bits
  obtain w e where w: "decode_loop ?t n ?v ?t [] = Inr w" "replicate n 0 = w @ e" "n \<le> length w"
    by auto
  from arg_cong [OF w(2), of length] w(3) have "e = []" by simp
  with w(1,2) have "decode_loop ?t n ?v ?t [] = Inr (replicate n 0)" by simp
  moreover have "huffman_build (int (length [(0 :: byte, [True])])) (key_section [(0, [True])] @ ?v) alloc_new_item =
      Inr (?t, ?v)"
    by (rule huffman_build_keys) simp
  ultimately show ?thesis
    using decompress_head [OF assms(5,2), of 1 "key_section [(0, [True])] @ ?v"] c(1) by simp
qed

end

section \<open>Properties\<close>

text \<open>
  C1. Round trip of the compressor and the decompressor, for every conforming \<open>qsort\<close> and every
  content of the uninitialised memory, on a file with at least two different bytes and codes of
  at most 15 bits: if the code of the last byte does not straddle a flush of \<open>string_buf\<close>, the
  decompressor returns the file (and has written at most seven bytes behind its buffer);
  otherwise the tail of the last code is lost and the decompressor reads behind its input.
\<close>

theorem huffman_roundtrip:
  assumes "qsort_lib qs" and "2 \<le> card (set file1)" and "length file1 < 2 ^ 31"
    and "length pad = 4" and "length junk = 8192" and "code_height qs file1 \<le> 15"
  shows "\<exists>out. compress qs pad junk file1 = Inr out \<and>
    (if last_fits (huffman_code qs file1) 0 file1
     then \<exists>u. decompress out = Inr u \<and> out_file u = file1 \<and> overrun u < 8
     else decompress out = Inl OutOfBounds)"
  using qsort_lib.roundtrip [OF assms(1,2,3,5,4,6)] by metis

theorem huffman_roundtrip_witness:
  "\<exists>out. compress stable_sort [0, 0, 0, 0] (replicate 8192 (CHR ''0'')) [1, 2] = Inr out \<and>
    (if last_fits (huffman_code stable_sort [1, 2]) 0 [1, 2]
     then \<exists>u. decompress out = Inr u \<and> out_file u = [1, 2] \<and> overrun u < 8
     else decompress out = Inl OutOfBounds)"
proof (rule huffman_roundtrip)
  show "qsort_lib stable_sort" by (rule libc.qsort_lib_axioms)
  show "code_height stable_sort [1, 2] \<le> 15"
    by (rule libc.code_height_le) (simp_all add: fibo_16)
qed simp_all

text \<open>
  A file of at most 546 bytes, with at least two different ones, always survives: its codes
  have at most 15 bits, because a longer code needs at least 2584 bytes, and it is emitted without a flush.
\<close>

theorem huffman_roundtrip_small:
  assumes "qsort_lib qs" and "2 \<le> card (set file1)" and "length file1 \<le> 546"
    and "length pad = 4" and "length junk = 8192"
  shows "\<exists>out u. compress qs pad junk file1 = Inr out \<and> decompress out = Inr u \<and> out_file u = file1"
proof -
  have h: "code_height qs file1 \<le> 15"
    using assms(3) by (intro qsort_lib.code_height_le [OF assms(1,2)]) (simp_all add: fibo_16)
  have "length file1 * code_height qs file1 \<le> 546 * 15"
    using assms(3) h by (rule mult_le_mono)
  then have "last_fits (huffman_code qs file1) 0 file1"
    using assms(3) by (intro qsort_lib.last_fits_small [OF assms(1,2)]) simp_all
  moreover have "length file1 < 2 ^ 31" using assms(3) by simp
  ultimately show ?thesis
    using qsort_lib.roundtrip [OF assms(1,2) _ assms(5,4) h] by metis
qed

theorem huffman_roundtrip_small_witness:
  "\<exists>out u. compress stable_sort [0, 0, 0, 0] (replicate 8192 (CHR ''0'')) [7, 1, 2] = Inr out \<and>
    decompress out = Inr u \<and> out_file u = [7, 1, 2]"
  by (rule huffman_roundtrip_small) (simp_all add: libc.qsort_lib_axioms)

text \<open>
  C30. The compressor overflows its fixed buffers (\<open>result_string\<close> and the four bytes of
  \<open>result\<close>) exactly when the tree has a code of more than 15 bits; otherwise it writes a file.
\<close>

theorem compress_overflow_iff:
  assumes "qsort_lib qs" and "2 \<le> card (set file1)" and "length file1 < 2 ^ 31"
    and "length pad = 4" and "length junk = 8192"
  shows "compress qs pad junk file1 = Inl OutOfBounds \<longleftrightarrow> 15 < code_height qs file1"
  using qsort_lib.roundtrip [OF assms(1,2,3,5,4)] qsort_lib.compress_out_of_bounds [OF assms(1,2,3)]
  by (metis Inl_Inr_False linorder_not_le)

theorem compress_overflow_iff_witness:
  "compress stable_sort [0, 0, 0, 0] (replicate 8192 (CHR ''0'')) [1, 2] = Inl OutOfBounds \<longleftrightarrow>
   15 < code_height stable_sort [1, 2]"
  by (rule compress_overflow_iff) (simp_all add: libc.qsort_lib_axioms)

text \<open>
  C29. A code of \<open>h\<close> bits needs a file of at least \<open>fibo h\<close> bytes (a Fibonacci number): with C3,
  the compressor is safe on every file shorter than 2584 bytes.
\<close>

theorem code_height_bound:
  assumes "qsort_lib qs" and "2 \<le> card (set file1)" and "length file1 < 2 ^ 31"
  shows "fibo (code_height qs file1) \<le> length file1"
  using assms by (rule qsort_lib.fibo_code_height)

theorem code_height_bound_witness: "fibo (code_height stable_sort [1, 2]) \<le> length [1, 2 :: byte]"
  by (rule code_height_bound) (simp_all add: libc.qsort_lib_axioms)

text \<open>
  C28. The codes of a file with at least two byte values and fewer than $2^{31}$ bytes are a prefix
  code, whatever conforming \<open>qsort\<close> orders the nodes: no byte of the file has an empty code, and no code
  is a prefix of the code of another byte of the file. (With a single byte value the only code is empty.)
\<close>

theorem huffman_prefix_code:
  assumes "qsort_lib qs" and "2 \<le> card (set file1)" and "length file1 < 2 ^ 31"
    and "b \<in> set file1" and "b' \<in> set file1"
  shows "huffman_code qs file1 b \<noteq> [] \<and>
    ((\<exists>d. huffman_code qs file1 b' = huffman_code qs file1 b @ d) \<longrightarrow> b = b')"
  using qsort_lib.huffman_code_in(1) [OF assms(1-4)] qsort_lib.huffman_code_prefix [OF assms(1-5)]
  by blast

theorem huffman_prefix_code_witness:
  "huffman_code stable_sort [1, 2] 1 \<noteq> [] \<and>
    \<not> (\<exists>d. huffman_code stable_sort [1, 2] 2 = huffman_code stable_sort [1, 2] 1 @ d)"
  using huffman_prefix_code [of stable_sort "[1, 2]" 1 2] by (simp add: libc.qsort_lib_axioms)

text \<open>
  A file that repeats one byte other than 0 is not restored: its only code is empty, the
  compressed file holds no bits, and the decompressor reads behind its input.
\<close>

theorem huffman_one_byte_lost:
  assumes "qsort_lib qs" and "set file1 = {b}" and "b \<noteq> 0" and "length file1 < 2 ^ 31"
    and "length junk = 8192" and "length pad = 4"
  shows "rbind (compress qs pad junk file1) decompress = Inl OutOfBounds"
  using assms by (rule qsort_lib.one_byte_lost)

theorem huffman_one_byte_lost_witness:
  "rbind (compress stable_sort [0, 0, 0, 0] (replicate 8192 (CHR ''0'')) [7, 7]) decompress =
   Inl OutOfBounds"
  by (rule huffman_one_byte_lost [of _ _ 7]) (simp_all add: libc.qsort_lib_axioms)

text \<open>
  A file of zero bytes takes the special path of \<open>one_character_flag\<close> and is restored
  when its length is a multiple of 8, whatever \<open>string_buf\<close> holds behind the last code.
\<close>

theorem huffman_zero_file:
  assumes "qsort_lib qs" and "0 < n" and "n < 2 ^ 31" and "n mod 8 = 0"
    and "length junk = 8192" and "length pad = 4"
  shows "rbind (compress qs pad junk (replicate n 0)) decompress =
    Inr \<lparr>out_file = replicate n 0, overrun = 0\<rparr>"
  using assms by (rule qsort_lib.zero_file_roundtrip)

theorem huffman_zero_file_witness:
  "rbind (compress stable_sort [0, 0, 0, 0] (replicate 8192 (CHR ''0'')) (replicate 16 0)) decompress =
   Inr \<lparr>out_file = replicate 16 0, overrun = 0\<rparr>"
  by (rule huffman_zero_file) (simp_all add: libc.qsort_lib_axioms)

end
