(* ===== verification/Intrusive_List.thy ===== *)
theory Intrusive_List
  imports Prelude
begin

text \<open>
  Model of \<open>liby/src/list.h\<close>, the circular doubly linked list embedded in the structures of
  liby. A \<open>struct list_head\<close> is a member of an object: \<open>Member a k\<close> is the address of the list
  member number \<open>k\<close> of the object allocated at \<open>a\<close>, so \<open>list_entry\<close> (\<open>container_of\<close>) reads \<open>a\<close>
  off the address. The memory holds the two pointers of every node and the set of objects that
  are allocated: following \<open>NULL\<close>, a poison pointer or a pointer into a freed object faults.

  \<open>ring m h xs\<close> says that the nodes \<open>xs\<close> hang off the head \<open>h\<close> in this order; the operations
  are shown to act on \<open>xs\<close> as on a queue, and to leave all other rings alone.
\<close>

section \<open>Memory\<close>

datatype lptr = NULL | LIST_POISON1 | LIST_POISON2 | Member nat nat

record lmem =
  nxt :: "lptr \<Rightarrow> lptr"
  prv :: "lptr \<Rightarrow> lptr"
  live :: "nat set"

definition access :: "lptr \<Rightarrow> 'a lmem_scheme \<Rightarrow> unit res" where
  "access p m = (case p of NULL \<Rightarrow> Inl NullDeref
     | Member a k \<Rightarrow> if a \<in> live m then Inr () else Inl WildDeref
     | _ \<Rightarrow> Inl WildDeref)"

definition get_next :: "lptr \<Rightarrow> 'a lmem_scheme \<Rightarrow> lptr res" where
  "get_next p m = rbind (access p m) (\<lambda>_. Inr (nxt m p))"

definition get_prev :: "lptr \<Rightarrow> 'a lmem_scheme \<Rightarrow> lptr res" where
  "get_prev p m = rbind (access p m) (\<lambda>_. Inr (prv m p))"

definition set_next :: "lptr \<Rightarrow> lptr \<Rightarrow> 'a lmem_scheme \<Rightarrow> 'a lmem_scheme res" where
  "set_next p v m = rbind (access p m) (\<lambda>_. Inr (m\<lparr>nxt := (nxt m)(p := v)\<rparr>))"

definition set_prev :: "lptr \<Rightarrow> lptr \<Rightarrow> 'a lmem_scheme \<Rightarrow> 'a lmem_scheme res" where
  "set_prev p v m = rbind (access p m) (\<lambda>_. Inr (m\<lparr>prv := (prv m)(p := v)\<rparr>))"

section \<open>Operations\<close>

definition INIT_LIST_HEAD :: "lptr \<Rightarrow> 'a lmem_scheme \<Rightarrow> 'a lmem_scheme res" where
  "INIT_LIST_HEAD l m = rbind (set_next l l m) (set_prev l l)"

definition list_add_between :: "lptr \<Rightarrow> lptr \<Rightarrow> lptr \<Rightarrow> 'a lmem_scheme \<Rightarrow> 'a lmem_scheme res" where
  "list_add_between new prev next m =
     rbind (set_prev next new m) (\<lambda>m.
     rbind (set_next new next m) (\<lambda>m.
     rbind (set_prev new prev m) (\<lambda>m.
     set_next prev new m)))"

definition list_add_tail :: "lptr \<Rightarrow> lptr \<Rightarrow> 'a lmem_scheme \<Rightarrow> 'a lmem_scheme res" where
  "list_add_tail new head m = rbind (get_prev head m) (\<lambda>p. list_add_between new p head m)"

definition list_del_between :: "lptr \<Rightarrow> lptr \<Rightarrow> 'a lmem_scheme \<Rightarrow> 'a lmem_scheme res" where
  "list_del_between prev next m = rbind (set_prev next prev m) (set_next prev next)"

definition list_del :: "lptr \<Rightarrow> 'a lmem_scheme \<Rightarrow> 'a lmem_scheme res" where
  "list_del entry m =
     rbind (get_prev entry m) (\<lambda>p.
     rbind (get_next entry m) (\<lambda>n.
     rbind (list_del_between p n m) (\<lambda>m.
     rbind (set_next entry LIST_POISON1 m) (\<lambda>m.
     set_prev entry LIST_POISON2 m))))"

definition list_empty :: "lptr \<Rightarrow> 'a lmem_scheme \<Rightarrow> bool res" where
  "list_empty head m = rbind (get_next head m) (\<lambda>n. Inr (n = head))"

definition list_entry :: "lptr \<Rightarrow> nat res" where
  "list_entry p = (case p of Member a k \<Rightarrow> Inr a | NULL \<Rightarrow> Inl NullDeref | _ \<Rightarrow> Inl WildDeref)"

text \<open>
  The loops run on a memory and a loop variable of the body, which may change the list.
  \<open>list_for_each\<close> reads the next node before the test (the argument of \<open>prefetch\<close>) and again after
  the body; \<open>list_for_each_safe\<close> reads it before the body. The first argument bounds the rounds.
\<close>

fun for_each_loop :: "nat \<Rightarrow> (lptr \<Rightarrow> 'a lmem_scheme \<times> 'b \<Rightarrow> ('a lmem_scheme \<times> 'b) res) \<Rightarrow>
    lptr \<Rightarrow> lptr \<Rightarrow> 'a lmem_scheme \<times> 'b \<Rightarrow> ('a lmem_scheme \<times> 'b) res" where
  "for_each_loop 0 body head pos s = Inl NoReturn"
| "for_each_loop (Suc k) body head pos s =
     rbind (get_next pos (fst s)) (\<lambda>_.
     if pos = head then Inr s
     else rbind (body pos s) (\<lambda>s'.
          rbind (get_next pos (fst s')) (\<lambda>pos'.
          for_each_loop k body head pos' s')))"

definition list_for_each :: "nat \<Rightarrow> (lptr \<Rightarrow> 'a lmem_scheme \<times> 'b \<Rightarrow> ('a lmem_scheme \<times> 'b) res) \<Rightarrow>
    lptr \<Rightarrow> 'a lmem_scheme \<times> 'b \<Rightarrow> ('a lmem_scheme \<times> 'b) res" where
  "list_for_each k body head s = rbind (get_next head (fst s)) (\<lambda>pos. for_each_loop k body head pos s)"

fun for_each_safe_loop :: "nat \<Rightarrow> (lptr \<Rightarrow> 'a lmem_scheme \<times> 'b \<Rightarrow> ('a lmem_scheme \<times> 'b) res) \<Rightarrow>
    lptr \<Rightarrow> lptr \<Rightarrow> lptr \<Rightarrow> 'a lmem_scheme \<times> 'b \<Rightarrow> ('a lmem_scheme \<times> 'b) res" where
  "for_each_safe_loop 0 body head pos n s = Inl NoReturn"
| "for_each_safe_loop (Suc k) body head pos n s =
     (if pos = head then Inr s
      else rbind (body pos s) (\<lambda>s'.
           rbind (get_next n (fst s')) (\<lambda>n'.
           for_each_safe_loop k body head n n' s')))"

definition list_for_each_safe :: "nat \<Rightarrow> (lptr \<Rightarrow> 'a lmem_scheme \<times> 'b \<Rightarrow> ('a lmem_scheme \<times> 'b) res) \<Rightarrow>
    lptr \<Rightarrow> 'a lmem_scheme \<times> 'b \<Rightarrow> ('a lmem_scheme \<times> 'b) res" where
  "list_for_each_safe k body head s =
     rbind (get_next head (fst s)) (\<lambda>pos.
     rbind (get_next pos (fst s)) (\<lambda>n.
     for_each_safe_loop k body head pos n s))"

section \<open>Rings\<close>

definition ok :: "lptr \<Rightarrow> 'a lmem_scheme \<Rightarrow> bool" where
  "ok p m \<longleftrightarrow> access p m = Inr ()"

fun adj :: "'a lmem_scheme \<Rightarrow> lptr list \<Rightarrow> bool" where
  "adj m (x # y # zs) \<longleftrightarrow> nxt m x = y \<and> prv m y = x \<and> adj m (y # zs)"
| "adj m _ \<longleftrightarrow> True"

definition ring :: "'a lmem_scheme \<Rightarrow> lptr \<Rightarrow> lptr list \<Rightarrow> bool" where
  "ring m h xs \<longleftrightarrow> distinct (h # xs) \<and> (\<forall>p\<in>set (h # xs). ok p m) \<and> adj m (h # xs @ [h])"

lemma ok_simps [simp]:
  "\<not> ok NULL m" "\<not> ok LIST_POISON1 m" "\<not> ok LIST_POISON2 m" "ok (Member a k) m \<longleftrightarrow> a \<in> live m"
  by (simp_all add: ok_def access_def)

lemma ok_upd [simp]:
  "ok p (m\<lparr>nxt := f\<rparr>) = ok p m" "ok p (m\<lparr>prv := f\<rparr>) = ok p m"
  by (cases p; simp)+

lemma ok_live: "live m = live m' \<Longrightarrow> ok p m = ok p m'"
  by (cases p) simp_all

lemma get_set_ok [simp]:
  assumes "ok p m"
  shows "get_next p m = Inr (nxt m p)" "get_prev p m = Inr (prv m p)"
    "set_next p v m = Inr (m\<lparr>nxt := (nxt m)(p := v)\<rparr>)"
    "set_prev p v m = Inr (m\<lparr>prv := (prv m)(p := v)\<rparr>)"
  using assms by (simp_all add: ok_def get_next_def get_prev_def set_next_def set_prev_def)

lemma adj_append: "adj m (xs @ y # zs) \<longleftrightarrow> adj m (xs @ [y]) \<and> adj m (y # zs)"
proof (induction xs)
  case (Cons x xs)
  then show ?case by (cases xs) auto
qed (cases zs; simp)

lemmas adj_appendD = adj_append [THEN iffD1]
lemmas adj_appendI = adj_append [THEN iffD2, OF conjI]

lemma adj_cong:
  "(\<And>x. x \<in> set (butlast xs) \<Longrightarrow> nxt m x = nxt m' x) \<Longrightarrow> (\<And>x. x \<in> set (tl xs) \<Longrightarrow> prv m x = prv m' x) \<Longrightarrow>
   adj m xs \<longleftrightarrow> adj m' xs"
proof (induction xs)
  case (Cons x xs)
  show ?case
  proof (cases xs)
    case (Cons y ys)
    then have "adj m xs \<longleftrightarrow> adj m' xs" using Cons.prems by (intro Cons.IH) auto
    with Cons Cons.prems show ?thesis by simp
  qed simp
qed simp

lemma ring_cong:
  assumes "\<And>x. x \<in> set (h # xs) \<Longrightarrow> nxt m x = nxt m' x \<and> prv m x = prv m' x" and "live m = live m'"
  shows "ring m h xs \<longleftrightarrow> ring m' h xs"
proof -
  have "adj m (h # xs @ [h]) \<longleftrightarrow> adj m' (h # xs @ [h])"
    using assms(1) by (intro adj_cong) (auto simp: butlast_append)
  with ok_live [OF assms(2)] show ?thesis by (simp only: ring_def)
qed

lemma ring_okD: "ring m h xs \<Longrightarrow> p \<in> set (h # xs) \<Longrightarrow> ok p m"
  unfolding ring_def by blast

lemma ring_distinct: "ring m h xs \<Longrightarrow> distinct (h # xs)"
  unfolding ring_def by blast

lemma ring_adj: "ring m h xs \<Longrightarrow> adj m (h # xs @ [h])"
  unfolding ring_def by blast

text \<open>The two neighbours of an element, and of the head.\<close>

lemma ring_first: "ring m h xs \<Longrightarrow> nxt m h = hd (xs @ [h])"
  using ring_adj [of m h xs] by (cases xs) auto

lemma ring_last:
  assumes "ring m h xs" and "h # xs = ys @ [l]"
  shows "prv m h = l" and "adj m (ys @ [l])"
proof -
  from assms(2) have "h # xs @ [h] = ys @ l # [h]" by (metis append.assoc append_Cons append_Nil)
  with ring_adj [OF assms(1)] have "adj m (ys @ l # [h])" by simp
  from adj_appendD [OF this] show "prv m h = l" and "adj m (ys @ [l])" by simp_all
qed

lemma ring_mid:
  assumes "ring m h (xs @ e # ys)" and "h # xs = as @ [p]" and "ys @ [h] = n # bs"
  shows "nxt m e = n" and "prv m e = p" and "adj m (as @ [p])" and "adj m (n # bs)"
proof -
  from assms(2) have "h # (xs @ e # ys) @ [h] = as @ p # e # (ys @ [h])"
    by (metis append.assoc append_Cons append_Nil)
  with ring_adj [OF assms(1)] have "adj m (as @ p # e # n # bs)" by (simp only: assms(3))
  from adj_appendD [OF this]
  show "nxt m e = n" and "prv m e = p" and "adj m (as @ [p])" and "adj m (n # bs)" by simp_all
qed

lemma ring_live: "ring m h xs \<Longrightarrow> Member a k \<in> set (h # xs) \<Longrightarrow> a \<in> live m"
  using ring_okD ok_simps(4) by blast

section \<open>Correctness of the operations\<close>

lemma INIT_LIST_HEAD_ring:
  assumes "ok h m"
  shows "\<exists>m'. INIT_LIST_HEAD h m = Inr m' \<and> ring m' h [] \<and>
    m' = m\<lparr>nxt := (nxt m)(h := h), prv := (prv m)(h := h)\<rparr>"
  using assms by (simp add: INIT_LIST_HEAD_def ring_def)

lemma list_empty_ring:
  assumes "ring m h xs"
  shows "list_empty h m = Inr (xs = [])"
  using ring_first [OF assms] ring_okD [OF assms, of h] ring_distinct [OF assms]
  by (cases xs) (auto simp: list_empty_def)

text \<open>The effect of an operation that turns the ring \<open>xs\<close> of \<open>h\<close> into \<open>ys\<close>: only the pointers
  of the nodes in \<open>ns\<close> change.\<close>

definition relinks :: "lptr set \<Rightarrow> 'a lmem_scheme \<Rightarrow> 'a lmem_scheme \<Rightarrow> bool" where
  "relinks ns m m' \<longleftrightarrow> (\<exists>f g. m' = m\<lparr>nxt := f, prv := g\<rparr>) \<and>
     (\<forall>x. x \<notin> ns \<longrightarrow> nxt m' x = nxt m x \<and> prv m' x = prv m x)"

lemma relinks_live: "relinks ns m m' \<Longrightarrow> live m' = live m"
  by (auto simp: relinks_def)

lemma relinks_ring:
  assumes "relinks ns m m'" and "set (h # xs) \<inter> ns = {}"
  shows "ring m' h xs \<longleftrightarrow> ring m h xs"
  using assms by (intro ring_cong) (auto simp: relinks_def)

lemma snoc_facts:
  assumes "h # xs = ys @ [l]" and "distinct (h # xs)"
  shows "l \<in> set (h # xs)" "l \<notin> set ys" "set ys \<subseteq> set (h # xs)" "xs = tl (ys @ [l])"
proof -
  from assms(2) have "distinct (ys @ [l])" by (simp only: assms(1))
  then show "l \<notin> set ys" by simp
  show "l \<in> set (h # xs)" "set ys \<subseteq> set (h # xs)" unfolding assms(1) by auto
  show "xs = tl (ys @ [l])" by (simp flip: assms(1))
qed

lemma list_add_tail_ring:
  assumes r: "ring m h xs" and new: "ok new m" "new \<notin> set (h # xs)"
  shows "\<exists>m'. list_add_tail new h m = Inr m' \<and> ring m' h (xs @ [new]) \<and> relinks (set (new # h # xs)) m m'"
proof -
  obtain ys l where hx: "h # xs = ys @ [l]" by (metis append_butlast_last_id list.distinct(1))
  define m' where "m' = m\<lparr>nxt := (nxt m)(new := h, l := new), prv := (prv m)(h := new, new := l)\<rparr>"
  note l = snoc_facts(1) [OF hx ring_distinct [OF r]] and ys = snoc_facts(2,3) [OF hx ring_distinct [OF r]]
    and xs = snoc_facts(4) [OF hx ring_distinct [OF r]]
  have okl: "ok l m" "ok h m" using ring_okD [OF r] l by auto
  have "adj m' (ys @ [l])"
    using ring_last(2) [OF r hx]
  proof (subst adj_cong [of _ _ m])
    show "nxt m' x = nxt m x" if "x \<in> set (butlast (ys @ [l]))" for x
      using that ys new(2) by (auto simp: m'_def)
    show "prv m' x = prv m x" if "x \<in> set (tl (ys @ [l]))" for x
      using that ring_distinct [OF r] new(2) unfolding xs [symmetric] by (auto simp: m'_def)
  qed
  moreover have "adj m' (l # [new, h])" using new(2) l by (auto simp: m'_def)
  ultimately have "adj m' (ys @ l # [new, h])" by (rule adj_appendI)
  also have "ys @ l # [new, h] = h # (xs @ [new]) @ [h]"
    using hx by (metis append.assoc append_Cons append_Nil)
  finally have "ring m' h (xs @ [new])"
    using ring_distinct [OF r] ring_okD [OF r] new by (auto simp: ring_def m'_def)
  moreover have "list_add_tail new h m = Inr m'"
    using ring_last(1) [OF r hx] okl new(1)
    by (simp add: list_add_tail_def list_add_between_def m'_def)
  moreover have "relinks (set (new # h # xs)) m m'"
    using l by (auto simp: relinks_def m'_def)
  ultimately show ?thesis by blast
qed

lemma list_del_ring:
  assumes r: "ring m h (xs @ e # ys)"
  shows "\<exists>m'. list_del e m = Inr m' \<and> ring m' h (xs @ ys) \<and> relinks (set (h # xs @ e # ys)) m m' \<and>
    nxt m' e = LIST_POISON1 \<and> prv m' e = LIST_POISON2"
proof -
  obtain as p where hx: "h # xs = as @ [p]" by (metis append_butlast_last_id list.distinct(1))
  obtain n bs where yh: "ys @ [h] = n # bs" by (metis append_is_Nil_conv list.exhaust list.distinct(1))
  define m' where "m' = m\<lparr>nxt := (nxt m)(p := n, e := LIST_POISON1),
    prv := (prv m)(n := p, e := LIST_POISON2)\<rparr>"
  note mid = ring_mid [OF r hx yh] and d = ring_distinct [OF r]
  from d have "distinct (h # xs)" by simp
  note p = snoc_facts [OF hx this]
  have n: "n \<in> set (h # ys)" "n \<notin> set bs" "set bs \<subseteq> set (h # ys)" "ys = butlast (n # bs)"
    using yh d by (cases ys; auto)+
  have "adj m' (as @ [p])"
    using mid(3)
  proof (subst adj_cong [of _ _ m])
    show "nxt m' x = nxt m x" if "x \<in> set (butlast (as @ [p]))" for x
      using that p d by (auto simp: m'_def)
    show "prv m' x = prv m x" if "x \<in> set (tl (as @ [p]))" for x
      using that n(1) d unfolding p(4) [symmetric] by (auto simp: m'_def)
  qed
  moreover have "adj m' (n # bs)"
    using mid(4)
  proof (subst adj_cong [of _ _ m])
    show "nxt m' x = nxt m x" if "x \<in> set (butlast (n # bs))" for x
      using that p(1) d unfolding n(4) [symmetric] by (auto simp: m'_def)
    show "prv m' x = prv m x" if "x \<in> set (tl (n # bs))" for x
      using that n d by (auto simp: m'_def)
  qed
  moreover have ne: "e \<noteq> p" "e \<noteq> n" using d p(1) n(1) by auto
  ultimately have "adj m' (as @ [p])" "adj m' (p # n # bs)" by (simp_all add: m'_def)
  then have "adj m' (as @ p # n # bs)" by (rule adj_appendI)
  also have "as @ p # n # bs = (as @ [p]) @ n # bs" by simp
  also have "\<dots> = h # (xs @ ys) @ [h]" by (simp flip: hx yh)
  finally have "ring m' h (xs @ ys)"
    using d ring_okD [OF r] by (auto simp: ring_def m'_def)
  moreover from ring_okD [OF r] p(1) n(1) have okp: "ok e m" "ok p m" "ok n m" by auto
  have "list_del e m = Inr m'"
    using mid(1,2) ne okp by (simp add: list_del_def list_del_between_def m'_def)
  moreover have "relinks (set (h # xs @ e # ys)) m m'"
    using p(1) n(1) by (auto simp: relinks_def m'_def)
  ultimately show ?thesis by (auto simp: m'_def)
qed

section \<open>Traversals\<close>

text \<open>A body that only looks at the list sees its nodes in order.\<close>

lemma for_each_loop_ring:
  assumes "ring m h (xs @ ys)" and "length ys < k"
    and "\<And>p a. p \<in> set ys \<Longrightarrow> body p (m, a) = Inr (m, f p a)"
  shows "for_each_loop k body h (hd (ys @ [h])) (m, a) = Inr (m, fold f ys a)"
  using assms
proof (induction ys arbitrary: xs k a)
  case Nil
  then obtain k' where k: "k = Suc k'" by (cases k) auto
  from Nil(1) have "ok h m" by (rule ring_okD) simp
  then show ?case by (simp add: k)
next
  case (Cons y ys)
  from Cons.prems(2) obtain k' where k: "k = Suc k'" "length ys < k'" by (cases k) auto
  obtain n bs where n: "ys @ [h] = n # bs" by (cases ys) auto
  obtain as p where p: "h # xs = as @ [p]" by (metis append_butlast_last_id list.distinct(1))
  have y: "ok y m" "y \<noteq> h" "nxt m y = hd (ys @ [h])"
    using ring_okD [OF Cons.prems(1), of y] ring_distinct [OF Cons.prems(1)]
      ring_mid(1) [OF Cons.prems(1) p n] n by auto
  have "for_each_loop k' body h (hd (ys @ [h])) (m, f y a) = Inr (m, fold f ys (f y a))"
    using Cons.prems(1,3) k(2) by (intro Cons.IH [of "xs @ [y]"]) auto
  with y Cons.prems(3) [of y] show ?case by (simp add: k(1))
qed

lemma list_for_each_ring:
  assumes "ring m h xs" and "length xs < k"
    and "\<And>p a. p \<in> set xs \<Longrightarrow> body p (m, a) = Inr (m, f p a)"
  shows "list_for_each k body h (m, a) = Inr (m, fold f xs a)"
  using for_each_loop_ring [of m h "[]" xs k body f a] ring_first [OF assms(1)]
    ring_okD [OF assms(1), of h] assms
  by (simp add: list_for_each_def)

text \<open>A body that frees the object of the node it is at makes the loop fault, and so does one
  that unlinks the node: the next pointer it follows is gone.\<close>

lemma list_for_each_freed:
  assumes "ring m h (Member b j # xs)" and "body (Member b j) (m, a) = Inr (m', a')" and "b \<notin> live m'"
  shows "list_for_each (Suc k) body h (m, a) = Inl WildDeref"
proof -
  have "nxt m h = Member b j" "ok h m" "b \<in> live m" "h \<noteq> Member b j"
    using ring_first [OF assms(1)] ring_okD [OF assms(1), of h] ring_live [OF assms(1), of b j]
      ring_distinct [OF assms(1)] by auto
  with assms(2,3) show ?thesis
    by (auto simp: list_for_each_def get_next_def [of "Member b j" m'] access_def)
qed

lemma list_for_each_unlinked:
  assumes "ring m h (x # xs)" and "body x (m, a) = Inr (m', a')"
    and "ok x m'" and "nxt m' x = LIST_POISON1"
  shows "list_for_each (Suc (Suc k)) body h (m, a) = Inl WildDeref"
proof -
  have "nxt m h = x" "ok h m" "ok x m" "h \<noteq> x"
    using ring_first [OF assms(1)] ring_okD [OF assms(1)] ring_distinct [OF assms(1)] by auto
  with assms(2-4) show ?thesis
    by (auto simp: list_for_each_def get_next_def [of LIST_POISON1] access_def)
qed

text \<open>The safe loop may unlink the node it is at: it takes the whole list apart.\<close>

definition del_body :: "lptr \<Rightarrow> 'a lmem_scheme \<times> lptr list \<Rightarrow> ('a lmem_scheme \<times> lptr list) res" where
  "del_body p s = rbind (list_del p (fst s)) (\<lambda>m'. Inr (m', snd s @ [p]))"

lemma for_each_safe_drain:
  assumes "ring m h xs" and "length xs < k"
  shows "\<exists>m'. for_each_safe_loop k del_body h (hd (xs @ [h])) (nxt m (hd (xs @ [h]))) (m, a) = Inr (m', a @ xs)
    \<and> ring m' h []"
  using assms
proof (induction xs arbitrary: m k a)
  case Nil
  then obtain k' where k: "k = Suc k'" by (cases k) auto
  from Nil(1) show ?case by (simp add: k)
next
  case (Cons x xs)
  from Cons.prems(2) obtain k' where k: "k = Suc k'" "length xs < k'" by (cases k) auto
  obtain n bs where n: "xs @ [h] = n # bs" by (cases xs) auto
  have x: "x \<noteq> h" "nxt m x = n"
    using ring_distinct [OF Cons.prems(1)] ring_mid(1) [of m h "[]" x xs "[]" h n bs] Cons.prems(1) n by auto
  from list_del_ring [of m h "[]" x xs] Cons.prems(1) obtain m1 where
    m1: "list_del x m = Inr m1" "ring m1 h xs" by auto
  have nn: "n = hd (xs @ [h])" "n \<in> set (h # xs)"
    using n by (cases xs; auto)+
  have okn: "ok n m1" using ring_okD [OF m1(2) nn(2)] .
  obtain m' where
    "for_each_safe_loop k' del_body h n (nxt m1 n) (m1, a @ [x]) = Inr (m', (a @ [x]) @ xs)" "ring m' h []"
    using Cons.IH [OF m1(2) k(2), of "a @ [x]"] nn(1) by auto
  moreover have "del_body x (m, a) = Inr (m1, a @ [x])" using m1(1) by (simp add: del_body_def)
  ultimately show ?case using x okn by (simp add: k(1))
qed

section \<open>The queue interface\<close>

text \<open>
  What liby relies on when it keeps tasks in such a list: elements that may be pushed are taken out in the
  order in which they were put in.
\<close>

locale fifo_queue =
  fixes content :: "'s \<Rightarrow> 'a list \<Rightarrow> bool"
    and free_to_push :: "'a \<Rightarrow> 's \<Rightarrow> bool"
    and push :: "'a \<Rightarrow> 's \<Rightarrow> 's res"
    and pop :: "'s \<Rightarrow> ('a option \<times> 's) res"
  assumes push_ok: "content s xs \<Longrightarrow> free_to_push a s \<Longrightarrow> a \<notin> set xs \<Longrightarrow>
      \<exists>s'. push a s = Inr s' \<and> content s' (xs @ [a]) \<and> (\<forall>b. free_to_push b s \<longrightarrow> free_to_push b s')"
    and pop_Nil: "content s [] \<Longrightarrow> pop s = Inr (None, s)"
    and pop_Cons: "content s (x # xs) \<Longrightarrow> \<exists>s'. pop s = Inr (Some x, s') \<and> content s' xs"
begin

fun push_all :: "'a list \<Rightarrow> 's \<Rightarrow> 's res" where
  "push_all [] s = Inr s"
| "push_all (a # as) s = rbind (push a s) (push_all as)"

fun pop_many :: "nat \<Rightarrow> 's \<Rightarrow> ('a list \<times> 's) res" where
  "pop_many 0 s = Inr ([], s)"
| "pop_many (Suc n) s = rbind (pop s) (\<lambda>(x, s'). case x of None \<Rightarrow> Inr ([], s')
     | Some a \<Rightarrow> rbind (pop_many n s') (\<lambda>(as, s''). Inr (a # as, s'')))"

lemma push_all_ok:
  "content s xs \<Longrightarrow> distinct as \<Longrightarrow> set as \<inter> set xs = {} \<Longrightarrow> \<forall>a\<in>set as. free_to_push a s \<Longrightarrow>
   \<exists>s'. push_all as s = Inr s' \<and> content s' (xs @ as)"
proof (induction as arbitrary: s xs)
  case (Cons a as)
  from push_ok [OF Cons.prems(1), of a] Cons.prems obtain s' where
    s': "push a s = Inr s'" "content s' (xs @ [a])" "\<forall>b. free_to_push b s \<longrightarrow> free_to_push b s'" by auto
  have "\<exists>s''. push_all as s' = Inr s'' \<and> content s'' ((xs @ [a]) @ as)"
    using Cons.prems s'(2,3) by (intro Cons.IH) auto
  with s'(1) show ?case by simp
qed simp

lemma pop_many_ok:
  "content s xs \<Longrightarrow> length xs \<le> n \<Longrightarrow> \<exists>s'. pop_many n s = Inr (xs, s') \<and> content s' []"
proof (induction n arbitrary: s xs)
  case (Suc n)
  show ?case
  proof (cases xs)
    case Nil
    with Suc.prems(1) show ?thesis by (simp add: pop_Nil)
  next
    case (Cons x xs')
    with pop_Cons Suc.prems(1) obtain s' where "pop s = Inr (Some x, s')" "content s' xs'" by metis
    with Suc.IH [of s' xs'] Suc.prems(2) Cons show ?thesis by auto
  qed
qed simp

theorem fifo:
  assumes "content s []" and "distinct as" and "\<forall>a\<in>set as. free_to_push a s"
  shows "\<exists>s' s''. push_all as s = Inr s' \<and> pop_many (length as) s' = Inr (as, s'') \<and> content s'' []"
  using push_all_ok [OF assms(1,2)] assms(3) pop_many_ok [of _ as "length as"] by fastforce

end

end
