(* ===== verification/Liby_Epoll.thy ===== *)
theory Liby_Epoll
  imports Intrusive_List
begin

text \<open>
  The state of the C library liby and the model of \<open>liby/src/epoll.c\<close>. Objects live at addresses
  that \<open>malloc\<close> hands out in order and never reuses; \<open>live\<close> is the set of objects not freed yet.
  The list members of an object are numbered as below. The kernel's part is the interest table of
  the epoll descriptors and the trace of what the library did to the outside: handler calls,
  bytes written, descriptors closed.

  One thread runs at a time: the mutexes are not in the state, and an operation is one step. Where
  a source function would fail in \<open>malloc\<close> it exits; the model has no such failure.
\<close>

section \<open>Structures\<close>

abbreviation EPOLLIN :: u32 where "EPOLLIN \<equiv> 0x001"
abbreviation EPOLLOUT :: u32 where "EPOLLOUT \<equiv> 0x004"
abbreviation EPOLLERR :: u32 where "EPOLLERR \<equiv> 0x008"
abbreviation EPOLLHUP :: u32 where "EPOLLHUP \<equiv> 0x010"
abbreviation EPOLLRDHUP :: u32 where "EPOLLRDHUP \<equiv> 0x2000"
abbreviation EPOLLET :: u32 where "EPOLLET \<equiv> 0x80000000"
abbreviation EAGAIN :: int where "EAGAIN \<equiv> 11"

text \<open>The list members: \<open>io_task.list\<close>; \<open>liby_client.list\<close> and the two heads of its task lists;
  \<open>liby_server.list\<close> and the head of its clients; the two heads of the loop.\<close>

abbreviation task_list :: "nat \<Rightarrow> lptr" where "task_list t \<equiv> Member t 0"
abbreviation client_list :: "nat \<Rightarrow> lptr" where "client_list c \<equiv> Member c 0"
abbreviation read_list_head :: "nat \<Rightarrow> lptr" where "read_list_head c \<equiv> Member c 2"
abbreviation write_list_head :: "nat \<Rightarrow> lptr" where "write_list_head c \<equiv> Member c 3"
abbreviation server_list :: "nat \<Rightarrow> lptr" where "server_list s \<equiv> Member s 0"
abbreviation server_clients :: "nat \<Rightarrow> lptr" where "server_clients s \<equiv> Member s 2"
abbreviation loop_clients :: "nat \<Rightarrow> lptr" where "loop_clients l \<equiv> Member l 0"
abbreviation loop_servers :: "nat \<Rightarrow> lptr" where "loop_servers l \<equiv> Member l 2"

record io_task =
  t_buf :: nat
  t_size :: int
  t_offset :: int
  min_except_bytes :: int
  t_handler :: "nat option"

text \<open>The release function of a client's data is \<open>free\<close> of the C library or one of the user's.\<close>

datatype release_func = Libc_free | Release nat

record liby_client =
  destroy :: bool
  sockfd :: int
  c_epoller :: "nat option"
  c_ch :: nat
  c_loop :: nat
  c_server :: "nat option"
  curr_read_task :: "nat option"
  curr_write_task :: "nat option"
  c_data :: "nat option"
  release_data_func :: "release_func option"
  conn_func :: "nat option"
  c_events :: u32

record liby_server =
  listenfd :: int
  s_epoller :: "nat option"
  s_loop :: "nat option"
  s_ch :: nat
  s_events :: u32
  acceptor :: "nat option"

record liby_loop =
  maxfds :: int
  nthreads :: nat
  keep_running :: bool
  epollers :: "nat option list"

record epoller =
  epfd :: int
  epollsize :: int
  e_flag :: bool

text \<open>\<open>chan.event\<close> points at the \<open>event\<close> of the client or server in \<open>chan.p\<close>, and the handler is
  one of the two of liby; both are told by the constructor.\<close>

datatype chan_owner = Client_chan nat | Server_chan nat

record chan =
  ch_p :: chan_owner
  ch_fd :: int

datatype event =
    Handled nat nat nat int int
  | Accepted nat nat
  | Released nat nat
  | Sent int "byte list"
  | Closed int

record world = lmem +
  brk :: nat
  tasks :: "nat \<Rightarrow> io_task"
  clients :: "nat \<Rightarrow> liby_client"
  servers :: "nat \<Rightarrow> liby_server"
  loops :: "nat \<Rightarrow> liby_loop"
  epolls :: "nat \<Rightarrow> epoller"
  chans :: "nat \<Rightarrow> chan"
  bufs :: "nat \<Rightarrow> byte list"
  interest :: "int \<times> int \<Rightarrow> u32 option"
  trace :: "event list"

definition emit :: "event \<Rightarrow> world \<Rightarrow> world" where
  "emit e w = w\<lparr>trace := trace w @ [e]\<rparr>"

section \<open>Allocation\<close>

definition malloc :: "world \<Rightarrow> nat \<times> world" where
  "malloc w = (brk w, w\<lparr>brk := Suc (brk w), live := insert (brk w) (live w)\<rparr>)"

definition free :: "nat \<Rightarrow> world \<Rightarrow> world res" where
  "free a w = (if a \<in> live w then Inr (w\<lparr>live := live w - {a}\<rparr>) else Inl WildDeref)"

text \<open>Every access through a pointer to an object first checks that the object is there.\<close>

definition at :: "nat \<Rightarrow> world \<Rightarrow> unit res" where
  "at a w = guard (a \<in> live w) WildDeref"

text \<open>\<open>BZERO\<close> of an object clears its list members.\<close>

definition bzero_lists :: "nat \<Rightarrow> world \<Rightarrow> world" where
  "bzero_lists a w = w\<lparr>nxt := (\<lambda>p. case p of Member b k \<Rightarrow> if b = a then NULL else nxt w p | _ \<Rightarrow> nxt w p),
     prv := (\<lambda>p. case p of Member b k \<Rightarrow> if b = a then NULL else prv w p | _ \<Rightarrow> prv w p)\<rparr>"

section \<open>Epoll\<close>

datatype ctl_op = EPOLL_CTL_ADD | EPOLL_CTL_MOD | EPOLL_CTL_DEL

text \<open>
  \<open>epoll_ctl\<close> fails when the descriptor is already (for ADD) or not (for MOD and DEL) in the
  table; \<open>ctl\<close> then only writes a log line.
\<close>

definition epoll_ctl :: "int \<Rightarrow> ctl_op \<Rightarrow> int \<Rightarrow> u32 \<Rightarrow> world \<Rightarrow> world" where
  "epoll_ctl ep op fd ev w =
     (case op of
        EPOLL_CTL_ADD \<Rightarrow> (if interest w (ep, fd) = None
          then w\<lparr>interest := (interest w)((ep, fd) := Some ev)\<rparr> else w)
      | EPOLL_CTL_MOD \<Rightarrow> (if interest w (ep, fd) \<noteq> None
          then w\<lparr>interest := (interest w)((ep, fd) := Some ev)\<rparr> else w)
      | EPOLL_CTL_DEL \<Rightarrow> w\<lparr>interest := (interest w)((ep, fd) := None)\<rparr>)"

definition ctl :: "nat option \<Rightarrow> int \<Rightarrow> ctl_op \<Rightarrow> u32 \<Rightarrow> world \<Rightarrow> world res" where
  "ctl epoller fd op ev w =
     (case epoller of None \<Rightarrow> Inl AssertFail
      | Some e \<Rightarrow> rbind (guard (fd \<ge> 0) AssertFail) (\<lambda>_.
          rbind (at e w) (\<lambda>_. Inr (epoll_ctl (epfd (epolls w e)) op fd ev w))))"

definition epoll_mod :: "nat option \<Rightarrow> int \<Rightarrow> u32 \<Rightarrow> world \<Rightarrow> world res" where
  "epoll_mod epoller fd ev w = ctl epoller fd EPOLL_CTL_MOD ev w"

definition epoll_add :: "nat option \<Rightarrow> int \<Rightarrow> u32 \<Rightarrow> world \<Rightarrow> world res" where
  "epoll_add epoller fd ev w = ctl epoller fd EPOLL_CTL_ADD ev w"

definition epoll_del :: "nat option \<Rightarrow> int \<Rightarrow> u32 \<Rightarrow> world \<Rightarrow> world res" where
  "epoll_del epoller fd ev w = ctl epoller fd EPOLL_CTL_DEL ev w"

text \<open>\<open>epoll_create\<close> returns the descriptor \<open>fd\<close>; below zero, \<open>epoller_init\<close> returns null.\<close>

definition epoller_init :: "int \<Rightarrow> int \<Rightarrow> world \<Rightarrow> nat option \<times> world" where
  "epoller_init fd epollsz w =
     (let sz = (if epollsz \<le> 0 then 10240 else epollsz) in
      if fd < 0 then (None, w)
      else (let (a, w1) = malloc w in
            (Some a, w1\<lparr>epolls := (epolls w1)(a := \<lparr>epfd = fd, epollsize = sz, e_flag = False\<rparr>)\<rparr>)))"

definition epoller_destroy :: "nat \<Rightarrow> world \<Rightarrow> world res" where
  "epoller_destroy e w =
     rbind (at e w) (\<lambda>_.
     rbind (guard (epfd (epolls w e) \<ge> 0) AssertFail) (\<lambda>_.
     free e (emit (Closed (epfd (epolls w e))) w)))"

text \<open>\<open>ch->event->events\<close> reads the event of the owner.\<close>

definition ch_events :: "chan \<Rightarrow> world \<Rightarrow> u32 res" where
  "ch_events ch w = (case ch_p ch of
      Client_chan c \<Rightarrow> rbind (at c w) (\<lambda>_. Inr (c_events (clients w c)))
    | Server_chan s \<Rightarrow> rbind (at s w) (\<lambda>_. Inr (s_events (servers w s))))"

definition add_chan_to_epoller :: "nat option \<Rightarrow> nat \<Rightarrow> world \<Rightarrow> world res" where
  "add_chan_to_epoller epoller ch w =
     rbind (at ch w) (\<lambda>_.
     rbind (guard (ch_fd (chans w ch) \<ge> 0) AssertFail) (\<lambda>_.
     rbind (ch_events (chans w ch) w) (\<lambda>ev.
     epoll_add epoller (ch_fd (chans w ch)) ev w)))"

definition remove_chan_from_epoller :: "nat option \<Rightarrow> nat \<Rightarrow> world \<Rightarrow> world res" where
  "remove_chan_from_epoller epoller ch w =
     rbind (at ch w) (\<lambda>_.
     rbind (guard (ch_fd (chans w ch) \<ge> 0) AssertFail) (\<lambda>_.
     rbind (ch_events (chans w ch) w) (\<lambda>ev.
     epoll_del epoller (ch_fd (chans w ch)) ev w)))"

definition mod_chan_of_epoller :: "nat option \<Rightarrow> nat \<Rightarrow> world \<Rightarrow> world res" where
  "mod_chan_of_epoller epoller ch w =
     rbind (at ch w) (\<lambda>_.
     rbind (guard (ch_fd (chans w ch) \<ge> 0) AssertFail) (\<lambda>_.
     rbind (ch_events (chans w ch) w) (\<lambda>ev.
     epoll_mod epoller (ch_fd (chans w ch)) ev w)))"

definition make_chan :: "chan_owner \<Rightarrow> int \<Rightarrow> world \<Rightarrow> nat \<times> world" where
  "make_chan p fd w =
     (let (a, w1) = malloc w in (a, w1\<lparr>chans := (chans w1)(a := \<lparr>ch_p = p, ch_fd = fd\<rparr>)\<rparr>))"

text \<open>Closing a descriptor takes it out of every interest table.\<close>

definition destroy_chan :: "nat \<Rightarrow> world \<Rightarrow> world res" where
  "destroy_chan ch w =
     rbind (at ch w) (\<lambda>_.
     let fd = ch_fd (chans w ch) in
     rbind (guard (fd \<ge> 0) AssertFail) (\<lambda>_.
     free ch (emit (Closed fd) (w\<lparr>interest := (\<lambda>(e, f). if f = fd then None else interest w (e, f))\<rparr>))))"

end
