(* ===== verification/Liby.thy ===== *)
theory Liby
  imports Liby_Epoll
begin

text \<open>
  Model of \<open>liby/src/liby.c\<close>: the loop, its servers and clients, and the queues of read and write
  tasks of a client that the epoll handlers work off.

  User callbacks are the record \<open>callbacks\<close>: a callback gets the state and returns a state, so it
  may call any operation of the library. System calls return what the kernel chooses: the results
  of the successive \<open>read\<close>, \<open>write\<close> and \<open>accept\<close> calls of one handler run are an argument, and the
  end of that list stands for a call that would block (\<open>EAGAIN\<close>).
\<close>

record callbacks =
  on_io :: "nat \<Rightarrow> nat \<Rightarrow> nat \<Rightarrow> int \<Rightarrow> int \<Rightarrow> world \<Rightarrow> world res"
  on_accept :: "nat \<Rightarrow> nat \<Rightarrow> world \<Rightarrow> world res"
  on_release :: "nat \<Rightarrow> nat \<Rightarrow> world \<Rightarrow> world res"

text \<open>
  \<open>read\<close> returns the number of bytes it read (0 at the end of the file) or -1, \<open>write\<close> the number of
  bytes it wrote or -1; the last argument is the value of \<open>errno\<close> after the call.
\<close>

datatype read_result = Read "byte list" int | Read_fail int

datatype write_result = Wrote nat int | Write_fail int

fun read_ret :: "read_result \<Rightarrow> int \<times> byte list \<times> int" where
  "read_ret (Read bs errno) = (int (length bs), bs, errno)"
| "read_ret (Read_fail errno) = (-1, [], errno)"

fun write_ret :: "write_result \<Rightarrow> int \<times> int" where
  "write_ret (Wrote n errno) = (int n, errno)"
| "write_ret (Write_fail errno) = (-1, errno)"

section \<open>Updates of one object\<close>

definition upd_client :: "nat \<Rightarrow> (liby_client \<Rightarrow> liby_client) \<Rightarrow> world \<Rightarrow> world res" where
  "upd_client c f w = rbind (at c w) (\<lambda>_. Inr (w\<lparr>clients := (clients w)(c := f (clients w c))\<rparr>))"

definition upd_server :: "nat \<Rightarrow> (liby_server \<Rightarrow> liby_server) \<Rightarrow> world \<Rightarrow> world res" where
  "upd_server s f w = rbind (at s w) (\<lambda>_. Inr (w\<lparr>servers := (servers w)(s := f (servers w s))\<rparr>))"

section \<open>Tasks\<close>

definition io_task_destroy :: "nat \<Rightarrow> world \<Rightarrow> world res" where
  "io_task_destroy t w = free t w"

text \<open>\<open>if (p->handler) p->handler(client, p->buf, off, ec)\<close>\<close>

definition call_handler :: "callbacks \<Rightarrow> nat \<Rightarrow> nat \<Rightarrow> int \<Rightarrow> int \<Rightarrow> world \<Rightarrow> world res" where
  "call_handler cb c t off ec w =
     rbind (at t w) (\<lambda>_.
     case t_handler (tasks w t) of None \<Rightarrow> Inr w
     | Some h \<Rightarrow> on_io cb h c (t_buf (tasks w t)) off ec
                  (emit (Handled h c (t_buf (tasks w t)) off ec) w))"

definition push_read_task_to_client :: "nat \<Rightarrow> nat \<Rightarrow> world \<Rightarrow> world res" where
  "push_read_task_to_client task c w = list_add_tail (task_list task) (read_list_head c) w"

definition pop_task :: "lptr \<Rightarrow> world \<Rightarrow> (nat option \<times> world) res" where
  "pop_task head w =
     rbind (list_empty head w) (\<lambda>e.
     if e then Inr (None, w)
     else rbind (get_next head w) (\<lambda>p.
          rbind (list_entry p) (\<lambda>t.
          rbind (list_del (task_list t) w) (\<lambda>w. Inr (Some t, w)))))"

definition pop_read_task_from_client :: "nat \<Rightarrow> world \<Rightarrow> (nat option \<times> world) res" where
  "pop_read_task_from_client c w = pop_task (read_list_head c) w"

definition push_write_task_to_client :: "nat \<Rightarrow> nat \<Rightarrow> world \<Rightarrow> world res" where
  "push_write_task_to_client task c w = list_add_tail (task_list task) (write_list_head c) w"

definition pop_write_task_from_client :: "nat \<Rightarrow> world \<Rightarrow> (nat option \<times> world) res" where
  "pop_write_task_from_client c w = pop_task (write_list_head c) w"

section \<open>Event masks\<close>

definition set_events :: "(u32 \<Rightarrow> u32) \<Rightarrow> nat \<Rightarrow> world \<Rightarrow> world res" where
  "set_events f c w =
     rbind (at c w) (\<lambda>_.
     rbind (at (c_ch (clients w c)) w) (\<lambda>_.
     rbind (upd_client c (\<lambda>cl. cl\<lparr>c_events := f (c_events cl)\<rparr>) w) (\<lambda>w.
     mod_chan_of_epoller (c_epoller (clients w c)) (c_ch (clients w c)) w)))"

definition enable_read :: "nat \<Rightarrow> world \<Rightarrow> world res" where
  "enable_read c w = set_events (\<lambda>e. e OR EPOLLIN) c w"

definition disable_read :: "nat \<Rightarrow> world \<Rightarrow> world res" where
  "disable_read c w = set_events (\<lambda>e. e AND NOT EPOLLIN) c w"

definition enable_write :: "nat \<Rightarrow> world \<Rightarrow> world res" where
  "enable_write c w = set_events (\<lambda>e. e OR EPOLLOUT) c w"

definition disable_write :: "nat \<Rightarrow> world \<Rightarrow> world res" where
  "disable_write c w = set_events (\<lambda>e. e AND NOT EPOLLOUT) c w"

definition liby_client_readable :: "nat \<Rightarrow> world \<Rightarrow> bool res" where
  "liby_client_readable c w = rbind (at c w) (\<lambda>_. Inr (c_events (clients w c) AND EPOLLIN = 0))"

definition liby_client_writeable :: "nat \<Rightarrow> world \<Rightarrow> bool res" where
  "liby_client_writeable c w = rbind (at c w) (\<lambda>_. Inr (c_events (clients w c) AND EPOLLOUT = 0))"

section \<open>Clients: creation and destruction\<close>

definition remove_client_from_loop :: "nat \<Rightarrow> world \<Rightarrow> world res" where
  "remove_client_from_loop c w =
     rbind (at c w) (\<lambda>_. rbind (at (c_loop (clients w c)) w) (\<lambda>_. list_del (client_list c) w))"

definition remove_client_from_server :: "nat \<Rightarrow> world \<Rightarrow> world res" where
  "remove_client_from_server c w =
     rbind (at c w) (\<lambda>_.
     case c_server (clients w c) of None \<Rightarrow> Inl AssertFail
     | Some s \<Rightarrow> rbind (at s w) (\<lambda>_. list_del (client_list c) w))"

definition release_data :: "callbacks \<Rightarrow> nat \<Rightarrow> world \<Rightarrow> world res" where
  "release_data cb c w =
     (case c_data (clients w c) of
        None \<Rightarrow> (case release_data_func (clients w c) of
            Some (Release f) \<Rightarrow> on_release cb f 0 (emit (Released f 0) w) | _ \<Rightarrow> Inr w)
      | Some d \<Rightarrow> (case release_data_func (clients w c) of
            Some (Release f) \<Rightarrow> on_release cb f d (emit (Released f d) w)
          | _ \<Rightarrow> free d w))"

definition drain_body :: "callbacks \<Rightarrow> nat \<Rightarrow> lptr \<Rightarrow> world \<times> unit \<Rightarrow> (world \<times> unit) res" where
  "drain_body cb c pos s =
     rbind (list_entry pos) (\<lambda>t.
     rbind (at t (fst s)) (\<lambda>_.
     if t_handler (tasks (fst s) t) \<noteq> None
     then rbind (call_handler cb c t 0 (-1) (fst s)) (\<lambda>w.
          rbind (io_task_destroy t w) (\<lambda>w. Inr (w, ())))
     else Inr s))"

definition drain_tasks :: "callbacks \<Rightarrow> nat \<Rightarrow> lptr \<Rightarrow> world \<Rightarrow> world res" where
  "drain_tasks cb c head w =
     rbind (list_empty head w) (\<lambda>e.
     if e then Inr w
     else rbind (list_for_each (Suc (brk w)) (drain_body cb c) head (w, ())) (\<lambda>s. Inr (fst s)))"

definition liby_client_destroy :: "callbacks \<Rightarrow> nat \<Rightarrow> world \<Rightarrow> world res" where
  "liby_client_destroy cb c w =
     rbind (at c w) (\<lambda>_.
     rbind (if c_server (clients w c) \<noteq> None then remove_client_from_server c w
            else remove_client_from_loop c w) (\<lambda>w.
     rbind (case curr_read_task (clients w c) of None \<Rightarrow> Inr w | Some t \<Rightarrow> io_task_destroy t w) (\<lambda>w.
     rbind (case curr_write_task (clients w c) of None \<Rightarrow> Inr w | Some t \<Rightarrow> io_task_destroy t w) (\<lambda>w.
     rbind (drain_tasks cb c (read_list_head c) w) (\<lambda>w.
     rbind (drain_tasks cb c (write_list_head c) w) (\<lambda>w.
     rbind (release_data cb c w) (\<lambda>w.
     rbind (at c w) (\<lambda>_.
     rbind (destroy_chan (c_ch (clients w c)) w) (\<lambda>w.
     free c w)))))))))"

definition client_zero :: "nat \<Rightarrow> int \<Rightarrow> nat option \<Rightarrow> liby_client" where
  "client_zero loop clfd ep = \<lparr>destroy = False, sockfd = clfd, c_epoller = ep, c_ch = 0, c_loop = loop,
     c_server = None, curr_read_task = None, curr_write_task = None, c_data = None,
     release_data_func = None, conn_func = None,
     c_events = EPOLLIN OR EPOLLHUP OR EPOLLET OR EPOLLRDHUP\<rparr>"

definition liby_client_init :: "int \<Rightarrow> nat \<Rightarrow> world \<Rightarrow> (nat \<times> world) res" where
  "liby_client_init clfd l w =
     rbind (guard (clfd \<ge> 0) AssertFail) (\<lambda>_.
     rbind (at l w) (\<lambda>_.
     let (c, w) = malloc w;
         w = bzero_lists c w;
         (ch, w) = make_chan (Client_chan c) clfd w;
         lp = loops w l;
         ep = (if nthreads lp = 0 then epollers lp ! 0
               else epollers lp ! (1 + nat clfd mod nthreads lp));
         w = w\<lparr>clients := (clients w)(c := (client_zero l clfd ep)\<lparr>c_ch := ch\<rparr>)\<rparr> in
     rbind (INIT_LIST_HEAD (read_list_head c) w) (\<lambda>w.
     rbind (INIT_LIST_HEAD (write_list_head c) w) (\<lambda>w.
     rbind (add_chan_to_epoller ep ch w) (\<lambda>w. Inr (c, w))))))"

definition liby_client_release_data :: "callbacks \<Rightarrow> nat option \<Rightarrow> world \<Rightarrow> world res" where
  "liby_client_release_data cb client w =
     (case client of None \<Rightarrow> Inr w
      | Some c \<Rightarrow> rbind (at c w) (\<lambda>_. rbind (release_data cb c w)
          (upd_client c (\<lambda>cl. cl\<lparr>release_data_func := None, c_data := None\<rparr>))))"

definition liby_client_update_state :: "callbacks \<Rightarrow> nat \<Rightarrow> world \<Rightarrow> world res" where
  "liby_client_update_state cb c w =
     rbind (at c w) (\<lambda>_.
     if destroy (clients w c) then liby_client_destroy cb c w
     else
       rbind (list_empty (read_list_head c) w) (\<lambda>re.
       rbind (if re \<and> curr_read_task (clients w c) = None then disable_read c w else enable_read c w) (\<lambda>w.
       rbind (list_empty (write_list_head c) w) (\<lambda>we.
       if we \<and> curr_write_task (clients w c) = None then disable_write c w else enable_write c w))))"

section \<open>Reading and writing\<close>

text \<open>
  The body of the two nested loops of \<open>read_message\<close>, one \<open>read\<close> call a round; \<open>p\<close> is the current
  task. A \<open>read\<close> puts its bytes at the task's offset in the buffer.
\<close>

definition store_read :: "nat \<Rightarrow> byte list \<Rightarrow> world \<Rightarrow> world res" where
  "store_read p bs w =
     rbind (at p w) (\<lambda>_.
     let t = tasks w p; off = nat (t_offset t) in
     if off + length bs \<le> length (bufs w (t_buf t))
     then Inr (w\<lparr>bufs := (bufs w)(t_buf t := memcpy (bufs w (t_buf t)) off bs),
                tasks := (tasks w)(p := t\<lparr>t_offset := t_offset t + int (length bs)\<rparr>)\<rparr>)
     else Inl OutOfBounds)"

definition errcode :: "int \<Rightarrow> int \<Rightarrow> int" where
  "errcode ret errno = (if errno = 0 \<and> ret = 0 then -1 else errno)"

fun read_loop :: "callbacks \<Rightarrow> nat \<Rightarrow> nat \<Rightarrow> read_result list \<Rightarrow> world \<Rightarrow> world res" where
  "read_loop cb c p [] w = liby_client_update_state cb c w"
| "read_loop cb c p (r # rs) w =
     rbind (at c w) (\<lambda>_.
     let (ret, bs, errno) = read_ret r in
     if ret > 0 then
       rbind (store_read p bs w) (\<lambda>w.
       if t_offset (tasks w p) \<ge> min_except_bytes (tasks w p) then
         rbind (call_handler cb c p (t_offset (tasks w p)) 0 w) (\<lambda>w.
         rbind (pop_read_task_from_client c w) (\<lambda>(q, w).
         rbind (upd_client c (\<lambda>cl. cl\<lparr>curr_read_task := q\<rparr>) w) (\<lambda>w.
         rbind (io_task_destroy p w) (\<lambda>w.
         case q of None \<Rightarrow> liby_client_update_state cb c w
         | Some p' \<Rightarrow> read_loop cb c p' rs w))))
       else read_loop cb c p rs w)
     else if ret \<noteq> 0 \<and> errno = EAGAIN then liby_client_update_state cb c w
     else
       rbind (at p w) (\<lambda>_.
       rbind (if t_handler (tasks w p) \<noteq> None
              then rbind (disable_read c w)
                     (call_handler cb c p (t_offset (tasks w p)) (errcode ret errno))
              else Inr w) (\<lambda>w.
       liby_client_destroy cb c w)))"

definition read_message :: "callbacks \<Rightarrow> nat \<Rightarrow> read_result list \<Rightarrow> world \<Rightarrow> world res" where
  "read_message cb c rs w =
     rbind (at c w) (\<lambda>_.
     rbind (guard (c_epoller (clients w c) \<noteq> None) AssertFail) (\<lambda>_.
     case curr_read_task (clients w c) of
       Some p \<Rightarrow> read_loop cb c p rs w
     | None \<Rightarrow>
         rbind (pop_read_task_from_client c w) (\<lambda>(q, w).
         rbind (upd_client c (\<lambda>cl. cl\<lparr>curr_read_task := q\<rparr>) w) (\<lambda>w.
         case q of None \<Rightarrow> Inr w | Some p \<Rightarrow> read_loop cb c p rs w))))"

text \<open>A successful \<open>write\<close> of \<open>n\<close> bytes sends the \<open>n\<close> bytes at the task's offset.\<close>

definition send_bytes :: "nat \<Rightarrow> nat \<Rightarrow> nat \<Rightarrow> world \<Rightarrow> world res" where
  "send_bytes c p n w =
     rbind (at p w) (\<lambda>_.
     let t = tasks w p; off = nat (t_offset t) in
     if off + n \<le> length (bufs w (t_buf t))
     then Inr ((emit (Sent (sockfd (clients w c)) (take n (drop off (bufs w (t_buf t))))) w)
            \<lparr>tasks := (tasks w)(p := t\<lparr>t_offset := t_offset t + int n\<rparr>)\<rparr>)
     else Inl OutOfBounds)"

fun write_loop :: "callbacks \<Rightarrow> nat \<Rightarrow> nat \<Rightarrow> write_result list \<Rightarrow> world \<Rightarrow> world res" where
  "write_loop cb c p [] w = liby_client_update_state cb c w"
| "write_loop cb c p (r # rs) w =
     rbind (at c w) (\<lambda>_.
     let (ret, errno) = write_ret r in
     if ret > 0 then
       rbind (send_bytes c p (nat ret) w) (\<lambda>w.
       if t_offset (tasks w p) \<ge> min_except_bytes (tasks w p) then
         rbind (call_handler cb c p (t_offset (tasks w p)) 0 w) (\<lambda>w.
         rbind (pop_write_task_from_client c w) (\<lambda>(q, w).
         rbind (upd_client c (\<lambda>cl. cl\<lparr>curr_write_task := q\<rparr>) w) (\<lambda>w.
         rbind (io_task_destroy p w) (\<lambda>w.
         case q of None \<Rightarrow> liby_client_update_state cb c w
         | Some p' \<Rightarrow> write_loop cb c p' rs w))))
       else write_loop cb c p rs w)
     else if ret \<noteq> 0 \<and> errno = EAGAIN then liby_client_update_state cb c w
     else
       rbind (at p w) (\<lambda>_.
       rbind (call_handler cb c p (t_offset (tasks w p)) (errcode ret errno) w) (\<lambda>w.
       liby_client_destroy cb c w)))"

definition write_message :: "callbacks \<Rightarrow> nat \<Rightarrow> write_result list \<Rightarrow> world \<Rightarrow> world res" where
  "write_message cb c rs w =
     rbind (at c w) (\<lambda>_.
     rbind (guard (c_epoller (clients w c) \<noteq> None) AssertFail) (\<lambda>_.
     case curr_write_task (clients w c) of
       Some p \<Rightarrow> write_loop cb c p rs w
     | None \<Rightarrow>
         rbind (pop_write_task_from_client c w) (\<lambda>(q, w).
         rbind (upd_client c (\<lambda>cl. cl\<lparr>curr_write_task := q\<rparr>) w) (\<lambda>w.
         case q of None \<Rightarrow> Inr w | Some p \<Rightarrow> write_loop cb c p rs w))))"

text \<open>
  \<open>liby_async_read_some\<close> never assigns \<open>min_except_bytes\<close>: the statement only names the field, so it
  keeps what \<open>malloc\<close> left there, the argument \<open>junk\<close>.
\<close>

definition new_task :: "nat \<Rightarrow> int \<Rightarrow> int \<Rightarrow> nat option \<Rightarrow> world \<Rightarrow> nat \<times> world" where
  "new_task buf sz mn h w =
     (let (t, w) = malloc w in
      (t, w\<lparr>tasks := (tasks w)(t := \<lparr>t_buf = buf, t_size = sz, t_offset = 0,
              min_except_bytes = mn, t_handler = h\<rparr>)\<rparr>))"

definition default_buffer :: "nat option \<Rightarrow> int \<Rightarrow> world \<Rightarrow> nat \<times> int \<times> world" where
  "default_buffer buf sz w =
     (case buf of Some b \<Rightarrow> (b, sz, w)
      | None \<Rightarrow> let (b, w) = malloc w in (b, 4096, w\<lparr>bufs := (bufs w)(b := replicate 4096 0)\<rparr>))"

definition liby_async_read_some :: "int \<Rightarrow> nat \<Rightarrow> nat option \<Rightarrow> int \<Rightarrow> nat option \<Rightarrow> world \<Rightarrow> world res" where
  "liby_async_read_some junk c buf buffersize h w =
     (let (b, sz, w) = default_buffer buf buffersize w; (t, w) = new_task b sz junk h w in
      rbind (push_read_task_to_client t c w) (enable_read c))"

definition liby_async_read :: "int \<Rightarrow> nat \<Rightarrow> nat option \<Rightarrow> world \<Rightarrow> world res" where
  "liby_async_read junk c h w = liby_async_read_some junk c None 0 h w"

definition liby_async_write_some :: "nat \<Rightarrow> nat option \<Rightarrow> int \<Rightarrow> nat option \<Rightarrow> world \<Rightarrow> world res" where
  "liby_async_write_some c buf buffersize h w =
     rbind (guard (buffersize \<noteq> 0 \<and> buf \<noteq> None) AssertFail) (\<lambda>_.
     let (b, sz, w) = default_buffer buf buffersize w; (t, w) = new_task b sz 0 h w in
     rbind (push_write_task_to_client t c w) (enable_write c))"

section \<open>Servers and the loop\<close>

text \<open>\<open>initserver\<close> returned the descriptor \<open>fd\<close>.\<close>

definition liby_server_init :: "int \<Rightarrow> nat option \<Rightarrow> world \<Rightarrow> (nat \<times> world) res" where
  "liby_server_init fd acc w =
     rbind (guard (acc \<noteq> None) AssertFail) (\<lambda>_.
     let (s, w) = malloc w;
         w = bzero_lists s w in
     rbind (guard (fd \<ge> 0) (Exit 1)) (\<lambda>_.
     rbind (INIT_LIST_HEAD (server_clients s) w) (\<lambda>w.
     let (ch, w) = make_chan (Server_chan s) fd w in
     Inr (s, w\<lparr>servers := (servers w)(s := \<lparr>listenfd = fd, s_epoller = None, s_loop = None,
            s_ch = ch, s_events = 0, acceptor = acc\<rparr>)\<rparr>))))"

definition destroy_client_body :: "callbacks \<Rightarrow> lptr \<Rightarrow> world \<times> unit \<Rightarrow> (world \<times> unit) res" where
  "destroy_client_body cb pos s =
     rbind (list_entry pos) (\<lambda>c. rbind (liby_client_destroy cb c (fst s)) (\<lambda>w. Inr (w, ())))"

definition liby_server_destroy :: "callbacks \<Rightarrow> nat \<Rightarrow> world \<Rightarrow> world res" where
  "liby_server_destroy cb s w =
     rbind (at s w) (\<lambda>_.
     rbind (guard (listenfd (servers w s) \<ge> 0) AssertFail) (\<lambda>_.
     rbind (list_for_each (Suc (Suc (brk w))) (destroy_client_body cb) (server_clients s) (w, ())) (\<lambda>(w, _).
     rbind (destroy_chan (s_ch (servers w s)) w) (\<lambda>w.
     free s w))))"

definition add_server_to_loop :: "nat \<Rightarrow> nat \<Rightarrow> world \<Rightarrow> world res" where
  "add_server_to_loop s l w =
     rbind (at l w) (\<lambda>_.
     let lp = loops w l; ep = epollers lp ! 0 in
     rbind (upd_server s (\<lambda>sv. sv\<lparr>s_loop := Some l, s_epoller := ep\<rparr>) w) (\<lambda>w.
     rbind (list_add_tail (server_list s) (loop_servers l) w) (\<lambda>w.
     rbind (upd_server s (\<lambda>sv. sv\<lparr>s_events := EPOLLIN OR EPOLLHUP OR EPOLLET\<rparr>) w) (\<lambda>w.
     rbind (if keep_running lp
            then (case ep of None \<Rightarrow> Inl NullDeref
                  | Some e \<Rightarrow> rbind (at e w) (\<lambda>_.
                      Inr (w\<lparr>epolls := (epolls w)(e := (epolls w e)\<lparr>e_flag := True\<rparr>)\<rparr>)))
            else Inr w) (\<lambda>w.
     add_chan_to_epoller ep (s_ch (servers w s)) w)))))"

definition remove_server_from_loop :: "nat \<Rightarrow> world \<Rightarrow> world res" where
  "remove_server_from_loop s w =
     rbind (at s w) (\<lambda>_.
     case s_loop (servers w s) of None \<Rightarrow> Inl AssertFail
     | Some l \<Rightarrow> rbind (at l w) (\<lambda>_. list_del (server_list s) w))"

fun accept_loop :: "callbacks \<Rightarrow> nat \<Rightarrow> (int \<times> int) list \<Rightarrow> world \<Rightarrow> world res" where
  "accept_loop cb s [] w = Inr w"
| "accept_loop cb s ((clfd, errno) # as) w =
     (if clfd < 0 \<and> errno = EAGAIN then Inr w
      else rbind (at s w) (\<lambda>_.
           case s_loop (servers w s) of None \<Rightarrow> Inl AssertFail
           | Some l \<Rightarrow>
               rbind (liby_client_init clfd l w) (\<lambda>(c, w).
               rbind (upd_client c (\<lambda>cl. cl\<lparr>c_server := Some s\<rparr>) w) (\<lambda>w.
               rbind (list_add_tail (client_list c) (server_clients s) w) (\<lambda>w.
               rbind (case acceptor (servers w s) of None \<Rightarrow> Inr w
                      | Some f \<Rightarrow> on_accept cb f c (emit (Accepted f c) w)) (\<lambda>w.
               accept_loop cb s as w))))))"

definition liby_server_acceptor :: "callbacks \<Rightarrow> nat \<Rightarrow> u32 \<Rightarrow> (int \<times> int) list \<Rightarrow> world \<Rightarrow> world res" where
  "liby_server_acceptor cb s ev as w =
     rbind (at s w) (\<lambda>_.
     if ev AND EPOLLERR \<noteq> 0 then remove_server_from_loop s w
     else accept_loop cb s as w)"

definition liby_client_handler :: "callbacks \<Rightarrow> nat \<Rightarrow> u32 \<Rightarrow> read_result list \<Rightarrow> write_result list \<Rightarrow> world \<Rightarrow> world res"
where
  "liby_client_handler cb c ev rs ws w =
     rbind (at c w) (\<lambda>_.
     if ev AND EPOLLHUP \<noteq> 0 \<or> ev AND EPOLLERR \<noteq> 0 \<or> ev AND EPOLLRDHUP \<noteq> 0
     then liby_client_destroy cb c w
     else if ev AND EPOLLIN \<noteq> 0 then read_message cb c rs w
     else if ev AND EPOLLOUT \<noteq> 0 then write_message cb c ws w
     else Inr w)"

text \<open>One event that \<open>epoll_wait\<close> reports: the channel, the mask, and what the system calls of its
  handler will return.\<close>

record ready =
  r_chan :: nat
  r_events :: u32
  r_accepts :: "(int \<times> int) list"
  r_reads :: "read_result list"
  r_writes :: "write_result list"

definition event_handler :: "callbacks \<Rightarrow> ready \<Rightarrow> world \<Rightarrow> world res" where
  "event_handler cb r w =
     rbind (at (r_chan r) w) (\<lambda>_.
     case ch_p (chans w (r_chan r)) of
       Client_chan c \<Rightarrow> liby_client_handler cb c (r_events r) (r_reads r) (r_writes r) w
     | Server_chan s \<Rightarrow> liby_server_acceptor cb s (r_events r) (r_accepts r) w)"

fun dispatch :: "callbacks \<Rightarrow> ready list \<Rightarrow> world \<Rightarrow> world res" where
  "dispatch cb [] w = Inr w"
| "dispatch cb (r # rs) w = rbind (event_handler cb r w) (dispatch cb rs)"

datatype wait_result = Ready "ready list" | Wait_error int

text \<open>The loop over the results of \<open>epoll_wait\<close>; the end of the list is a wait that blocks.\<close>

fun epoll_rounds :: "callbacks \<Rightarrow> nat \<Rightarrow> wait_result list \<Rightarrow> world \<Rightarrow> world res" where
  "epoll_rounds cb e [] w = Inr w"
| "epoll_rounds cb e (x # xs) w =
     rbind (at e w) (\<lambda>_.
     if \<not> e_flag (epolls w e) then Inr w
     else case x of
       Wait_error errno \<Rightarrow> if errno \<noteq> 4 then Inl (Exit 1) else epoll_rounds cb e xs w
     | Ready rs \<Rightarrow> rbind (dispatch cb rs w) (epoll_rounds cb e xs))"

definition run_epoll_main_loop :: "callbacks \<Rightarrow> nat option \<Rightarrow> wait_result list \<Rightarrow> world \<Rightarrow> world res" where
  "run_epoll_main_loop cb epoller xs w =
     (case epoller of None \<Rightarrow> Inl NullDeref
      | Some e \<Rightarrow> rbind (at e w) (\<lambda>_.
          epoll_rounds cb e xs (w\<lparr>epolls := (epolls w)(e := (epolls w e)\<lparr>e_flag := True\<rparr>)\<rparr>)))"

fun init_epollers :: "int list \<Rightarrow> int \<Rightarrow> world \<Rightarrow> nat option list \<times> world" where
  "init_epollers [] sz w = ([], w)"
| "init_epollers (fd # fds) sz w =
     (let (e, w) = epoller_init fd sz w; (es, w) = init_epollers fds sz w in (e # es, w))"

text \<open>\<open>fds\<close> holds what \<open>epoll_create\<close> returns for each of the \<open>nthreads + 1\<close> pollers.\<close>

definition liby_loop_create :: "int \<Rightarrow> int list \<Rightarrow> world \<Rightarrow> (nat \<times> world) res" where
  "liby_loop_create maxfd fds w =
     (let (l, w) = malloc w;
          w = bzero_lists l w;
          (es, w) = init_epollers fds maxfd w;
          w = w\<lparr>loops := (loops w)(l := \<lparr>maxfds = maxfd, nthreads = length fds - 1,
                keep_running = False, epollers = es\<rparr>)\<rparr> in
      rbind (INIT_LIST_HEAD (loop_clients l) w) (\<lambda>w.
      rbind (INIT_LIST_HEAD (loop_servers l) w) (\<lambda>w. Inr (l, w))))"

fun destroy_epollers :: "nat option list \<Rightarrow> world \<Rightarrow> world res" where
  "destroy_epollers [] w = Inr w"
| "destroy_epollers (e # es) w =
     (case e of None \<Rightarrow> Inl AssertFail | Some a \<Rightarrow> rbind (epoller_destroy a w) (destroy_epollers es))"

definition destroy_server_body :: "callbacks \<Rightarrow> lptr \<Rightarrow> world \<times> unit \<Rightarrow> (world \<times> unit) res" where
  "destroy_server_body cb pos s =
     rbind (list_entry pos) (\<lambda>sv. rbind (liby_server_destroy cb sv (fst s)) (\<lambda>w. Inr (w, ())))"

definition liby_loop_destroy :: "callbacks \<Rightarrow> nat \<Rightarrow> world \<Rightarrow> world res" where
  "liby_loop_destroy cb l w =
     rbind (at l w) (\<lambda>_.
     let w = w\<lparr>loops := (loops w)(l := (loops w l)\<lparr>keep_running := False\<rparr>)\<rparr> in
     rbind (destroy_epollers (epollers (loops w l)) w) (\<lambda>w.
     rbind (list_for_each (Suc (Suc (brk w))) (destroy_client_body cb) (loop_clients l) (w, ())) (\<lambda>(w, _).
     rbind (list_for_each (Suc (Suc (brk w))) (destroy_server_body cb) (loop_servers l) (w, ())) (\<lambda>(w, _).
     Inr w))))"

section \<open>Enumerations and accessors\<close>

definition collect_body :: "lptr \<Rightarrow> world \<times> nat list \<Rightarrow> (world \<times> nat list) res" where
  "collect_body pos s = rbind (list_entry pos) (\<lambda>a. Inr (fst s, snd s @ [a]))"

definition collect :: "lptr \<Rightarrow> world \<Rightarrow> nat list res" where
  "collect head w =
     rbind (list_empty head w) (\<lambda>e.
     if e then Inr []
     else rbind (list_for_each (Suc (brk w)) collect_body head (w, [])) (\<lambda>s. Inr (snd s)))"

definition get_servers_of_loop :: "nat \<Rightarrow> world \<Rightarrow> nat list res" where
  "get_servers_of_loop l w = collect (loop_servers l) w"

definition get_clients_of_loop :: "nat \<Rightarrow> world \<Rightarrow> nat list res" where
  "get_clients_of_loop l w = collect (loop_clients l) w"

definition get_clients_of_server :: "nat \<Rightarrow> world \<Rightarrow> nat list res" where
  "get_clients_of_server s w = collect (server_clients s) w"

definition set_connect_handler_for_client :: "nat \<Rightarrow> nat option \<Rightarrow> world \<Rightarrow> world res" where
  "set_connect_handler_for_client c f w = upd_client c (\<lambda>cl. cl\<lparr>conn_func := f\<rparr>) w"

definition set_acceptor_for_server :: "nat \<Rightarrow> nat option \<Rightarrow> world \<Rightarrow> world res" where
  "set_acceptor_for_server s f w = upd_server s (\<lambda>sv. sv\<lparr>acceptor := f\<rparr>) w"

definition liby_client_set_data :: "nat \<Rightarrow> nat \<Rightarrow> release_func option \<Rightarrow> world \<Rightarrow> world res" where
  "liby_client_set_data c d f w = upd_client c (\<lambda>cl. cl\<lparr>release_data_func := f, c_data := Some d\<rparr>) w"

definition liby_client_set_data_with_free :: "nat \<Rightarrow> nat \<Rightarrow> world \<Rightarrow> world res" where
  "liby_client_set_data_with_free c d w = liby_client_set_data c d (Some Libc_free) w"

definition liby_client_set_data_without_free :: "nat \<Rightarrow> nat \<Rightarrow> world \<Rightarrow> world res" where
  "liby_client_set_data_without_free c d w = liby_client_set_data c d None w"

definition liby_client_get_data :: "nat \<Rightarrow> world \<Rightarrow> nat option res" where
  "liby_client_get_data c w = rbind (at c w) (\<lambda>_. Inr (c_data (clients w c)))"

definition liby_destroy_client_later :: "nat \<Rightarrow> world \<Rightarrow> world res" where
  "liby_destroy_client_later c w = upd_client c (\<lambda>cl. cl\<lparr>destroy := True\<rparr>) w"

end
