(* ===== verification/Liby_Queues.thy ===== *)
theory Liby_Queues
  imports Liby
begin

text \<open>
  The task queues of a liby client: \<open>liby.c\<close>'s pushes and pops are an instance of the queue
  interface \<open>fifo_queue\<close>, the event mask follows the queues, \<open>write_message\<close> works the write queue
  off in order, and what destroying a client does in each situation.
\<close>

lemma at_simps [simp]: "a \<in> live w \<Longrightarrow> at a w = Inr ()" "a \<notin> live w \<Longrightarrow> at a w = Inl WildDeref"
  by (simp_all add: at_def)

section \<open>Rings and the other fields of the state\<close>

lemma ring_fields [simp]:
  fixes w :: world
  shows "ring (w\<lparr>brk := x1\<rparr>) h xs = ring w h xs"
    "ring (w\<lparr>tasks := x2\<rparr>) h xs = ring w h xs"
    "ring (w\<lparr>clients := x3\<rparr>) h xs = ring w h xs"
    "ring (w\<lparr>servers := x4\<rparr>) h xs = ring w h xs"
    "ring (w\<lparr>loops := x5\<rparr>) h xs = ring w h xs"
    "ring (w\<lparr>epolls := x6\<rparr>) h xs = ring w h xs"
    "ring (w\<lparr>chans := x7\<rparr>) h xs = ring w h xs"
    "ring (w\<lparr>bufs := x8\<rparr>) h xs = ring w h xs"
    "ring (w\<lparr>interest := x9\<rparr>) h xs = ring w h xs"
    "ring (w\<lparr>trace := x10\<rparr>) h xs = ring w h xs"
  by (rule ring_cong; simp)+

lemma ring_emit [simp]: "ring (emit e w) h xs = ring w h xs"
  by (simp add: emit_def)

lemma emit_simps [simp]:
  "live (emit e w) = live w" "brk (emit e w) = brk w" "tasks (emit e w) = tasks w" "clients (emit e w) = clients w"
  "servers (emit e w) = servers w" "loops (emit e w) = loops w" "epolls (emit e w) = epolls w"
  "chans (emit e w) = chans w" "bufs (emit e w) = bufs w" "interest (emit e w) = interest w"
  "trace (emit e w) = trace w @ [e]"
  by (simp_all add: emit_def)

lemma ring_live_cong:
  assumes "\<And>p. p \<in> set (h # xs) \<Longrightarrow> nxt m p = nxt m' p \<and> prv m p = prv m' p \<and> ok p m'" and "ring m h xs"
  shows "ring m' h xs"
proof -
  have "adj m' (h # xs @ [h])"
    using ring_adj [OF assms(2)] assms(1) by (subst adj_cong [of _ _ m]) (auto simp: butlast_append)
  with assms ring_distinct [OF assms(2)] show ?thesis unfolding ring_def by blast
qed

lemma ring_free:
  assumes "ring m h xs" and "\<And>k. Member a k \<notin> set (h # xs)"
  shows "ring (m\<lparr>live := live m - {a}\<rparr>) h xs"
proof (rule ring_live_cong [OF _ assms(1)])
  fix p assume "p \<in> set (h # xs)"
  with ring_okD [OF assms(1)] assms(2) have "ok p m" "\<forall>k. p \<noteq> Member a k" by blast+
  then show "nxt m p = nxt (m\<lparr>live := live m - {a}\<rparr>) p \<and> prv m p = prv (m\<lparr>live := live m - {a}\<rparr>) p \<and>
      ok p (m\<lparr>live := live m - {a}\<rparr>)"
    by (cases p) auto
qed

lemma ring_alloc:
  assumes "ring m h xs"
  shows "ring (m\<lparr>live := insert a (live m)\<rparr>) h xs"
proof (rule ring_live_cong [OF _ assms])
  fix p assume "p \<in> set (h # xs)"
  with ring_okD [OF assms] have "ok p m" by blast
  then show "nxt m p = nxt (m\<lparr>live := insert a (live m)\<rparr>) p \<and> prv m p = prv (m\<lparr>live := insert a (live m)\<rparr>) p \<and>
      ok p (m\<lparr>live := insert a (live m)\<rparr>)"
    by (cases p) auto
qed

section \<open>The task queues\<close>

lemma pop_task_Nil: "ring w h [] \<Longrightarrow> pop_task h w = Inr (None, w)"
  by (simp add: pop_task_def list_empty_ring)

lemma pop_task_Cons:
  assumes "ring w h (map task_list (t # ts))"
  shows "\<exists>w'. pop_task h w = Inr (Some t, w') \<and> ring w' h (map task_list ts) \<and>
    relinks (set (h # map task_list (t # ts))) w w'"
proof -
  from assms have r: "ring w h ([] @ task_list t # map task_list ts)" by simp
  from list_del_ring [OF r] obtain w' where "list_del (task_list t) w = Inr w'"
    "ring w' h (map task_list ts)" "relinks (set (h # map task_list (t # ts))) w w'" by auto
  moreover have "nxt w h = task_list t" using ring_first [OF r] by simp
  moreover have "ok h w" using ring_okD [OF r, of h] by simp
  ultimately show ?thesis
    using list_empty_ring [OF assms] by (simp add: pop_task_def list_entry_def)
qed

lemma push_task_ok:
  assumes "ring w (Member c k) (map task_list ts)" and "t \<in> live w" and "t \<notin> set ts" and "k \<noteq> 0"
  shows "\<exists>w'. list_add_tail (task_list t) (Member c k) w = Inr w' \<and>
    ring w' (Member c k) (map task_list (ts @ [t])) \<and>
    relinks (set (task_list t # Member c k # map task_list ts)) w w'"
proof -
  have "ok (task_list t) w" "task_list t \<notin> set (Member c k # map task_list ts)"
    using assms(2-4) by auto
  from list_add_tail_ring [OF assms(1) this] show ?thesis by auto
qed

interpretation read_queue: fifo_queue
  "\<lambda>w ts. ring w (read_list_head c) (map task_list ts)" "\<lambda>t w. t \<in> live w"
  "\<lambda>t. push_read_task_to_client t c" "pop_read_task_from_client c" for c
proof unfold_locales
  fix w :: world and ts t assume "ring w (read_list_head c) (map task_list ts)" "t \<in> live w" "t \<notin> set ts"
  from push_task_ok [OF this]
  show "\<exists>w'. push_read_task_to_client t c w = Inr w' \<and>
      ring w' (read_list_head c) (map task_list (ts @ [t])) \<and> (\<forall>b. b \<in> live w \<longrightarrow> b \<in> live w')"
    by (auto simp: push_read_task_to_client_def dest: relinks_live)
qed (use pop_task_Nil pop_task_Cons in \<open>force simp: pop_read_task_from_client_def\<close>)+

interpretation write_queue: fifo_queue
  "\<lambda>w ts. ring w (write_list_head c) (map task_list ts)" "\<lambda>t w. t \<in> live w"
  "\<lambda>t. push_write_task_to_client t c" "pop_write_task_from_client c" for c
proof unfold_locales
  fix w :: world and ts t assume "ring w (write_list_head c) (map task_list ts)" "t \<in> live w" "t \<notin> set ts"
  from push_task_ok [OF this]
  show "\<exists>w'. push_write_task_to_client t c w = Inr w' \<and>
      ring w' (write_list_head c) (map task_list (ts @ [t])) \<and> (\<forall>b. b \<in> live w \<longrightarrow> b \<in> live w')"
    by (auto simp: push_write_task_to_client_def dest: relinks_live)
qed (use pop_task_Nil pop_task_Cons in \<open>force simp: pop_write_task_from_client_def\<close>)+

section \<open>Event masks\<close>

definition chan_ok :: "nat \<Rightarrow> world \<Rightarrow> bool" where
  "chan_ok c w \<longleftrightarrow> c \<in> live w \<and> c_ch (clients w c) \<in> live w \<and>
     chans w (c_ch (clients w c)) = \<lparr>ch_p = Client_chan c, ch_fd = sockfd (clients w c)\<rparr> \<and>
     sockfd (clients w c) \<ge> 0 \<and>
     (\<exists>e\<in>live w. c_epoller (clients w c) = Some e)"

lemma set_events_ok:
  assumes "chan_ok c w"
  shows "\<exists>i. set_events f c w = Inr (w\<lparr>clients := (clients w)(c := (clients w c)\<lparr>c_events := f (c_events (clients w c))\<rparr>),
    interest := i\<rparr>) \<and>
    i = (let k = (epfd (epolls w (the (c_epoller (clients w c)))), sockfd (clients w c)) in
         if interest w k = None then interest w else (interest w)(k := Some (f (c_events (clients w c)))))"
  using assms
  by (auto simp: chan_ok_def set_events_def upd_client_def mod_chan_of_epoller_def ch_events_def
      epoll_mod_def ctl_def epoll_ctl_def Let_def)

lemma chan_ok_fields [simp]:
  "chan_ok c (w\<lparr>interest := i\<rparr>) = chan_ok c w"
  "chan_ok c (w\<lparr>clients := (clients w)(c := (clients w c)\<lparr>c_events := e\<rparr>)\<rparr>) = chan_ok c w"
  by (auto simp: chan_ok_def)

definition read_mask :: "bool \<Rightarrow> u32 \<Rightarrow> u32" where
  "read_mask idle e = (if idle then e AND NOT EPOLLIN else e OR EPOLLIN)"

definition write_mask :: "bool \<Rightarrow> u32 \<Rightarrow> u32" where
  "write_mask idle e = (if idle then e AND NOT EPOLLOUT else e OR EPOLLOUT)"

lemma bit_four: "bit (4 :: u32) n \<longleftrightarrow> n = 2"
  using bit_exp_iff [where ?'a = "32 word", of 2 n] by (auto simp: numeral_2_eq_2 intro: ccontr)

lemma bit_mask: "bit (if i then e AND NOT m else e OR m :: u32) n \<longleftrightarrow> (if bit m n then \<not> i else bit e n)"
  by (auto simp: bit_and_iff bit_or_iff bit_not_iff dest: bit_imp_le_length)

lemma bit_read_mask: "bit (read_mask i e) n \<longleftrightarrow> (if n = 0 then \<not> i else bit e n)"
  unfolding read_mask_def bit_mask by (simp add: bit_1_iff)

lemma bit_write_mask: "bit (write_mask i e) n \<longleftrightarrow> (if n = 2 then \<not> i else bit e n)"
  unfolding write_mask_def bit_mask bit_four ..

lemma masks:
  "write_mask wi (read_mask ri e) AND EPOLLIN \<noteq> 0 \<longleftrightarrow> \<not> ri"
  "write_mask wi (read_mask ri e) AND EPOLLOUT \<noteq> 0 \<longleftrightarrow> \<not> wi"
  "n \<noteq> 0 \<Longrightarrow> n \<noteq> 2 \<Longrightarrow> bit (write_mask wi (read_mask ri e)) n = bit e n"
  unfolding and_bit by (simp_all add: bit_read_mask bit_write_mask)

lemma update_state_ok:
  assumes "chan_ok c w" and "ring w (read_list_head c) rts" and "ring w (write_list_head c) wts"
    and "\<not> destroy (clients w c)"
  shows "\<exists>i. liby_client_update_state cb c w = Inr (w\<lparr>clients := (clients w)(c := (clients w c)\<lparr>c_events :=
      write_mask (wts = [] \<and> curr_write_task (clients w c) = None)
        (read_mask (rts = [] \<and> curr_read_task (clients w c) = None) (c_events (clients w c)))\<rparr>), interest := i\<rparr>)"
proof -
  define ri where "ri \<longleftrightarrow> rts = [] \<and> curr_read_task (clients w c) = None"
  define wi where "wi \<longleftrightarrow> wts = [] \<and> curr_write_task (clients w c) = None"
  have r: "(if ri then disable_read c w else enable_read c w) = set_events (read_mask ri) c w"
    by (cases ri) (simp_all add: disable_read_def enable_read_def read_mask_def [abs_def])
  from set_events_ok [OF assms(1), of "read_mask ri"] obtain i where
    i: "set_events (read_mask ri) c w = Inr (w\<lparr>clients := (clients w)(c := (clients w c)\<lparr>c_events :=
        read_mask ri (c_events (clients w c))\<rparr>), interest := i\<rparr>)" (is "_ = Inr ?w1") by blast
  have wr: "(if wi then disable_write c ?w1 else enable_write c ?w1) = set_events (write_mask wi) c ?w1"
    by (cases wi) (simp_all add: disable_write_def enable_write_def write_mask_def [abs_def])
  have "chan_ok c ?w1" using assms(1) by (simp add: chan_ok_def)
  from set_events_ok [OF this, of "write_mask wi"] obtain i' where
    i': "set_events (write_mask wi) c ?w1 = Inr (w\<lparr>clients := (clients w)(c := (clients w c)\<lparr>c_events :=
        write_mask wi (read_mask ri (c_events (clients w c)))\<rparr>), interest := i'\<rparr>)" by auto
  have c: "c \<in> live w" using assms(1) by (simp add: chan_ok_def)
  show ?thesis
    using assms(4) i' wr r i c
    by (intro exI [of _ i']) (simp add: liby_client_update_state_def list_empty_ring [OF assms(2)]
        list_empty_ring [of ?w1 "write_list_head c" wts] assms(3) flip: ri_def wi_def)
qed

section \<open>Working off the write queue\<close>

text \<open>Handlers that leave the library alone.\<close>

definition quiet :: "callbacks \<Rightarrow> bool" where
  "quiet cb \<longleftrightarrow> (\<forall>h c b off ec w. on_io cb h c b off ec w = Inr w)"

text \<open>
  \<open>writing c rts ts w\<close>: the client \<open>c\<close> has the read tasks \<open>rts\<close> queued, is writing the first task of
  \<open>ts\<close> and has the others queued; the objects involved are allocated and distinct.
\<close>

definition writing :: "nat \<Rightarrow> lptr list \<Rightarrow> nat list \<Rightarrow> world \<Rightarrow> bool" where
  "writing c rts ts w \<longleftrightarrow> chan_ok c w \<and> \<not> destroy (clients w c) \<and>
     curr_write_task (clients w c) = (case ts of [] \<Rightarrow> None | t # _ \<Rightarrow> Some t) \<and>
     distinct ts \<and> set ts \<subseteq> live w \<and>
     set ts \<inter> {c, c_ch (clients w c), the (c_epoller (clients w c))} = {} \<and>
     (\<forall>t\<in>insert c (set ts). \<forall>k. Member t k \<notin> set rts) \<and>
     ring w (read_list_head c) rts \<and> ring w (write_list_head c) (map task_list (tl ts))"

definition write_events :: "nat \<Rightarrow> nat \<Rightarrow> world \<Rightarrow> nat \<Rightarrow> event list" where
  "write_events c n w t =
     Sent (sockfd (clients w c)) (take n (bufs w (t_buf (tasks w t)))) #
     (case t_handler (tasks w t) of None \<Rightarrow> [] | Some h \<Rightarrow> [Handled h c (t_buf (tasks w t)) (int n) 0])"

lemma relinks_refl: "relinks ns m m"
  unfolding relinks_def by (intro conjI exI [where x = "nxt m"] exI [where x = "prv m"]) simp_all

lemma quiet_handler:
  assumes "quiet cb" and "t \<in> live w"
  shows "call_handler cb c t off ec w = Inr (w\<lparr>trace := trace w @
    (case t_handler (tasks w t) of None \<Rightarrow> [] | Some h \<Rightarrow> [Handled h c (t_buf (tasks w t)) off ec])\<rparr>)"
  using assms by (auto simp: call_handler_def quiet_def emit_def split: option.splits)

lemma write_pop:
  assumes "ring w (write_list_head c) (map task_list ts)"
  shows "\<exists>f g. pop_write_task_from_client c w =
      Inr (case ts of [] \<Rightarrow> None | t # _ \<Rightarrow> Some t, w\<lparr>nxt := f, prv := g\<rparr>) \<and>
    ring (w\<lparr>nxt := f, prv := g\<rparr>) (write_list_head c) (map task_list (tl ts)) \<and>
    relinks (set (write_list_head c # map task_list ts)) w (w\<lparr>nxt := f, prv := g\<rparr>)"
proof (cases ts)
  case Nil
  with assms show ?thesis
    by - (rule exI [of _ "nxt w"], rule exI [of _ "prv w"],
      simp add: pop_write_task_from_client_def pop_task_Nil relinks_refl)
next
  case (Cons t ts')
  with pop_task_Cons [of w "write_list_head c" t ts'] assms obtain w' where
    w': "pop_task (write_list_head c) w = Inr (Some t, w')" "ring w' (write_list_head c) (map task_list ts')"
    "relinks (set (write_list_head c # map task_list ts)) w w'" by auto
  then obtain f g where "w' = w\<lparr>nxt := f, prv := g\<rparr>" by (auto simp: relinks_def)
  with w' Cons show ?thesis by (auto simp: pop_write_task_from_client_def)
qed

lemma write_step:
  assumes q: "quiet cb" and w: "writing c rts (p # ts) w"
    and p: "t_offset (tasks w p) = 0" "min_except_bytes (tasks w p) = 0" "0 < n"
      "n \<le> length (bufs w (t_buf (tasks w p)))"
  shows "\<exists>w'. write_loop cb c p (Wrote n err # rs) w =
      (case ts of [] \<Rightarrow> liby_client_update_state cb c w' | t # _ \<Rightarrow> write_loop cb c t rs w') \<and>
    writing c rts ts w' \<and> trace w' = trace w @ write_events c n w p \<and> live w' = live w - {p} \<and>
    bufs w' = bufs w \<and> (\<forall>t. t \<noteq> p \<longrightarrow> tasks w' t = tasks w t) \<and>
    sockfd (clients w' c) = sockfd (clients w c)"
proof -
  define w0 where "w0 = (emit (Sent (sockfd (clients w c)) (take n (bufs w (t_buf (tasks w p))))) w)
    \<lparr>tasks := (tasks w)(p := (tasks w p)\<lparr>t_offset := int n\<rparr>)\<rparr>"
  define w1 where "w1 = w0\<lparr>trace := trace w0 @ (case t_handler (tasks w p) of None \<Rightarrow> []
    | Some h \<Rightarrow> [Handled h c (t_buf (tasks w p)) (int n) 0])\<rparr>"
  from w have c: "c \<in> live w" "p \<in> live w" "p \<noteq> c" by (auto simp: writing_def chan_ok_def)
  have r: "ring w1 (write_list_head c) (map task_list ts)"
    using w by (simp add: writing_def w1_def w0_def)
  from write_pop [OF r] obtain f g where pop:
    "pop_write_task_from_client c w1 = Inr (case ts of [] \<Rightarrow> None | t # _ \<Rightarrow> Some t, w1\<lparr>nxt := f, prv := g\<rparr>)"
    "ring (w1\<lparr>nxt := f, prv := g\<rparr>) (write_list_head c) (map task_list (tl ts))"
    "relinks (set (write_list_head c # map task_list ts)) w1 (w1\<lparr>nxt := f, prv := g\<rparr>)" by blast
  define w2 where "w2 = w1\<lparr>nxt := f, prv := g, clients := (clients w)(c := (clients w c)
    \<lparr>curr_write_task := (case ts of [] \<Rightarrow> None | t # _ \<Rightarrow> Some t)\<rparr>)\<rparr>"
  let ?w' = "w2\<lparr>live := live w2 - {p}\<rparr>"
  have loop: "write_loop cb c p (Wrote n err # rs) w =
      (case ts of [] \<Rightarrow> liby_client_update_state cb c ?w' | t # _ \<Rightarrow> write_loop cb c t rs ?w')"
  proof -
    have "send_bytes c p n w = Inr w0" using c p by (simp add: send_bytes_def Let_def w0_def)
    moreover have "call_handler cb c p (int n) 0 w0 = Inr w1"
      using c by (simp add: quiet_handler [OF q] w0_def w1_def split: option.splits)
    moreover have "tasks w0 p = (tasks w p)\<lparr>t_offset := int n\<rparr>" by (simp add: w0_def)
    moreover have "upd_client c (\<lambda>cl. cl\<lparr>curr_write_task := (case ts of [] \<Rightarrow> None | t # _ \<Rightarrow> Some t)\<rparr>)
        (w1\<lparr>nxt := f, prv := g\<rparr>) = Inr w2"
      using c by (simp add: upd_client_def w2_def w1_def w0_def)
    moreover have "io_task_destroy p w2 = Inr ?w'"
      using c by (simp add: io_task_destroy_def free_def w2_def w1_def w0_def)
    ultimately show ?thesis
      using c p pop(1) by (simp split: list.splits)
  qed
  have "ring w2 (read_list_head c) rts"
  proof -
    have "set (read_list_head c # rts) \<inter> set (write_list_head c # map task_list ts) = {}"
      using w by (auto simp: writing_def)
    from relinks_ring [OF pop(3) this] w show ?thesis
      by (simp add: writing_def w1_def w2_def w0_def)
  qed
  then have r1: "ring ?w' (read_list_head c) rts"
    by (rule ring_free) (use w in \<open>auto simp: writing_def\<close>)
  have "ring w2 (write_list_head c) (map task_list (tl ts))"
    using pop(2) by (simp add: w2_def)
  then have r2: "ring ?w' (write_list_head c) (map task_list (tl ts))"
    by (rule ring_free) (use w in \<open>cases ts; auto simp: writing_def\<close>)
  have f: "live w2 = live w" "chans w2 = chans w" "bufs w2 = bufs w"
    "clients w2 = (clients w)(c := (clients w c)\<lparr>curr_write_task := (case ts of [] \<Rightarrow> None | t # _ \<Rightarrow> Some t)\<rparr>)"
    "tasks w2 = (tasks w)(p := (tasks w p)\<lparr>t_offset := int n\<rparr>)" "trace w2 = trace w @ write_events c n w p"
    by (simp_all add: w2_def w1_def w0_def write_events_def)
  have "writing c rts ts ?w'"
    using w r1 r2 by (auto simp: writing_def chan_ok_def f)
  then show ?thesis
    using loop by (intro exI [of _ ?w']) (simp add: f)
qed

text \<open>
  The loop over a whole queue, each task meeting one successful \<open>write\<close> of \<open>ns t\<close> bytes.
\<close>

declare write_loop.simps [simp del]

lemma write_loop_all:
  assumes q: "quiet cb" and "writing c rts (p # ts) w"
    and "\<forall>t\<in>set (p # ts). t_offset (tasks w t) = 0 \<and> min_except_bytes (tasks w t) = 0 \<and>
      0 < ns t \<and> ns t \<le> length (bufs w (t_buf (tasks w t)))"
  shows "\<exists>w'. write_loop cb c p (map (\<lambda>t. Wrote (ns t) err) (p # ts)) w = liby_client_update_state cb c w' \<and>
    writing c rts [] w' \<and> trace w' = trace w @ concat (map (\<lambda>t. write_events c (ns t) w t) (p # ts)) \<and>
    live w' = live w - set (p # ts)"
  using assms(2,3)
proof (induction ts arbitrary: p w)
  case Nil
  from Nil.prems(2) have "t_offset (tasks w p) = 0" "min_except_bytes (tasks w p) = 0" "0 < ns p"
    "ns p \<le> length (bufs w (t_buf (tasks w p)))" by auto
  from write_step [OF q Nil.prems(1) this, of err "[]"] show ?case by auto
next
  case (Cons t ts)
  from Cons.prems(2) have "t_offset (tasks w p) = 0" "min_except_bytes (tasks w p) = 0" "0 < ns p"
    "ns p \<le> length (bufs w (t_buf (tasks w p)))" by auto
  from write_step [OF q Cons.prems(1) this, of err "map (\<lambda>t. Wrote (ns t) err) (t # ts)"] obtain w1 where w1:
    "write_loop cb c p (map (\<lambda>t. Wrote (ns t) err) (p # t # ts)) w =
       write_loop cb c t (map (\<lambda>t. Wrote (ns t) err) (t # ts)) w1"
    "writing c rts (t # ts) w1" "trace w1 = trace w @ write_events c (ns p) w p" "live w1 = live w - {p}"
    "bufs w1 = bufs w" "\<forall>t. t \<noteq> p \<longrightarrow> tasks w1 t = tasks w t" "sockfd (clients w1 c) = sockfd (clients w c)"
    by auto
  have same: "tasks w1 u = tasks w u \<and> write_events c (ns u) w1 u = write_events c (ns u) w u"
    if "u \<in> set (t # ts)" for u
  proof -
    from that Cons.prems(1) have "u \<noteq> p" by (auto simp: writing_def)
    with w1(6) have "tasks w1 u = tasks w u" by blast
    with w1(5,7) show ?thesis by (simp add: write_events_def split: option.splits)
  qed
  then have "\<forall>u\<in>set (t # ts). t_offset (tasks w1 u) = 0 \<and> min_except_bytes (tasks w1 u) = 0 \<and>
      0 < ns u \<and> ns u \<le> length (bufs w1 (t_buf (tasks w1 u)))"
    using Cons.prems(2) w1(5) by simp
  from Cons.IH [OF w1(2) this] obtain w' where w':
    "write_loop cb c t (map (\<lambda>t. Wrote (ns t) err) (t # ts)) w1 = liby_client_update_state cb c w'"
    "writing c rts [] w'" "trace w' = trace w1 @ concat (map (\<lambda>t. write_events c (ns t) w1 t) (t # ts))"
    "live w' = live w1 - set (t # ts)" by blast
  have ev: "map (\<lambda>t. write_events c (ns t) w1 t) (t # ts) = map (\<lambda>t. write_events c (ns t) w t) (t # ts)"
    using same by (intro map_cong) auto
  have "trace w' = trace w @ concat (map (\<lambda>t. write_events c (ns t) w t) (p # t # ts))"
    unfolding w'(3) ev w1(3) by simp
  moreover have "live w' = live w - set (p # t # ts)" unfolding w'(4) w1(4) by auto
  ultimately show ?case using w1(1) w'(1,2) by (intro exI [of _ w']) simp
qed

text \<open>\<open>queued c rts ts w\<close>: no write is going on and the tasks \<open>ts\<close> are queued.\<close>

definition queued :: "nat \<Rightarrow> lptr list \<Rightarrow> nat list \<Rightarrow> world \<Rightarrow> bool" where
  "queued c rts ts w \<longleftrightarrow> chan_ok c w \<and> \<not> destroy (clients w c) \<and>
     curr_write_task (clients w c) = None \<and>
     set ts \<inter> {c, c_ch (clients w c), the (c_epoller (clients w c))} = {} \<and>
     (\<forall>t\<in>insert c (set ts). \<forall>k. Member t k \<notin> set rts) \<and>
     ring w (read_list_head c) rts \<and> ring w (write_list_head c) (map task_list ts)"

lemma queued_start:
  assumes "queued c rts (t # ts) w"
  shows "\<exists>w'. write_message cb c rs w = write_loop cb c t rs w' \<and> writing c rts (t # ts) w' \<and>
    tasks w' = tasks w \<and> bufs w' = bufs w \<and> trace w' = trace w \<and> live w' = live w \<and>
    sockfd (clients w' c) = sockfd (clients w c)"
proof -
  from assms have r: "ring w (write_list_head c) (map task_list (t # ts))" by (simp add: queued_def)
  from write_pop [OF r] obtain f g where pop:
    "pop_write_task_from_client c w = Inr (Some t, w\<lparr>nxt := f, prv := g\<rparr>)"
    "ring (w\<lparr>nxt := f, prv := g\<rparr>) (write_list_head c) (map task_list ts)"
    "relinks (set (write_list_head c # map task_list (t # ts))) w (w\<lparr>nxt := f, prv := g\<rparr>)" by auto
  let ?w = "w\<lparr>nxt := f, prv := g, clients := (clients w)(c := (clients w c)\<lparr>curr_write_task := Some t\<rparr>)\<rparr>"
  have "set (read_list_head c # rts) \<inter> set (write_list_head c # map task_list (t # ts)) = {}"
    using assms by (auto simp: queued_def)
  from relinks_ring [OF pop(3) this] assms have "ring (w\<lparr>nxt := f, prv := g\<rparr>) (read_list_head c) rts"
    by (simp add: queued_def)
  moreover have "distinct (t # ts)" "set (t # ts) \<subseteq> live w"
    using ring_distinct [OF r] ring_live [OF r, of _ 0] by (auto simp: distinct_map)
  ultimately have "writing c rts (t # ts) ?w"
    using assms pop(2) by (auto simp: queued_def writing_def chan_ok_def)
  moreover have "c \<in> live w" "c_epoller (clients w c) \<noteq> None" "curr_write_task (clients w c) = None"
    using assms by (auto simp: queued_def chan_ok_def)
  then have "write_message cb c rs w = write_loop cb c t rs ?w"
    using pop(1) by (simp add: write_message_def upd_client_def)
  ultimately show ?thesis by (intro exI [of _ ?w]) simp
qed


section \<open>Destroying a client\<close>

text \<open>
  \<open>attached c s cs ds w\<close>: the client hangs in the ring of the server \<open>s\<close> with the clients \<open>cs\<close>
  before and \<open>ds\<close> after it. \<open>idle\<close>: it has no task either, and its data, if any, is an object of
  its own that no release function was given for.
\<close>

definition attached :: "nat \<Rightarrow> nat \<Rightarrow> nat list \<Rightarrow> nat list \<Rightarrow> world \<Rightarrow> bool" where
  "attached c s cs ds w \<longleftrightarrow> chan_ok c w \<and> c_server (clients w c) = Some s \<and> s \<noteq> c \<and>
     c_ch (clients w c) \<notin> {c, s} \<union> set cs \<union> set ds \<and>
     ring w (server_clients s) (map client_list (cs @ c # ds)) \<and>
     curr_read_task (clients w c) = None \<and> curr_write_task (clients w c) = None"

definition idle :: "nat \<Rightarrow> nat \<Rightarrow> nat list \<Rightarrow> nat list \<Rightarrow> world \<Rightarrow> bool" where
  "idle c s cs ds w \<longleftrightarrow> attached c s cs ds w \<and>
     ring w (read_list_head c) [] \<and> ring w (write_list_head c) [] \<and>
     release_data_func (clients w c) = None \<and>
     (\<forall>d\<in>set_option (c_data (clients w c)). d \<in> live w \<and>
        d \<notin> {c, s, c_ch (clients w c)} \<union> set cs \<union> set ds)"

lemma unlink_client:
  assumes "attached c s cs ds w"
  shows "\<exists>w1. remove_client_from_server c w = Inr w1 \<and> ring w1 (server_clients s) (map client_list (cs @ ds)) \<and>
    relinks (set (server_clients s # map client_list (cs @ c # ds))) w w1"
proof -
  from assms have r: "ring w (server_clients s) (map client_list cs @ client_list c # map client_list ds)"
    by (simp add: attached_def)
  have "c \<in> live w" "s \<in> live w" "c_server (clients w c) = Some s"
    using assms ring_live [OF r, of s 2] by (auto simp: attached_def chan_ok_def)
  with list_del_ring [OF r] show ?thesis by (auto simp: remove_client_from_server_def)
qed

lemma relinks_fields:
  fixes w :: world
  assumes "relinks ns w w'"
  shows "live w' = live w" "brk w' = brk w" "tasks w' = tasks w" "clients w' = clients w" "servers w' = servers w"
    "loops w' = loops w" "epolls w' = epolls w" "chans w' = chans w" "bufs w' = bufs w"
    "interest w' = interest w" "trace w' = trace w"
  using assms by (auto simp: relinks_def)

lemma free_data:
  assumes "c_data (clients w c) = None \<or> the (c_data (clients w c)) \<in> live w" and "release_data_func (clients w c) = None"
  shows "release_data cb c w = Inr (w\<lparr>live := live w - set_option (c_data (clients w c))\<rparr>)"
  using assms by (auto simp: release_data_def free_def split: option.splits)

lemma destroy_idle:
  assumes "idle c s cs ds w"
  shows "\<exists>w'. liby_client_destroy cb c w = Inr w' \<and>
    ring w' (server_clients s) (map client_list (cs @ ds)) \<and>
    live w' = live w - {c, c_ch (clients w c)} - set_option (c_data (clients w c)) \<and>
    trace w' = trace w @ [Closed (sockfd (clients w c))] \<and>
    (\<forall>e. interest w' (e, sockfd (clients w c)) = None)"
proof -
  let ?ch = "c_ch (clients w c)" and ?fd = "sockfd (clients w c)"
  from assms have att: "attached c s cs ds w" by (simp add: idle_def)
  from unlink_client [OF this] obtain w1 where w1: "remove_client_from_server c w = Inr w1"
    "ring w1 (server_clients s) (map client_list (cs @ ds))"
    "relinks (set (server_clients s # map client_list (cs @ c # ds))) w w1" by blast
  note f = relinks_fields [OF w1(3)]
  have "ring w1 h [] \<longleftrightarrow> ring w h []" if "h \<in> {read_list_head c, write_list_head c}" for h
    by (rule relinks_ring [OF w1(3)]) (use that att in \<open>auto simp: attached_def\<close>)
  then have q: "ring w1 (read_list_head c) []" "ring w1 (write_list_head c) []"
    using assms by (simp_all add: idle_def)
  have lv: "c \<in> live w" "?ch \<in> live w" "?ch \<noteq> c" "?fd \<ge> 0" "chans w ?ch = \<lparr>ch_p = Client_chan c, ch_fd = ?fd\<rparr>"
    using att by (auto simp: attached_def chan_ok_def)
  define w2 where "w2 = w1\<lparr>live := live w1 - set_option (c_data (clients w c))\<rparr>"
  have "release_data cb c w1 = Inr w2"
    unfolding w2_def f(4) [symmetric]
    using assms by (intro free_data) (auto simp: idle_def f)
  define w3 where "w3 = (emit (Closed ?fd) (w2\<lparr>interest := (\<lambda>(e, x). if x = ?fd then None else interest w2 (e, x))\<rparr>))"
  let ?w' = "w3\<lparr>live := live w3 - {?ch}\<rparr>\<lparr>live := live (w3\<lparr>live := live w3 - {?ch}\<rparr>) - {c}\<rparr>"
  have f2: "live w2 = live w - set_option (c_data (clients w c))" "clients w2 = clients w" "chans w2 = chans w"
    "trace w2 = trace w" by (simp_all add: w2_def f)
  have lv2: "c \<in> live w2" "?ch \<in> live w2" using assms lv by (auto simp: f2 idle_def)
  have "destroy_chan ?ch w2 = Inr (w3\<lparr>live := live w3 - {?ch}\<rparr>)"
    using lv lv2 by (simp add: destroy_chan_def Let_def f2 free_def w3_def)
  moreover have "c \<in> live (w3\<lparr>live := live w3 - {?ch}\<rparr>)" using lv2 lv(3) by (simp add: w3_def)
  ultimately have "liby_client_destroy cb c w = Inr ?w'"
    using att lv lv2 w1(1) q \<open>release_data cb c w1 = Inr w2\<close>
    by (simp add: liby_client_destroy_def attached_def drain_tasks_def list_empty_ring f f2 free_def)
  moreover have "ring ?w' (server_clients s) (map client_list (cs @ ds))"
  proof -
    have "ring w2 (server_clients s) (map client_list (cs @ ds))"
      using w1(2) assms ring_free [OF w1(2), of "the (c_data (clients w c))"]
      by (cases "c_data (clients w c)") (auto simp: w2_def idle_def)
    then have "ring w3 (server_clients s) (map client_list (cs @ ds))" by (simp add: w3_def)
    from ring_free [OF this, of ?ch] have "ring (w3\<lparr>live := live w3 - {?ch}\<rparr>) (server_clients s) (map client_list (cs @ ds))"
      using att by (auto simp: attached_def)
    from ring_free [OF this, of c] show ?thesis
      using att ring_distinct [of w "server_clients s" "map client_list (cs @ c # ds)"]
      by (auto simp: attached_def)
  qed
  ultimately show ?thesis
    by (intro exI [of _ ?w']) (auto simp: w3_def f2)
qed

text \<open>Tasks left in a queue: the loop over them frees the task whose next pointer it follows.\<close>

lemma destroy_pending:
  assumes q: "quiet cb" and att: "attached c s cs ds w"
    and r: "ring w (read_list_head c) (map task_list (t # ts))" and "set (t # ts) \<inter> set (c # cs @ ds) = {}"
    and "t_handler (tasks w t) \<noteq> None"
  shows "liby_client_destroy cb c w = Inl WildDeref"
proof -
  from unlink_client [OF att] obtain w1 where w1: "remove_client_from_server c w = Inr w1"
    "relinks (set (server_clients s # map client_list (cs @ c # ds))) w w1" by blast
  note f = relinks_fields [OF w1(2)]
  have "set (read_list_head c # map task_list (t # ts)) \<inter> set (server_clients s # map client_list (cs @ c # ds)) = {}"
    using att assms(4) by (auto simp: attached_def)
  from relinks_ring [OF w1(2) this] r have r1: "ring w1 (read_list_head c) (map task_list (t # ts))" by simp
  have t: "t \<in> live w1" using ring_live [OF r1, of t 0] by simp
  let ?h = "[Handled (the (t_handler (tasks w t))) c (t_buf (tasks w t)) 0 (-1)]"
  let ?w2 = "w1\<lparr>trace := trace w1 @ ?h\<rparr>"
  have "drain_body cb c (task_list t) (w1, ()) = Inr (?w2\<lparr>live := live ?w2 - {t}\<rparr>, ())"
    using t assms(5) by (auto simp: drain_body_def list_entry_def quiet_handler [OF q] f io_task_destroy_def free_def)
  with list_for_each_freed [where body = "drain_body cb c" and a = "()", OF r1 [simplified list.map]]
  have "drain_tasks cb c (read_list_head c) w1 = Inl WildDeref"
    by (simp add: drain_tasks_def list_empty_ring [OF r1])
  with w1(1) att show ?thesis
    by (simp add: liby_client_destroy_def attached_def chan_ok_def f)
qed

text \<open>A client that was never linked into a list.\<close>

lemma destroy_unlinked:
  assumes "c \<in> live w" and "c_server (clients w c) = None" and "c_loop (clients w c) \<in> live w"
    and "nxt w (client_list c) = NULL" and "prv w (client_list c) = NULL"
  shows "liby_client_destroy cb c w = Inl NullDeref"
  using assms
  by (simp add: liby_client_destroy_def remove_client_from_loop_def list_del_def list_del_between_def
      set_prev_def access_def)

end
