(* ===== verification/Liby_Lifecycle.thy ===== *)
theory Liby_Lifecycle
  imports Liby_Queues
begin

text \<open>
  Creation of clients, queueing of writes, the accept loop, and destruction of servers and loops
  of liby.
\<close>

section \<open>Creating a client\<close>

definition fresh :: "world \<Rightarrow> bool" where
  "fresh w \<longleftrightarrow> live w \<subseteq> {..<brk w}"

lemma fresh_node: "fresh w \<Longrightarrow> ring w h xs \<Longrightarrow> p \<in> set (h # xs) \<Longrightarrow> p \<noteq> Member (brk w + i) k"
  using ring_okD [of w h xs p] by (cases p) (auto simp: fresh_def)

definition poller_of :: "nat \<Rightarrow> int \<Rightarrow> world \<Rightarrow> nat option" where
  "poller_of l fd w = (if nthreads (loops w l) = 0 then epollers (loops w l) ! 0
     else epollers (loops w l) ! (1 + nat fd mod nthreads (loops w l)))"

lemma client_init_ok:
  assumes l: "l \<in> live w" and fd: "0 \<le> fd" and fr: "fresh w"
    and e: "poller_of l fd w = Some e" "e \<in> live w" "interest w (epfd (epolls w e), fd) = None"
  shows "\<exists>w'. liby_client_init fd l w = Inr (brk w, w') \<and> queued (brk w) [] [] w' \<and>
    clients w' = (clients w)(brk w := (client_zero l fd (Some e))\<lparr>c_ch := Suc (brk w)\<rparr>) \<and>
    interest w' = (interest w)((epfd (epolls w e), fd) := Some (EPOLLIN OR EPOLLHUP OR EPOLLET OR EPOLLRDHUP)) \<and>
    live w' = live w \<union> {brk w, Suc (brk w)} \<and> brk w' = Suc (Suc (brk w)) \<and>
    nxt w' (client_list (brk w)) = NULL \<and> prv w' (client_list (brk w)) = NULL \<and>
    servers w' = servers w \<and> loops w' = loops w \<and> epolls w' = epolls w \<and> tasks w' = tasks w \<and>
    bufs w' = bufs w \<and> trace w' = trace w \<and> (\<forall>h xs. ring w h xs \<longrightarrow> ring w' h xs)"
proof -
  let ?c = "brk w" and ?ch = "Suc (brk w)"
  let ?cl = "(client_zero l fd (Some e))\<lparr>c_ch := ?ch\<rparr>"
  define w1 where "w1 = (snd (make_chan (Client_chan ?c) fd (bzero_lists ?c (snd (malloc w)))))\<lparr>clients :=
    (clients w)(?c := ?cl)\<rparr>"
  have f: "live w1 = live w \<union> {?c, ?ch}" "brk w1 = Suc (Suc (brk w))" "clients w1 = (clients w)(?c := ?cl)"
    "servers w1 = servers w" "loops w1 = loops w" "epolls w1 = epolls w" "tasks w1 = tasks w" "bufs w1 = bufs w"
    "trace w1 = trace w" "interest w1 = interest w" "chans w1 ?ch = \<lparr>ch_p = Client_chan ?c, ch_fd = fd\<rparr>"
    by (auto simp: w1_def make_chan_def malloc_def bzero_lists_def Let_def)
  have n: "nxt w1 p = (case p of Member b k \<Rightarrow> if b = ?c then NULL else nxt w p | _ \<Rightarrow> nxt w p)"
    "prv w1 p = (case p of Member b k \<Rightarrow> if b = ?c then NULL else prv w p | _ \<Rightarrow> prv w p)" for p
    by (simp_all add: w1_def make_chan_def malloc_def bzero_lists_def Let_def split: lptr.splits)
  let ?r = "read_list_head ?c" and ?wr = "write_list_head ?c"
  define w2 where "w2 = w1\<lparr>nxt := (nxt w1)(?r := ?r, ?wr := ?wr), prv := (prv w1)(?r := ?r, ?wr := ?wr)\<rparr>"
  let ?i = "(interest w)((epfd (epolls w e), fd) := Some (EPOLLIN OR EPOLLHUP OR EPOLLET OR EPOLLRDHUP))"
  let ?w' = "w2\<lparr>interest := ?i\<rparr>"
  have ne: "e \<noteq> ?c" "l \<noteq> ?c" "e \<noteq> ?ch" using l e(2) fr by (auto simp: fresh_def)
  have i1: "INIT_LIST_HEAD ?r w1 = Inr (w1\<lparr>nxt := (nxt w1)(?r := ?r), prv := (prv w1)(?r := ?r)\<rparr>)"
    by (simp add: INIT_LIST_HEAD_def f)
  have i2: "INIT_LIST_HEAD ?wr (w1\<lparr>nxt := (nxt w1)(?r := ?r), prv := (prv w1)(?r := ?r)\<rparr>) = Inr w2"
    by (simp add: INIT_LIST_HEAD_def f w2_def)
  have f2: "live w2 = live w1" "clients w2 = clients w1" "chans w2 = chans w1" "interest w2 = interest w1"
    "epolls w2 = epolls w1" "brk w2 = brk w1" by (simp_all add: w2_def)
  have a: "add_chan_to_epoller (Some e) ?ch w2 = Inr ?w'"
    using e fd by (simp add: add_chan_to_epoller_def f2 f ch_events_def epoll_add_def ctl_def epoll_ctl_def client_zero_def)
  have "liby_client_init fd l w = rbind (INIT_LIST_HEAD ?r w1) (\<lambda>w. rbind (INIT_LIST_HEAD ?wr w)
      (\<lambda>w. rbind (add_chan_to_epoller (Some e) ?ch w) (\<lambda>w. Inr (?c, w))))"
    using l fd e(1)
    by (simp add: liby_client_init_def w1_def malloc_def make_chan_def Let_def bzero_lists_def poller_of_def cong: if_cong)
  then have init: "liby_client_init fd l w = Inr (?c, ?w')"
    by (simp add: i1 i2 a)
  have q: "queued ?c [] [] ?w'"
    using e fd ne
    by (auto simp: queued_def chan_ok_def f2 f client_zero_def ring_def w2_def)
  have "ring ?w' h xs" if r: "ring w h xs" for h xs
  proof (rule ring_live_cong [OF _ r])
    fix p assume p: "p \<in> set (h # xs)"
    from ring_okD [OF r p] fresh_node [OF fr r p, of 0] fresh_node [OF fr r p, of 1]
    show "nxt w p = nxt ?w' p \<and> prv w p = prv ?w' p \<and> ok p ?w'"
      by (cases p) (auto simp: w2_def n f)
  qed
  then show ?thesis
    using init q by (intro exI [of _ ?w']) (auto simp: f f2 n w2_def)
qed


section \<open>Queueing a write\<close>

lemma queued_relink:
  assumes "relinks ns w w'" and "set (read_list_head c # rts) \<inter> ns = {}"
    and "ring w' (write_list_head c) (map task_list ts')"
    and "queued c rts ts w" and "set ts' \<inter> {c, c_ch (clients w c), the (c_epoller (clients w c))} = {}"
    and "\<forall>t\<in>set ts'. \<forall>k. Member t k \<notin> set rts"
  shows "queued c rts ts' w'"
proof -
  from assms(1) have "live w' = live w" "clients w' = clients w" "chans w' = chans w"
    by (auto simp: relinks_def)
  with relinks_ring [OF assms(1,2)] assms(3-6) show ?thesis
    by (auto simp: queued_def chan_ok_def)
qed

lemma queued_events:
  "queued c rts ts (w\<lparr>clients := (clients w)(c := (clients w c)\<lparr>c_events := e\<rparr>), interest := i\<rparr>) = queued c rts ts w"
  by (auto simp: queued_def chan_ok_def)

lemma async_write_ok:
  assumes q: "queued c rts ts w" and fr: "fresh w" and sz: "sz \<noteq> 0"
  shows "\<exists>w'. liby_async_write_some c (Some b) sz h w = Inr w' \<and> queued c rts (ts @ [brk w]) w' \<and>
    tasks w' = (tasks w)(brk w := \<lparr>t_buf = b, t_size = sz, t_offset = 0, min_except_bytes = 0, t_handler = h\<rparr>) \<and>
    bufs w' = bufs w \<and> trace w' = trace w \<and> live w' = insert (brk w) (live w) \<and> brk w' = Suc (brk w) \<and>
    c_events (clients w' c) AND EPOLLOUT \<noteq> 0"
proof -
  let ?t = "brk w"
  define w1 where "w1 = snd (new_task b sz 0 h w)"
  have f: "live w1 = insert ?t (live w)" "brk w1 = Suc ?t" "clients w1 = clients w" "chans w1 = chans w"
    "bufs w1 = bufs w" "trace w1 = trace w" "tasks w1 = (tasks w)(?t := \<lparr>t_buf = b, t_size = sz, t_offset = 0,
      min_except_bytes = 0, t_handler = h\<rparr>)"
    by (simp_all add: w1_def new_task_def malloc_def Let_def)
  have keep: "ring w1 x xs" if "ring w x xs" for x xs
  proof (rule ring_live_cong [OF _ that])
    fix p assume "p \<in> set (x # xs)"
    from ring_okD [OF that this] show "nxt w p = nxt w1 p \<and> prv w p = prv w1 p \<and> ok p w1"
      by (cases p) (auto simp: w1_def new_task_def malloc_def Let_def)
  qed
  have new: "?t \<notin> live w" using fr by (auto simp: fresh_def)
  have rw: "ring w (write_list_head c) (map task_list ts)" and rr: "ring w (read_list_head c) rts"
    using q by (simp_all add: queued_def)
  have tn: "?t \<notin> set ts" "\<forall>k. Member ?t k \<notin> set rts"
    using ring_live [OF rw, of ?t 0] ring_live [OF rr, of ?t] new by auto
  have cc: "?t \<noteq> c" "?t \<noteq> c_ch (clients w c)" "?t \<noteq> the (c_epoller (clients w c))"
    using q new by (auto simp: queued_def chan_ok_def)
  have "queued c rts ts w1"
    using q keep [OF rw] keep [OF rr] by (auto simp: queued_def chan_ok_def f)
  moreover from push_task_ok [OF keep [OF rw], of ?t] tn(1) obtain w2 where w2:
    "push_write_task_to_client ?t c w1 = Inr w2" "ring w2 (write_list_head c) (map task_list (ts @ [?t]))"
    "relinks (set (task_list ?t # write_list_head c # map task_list ts)) w1 w2"
    by (auto simp: push_write_task_to_client_def f)
  ultimately have q2: "queued c rts (ts @ [?t]) w2"
    using tn(2) cc q by (intro queued_relink [OF w2(3)]) (auto simp: queued_def f w2(2) [simplified])
  from w2(3) have f2: "live w2 = live w1" "brk w2 = brk w1" "bufs w2 = bufs w1" "trace w2 = trace w1"
    "tasks w2 = tasks w1" by (auto simp: relinks_def)
  from q2 have "chan_ok c w2" by (simp add: queued_def)
  from set_events_ok [OF this, of "\<lambda>e. e OR EPOLLOUT"] obtain i where
    "enable_write c w2 = Inr (w2\<lparr>clients := (clients w2)(c := (clients w2 c)\<lparr>c_events :=
       c_events (clients w2 c) OR EPOLLOUT\<rparr>), interest := i\<rparr>)" (is "_ = Inr ?w3") by (auto simp: enable_write_def)
  moreover have "(c_events (clients w2 c) OR EPOLLOUT) AND EPOLLOUT \<noteq> 0"
    unfolding and_bit by (simp only: bit_or_iff bit_four) simp
  ultimately show ?thesis
    using w2(1) q2 sz
    by (intro exI [of _ ?w3])
      (simp add: liby_async_write_some_def default_buffer_def queued_events f f2 flip: w1_def split: prod.splits,
       auto simp: w1_def new_task_def malloc_def Let_def)
qed

section \<open>Accepting\<close>

definition quiet_accept :: "callbacks \<Rightarrow> bool" where
  "quiet_accept cb \<longleftrightarrow> (\<forall>f c w. on_accept cb f c w = Inr w)"

definition can_accept :: "nat \<Rightarrow> nat \<Rightarrow> int list \<Rightarrow> world \<Rightarrow> bool" where
  "can_accept s l fds w \<longleftrightarrow> fresh w \<and> s \<in> live w \<and> l \<in> live w \<and> s_loop (servers w s) = Some l \<and>
     distinct fds \<and> (\<forall>fd\<in>set fds. 0 \<le> fd \<and> (\<exists>e\<in>live w. poller_of l fd w = Some e \<and>
       (\<forall>p. interest w (p, fd) = None)))"

lemma accept_step:
  assumes q: "quiet_accept cb" and a: "can_accept s l (fd # fds) w"
    and r: "ring w (server_clients s) (map client_list cs)"
  shows "\<exists>w'. accept_loop cb s ((fd, err) # as) w = accept_loop cb s as w' \<and> can_accept s l fds w' \<and>
    ring w' (server_clients s) (map client_list (cs @ [brk w])) \<and> brk w < brk w' \<and>
    (\<forall>c < brk w. clients w' c = clients w c) \<and>
    sockfd (clients w' (brk w)) = fd \<and> c_server (clients w' (brk w)) = Some s"
proof -
  let ?c = "brk w"
  from a obtain e where e: "poller_of l fd w = Some e" "e \<in> live w" "\<forall>p. interest w (p, fd) = None"
    and al: "fresh w" "s \<in> live w" "l \<in> live w" "s_loop (servers w s) = Some l" "0 \<le> fd"
    by (auto simp: can_accept_def)
  from e(3) have "interest w (epfd (epolls w e), fd) = None" by blast
  from client_init_ok [OF al(3,5,1) e(1,2) this] obtain w1 where w1:
    "liby_client_init fd l w = Inr (?c, w1)"
    "clients w1 = (clients w)(?c := (client_zero l fd (Some e))\<lparr>c_ch := Suc ?c\<rparr>)"
    "interest w1 = (interest w)((epfd (epolls w e), fd) := Some (EPOLLIN OR EPOLLHUP OR EPOLLET OR EPOLLRDHUP))"
    "live w1 = live w \<union> {?c, Suc ?c}" "brk w1 = Suc (Suc ?c)" "servers w1 = servers w" "loops w1 = loops w"
    "\<forall>h xs. ring w h xs \<longrightarrow> ring w1 h xs" by blast
  define w2 where "w2 = w1\<lparr>clients := (clients w1)(?c := (clients w1 ?c)\<lparr>c_server := Some s\<rparr>)\<rparr>"
  have "ring w2 (server_clients s) (map client_list cs)" using w1(8) r by (simp add: w2_def)
  moreover have "ok (client_list ?c) w2" by (simp add: w2_def w1)
  moreover have "client_list ?c \<notin> set (server_clients s # map client_list cs)"
    using fresh_node [OF al(1) r, of "client_list ?c" 0 0] by auto
  ultimately obtain w3 where w3: "list_add_tail (client_list ?c) (server_clients s) w2 = Inr w3"
    "ring w3 (server_clients s) (map client_list cs @ [client_list ?c])"
    "relinks (set (client_list ?c # server_clients s # map client_list cs)) w2 w3"
    using list_add_tail_ring by blast
  note f = relinks_fields [OF w3(3)]
  let ?w' = "case acceptor (servers w s) of None \<Rightarrow> w3 | Some g \<Rightarrow> emit (Accepted g ?c) w3"
  have f': "live ?w' = live w1" "brk ?w' = brk w1" "servers ?w' = servers w1" "loops ?w' = loops w1"
    "interest ?w' = interest w1" "clients ?w' = clients w2"
    by (simp_all add: f w2_def split: option.split)
  have "accept_loop cb s ((fd, err) # as) w = accept_loop cb s as ?w'"
    using al w1(1) w3(1) q
    by (auto simp: upd_client_def w1(4) w2_def f w1(6) quiet_accept_def split: option.split)
  moreover have "can_accept s l fds ?w'"
  proof -
    have p: "poller_of l x ?w' = poller_of l x w" for x by (simp add: poller_of_def f' w1)
    have "0 \<le> x \<and> (\<exists>e\<in>live ?w'. poller_of l x ?w' = Some e \<and> (\<forall>p. interest ?w' (p, x) = None))"
      if "x \<in> set fds" for x
    proof -
      from a that have x: "x \<noteq> fd" "0 \<le> x" by (auto simp: can_accept_def)
      from a that obtain e' where "e' \<in> live w" "poller_of l x w = Some e'" "\<forall>p. interest w (p, x) = None"
        by (auto simp: can_accept_def)
      with x show ?thesis unfolding p f' w1(3,4) by auto
    qed
    moreover have "fresh ?w'" using al(1) unfolding fresh_def f' w1(4,5) by auto
    ultimately show ?thesis
      using a al unfolding can_accept_def f' w1(4,6) by auto
  qed
  moreover have "ring ?w' (server_clients s) (map client_list (cs @ [?c]))"
    using w3(2) by (simp split: option.split)
  ultimately show ?thesis
    by (intro exI [of _ ?w']) (simp add: f' w1 w2_def client_zero_def)
qed

lemma accept_all:
  assumes "quiet_accept cb" and "can_accept s l fds w" and "ring w (server_clients s) (map client_list cs)"
  shows "\<exists>w' new. accept_loop cb s (map (\<lambda>fd. (fd, 0)) fds) w = Inr w' \<and>
    ring w' (server_clients s) (map client_list (cs @ new)) \<and> brk w \<le> brk w' \<and>
    (\<forall>c < brk w. clients w' c = clients w c) \<and>
    map (\<lambda>c. sockfd (clients w' c)) new = fds \<and> (\<forall>c\<in>set new. c_server (clients w' c) = Some s)"
  using assms(2,3)
proof (induction fds arbitrary: w cs)
  case Nil
  then show ?case by (intro exI [of _ w] exI [of _ "[]"]) simp
next
  case (Cons fd fds)
  from accept_step [OF assms(1) Cons.prems, of 0 "map (\<lambda>fd. (fd, 0)) fds"] obtain w1 where w1:
    "accept_loop cb s (map (\<lambda>fd. (fd, 0)) (fd # fds)) w = accept_loop cb s (map (\<lambda>fd. (fd, 0)) fds) w1"
    "can_accept s l fds w1" "ring w1 (server_clients s) (map client_list (cs @ [brk w]))" "brk w < brk w1"
    "\<forall>c < brk w. clients w1 c = clients w c"
    "sockfd (clients w1 (brk w)) = fd" "c_server (clients w1 (brk w)) = Some s" by auto
  from Cons.IH [OF w1(2,3)] obtain w' new where w':
    "accept_loop cb s (map (\<lambda>fd. (fd, 0)) fds) w1 = Inr w'"
    "ring w' (server_clients s) (map client_list ((cs @ [brk w]) @ new))" "brk w1 \<le> brk w'"
    "\<forall>c < brk w1. clients w' c = clients w1 c"
    "map (\<lambda>c. sockfd (clients w' c)) new = fds" "\<forall>c\<in>set new. c_server (clients w' c) = Some s" by blast
  with w1 show ?case
    by (intro exI [of _ w'] exI [of _ "brk w # new"]) auto
qed

section \<open>Destroying servers and loops\<close>

lemma for_each_empty: "ring m h [] \<Longrightarrow> list_for_each (Suc k) body h (m, a) = Inr (m, a)"
  using list_for_each_ring [of m h "[]" "Suc k"] by simp

definition server_idle :: "nat \<Rightarrow> world \<Rightarrow> bool" where
  "server_idle s w \<longleftrightarrow> s \<in> live w \<and> 0 \<le> listenfd (servers w s) \<and> s_ch (servers w s) \<in> live w \<and>
     s_ch (servers w s) \<noteq> s \<and> ch_fd (chans w (s_ch (servers w s))) = listenfd (servers w s) \<and>
     ring w (server_clients s) []"

lemma server_destroy_idle:
  assumes "server_idle s w"
  shows "\<exists>w'. liby_server_destroy cb s w = Inr w' \<and> live w' = live w - {s, s_ch (servers w s)} \<and>
    trace w' = trace w @ [Closed (listenfd (servers w s))]"
  using assms
  by (auto simp: for_each_empty server_idle_def liby_server_destroy_def destroy_chan_def free_def Let_def)

lemma for_each_servers:
  assumes "server_idle s w" and "ring w (loop_servers l) (map server_list (s # ss))"
  shows "list_for_each (Suc k) (destroy_server_body cb) (loop_servers l) (w, ()) = Inl WildDeref"
proof -
  from server_destroy_idle [OF assms(1)] obtain w' where
    w': "liby_server_destroy cb s w = Inr w'" "s \<notin> live w'" by blast
  then have "destroy_server_body cb (server_list s) (w, ()) = Inr (w', ())"
    by (simp add: destroy_server_body_def list_entry_def)
  with list_for_each_freed [where body = "destroy_server_body cb" and a = "()", OF assms(2) [simplified list.map]] w'(2)
  show ?thesis by blast
qed

section \<open>Enumeration\<close>

lemma collect_ring:
  assumes "fresh w" and "ring w h (map (\<lambda>a. Member a 0) as)"
  shows "collect h w = Inr as"
proof -
  have "set as \<subseteq> {..<brk w}" "distinct as"
    using assms(1) ring_live [OF assms(2), of _ 0] ring_distinct [OF assms(2)]
    by (auto simp: fresh_def distinct_map)
  then have "length as \<le> brk w"
    using card_mono [of "{..<brk w}" "set as"] distinct_card [of as] by simp
  then have "length (map (\<lambda>a. Member a 0) as) < Suc (brk w)" by simp
  moreover define f where "f = (\<lambda>p ys. ys @ [case list_entry p of Inr a \<Rightarrow> a | Inl e \<Rightarrow> 0])"
  ultimately have "list_for_each (Suc (brk w)) collect_body h (w, []) =
      Inr (w, fold f (map (\<lambda>a. Member a 0) as) [])"
    by (intro list_for_each_ring [OF assms(2)]) (auto simp: collect_body_def list_entry_def f_def)
  moreover have "fold f (map (\<lambda>a. Member a 0) as) ys = ys @ as" for ys
    by (induction as arbitrary: ys) (auto simp: f_def list_entry_def)
  ultimately show ?thesis
    by (simp add: collect_def list_empty_ring [OF assms(2)])
qed

end
