(* ===== verification/Liby_Props.thy ===== *)
theory Liby_Props
  imports Liby_Lifecycle
begin

text \<open>
  The properties of liby, with a small concrete state on which they are exercised.
\<close>

section \<open>A concrete state\<close>

text \<open>
  The examples run on a loop 4 with poller 3, a listening server 0 in the loop, and a client 1 of
  the server with channel 2; task 5 with the three bytes of buffer 6 is not queued yet.
\<close>

definition demo :: world where
  "demo = \<lparr>
     nxt = (\<lambda>_. NULL)(Member 0 2 := Member 1 0, Member 1 0 := Member 0 2, Member 1 2 := Member 1 2,
       Member 1 3 := Member 1 3, Member 4 0 := Member 4 0, Member 4 2 := Member 0 0, Member 0 0 := Member 4 2),
     prv = (\<lambda>_. NULL)(Member 0 2 := Member 1 0, Member 1 0 := Member 0 2, Member 1 2 := Member 1 2,
       Member 1 3 := Member 1 3, Member 4 0 := Member 4 0, Member 4 2 := Member 0 0, Member 0 0 := Member 4 2),
     live = {0, 1, 2, 3, 4, 5, 6, 7}, brk = 8,
     tasks = (\<lambda>_. \<lparr>t_buf = 6, t_size = 3, t_offset = 0, min_except_bytes = 0, t_handler = Some 9\<rparr>),
     clients = (\<lambda>_. (client_zero 4 12 (Some 3))\<lparr>c_ch := 2, c_server := Some 0\<rparr>),
     servers = (\<lambda>_. \<lparr>listenfd = 10, s_epoller = Some 3, s_loop = Some 4, s_ch = 7, s_events = 0,
       acceptor = Some 1\<rparr>),
     loops = (\<lambda>_. \<lparr>maxfds = 1024, nthreads = 0, keep_running = False, epollers = [Some 3]\<rparr>),
     epolls = (\<lambda>_. \<lparr>epfd = 11, epollsize = 1024, e_flag = True\<rparr>),
     chans = (\<lambda>a. if a = 2 then \<lparr>ch_p = Client_chan 1, ch_fd = 12\<rparr> else \<lparr>ch_p = Server_chan 0, ch_fd = 10\<rparr>),
     bufs = (\<lambda>_. [1, 2, 3]),
     interest = (\<lambda>_. None), trace = []\<rparr>"

definition demo_task :: "lptr \<Rightarrow> world" where
  "demo_task h = demo\<lparr>nxt := (nxt demo)(h := task_list 5, task_list 5 := h),
     prv := (prv demo)(h := task_list 5, task_list 5 := h)\<rparr>"

definition silent :: callbacks where
  "silent = \<lparr>on_io = (\<lambda>h c b off ec w. Inr w), on_accept = (\<lambda>f c w. Inr w), on_release = (\<lambda>f d w. Inr w)\<rparr>"

lemma silent_quiet: "quiet silent" "quiet_accept silent"
  by (simp_all add: silent_def quiet_def quiet_accept_def)

lemma demo_attached: "attached 1 0 [] [] demo" "attached 1 0 [] [] (demo_task (read_list_head 1))"
  by (simp_all add: attached_def chan_ok_def demo_def demo_task_def client_zero_def ring_def)

lemma demo_idle: "idle 1 0 [] [] demo"
  using demo_attached(1) by (simp add: idle_def) (simp add: demo_def client_zero_def ring_def)

lemma demo_queued: "queued 1 [] [5] (demo_task (write_list_head 1))" "queued 1 [] [] demo"
  by (simp_all add: queued_def chan_ok_def demo_def demo_task_def client_zero_def ring_def)

lemma demo_fresh: "fresh demo"
  by (simp add: fresh_def demo_def)

section \<open>Properties\<close>

text \<open>
  C31. The read queue of a client is first in, first out: tasks pushed into an empty queue are
  popped in the order in which they were pushed, and the queue is empty again.
\<close>

theorem read_queue_fifo:
  assumes "ring w (read_list_head c) []" and "distinct ts" and "set ts \<subseteq> live w"
  shows "\<exists>w' w''. fifo_queue.push_all (\<lambda>t. push_read_task_to_client t c) ts w = Inr w' \<and>
    fifo_queue.pop_many (pop_read_task_from_client c) (length ts) w' = Inr (ts, w'') \<and>
    ring w'' (read_list_head c) []"
  using read_queue.fifo [of w c ts] assms by auto

theorem read_queue_fifo_witness:
  "\<exists>w' w''. fifo_queue.push_all (\<lambda>t. push_read_task_to_client t 1) [5, 6] demo = Inr w' \<and>
    fifo_queue.pop_many (pop_read_task_from_client 1) (length [5, 6 :: nat]) w' = Inr ([5, 6], w'') \<and>
    ring w'' (read_list_head 1) []"
  by (rule read_queue_fifo) (simp_all add: demo_def ring_def)

text \<open>
  C7. \<open>write_message\<close> on a queue of write tasks that ask for no minimum of bytes and have sent nothing
  yet, where each meets one \<open>write\<close> that returns a positive number \<open>ns t\<close> of bytes of its buffer, with
  handlers that leave the library alone (\<open>quiet\<close>) and a client that is not being destroyed: the tasks
  are served in queue order; each sends the first \<open>ns t\<close> bytes of its buffer and nothing else, even if
  the buffer is longer; its handler is told so with code 0; the queue is empty afterwards, the tasks
  are freed, and \<open>EPOLLOUT\<close> is off.
\<close>

theorem write_message_serves_queue:
  assumes "quiet cb" and "queued c rts ts w" and "ts \<noteq> []"
    and "\<forall>t\<in>set ts. t_offset (tasks w t) = 0 \<and> min_except_bytes (tasks w t) = 0 \<and>
      0 < ns t \<and> ns t \<le> length (bufs w (t_buf (tasks w t)))"
  shows "\<exists>w'. write_message cb c (map (\<lambda>t. Wrote (ns t) err) ts) w = Inr w' \<and>
    trace w' = trace w @ concat (map (\<lambda>t. write_events c (ns t) w t) ts) \<and>
    ring w' (write_list_head c) [] \<and> curr_write_task (clients w' c) = None \<and>
    live w' = live w - set ts \<and> c_events (clients w' c) AND EPOLLOUT = 0"
proof -
  from assms(3) obtain t ts' where ts: "ts = t # ts'" by (cases ts) auto
  from queued_start [OF assms(2) [unfolded ts]] obtain w1 where w1:
    "write_message cb c (map (\<lambda>t. Wrote (ns t) err) ts) w = write_loop cb c t (map (\<lambda>t. Wrote (ns t) err) ts) w1"
    "writing c rts (t # ts') w1" "tasks w1 = tasks w" "bufs w1 = bufs w" "trace w1 = trace w" "live w1 = live w"
    "sockfd (clients w1 c) = sockfd (clients w c)" by blast
  have ev: "write_events c n w1 = write_events c n w" for n
    using w1(3,4,7) by (intro ext) (simp add: write_events_def split: option.splits)
  from write_loop_all [OF assms(1) w1(2), of ns err] assms(4) w1(3,4) ts obtain w2 where w2:
    "write_loop cb c t (map (\<lambda>t. Wrote (ns t) err) ts) w1 = liby_client_update_state cb c w2" "writing c rts [] w2"
    "trace w2 = trace w @ concat (map (\<lambda>t. write_events c (ns t) w t) ts)" "live w2 = live w - set ts"
    using w1(5,6) by (auto simp: ev)
  from w2(2) have u: "chan_ok c w2" "ring w2 (read_list_head c) rts" "ring w2 (write_list_head c) []"
    "\<not> destroy (clients w2 c)" "curr_write_task (clients w2 c) = None" by (simp_all add: writing_def)
  from update_state_ok [OF u(1-4), of cb] u(5) masks(2) [of True] obtain w3 where w3:
    "liby_client_update_state cb c w2 = Inr w3" "c_events (clients w3 c) AND EPOLLOUT = 0"
    "trace w3 = trace w2" "live w3 = live w2" "curr_write_task (clients w3 c) = None"
    "ring w3 (write_list_head c) []"
    using u(3) by auto
  with w1(1) w2 show ?thesis by auto
qed

theorem write_message_serves_queue_witness:
  "\<exists>w'. write_message silent 1 (map (\<lambda>t. Wrote 2 0) [5 :: nat]) (demo_task (write_list_head 1)) = Inr w' \<and>
    trace w' = trace (demo_task (write_list_head 1)) @
      concat (map (\<lambda>t. write_events 1 2 (demo_task (write_list_head 1)) t) [5]) \<and>
    ring w' (write_list_head 1) [] \<and> curr_write_task (clients w' 1) = None \<and>
    live w' = live (demo_task (write_list_head 1)) - set [5] \<and> c_events (clients w' 1) AND EPOLLOUT = 0"
  by (rule write_message_serves_queue [OF silent_quiet(1) demo_queued(1)])
    (simp_all add: demo_task_def demo_def)

text \<open>
  A \<open>write\<close> that returns 0 is an error: the client is destroyed, whatever \<open>errno\<close> is.
\<close>

lemma write_zero_destroys:
  assumes "c \<in> live w" and "p \<in> live w"
  shows "write_loop cb c p (Wrote 0 err # rs) w =
    rbind (call_handler cb c p (t_offset (tasks w p)) (errcode 0 err) w) (liby_client_destroy cb c)"
  using assms by (simp add: write_loop.simps at_def)

text \<open>
  \<open>liby_async_write_some\<close> appends one task for the caller's buffer to the write queue, which
  keeps its order, leaves everything already queued alone, and turns \<open>EPOLLOUT\<close> on.
\<close>

theorem async_write_appends:
  assumes "queued c rts ts w" and "fresh w" and "sz \<noteq> 0"
  shows "\<exists>w'. liby_async_write_some c (Some b) sz h w = Inr w' \<and> queued c rts (ts @ [brk w]) w' \<and>
    tasks w' = (tasks w)(brk w := \<lparr>t_buf = b, t_size = sz, t_offset = 0, min_except_bytes = 0, t_handler = h\<rparr>) \<and>
    bufs w' = bufs w \<and> trace w' = trace w \<and> live w' = insert (brk w) (live w) \<and>
    c_events (clients w' c) AND EPOLLOUT \<noteq> 0"
  using async_write_ok [OF assms, of b h] by blast

theorem async_write_appends_witness:
  "\<exists>w'. liby_async_write_some 1 (Some 6) 3 None demo = Inr w' \<and> queued 1 [] ([] @ [brk demo]) w' \<and>
    tasks w' = (tasks demo)(brk demo := \<lparr>t_buf = 6, t_size = 3, t_offset = 0, min_except_bytes = 0, t_handler = None\<rparr>) \<and>
    bufs w' = bufs demo \<and> trace w' = trace demo \<and> live w' = insert (brk demo) (live demo) \<and>
    c_events (clients w' 1) AND EPOLLOUT \<noteq> 0"
  by (rule async_write_appends [OF demo_queued(2) demo_fresh]) simp

text \<open>
  \<open>liby_client_update_state\<close> makes the event mask follow the queues: \<open>EPOLLIN\<close> is on exactly
  if a read task is pending or under way, \<open>EPOLLOUT\<close> likewise for writing, and no other bit of the
  mask changes.
\<close>

theorem update_state_mask:
  assumes "chan_ok c w" and "ring w (read_list_head c) rts" and "ring w (write_list_head c) wts"
    and "\<not> destroy (clients w c)"
  shows "\<exists>w'. liby_client_update_state cb c w = Inr w' \<and>
    (c_events (clients w' c) AND EPOLLIN \<noteq> 0 \<longleftrightarrow> rts \<noteq> [] \<or> curr_read_task (clients w c) \<noteq> None) \<and>
    (c_events (clients w' c) AND EPOLLOUT \<noteq> 0 \<longleftrightarrow> wts \<noteq> [] \<or> curr_write_task (clients w c) \<noteq> None) \<and>
    (\<forall>n. n \<notin> {0, 2} \<longrightarrow> bit (c_events (clients w' c)) n = bit (c_events (clients w c)) n)"
proof -
  from update_state_ok [OF assms, of cb] obtain w' where "liby_client_update_state cb c w = Inr w'"
    "c_events (clients w' c) = write_mask (wts = [] \<and> curr_write_task (clients w c) = None)
        (read_mask (rts = [] \<and> curr_read_task (clients w c) = None) (c_events (clients w c)))" by auto
  then show ?thesis
    by (intro exI [of _ w']) (simp only: masks(1,2) de_Morgan_conj simp_thms, simp add: masks(3))
qed

theorem update_state_mask_witness:
  "\<exists>w'. liby_client_update_state silent 1 demo = Inr w' \<and> c_events (clients w' 1) AND EPOLLIN = 0 \<and>
    c_events (clients w' 1) AND EPOLLOUT = 0 \<and> bit (c_events (clients w' 1)) 4 = bit (c_events (clients demo 1)) 4"
proof -
  have "curr_read_task (clients demo 1) = None" "curr_write_task (clients demo 1) = None"
    by (simp_all add: demo_def client_zero_def)
  with update_state_mask [of 1 demo "[]" "[]" silent] demo_queued(2) show ?thesis
    by (auto simp: queued_def)
qed

text \<open>
  Destroying a client of a server that has no task: it leaves the server's list, the other
  clients stay in order, its channel is closed and leaves every poller, and the client, its channel
  and its data are freed.
\<close>

theorem client_destroy_idle:
  assumes "idle c s cs ds w"
  shows "\<exists>w'. liby_client_destroy cb c w = Inr w' \<and>
    ring w' (server_clients s) (map client_list (cs @ ds)) \<and>
    live w' = live w - {c, c_ch (clients w c)} - set_option (c_data (clients w c)) \<and>
    trace w' = trace w @ [Closed (sockfd (clients w c))] \<and>
    (\<forall>e. interest w' (e, sockfd (clients w c)) = None)"
  using assms by (rule destroy_idle)

theorem client_destroy_idle_witness:
  "\<exists>w'. liby_client_destroy silent 1 demo = Inr w' \<and>
    ring w' (server_clients 0) (map client_list ([] @ [])) \<and>
    live w' = live demo - {1, c_ch (clients demo 1)} - set_option (c_data (clients demo 1)) \<and>
    trace w' = trace demo @ [Closed (sockfd (clients demo 1))] \<and>
    (\<forall>e. interest w' (e, sockfd (clients demo 1)) = None)"
  using demo_idle by (rule client_destroy_idle)

text \<open>
  Destroying a client while a read task with a handler is queued faults: the loop over the
  tasks frees the task it is at and then follows that task's next pointer.
\<close>

theorem client_destroy_pending:
  assumes "quiet cb" and "attached c s cs ds w"
    and "ring w (read_list_head c) (map task_list (t # ts))" and "set (t # ts) \<inter> set (c # cs @ ds) = {}"
    and "t_handler (tasks w t) \<noteq> None"
  shows "liby_client_destroy cb c w = Inl WildDeref"
  using assms by (rule destroy_pending)

theorem client_destroy_pending_witness:
  "liby_client_destroy silent 1 (demo_task (read_list_head 1)) = Inl WildDeref"
  by (rule client_destroy_pending [OF silent_quiet(1) demo_attached(2), of 5 "[]"])
    (simp_all add: demo_task_def demo_def ring_def)

text \<open>
  A client made by \<open>liby_client_init\<close> alone is in no list: it waits for input on its poller
  with empty queues, and destroying it follows the null pointers of its list node.
\<close>

theorem client_init_then_destroy:
  assumes "l \<in> live w" and "0 \<le> fd" and "fresh w"
    and "poller_of l fd w = Some e" "e \<in> live w" "interest w (epfd (epolls w e), fd) = None"
  shows "\<exists>w'. liby_client_init fd l w = Inr (brk w, w') \<and> queued (brk w) [] [] w' \<and>
    interest w' (epfd (epolls w e), fd) = Some (EPOLLIN OR EPOLLHUP OR EPOLLET OR EPOLLRDHUP) \<and>
    liby_client_destroy cb (brk w) w' = Inl NullDeref"
proof -
  from client_init_ok [OF assms] obtain w' where w': "liby_client_init fd l w = Inr (brk w, w')"
    "queued (brk w) [] [] w'"
    "clients w' = (clients w)(brk w := (client_zero l fd (Some e))\<lparr>c_ch := Suc (brk w)\<rparr>)"
    "interest w' = (interest w)((epfd (epolls w e), fd) := Some (EPOLLIN OR EPOLLHUP OR EPOLLET OR EPOLLRDHUP))"
    "live w' = live w \<union> {brk w, Suc (brk w)}"
    "nxt w' (client_list (brk w)) = NULL" "prv w' (client_list (brk w)) = NULL" by blast
  have "liby_client_destroy cb (brk w) w' = Inl NullDeref"
    using assms(1) by (intro destroy_unlinked w'(6,7)) (simp_all add: w'(3,5) client_zero_def)
  with w'(1,2,4) show ?thesis by simp
qed

theorem client_init_then_destroy_witness:
  "\<exists>w'. liby_client_init 20 4 demo = Inr (brk demo, w') \<and> queued (brk demo) [] [] w' \<and>
    interest w' (epfd (epolls demo 3), 20) = Some (EPOLLIN OR EPOLLHUP OR EPOLLET OR EPOLLRDHUP) \<and>
    liby_client_destroy silent (brk demo) w' = Inl NullDeref"
  by (rule client_init_then_destroy [OF _ _ demo_fresh]) (simp_all add: demo_def poller_of_def)

text \<open>
  The accept loop: each accepted descriptor becomes a client of the server, appended to the
  server's list in the order of acceptance.
\<close>

theorem accept_appends_clients:
  assumes "quiet_accept cb" and "can_accept s l fds w" and "ring w (server_clients s) (map client_list cs)"
  shows "\<exists>w' new. accept_loop cb s (map (\<lambda>fd. (fd, 0)) fds) w = Inr w' \<and>
    ring w' (server_clients s) (map client_list (cs @ new)) \<and>
    map (\<lambda>c. sockfd (clients w' c)) new = fds \<and> (\<forall>c\<in>set new. c_server (clients w' c) = Some s)"
  using accept_all [OF assms] by blast

theorem accept_appends_clients_witness:
  "\<exists>w' new. accept_loop silent 0 (map (\<lambda>fd. (fd, 0)) [20, 21]) demo = Inr w' \<and>
    ring w' (server_clients 0) (map client_list ([1] @ new)) \<and>
    map (\<lambda>c. sockfd (clients w' c)) new = [20, 21] \<and> list_all (\<lambda>c. c_server (clients w' c) = Some 0) new"
  unfolding list_all_iff
proof (rule accept_appends_clients [OF silent_quiet(2), of _ 4])
  show "can_accept 0 4 [20, 21] demo"
    using demo_fresh by (simp add: can_accept_def) (simp add: demo_def poller_of_def)
qed (simp add: demo_def ring_def)

text \<open>
  An \<open>accept\<close> that fails for another reason than \<open>EAGAIN\<close> (too many open files, a connection
  reset before it was accepted) aborts the program: the loop goes on with the descriptor -1, which
  \<open>liby_client_init\<close> asserts not to be negative.
\<close>

theorem accept_error_aborts:
  assumes "s \<in> live w" and "clfd < 0" and "err \<noteq> EAGAIN"
  shows "accept_loop cb s ((clfd, err) # as) w = Inl AssertFail"
  using assms by (auto simp: liby_client_init_def split: option.split)

theorem accept_error_aborts_witness:
  "accept_loop silent 0 ((-1, 24) # []) demo = Inl AssertFail"
  by (rule accept_error_aborts) (simp_all add: demo_def)

text \<open>
  Destroying a loop that has a server faults: \<open>liby_server_destroy\<close> frees the server, and the
  loop over the servers then reads the freed server's next pointer.
\<close>

theorem loop_destroy_faults:
  assumes "l \<in> live w" and "epollers (loops w l) = [Some e]" and "e \<in> live w" and "0 \<le> epfd (epolls w e)"
    and "ring w (loop_clients l) []" and "ring w (loop_servers l) (map server_list (s # ss))"
    and "server_idle s w" and "e \<notin> {l, s, s_ch (servers w s)} \<union> set ss"
  shows "liby_loop_destroy cb l w = Inl WildDeref"
proof -
  let ?w1 = "w\<lparr>loops := (loops w)(l := (loops w l)\<lparr>keep_running := False\<rparr>)\<rparr>"
  let ?w2 = "emit (Closed (epfd (epolls w e))) ?w1" and ?w3 = "(emit (Closed (epfd (epolls w e))) ?w1)\<lparr>live := live w - {e}\<rparr>"
  have "destroy_epollers (epollers (loops ?w1 l)) ?w1 = Inr ?w3"
    using assms(2-4) by (simp add: epoller_destroy_def free_def)
  moreover have free: "ring ?w3 h xs" if "ring w h xs" "\<forall>k. Member e k \<notin> set (h # xs)" for h xs
    using ring_free [of ?w2 h xs e] that by simp
  have c: "ring ?w3 (loop_clients l) []" and s: "ring ?w3 (loop_servers l) (map server_list (s # ss))"
    using assms(5,6,8) by (auto intro!: free)
  have "ring ?w3 (server_clients s) []" using assms(7,8) by (auto intro!: free simp: server_idle_def)
  then have "server_idle s ?w3" using assms(7,8) by (auto simp: server_idle_def)
  note for_each_servers [OF this s]
  ultimately show ?thesis
    using assms(1) by (simp add: liby_loop_destroy_def Let_def for_each_empty [OF c])
qed

theorem loop_destroy_faults_witness:
  "liby_loop_destroy silent 4 (demo\<lparr>nxt := (nxt demo)(Member 0 2 := Member 0 2), prv := (prv demo)(Member 0 2 := Member 0 2)\<rparr>) = Inl WildDeref"
  by (rule loop_destroy_faults [of _ _ 3 0 "[]"]) (simp_all add: demo_def ring_def server_idle_def)

text \<open>
  Data set with \<open>liby_client_set_data_without_free\<close> is freed all the same when the client is
  destroyed: with no release function, \<open>liby_client_destroy\<close> calls \<open>free\<close>.
\<close>

theorem set_data_without_free_frees:
  assumes "idle c s cs ds w" and "d \<in> live w" and "d \<notin> {c, s, c_ch (clients w c)} \<union> set cs \<union> set ds"
  shows "\<exists>w1 w2. liby_client_set_data_without_free c d w = Inr w1 \<and>
    liby_client_destroy cb c w1 = Inr w2 \<and> d \<notin> live w2"
proof -
  let ?w1 = "w\<lparr>clients := (clients w)(c := (clients w c)\<lparr>release_data_func := None, c_data := Some d\<rparr>)\<rparr>"
  have "idle c s cs ds ?w1"
    using assms by (auto simp: idle_def attached_def chan_ok_def)
  from destroy_idle [OF this, of cb] obtain w2 where "liby_client_destroy cb c ?w1 = Inr w2" "d \<notin> live w2"
    by auto
  moreover have "c \<in> live w" using assms(1) by (simp add: idle_def attached_def chan_ok_def)
  then have "liby_client_set_data_without_free c d w = Inr ?w1"
    by (simp add: liby_client_set_data_without_free_def liby_client_set_data_def upd_client_def)
  ultimately show ?thesis by blast
qed

theorem set_data_without_free_frees_witness:
  "\<exists>w1 w2. liby_client_set_data_without_free 1 6 demo = Inr w1 \<and>
    liby_client_destroy silent 1 w1 = Inr w2 \<and> 6 \<notin> live w2"
  by (rule set_data_without_free_frees [OF demo_idle]) (simp_all add: demo_def client_zero_def)

text \<open>
  \<open>get_clients_of_server\<close> returns the clients of the server in the order of its list.
\<close>

theorem get_clients_in_order:
  assumes "fresh w" and "ring w (server_clients s) (map client_list cs)"
  shows "get_clients_of_server s w = Inr cs"
  using collect_ring [OF assms] by (simp add: get_clients_of_server_def)

theorem get_clients_in_order_witness: "get_clients_of_server 0 demo = Inr [1]"
  by (rule get_clients_in_order [OF demo_fresh]) (simp add: demo_def ring_def)

end
