(* ===== verification/BigInt.thy ===== *)
theory BigInt
  imports Prelude
begin

text \<open>
  Model of \<open>bigint/BigInt.h\<close>: integers of any size as a sign and a vector of 32-bit digits, least
  significant digit first. The digits are 32-bit words and the intermediate results 64-bit words,
  with the wrap-around the C++ code has; an access behind the end of a vector is a fault. An
  argument passed by reference is a value: no operation is called with an alias of its own object.

  \<open>bi_val\<close> is the number a digit vector stands for and \<open>int_val\<close> that of an integer.
\<close>

section \<open>Data\<close>

record bigint =
  sign :: bool
  nums :: "u32 list"

abbreviation radix :: u64 where
  "radix \<equiv> 0x100000000"

primrec bi_val :: "u32 list \<Rightarrow> nat" where
  "bi_val [] = 0"
| "bi_val (d # ds) = unat d + 2 ^ 32 * bi_val ds"

definition int_val :: "bigint \<Rightarrow> int" where
  "int_val b = (if sign b then int (bi_val (nums b)) else - int (bi_val (nums b)))"

section \<open>Construction\<close>

fun digits64 :: "nat \<Rightarrow> u64 \<Rightarrow> u32 list" where
  "digits64 0 v = []"
| "digits64 (Suc k) v = (if v = 0 then [] else ucast (v mod radix) # digits64 k (v div radix))"

text \<open>The loop divides by \<open>2 ^ 32\<close>, so it ends after at most two rounds.\<close>

definition BigInt_int64 :: "u64 \<Rightarrow> bigint" where
  "BigInt_int64 that =
     (let s = (0 \<le> sint that); v = (if s then that else - that) in
      if v = 0 then \<lparr>sign = s, nums = [0]\<rparr> else \<lparr>sign = s, nums = digits64 3 v\<rparr>)"

definition BigInt_int32 :: "i32 \<Rightarrow> bigint" where
  "BigInt_int32 that = BigInt_int64 (scast that)"

definition BigInt_uint64 :: "u64 \<Rightarrow> bigint" where
  "BigInt_uint64 that =
     (if that > radix then \<lparr>sign = True, nums = [ucast (that div radix), ucast (that mod radix)]\<rparr>
      else \<lparr>sign = True, nums = [ucast that]\<rparr>)"

definition BigInt_uint32 :: "u32 \<Rightarrow> bigint" where
  "BigInt_uint32 that = BigInt_uint64 (ucast that)"

section \<open>Arithmetic on digit vectors\<close>

text \<open>
  The first loop of \<open>Add\<close> over the digits of both numbers. The sum \<open>that.nums_[i] + carry\<close> is
  formed in 32 bits.
\<close>

fun add_loop :: "u32 list \<Rightarrow> u32 list \<Rightarrow> u32 \<Rightarrow> u32 list \<times> u32 list \<times> u32" where
  "add_loop (x # xs) (y # ys) c =
     (let temp = (ucast x :: u64) + ucast (y + c);
          (ds, rest, c') = (if temp \<ge> radix then add_loop xs ys (ucast (temp div radix))
                            else add_loop xs ys 0)
      in (ucast (temp mod radix) # ds, rest, c'))"
| "add_loop xs ys c = ([], xs, c)"

text \<open>The loop that carries on: its index does not move.\<close>

function carry_loop :: "u32 \<Rightarrow> u32 \<Rightarrow> u32" where
  "carry_loop d c =
     (if c = 0 then d
      else (let temp = (ucast d :: u64) + ucast c
            in carry_loop (ucast (temp mod radix)) (ucast (temp div radix))))"
  by pat_completeness auto

lemma unat_u32_lt: "unat (x :: u32) < 2 ^ 32"
  using unsigned_less [of x] by simp

lemma unat_ucast_64 [simp]: "unat (ucast (x :: u32) :: u64) = unat x"
  using unat_u32_lt [of x] by (simp add: unsigned_ucast_eq take_bit_eq_mod)

lemma unat_plus_64: "unat ((ucast (x :: u32) :: u64) + ucast (y :: u32)) = unat x + unat y"
  using unat_u32_lt [of x] unat_u32_lt [of y] by (simp add: unat_word_ariths)

lemma unat_radix [simp]: "unat radix = 2 ^ 32"
  by simp

lemma unat_low: "unat (ucast (t mod radix) :: u32) = unat (t :: u64) mod 2 ^ 32"
  by (simp add: unsigned_ucast_eq take_bit_eq_mod unat_mod_distrib)

lemma unat_high: "unat (ucast (t div radix) :: u32) = unat (t :: u64) div 2 ^ 32"
proof -
  have "unat t div 2 ^ 32 < 2 ^ 32"
    using unsigned_less [of t, where ?'a = nat] by (simp add: less_mult_imp_div_less)
  then show ?thesis
    by (simp add: unsigned_ucast_eq take_bit_eq_mod unat_div_distrib)
qed

termination carry_loop
proof (relation "measures [\<lambda>(d, c). unat c, \<lambda>(d, c). unat d]")
  fix d c :: u32 and temp :: u64
  assume c: "c \<noteq> 0" and t: "temp = ucast d + ucast c"
  have ut: "unat temp = unat d + unat c" unfolding t by (rule unat_plus_64)
  have uc: "unat c \<noteq> 0" using c by (simp add: unat_eq_0)
  note d = unat_u32_lt [of d] and cl = unat_u32_lt [of c]
  have "(unat d + unat c) div 2 ^ 32 < unat c \<or>
      (unat d + unat c) div 2 ^ 32 = unat c \<and> (unat d + unat c) mod 2 ^ 32 < unat d"
  proof (cases "unat d + unat c < 2 ^ 32")
    case True
    with uc show ?thesis by simp
  next
    case False
    then obtain k where k: "unat d + unat c = 2 ^ 32 + k" using le_Suc_ex by fastforce
    with d cl have "k < 2 ^ 32" by linarith
    with k have "(unat d + unat c) div 2 ^ 32 = 1" "(unat d + unat c) mod 2 ^ 32 = k" by simp_all
    with uc d cl k show ?thesis by linarith
  qed
  then show "((ucast (temp mod radix), ucast (temp div radix)), d, c) \<in> measures [\<lambda>(d, c). unat c, \<lambda>(d, c). unat d]"
    by (simp only: in_measures unat_low unat_high ut split) auto
qed simp

declare carry_loop.simps [simp del]

definition resize :: "nat \<Rightarrow> u32 list \<Rightarrow> u32 list" where
  "resize n xs = take n xs @ replicate (n - length xs) 0"

definition Add :: "u32 list \<Rightarrow> u32 list \<Rightarrow> u32 list" where
  "Add this that =
     (let xs = (if length this < length that then resize (length that) this else this);
          (ds, rest, carry) = add_loop xs that 0 in
      if carry = 0 then ds @ rest
      else case rest of [] \<Rightarrow> ds @ [carry] | d # r \<Rightarrow> ds @ carry_loop d carry # r)"

text \<open>
  The first loop of \<open>Sub\<close>; adding the radix to a 32-bit digit does nothing. The second loop
  borrows from the digits above. The last step drops leading zeros.
\<close>

fun sub_loop :: "u32 list \<Rightarrow> u32 list \<Rightarrow> u32 \<Rightarrow> (u32 list \<times> u32 list \<times> u32) res" where
  "sub_loop xs [] b = Inr ([], xs, b)"
| "sub_loop [] (y # ys) b = Inl OutOfBounds"
| "sub_loop (x # xs) (y # ys) b =
     (let x1 = x - b in
      rbind (sub_loop xs ys (if x1 < y then 1 else 0)) (\<lambda>(ds, rest, b').
      Inr ((x1 - y) # ds, rest, b')))"

fun borrow_loop :: "u32 list \<Rightarrow> u32 \<Rightarrow> u32 list" where
  "borrow_loop [] b = []"
| "borrow_loop (x # xs) b =
     (if b = 0 then x # xs
      else if x < b then (x + ucast (radix - 1)) # borrow_loop xs 1
      else (x - b) # borrow_loop xs 0)"

fun used :: "nat \<Rightarrow> nat \<Rightarrow> u32 list \<Rightarrow> nat" where
  "used n i [] = n"
| "used n i (x # xs) = used (if x \<noteq> 0 then i + 1 else n) (i + 1) xs"

definition trim :: "u32 list \<Rightarrow> u32 list" where
  "trim xs = (let n = used 0 0 xs in resize (if n = 0 then 1 else n) xs)"

definition Sub :: "u32 list \<Rightarrow> u32 list \<Rightarrow> u32 list res" where
  "Sub this that =
     rbind (sub_loop this that 0) (\<lambda>(ds, rest, borrow).
     Inr (trim (ds @ borrow_loop rest borrow)))"

text \<open>
  \<open>Mul\<close>: the row of one digit \<open>y\<close> of \<open>that\<close>, added to the digits of the result from position \<open>i\<close>
  on; then the rows of all digits, each starting one position later.
\<close>

fun mul_row :: "u32 \<Rightarrow> u32 list \<Rightarrow> u32 list \<Rightarrow> u32 \<Rightarrow> u32 list" where
  "mul_row y (x # xs) (a # as) c =
     (let temp = (ucast y :: u64) * ucast x + ucast c + ucast a
      in ucast (temp mod radix) # mul_row y xs as (ucast (temp div radix)))"
| "mul_row y [] (a # as) c = (if c \<noteq> 0 then a + c else a) # as"
| "mul_row y xs [] c = []"

fun mul_rows :: "u32 list \<Rightarrow> u32 list \<Rightarrow> u32 list \<Rightarrow> u32 list" where
  "mul_rows xs [] acc = acc"
| "mul_rows xs (y # ys) acc =
     (case mul_row y xs acc 0 of [] \<Rightarrow> [] | a # as \<Rightarrow> a # mul_rows xs ys as)"

definition Mul :: "u32 list \<Rightarrow> u32 list \<Rightarrow> u32 list" where
  "Mul this that =
     (let r = mul_rows this that (replicate (length this + length that) 0)
      in if last r = 0 then butlast r else r)"

section \<open>Bits and powers\<close>

fun bit_count :: "nat \<Rightarrow> u64 \<Rightarrow> nat" where
  "bit_count 0 v = 0"
| "bit_count (Suc k) v = (if v = 0 then 0 else Suc (bit_count k (drop_bit 1 v)))"

definition GetTotalBits :: "u32 list \<Rightarrow> nat" where
  "GetTotalBits ns = 32 * (length ns - 1) + bit_count 32 (ucast (last ns))"

definition TestBit :: "u32 list \<Rightarrow> nat \<Rightarrow> bool" where
  "TestBit ns bits =
     (let wp = bits div 32; bp = bits mod 32 in
      if wp \<ge> length ns then False
      else (ucast (ns ! wp) :: u64) AND (scast (push_bit bp 1 :: i32)) \<noteq> 0)"

definition isZero :: "u32 list \<Rightarrow> bool" where
  "isZero ns \<longleftrightarrow> length ns = 1 \<and> ns ! 0 = 0"

fun power_loop :: "nat \<Rightarrow> nat \<Rightarrow> u32 list \<Rightarrow> u32 list \<Rightarrow> u32 list \<Rightarrow> u32 list" where
  "power_loop 0 i n this t = this"
| "power_loop (Suc k) i n this t =
     power_loop k (Suc i) n (if TestBit n i then Mul this t else this) (Mul t t)"

definition Power :: "u32 list \<Rightarrow> u32 list \<Rightarrow> u32 list" where
  "Power this n = (if isZero n then nums (BigInt_int32 1)
     else power_loop (GetTotalBits n) 0 n (nums (BigInt_int32 1)) this)"

section \<open>Comparison\<close>

fun less_digits :: "u32 list \<Rightarrow> u32 list \<Rightarrow> bool" where
  "less_digits (x # xs) (y # ys) = (if x \<noteq> y then x < y else less_digits xs ys)"
| "less_digits xs ys = False"

text \<open>The loop runs from the most significant digit down.\<close>

definition CompareNoSign :: "u32 list \<Rightarrow> u32 list \<Rightarrow> bool" where
  "CompareNoSign this that =
     (if length this < length that then True
      else if length this = length that then less_digits (rev this) (rev that)
      else False)"

definition Compare :: "bigint \<Rightarrow> bigint \<Rightarrow> bool" where
  "Compare this that =
     (if sign this \<noteq> sign that then \<not> sign this
      else sign this = CompareNoSign (nums this) (nums that))"

definition Equals :: "bigint \<Rightarrow> bigint \<Rightarrow> bool" where
  "Equals this that \<longleftrightarrow> sign this = sign that \<and> length (nums this) = length (nums that) \<and> nums this = nums that"

definition isOdd :: "u32 list \<Rightarrow> bool res" where
  "isOdd ns = rbind (aread ns 0) (\<lambda>d. Inr (d mod 2 = 1))"

definition isEven :: "u32 list \<Rightarrow> bool res" where
  "isEven ns = rbind (aread ns 0) (\<lambda>d. Inr (d mod 2 = 0))"

definition isPositive :: "bigint \<Rightarrow> bool" where
  "isPositive b \<longleftrightarrow> sign b \<and> \<not> isZero (nums b)"

definition isNegative :: "bigint \<Rightarrow> bool" where
  "isNegative b \<longleftrightarrow> \<not> sign b"

section \<open>Shifts and division\<close>

definition shiftLeft :: "nat \<Rightarrow> u32 list \<Rightarrow> u32 list" where
  "shiftLeft i ns = (if i = 0 then ns else replicate i 0 @ ns)"

definition shiftRight :: "nat \<Rightarrow> u32 list \<Rightarrow> u32 list" where
  "shiftRight i ns = (if i = 0 then ns else if i > length ns - 1 then [] else drop i ns)"

text \<open>
  The loop of \<open>Div\<close> on the dividend, the divisor and the quotient so far; it returns the quotient
  and the remainder. The first argument bounds the rounds.
\<close>

fun div_loop :: "nat \<Rightarrow> u32 list \<Rightarrow> u32 list \<Rightarrow> u32 list \<Rightarrow> (u32 list \<times> u32 list) res" where
  "div_loop 0 this that rest = Inl NoReturn"
| "div_loop (Suc k) this that rest =
     (if CompareNoSign this that then Inr (rest, this)
      else
        (let dv = (ucast (last this) :: u64); num = (ucast (last that) :: u64);
             len = length this - length that in
         if dv = num \<and> len = 0 then
           rbind (Sub this that) (\<lambda>r. Inr (Add rest (nums (BigInt_int32 1)), r))
         else
           rbind (if dv \<le> num \<and> len > 0
                  then rbind (aread this (length this - 2)) (\<lambda>d. Inr (dv * radix + ucast d, len - 1))
                  else Inr (dv, len)) (\<lambda>(dv, len).
           let multi = shiftLeft len (nums (BigInt_uint64 (dv div (num + 1)))) in
           rbind (Sub this (Mul that multi)) (\<lambda>this'.
           div_loop k this' that (Add rest multi)))))"

definition Div :: "nat \<Rightarrow> u32 list \<Rightarrow> u32 list \<Rightarrow> (u32 list \<times> u32 list) res" where
  "Div k this that = div_loop k this that (nums (BigInt_int64 0))"

section \<open>Signed operators\<close>

definition fix_zero :: "bigint \<Rightarrow> bigint" where
  "fix_zero b = (if isZero (nums b) then b\<lparr>sign := True\<rparr> else b)"

definition plus_assign :: "bigint \<Rightarrow> bigint \<Rightarrow> bigint res" where
  "plus_assign this that =
     (if sign this = sign that then Inr (fix_zero (this\<lparr>nums := Add (nums this) (nums that)\<rparr>))
      else if CompareNoSign (nums this) (nums that) then
        rbind (Sub (nums that) (nums this)) (\<lambda>r. Inr (fix_zero (that\<lparr>nums := r\<rparr>)))
      else rbind (Sub (nums this) (nums that)) (\<lambda>r. Inr (fix_zero (this\<lparr>nums := r\<rparr>))))"

definition minus_assign :: "bigint \<Rightarrow> bigint \<Rightarrow> bigint res" where
  "minus_assign this that =
     (if sign this \<noteq> sign that then Inr (fix_zero (this\<lparr>nums := Add (nums this) (nums that)\<rparr>))
      else if CompareNoSign (nums this) (nums that) then
        rbind (Sub (nums that) (nums this)) (\<lambda>r. Inr (fix_zero (this\<lparr>sign := \<not> sign this, nums := r\<rparr>)))
      else rbind (Sub (nums this) (nums that)) (\<lambda>r. Inr (fix_zero (this\<lparr>nums := r\<rparr>))))"

definition times_assign :: "bigint \<Rightarrow> bigint \<Rightarrow> bigint" where
  "times_assign this that =
     (let r = Mul (nums this) (nums that) in
      if isZero r then \<lparr>sign = True, nums = r\<rparr>
      else \<lparr>sign = (sign this = sign that), nums = r\<rparr>)"

definition div_assign :: "nat \<Rightarrow> bigint \<Rightarrow> bigint \<Rightarrow> bigint res" where
  "div_assign k this that =
     rbind (Div k (nums this) (nums that)) (\<lambda>(q, r).
     Inr (if isZero q then \<lparr>sign = True, nums = q\<rparr> else \<lparr>sign = (sign this = sign that), nums = q\<rparr>))"

definition mod_assign :: "nat \<Rightarrow> bigint \<Rightarrow> bigint \<Rightarrow> bigint res" where
  "mod_assign k this that =
     rbind (Div k (nums this) (nums that)) (\<lambda>(q, r).
     Inr \<lparr>sign = sign this \<or> sign that, nums = r\<rparr>)"

definition power_assign :: "bigint \<Rightarrow> bigint \<Rightarrow> bigint res" where
  "power_assign this that =
     rbind (isOdd (nums that)) (\<lambda>odd.
     Inr \<lparr>sign = (if odd then sign this else True), nums = Power (nums this) (nums that)\<rparr>)"

section \<open>Free operators\<close>

text \<open>The operators on copies of their operands, and the relations, all by \<open>Compare\<close> and \<open>Equals\<close>.\<close>

definition operator_plus :: "bigint \<Rightarrow> bigint \<Rightarrow> bigint res" where
  "operator_plus lhs rhs = plus_assign lhs rhs"

definition operator_minus :: "bigint \<Rightarrow> bigint \<Rightarrow> bigint res" where
  "operator_minus lhs rhs = minus_assign lhs rhs"

definition operator_times :: "bigint \<Rightarrow> bigint \<Rightarrow> bigint" where
  "operator_times lhs rhs = times_assign lhs rhs"

definition operator_div :: "nat \<Rightarrow> bigint \<Rightarrow> bigint \<Rightarrow> bigint res" where
  "operator_div k lhs rhs = div_assign k lhs rhs"

definition operator_mod :: "nat \<Rightarrow> bigint \<Rightarrow> bigint \<Rightarrow> bigint res" where
  "operator_mod k lhs rhs = mod_assign k lhs rhs"

definition operator_power :: "bigint \<Rightarrow> bigint \<Rightarrow> bigint res" where
  "operator_power lhs rhs = power_assign lhs rhs"

definition operator_less :: "bigint \<Rightarrow> bigint \<Rightarrow> bool" where
  "operator_less lhs rhs = Compare lhs rhs"

definition operator_greater :: "bigint \<Rightarrow> bigint \<Rightarrow> bool" where
  "operator_greater lhs rhs = Compare rhs lhs"

definition operator_equal :: "bigint \<Rightarrow> bigint \<Rightarrow> bool" where
  "operator_equal lhs rhs = Equals lhs rhs"

definition operator_less_eq :: "bigint \<Rightarrow> bigint \<Rightarrow> bool" where
  "operator_less_eq lhs rhs \<longleftrightarrow> \<not> Compare rhs lhs"

definition operator_greater_eq :: "bigint \<Rightarrow> bigint \<Rightarrow> bool" where
  "operator_greater_eq lhs rhs \<longleftrightarrow> \<not> Compare lhs rhs"

fun mod_pow_loop :: "nat \<Rightarrow> nat \<Rightarrow> nat \<Rightarrow> bigint \<Rightarrow> bigint \<Rightarrow> bigint \<Rightarrow> bigint \<Rightarrow> bigint res" where
  "mod_pow_loop 0 i f B N k n = Inr k"
| "mod_pow_loop (Suc m) i f B N k n =
     rbind (if TestBit (nums B) i then operator_mod f (operator_times k n) N else Inr k) (\<lambda>k'.
     rbind (operator_mod f (operator_times n n) N) (\<lambda>n'.
     mod_pow_loop m (Suc i) f B N k' n'))"

definition ModPow :: "nat \<Rightarrow> bigint \<Rightarrow> bigint \<Rightarrow> bigint \<Rightarrow> bigint res" where
  "ModPow f A B N =
     rbind (operator_mod f A N) (\<lambda>n.
     mod_pow_loop (GetTotalBits (nums B)) 0 f B N (BigInt_int32 1) n)"

section \<open>Strings\<close>

definition digit_of :: "char \<Rightarrow> nat" where
  "digit_of c = (let v = of_char c in
     if of_char (CHR ''0'') \<le> v \<and> v \<le> (of_char (CHR ''9'') :: nat) then v - of_char (CHR ''0'')
     else if of_char (CHR ''A'') \<le> v \<and> v \<le> (of_char (CHR ''F'') :: nat) then v - of_char (CHR ''A'') + 10
     else if of_char (CHR ''a'') \<le> v \<and> v \<le> (of_char (CHR ''f'') :: nat) then v - of_char (CHR ''a'') + 10
     else 0)"

fun parse_loop :: "nat \<Rightarrow> string \<Rightarrow> u32 list \<Rightarrow> u32 list" where
  "parse_loop system [] ns = ns"
| "parse_loop system (c # cs) ns =
     parse_loop system cs (Add (Mul ns (nums (BigInt_int32 (of_nat system))))
       (nums (BigInt_int32 (of_nat (digit_of c)))))"

text \<open>The sign of the empty string, of \<open>-\<close> and of \<open>+\<close> is never set: it is the argument \<open>junk\<close>.\<close>

definition BigInt_string :: "bool \<Rightarrow> string \<Rightarrow> nat \<Rightarrow> bigint" where
  "BigInt_string junk that system =
     (if that = [] \<or> that = ''-'' \<or> that = ''+'' then \<lparr>sign = junk, nums = [0]\<rparr>
      else if hd that = CHR ''-'' then \<lparr>sign = False, nums = parse_loop system (tl that) [0]\<rparr>
      else if hd that = CHR ''+'' then \<lparr>sign = True, nums = parse_loop system (tl that) [0]\<rparr>
      else \<lparr>sign = True, nums = parse_loop system that [0]\<rparr>)"

fun to_string_loop :: "nat \<Rightarrow> nat \<Rightarrow> bigint \<Rightarrow> bigint \<Rightarrow> string \<Rightarrow> string res" where
  "to_string_loop 0 k sys v ret = Inl NoReturn"
| "to_string_loop (Suc n) k sys v ret =
     (if isZero (nums v) then Inr (rev ret)
      else rbind (mod_assign k v sys) (\<lambda>rest.
           rbind (div_assign k v sys) (\<lambda>v'.
           rbind (aread (nums rest) 0) (\<lambda>d.
           rbind (aread ''0123456789ABCDEF'' (unat d)) (\<lambda>c.
           to_string_loop n k sys v' (ret @ [c]))))))"

definition toString :: "nat \<Rightarrow> nat \<Rightarrow> bigint \<Rightarrow> u32 \<Rightarrow> string res" where
  "toString n k b system =
     (if isZero (nums b) then Inr ''0''
      else to_string_loop n k (BigInt_uint32 system) b (if isNegative b then ''-'' else []))"

end
