(* ===== verification/BigInt_Arith.thy ===== *)
theory BigInt_Arith
  imports BigInt
begin

text \<open>
  What the digit-vector operations of \<open>BigInt.h\<close> compute, as numbers: multiplication and powers
  exactly, addition and subtraction under the conditions \<open>add_safe\<close> and \<open>sub_safe\<close> that no carry or
  borrow is lost.
\<close>

section \<open>Values of digit vectors\<close>

lemma bi_val_append: "bi_val (xs @ ys) = bi_val xs + 2 ^ (32 * length xs) * bi_val ys"
  by (induction xs) (simp_all add: power_add algebra_simps)

lemma bi_val_zeros [simp]: "bi_val (replicate n 0) = 0"
  by (induction n) simp_all

lemma bi_val_lt: "bi_val xs < 2 ^ (32 * length xs)"
proof (induction xs)
  case (Cons x xs)
  have "unat x + 2 ^ 32 * bi_val xs < 2 ^ 32 + 2 ^ 32 * bi_val xs"
    using unat_u32_lt [of x] by simp
  also have "\<dots> = 2 ^ 32 * Suc (bi_val xs)" by simp
  also have "\<dots> \<le> 2 ^ 32 * 2 ^ (32 * length xs)"
    using Cons by (intro mult_le_mono) simp_all
  finally show ?case by (simp add: power_add)
qed simp

lemma bi_val_all_zero: "\<forall>x\<in>set xs. x = 0 \<Longrightarrow> bi_val xs = 0"
  by (induction xs) simp_all

lemma bi_val_resize: "length xs \<le> n \<Longrightarrow> bi_val (resize n xs) = bi_val xs"
  by (simp add: resize_def bi_val_append)

definition normal :: "u32 list \<Rightarrow> bool" where
  "normal ns \<longleftrightarrow> ns \<noteq> [] \<and> (length ns = 1 \<or> last ns \<noteq> 0)"

section \<open>Multiplication\<close>

lemma mul_temp:
  fixes y x c a :: u32
  shows "unat ((ucast y :: u64) * ucast x + ucast c + ucast a) = unat y * unat x + unat c + unat a"
proof -
  have "unat y * unat x \<le> (2 ^ 32 - 1) * (2 ^ 32 - 1)"
    using unat_u32_lt [of x] unat_u32_lt [of y] by (intro mult_le_mono) simp_all
  then have "unat y * unat x + unat c + unat a < 2 ^ 64"
    using unat_u32_lt [of c] unat_u32_lt [of a] by simp
  then show ?thesis by (simp add: unat_word_ariths)
qed

lemma length_mul_row [simp]: "length (mul_row y xs as c) = length as"
  by (induction y xs as c rule: mul_row.induct) (simp_all add: Let_def)

lemma mul_row_above: "length xs \<le> n \<Longrightarrow> drop (Suc n) (mul_row y xs as c) = drop (Suc n) as"
proof (induction y xs as c arbitrary: n rule: mul_row.induct)
  case (1 y x xs a as c)
  then show ?case by (cases n) (simp_all add: Let_def)
qed simp_all

lemma mul_row_val:
  "length xs < length as \<Longrightarrow> as ! length xs = 0 \<Longrightarrow>
   bi_val (mul_row y xs as c) = unat y * bi_val xs + unat c + bi_val as"
proof (induction y xs as c rule: mul_row.induct)
  case (1 y x xs a as c)
  let ?t = "(ucast y :: u64) * ucast x + ucast c + ucast a"
  have "bi_val (mul_row y xs as (ucast (?t div radix))) =
      unat y * bi_val xs + unat ?t div 2 ^ 32 + bi_val as"
    using 1 by (simp add: unat_high)
  then have "bi_val (mul_row y (x # xs) (a # as) c) =
      (unat ?t mod 2 ^ 32 + 2 ^ 32 * (unat ?t div 2 ^ 32)) + 2 ^ 32 * (unat y * bi_val xs + bi_val as)"
    by (simp only: mul_row.simps Let_def bi_val.simps unat_low) (simp add: algebra_simps)
  also have "unat ?t mod 2 ^ 32 + 2 ^ 32 * (unat ?t div 2 ^ 32) = unat y * unat x + unat c + unat a"
    by (simp only: mod_mult_div_eq mul_temp)
  finally show ?case by (simp add: algebra_simps)
qed simp_all

lemma mul_rows_val:
  "length xs + length ys \<le> length acc \<Longrightarrow> (\<forall>d\<in>set (drop (length xs) acc). d = 0) \<Longrightarrow>
   bi_val (mul_rows xs ys acc) = bi_val xs * bi_val ys + bi_val acc"
proof (induction ys arbitrary: acc)
  case (Cons y ys)
  from Cons.prems(1) have len: "length xs < length acc" by simp
  then have "acc ! length xs \<in> set (drop (length xs) acc)"
    by (metis Cons_nth_drop_Suc list.set_intros(1))
  with Cons.prems(2) have z: "acc ! length xs = 0" by blast
  obtain a as where r: "mul_row y xs acc 0 = a # as"
    using len by (cases "mul_row y xs acc 0") (auto dest: arg_cong [where f = length])
  have v: "unat a + 2 ^ 32 * bi_val as = unat y * bi_val xs + bi_val acc"
    using mul_row_val [OF len z, of y 0] by (simp add: r)
  have "drop (length xs) as = drop (Suc (length xs)) acc"
    using mul_row_above [of xs "length xs" y acc 0] by (simp add: r)
  moreover have "set (drop (Suc (length xs)) acc) \<subseteq> set (drop (length xs) acc)"
    by (simp add: set_drop_subset_set_drop)
  ultimately have d: "\<forall>d\<in>set (drop (length xs) as). d = 0" using Cons.prems(2) by auto
  have la: "length as = length acc - 1"
    using arg_cong [OF r, of length] by simp
  have "bi_val (mul_rows xs ys as) = bi_val xs * bi_val ys + bi_val as"
    using Cons.prems(1) la d by (intro Cons.IH) simp_all
  then have "bi_val (mul_rows xs (y # ys) acc) =
      (unat a + 2 ^ 32 * bi_val as) + 2 ^ 32 * (bi_val xs * bi_val ys)"
    by (simp add: r algebra_simps)
  also have "\<dots> = bi_val xs * bi_val (y # ys) + bi_val acc"
    by (simp only: v) (simp add: algebra_simps)
  finally show ?case .
qed simp

lemma Mul_val: "bi_val (Mul this that) = bi_val this * bi_val that"
proof -
  let ?r = "mul_rows this that (replicate (length this + length that) 0)"
  have "bi_val ?r = bi_val this * bi_val that"
    by (simp add: mul_rows_val)
  moreover have "bi_val (if last ?r = 0 then butlast ?r else ?r) = bi_val ?r"
    by (cases ?r rule: rev_cases) (auto simp: bi_val_append)
  ultimately show ?thesis by (simp add: Mul_def Let_def)
qed

section \<open>Powers\<close>

lemma bit_bi_val:
  "bit (bi_val ns) i \<longleftrightarrow> i div 32 < length ns \<and> bit (ns ! (i div 32)) (i mod 32)"
proof (induction ns arbitrary: i)
  case (Cons d ds)
  show ?case
  proof (cases "i < 32")
    case True
    then have "(2 :: nat) ^ 32 = 2 ^ i * 2 ^ (32 - i)" by (simp flip: power_add)
    then have "(unat d + 2 ^ 32 * bi_val ds) div 2 ^ i = unat d div 2 ^ i + 2 ^ (32 - i) * bi_val ds"
      by (simp only: mult.assoc) simp
    moreover have "even (2 ^ (32 - i) * bi_val ds)" using True by simp
    ultimately have "odd ((unat d + 2 ^ 32 * bi_val ds) div 2 ^ i) \<longleftrightarrow> odd (unat d div 2 ^ i)"
      by simp
    with True show ?thesis by (simp add: bit_iff_odd bit_unsigned_iff flip: bit_iff_odd)
  next
    case False
    then obtain k where i: "i = 32 + k" using le_Suc_ex by fastforce
    have "(unat d + 2 ^ 32 * bi_val ds) div 2 ^ i = bi_val ds div 2 ^ k"
      using unat_u32_lt [of d] by (simp add: i power_add div_mult2_eq)
    then have "bit (bi_val (d # ds)) i \<longleftrightarrow> bit (bi_val ds) k" by (simp add: bit_iff_odd)
    moreover have "(32 + k) div 32 = Suc (k div 32)" by simp
    ultimately show ?thesis using Cons.IH [of k] by (simp add: i)
  qed
qed simp

lemma TestBit_val: "TestBit ns i \<longleftrightarrow> bit (bi_val ns) i"
proof (cases "i div 32 < length ns")
  case True
  let ?d = "ns ! (i div 32)" and ?b = "i mod 32"
  let ?m = "(ucast ?d :: u64) AND scast (push_bit ?b 1 :: i32)"
  have bits: "bit ?m j \<longleftrightarrow> bit ?d j \<and> j = ?b" if "j < 32" for j
    using that by (auto simp: bit_and_iff bit_unsigned_iff bit_signed_iff bit_push_bit_iff bit_exp_iff min_def split: if_splits)
  have high: "\<not> bit ?m j" if "\<not> j < 32" for j
    using that by (auto simp: bit_and_iff bit_unsigned_iff dest: bit_imp_le_length)
  have "?m \<noteq> 0 \<longleftrightarrow> (\<exists>j. bit ?m j)" by (metis bit_0_eq bot_apply bot_bool_def bit_eqI)
  also have "\<dots> \<longleftrightarrow> bit ?d ?b" using bits high by (metis mod_less_divisor zero_less_numeral)
  finally show ?thesis using True by (simp add: TestBit_def Let_def bit_bi_val)
qed (simp add: TestBit_def Let_def bit_bi_val)

lemma bit_count_bound: "unat v < 2 ^ k \<Longrightarrow> k \<le> 64 \<Longrightarrow> unat v < 2 ^ bit_count k v"
proof (induction k arbitrary: v)
  case (Suc k)
  show ?case
  proof (cases "v = 0")
    case False
    have h: "unat (drop_bit 1 v) = unat v div 2" by (simp add: drop_bit_eq_div unat_div_distrib)
    have "unat (drop_bit 1 v) < 2 ^ bit_count k (drop_bit 1 v)"
      using Suc.prems by (intro Suc.IH) (simp_all only: h, simp_all)
    with False h show ?thesis by simp
  qed simp
qed simp

lemma bi_val_total_bits:
  assumes "ns \<noteq> []"
  shows "bi_val ns < 2 ^ GetTotalBits ns"
proof -
  obtain ds d where ns: "ns = ds @ [d]" using assms by (cases ns rule: rev_cases) auto
  have "unat (ucast d :: u64) < 2 ^ bit_count 32 (ucast d)"
    using unat_u32_lt [of d] by (intro bit_count_bound) simp_all
  then have "Suc (unat d) \<le> 2 ^ bit_count 32 (ucast d)" by simp
  then have "2 ^ (32 * length ds) * Suc (unat d) \<le> 2 ^ (32 * length ds) * 2 ^ bit_count 32 (ucast d)"
    by (rule mult_le_mono2)
  moreover have "bi_val ns < 2 ^ (32 * length ds) * Suc (unat d)"
    using bi_val_lt [of ds] by (simp add: ns bi_val_append)
  ultimately show ?thesis by (simp add: GetTotalBits_def ns power_add)
qed

lemma power_loop_val:
  "bi_val (power_loop k i n this t) = bi_val this * bi_val t ^ ((bi_val n div 2 ^ i) mod 2 ^ k)"
proof (induction k arbitrary: i this t)
  case (Suc k)
  let ?N = "bi_val n div 2 ^ i"
  have "?N mod 2 ^ Suc k = ?N mod 2 + 2 * ((?N div 2) mod 2 ^ k)"
    by (simp add: mod_mult2_eq)
  moreover have "?N div 2 = bi_val n div 2 ^ Suc i" by (simp only: power_Suc2 div_mult2_eq)
  moreover have "?N mod 2 = (if TestBit n i then 1 else 0)"
    by (simp add: TestBit_val bit_iff_odd odd_iff_mod_2_eq_one)
  ultimately show ?case
    by (simp add: Suc Mul_val power_add power_mult power2_eq_square)
qed simp

lemma nums_one: "nums (BigInt_int32 1) = [1]"
  by code_simp

lemma Power_val: "n \<noteq> [] \<Longrightarrow> bi_val (Power this n) = bi_val this ^ bi_val n"
proof -
  assume n: "n \<noteq> []"
  show ?thesis
  proof (cases "isZero n")
    case True
    then have "bi_val n = 0" by (cases n) (auto simp: isZero_def)
    with True show ?thesis by (simp add: Power_def nums_one)
  next
    case False
    with bi_val_total_bits [OF n] show ?thesis
      by (simp add: Power_def power_loop_val nums_one)
  qed
qed

section \<open>Addition\<close>

lemma unat_max: "unat (d :: u32) = 2 ^ 32 - 1 \<longleftrightarrow> d = -1"
proof -
  have "unat (-1 :: u32) = 2 ^ 32 - 1" by (simp add: unsigned_minus_1_eq_mask mask_eq_exp_minus_1)
  then show ?thesis by (metis word_unat_eq_iff)
qed

lemma add_loop_val:
  assumes "length ys \<le> length xs" and "unat c \<le> 1" and "\<forall>y\<in>set ys. y \<noteq> -1"
    and "add_loop xs ys c = (ds, rest, c')"
  shows "length ds = length ys \<and> rest = drop (length ys) xs \<and> unat c' \<le> 1 \<and>
    bi_val ds + 2 ^ (32 * length ys) * unat c' = bi_val (take (length ys) xs) + bi_val ys + unat c"
  using assms
proof (induction xs ys c arbitrary: ds rest c' rule: add_loop.induct)
  case (1 x xs y ys c)
  let ?t = "(ucast x :: u64) + ucast (y + c)"
  let ?c = "if radix \<le> ?t then ucast (?t div radix) else 0 :: u32"
  have "unat y < 2 ^ 32 - 1" using "1.prems"(3) unat_u32_lt [of y] unat_max [of y] by force
  then have yc: "unat (y + c) = unat y + unat c" using "1.prems"(2) by (simp add: unat_word_ariths)
  have t: "unat ?t = unat x + unat y + unat c" by (simp add: unat_plus_64 yc)
  have tb: "unat ?t < 2 * 2 ^ 32" using t "1.prems"(2) \<open>unat y < 2 ^ 32 - 1\<close> unat_u32_lt [of x] by simp
  have cc: "unat ?c = unat ?t div 2 ^ 32"
  proof (cases "radix \<le> ?t")
    case True
    then show ?thesis by (simp only: if_True unat_high)
  next
    case False
    then have "unat ?t < 2 ^ 32" by (simp add: word_le_nat_alt)
    with False show ?thesis by simp
  qed
  obtain es where es: "add_loop xs ys ?c = (es, rest, c')" "ds = ucast (?t mod radix) # es"
    using "1.prems"(4) by (auto simp: Let_def split: if_splits prod.splits)
  have c1: "unat ?c \<le> 1" using cc tb by (simp add: less_mult_imp_div_less)
  have ih: "length es = length ys" "rest = drop (length ys) xs" "unat c' \<le> 1"
    "bi_val es + 2 ^ (32 * length ys) * unat c' = bi_val (take (length ys) xs) + bi_val ys + unat ?c"
    using "1.IH" [OF refl] "1.prems"(1,3) c1 es(1) by (auto split: if_splits)
  have "bi_val ds + 2 ^ (32 * length (y # ys)) * unat c' =
      unat ?t mod 2 ^ 32 + 2 ^ 32 * (bi_val es + 2 ^ (32 * length ys) * unat c')"
    by (simp only: es(2) bi_val.simps unat_low) (simp add: power_add algebra_simps)
  also have "\<dots> = (unat ?t mod 2 ^ 32 + 2 ^ 32 * (unat ?t div 2 ^ 32)) + 2 ^ 32 * (bi_val (take (length ys) xs) + bi_val ys)"
    by (simp only: ih(4) cc) (simp add: algebra_simps)
  also have "\<dots> = bi_val (take (length (y # ys)) (x # xs)) + bi_val (y # ys) + unat c"
    by (simp only: mod_mult_div_eq t) (simp add: algebra_simps)
  finally show ?case using ih es(2) by simp
qed auto

lemma carry_loop_one:
  assumes "c = 1" and "d \<noteq> -1"
  shows "carry_loop d c = d + 1"
proof -
  let ?t = "(ucast d :: u64) + ucast c"
  have d: "unat d + 1 < 2 ^ 32" using assms(2) unat_u32_lt [of d] unat_max [of d] by force
  have t: "unat ?t = unat d + 1" using assms(1) by (simp only: unat_plus_64) simp
  have "unat (ucast (?t div radix) :: u32) = 0" "unat (ucast (?t mod radix) :: u32) = unat (d + 1)"
    using d by (simp_all only: unat_high unat_low t) (simp_all add: unat_word_ariths)
  then have "ucast (?t div radix) = (0 :: u32)" "ucast (?t mod radix) = d + 1"
    by (simp_all only: unat_eq_0 word_unat_eq_iff)
  then show ?thesis
    using assms(1) by (subst carry_loop.simps) (simp add: Let_def carry_loop.simps [of "d + 1" 0])
qed

definition add_safe :: "u32 list \<Rightarrow> u32 list \<Rightarrow> bool" where
  "add_safe this that \<longleftrightarrow> -1 \<notin> set that \<and> (length that < length this \<longrightarrow> this ! length that \<noteq> -1)"

lemma Add_val:
  assumes "add_safe this that"
  shows "bi_val (Add this that) = bi_val this + bi_val that"
proof -
  define xs where "xs = (if length this < length that then resize (length that) this else this)"
  have len: "length that \<le> length xs" by (simp add: xs_def resize_def)
  have vx: "bi_val xs = bi_val this" by (simp add: xs_def bi_val_resize)
  obtain ds rest c where a: "add_loop xs that 0 = (ds, rest, c)" by (cases "add_loop xs that 0")
  have s: "\<forall>y\<in>set that. y \<noteq> -1" using assms by (auto simp: add_safe_def)
  from add_loop_val [OF len _ s a]
  have l: "length ds = length that" "rest = drop (length that) xs" "unat c \<le> 1"
    "bi_val ds + 2 ^ (32 * length that) * unat c = bi_val (take (length that) xs) + bi_val that" by simp_all
  have split: "bi_val xs = bi_val (take (length that) xs) + 2 ^ (32 * length that) * bi_val rest"
    using bi_val_append [of "take (length that) xs" "drop (length that) xs"] len l(2) by (simp add: min_def)
  show ?thesis
  proof (cases "c = 0")
    case True
    with a l split show ?thesis
      by (simp add: Add_def vx bi_val_append flip: xs_def)
  next
    case False
    then have c1: "c = 1" using l(3) by (simp add: word_unat_eq_iff)
    show ?thesis
    proof (cases rest)
      case Nil
      with a False l split c1 show ?thesis by (simp add: Add_def vx bi_val_append flip: xs_def)
    next
      case (Cons d r)
      then have "length that < length xs" "d = xs ! length that"
        using l(2) by (metis drop_eq_Nil leI list.distinct(1), metis hd_drop_conv_nth list.sel(1) drop_eq_Nil leI list.distinct(1))
      then have "d \<noteq> -1" using assms by (auto simp: add_safe_def xs_def resize_def split: if_splits)
      note cl = carry_loop_one [OF c1 this]
      have "unat (d + 1) = unat d + 1"
        using \<open>d \<noteq> -1\<close> unat_u32_lt [of d] unat_max [of d] by (simp add: unat_word_ariths)
      moreover have "Add this that = ds @ (d + 1) # r"
        using a False Cons cl by (simp add: Add_def flip: xs_def)
      moreover have "bi_val rest = unat d + 2 ^ 32 * bi_val r" by (simp add: Cons)
      ultimately show ?thesis
        using l(1,4) split vx c1 by (simp add: bi_val_append algebra_simps)
    qed
  qed
qed

section \<open>Subtraction\<close>

lemma used_spec:
  "used n i xs = (if \<forall>x\<in>set xs. x = 0 then n else i + length (dropWhile (\<lambda>x. x = 0) (rev xs)))"
proof (induction xs arbitrary: n i)
  case (Cons x xs)
  show ?case
  proof (cases "\<forall>y\<in>set xs. y = 0")
    case True
    then have "dropWhile (\<lambda>x. x = 0) (rev xs) = []" by (auto simp: dropWhile_eq_Nil_conv)
    then show ?thesis using True Cons [of "if x \<noteq> 0 then i + 1 else n" "i + 1"]
      by (auto simp: dropWhile_append)
  next
    case False
    then have "dropWhile (\<lambda>x. x = 0) (rev xs) \<noteq> []" by (auto simp: dropWhile_eq_Nil_conv)
    then show ?thesis using False Cons [of "if x \<noteq> 0 then i + 1 else n" "i + 1"]
      by (auto simp: dropWhile_append)
  qed
qed simp

lemma strip_split:
  fixes xs :: "u32 list"
  defines "d \<equiv> dropWhile (\<lambda>x. x = 0) (rev xs)"
  shows "xs = rev d @ replicate (length xs - length d) 0"
proof -
  let ?t = "takeWhile (\<lambda>x. x = 0) (rev xs)"
  have td: "?t @ d = rev xs" by (simp add: d_def)
  from arg_cong [OF td, of length] have "length ?t = length xs - length d" by simp
  moreover have "replicate (length ?t) 0 = ?t"
    by (rule replicate_length_same) (auto dest: set_takeWhileD)
  ultimately have "?t = replicate (length xs - length d) 0" by metis
  then have "rev xs = replicate (length xs - length d) 0 @ d"
    using td by simp
  then have "rev (rev xs) = rev d @ rev (replicate (length xs - length d) 0)" by (metis rev_append)
  then show ?thesis by simp
qed

lemma trim_ok:
  assumes "xs \<noteq> []"
  shows "bi_val (trim xs) = bi_val xs" and "normal (trim xs)"
proof -
  let ?d = "dropWhile (\<lambda>x. x = 0) (rev xs)"
  have sp: "xs = rev ?d @ replicate (length xs - length ?d) 0" by (rule strip_split)
  have "bi_val (trim xs) = bi_val xs \<and> normal (trim xs)"
  proof (cases "\<forall>x\<in>set xs. x = 0")
    case True
    then have "trim xs = [0]" using assms by (cases xs) (auto simp: trim_def used_spec resize_def)
    with True show ?thesis by (simp add: bi_val_all_zero normal_def)
  next
    case False
    then have d: "?d \<noteq> []" by (auto simp: dropWhile_eq_Nil_conv)
    have "take (length ?d) xs = rev ?d" using arg_cong [OF sp, of "take (length ?d)"] by simp
    then have "trim xs = rev ?d"
      using False d length_dropWhile_le [of "\<lambda>x. x = 0" "rev xs"]
      by (auto simp: trim_def used_spec resize_def Let_def)
    moreover have "bi_val xs = bi_val (rev ?d)" using arg_cong [OF sp, of bi_val] by (simp add: bi_val_append)
    moreover have "last (rev ?d) \<noteq> 0" using hd_dropWhile [OF d] by (simp add: last_rev)
    ultimately show ?thesis using d by (simp add: normal_def)
  qed
  then show "bi_val (trim xs) = bi_val xs" and "normal (trim xs)" by auto
qed

lemma sub_digit:
  fixes x y b :: u32
  assumes "unat b \<le> 1" and "x \<noteq> 0 \<or> b = 0"
  shows "int (unat (x - b - y)) - 2 ^ 32 * int (unat (if x - b < y then 1 else 0 :: u32)) =
    int (unat x) - int (unat b) - int (unat y)"
proof -
  have b: "unat b \<le> unat x" using assms by (metis One_nat_def le_trans not_less_eq_eq unat_eq_0 le_0_eq unat_0 zero_le)
  then have xb: "unat (x - b) = unat x - unat b" by (simp add: unat_sub_if')
  show ?thesis
  proof (cases "x - b < y")
    case True
    then have "unat (x - b) < unat y" by (simp add: word_less_nat_alt)
    then have "unat (x - b - y) = unat (x - b) + 2 ^ 32 - unat y"
      by (simp add: unat_sub_if' [of "x - b" y])
    with True b xb unat_u32_lt [of y] show ?thesis by simp
  next
    case False
    then have "unat y \<le> unat (x - b)" by (simp add: word_less_nat_alt)
    then have "unat (x - b - y) = unat (x - b) - unat y" by (simp add: unat_sub_if' [of "x - b" y])
    with False \<open>unat y \<le> unat (x - b)\<close> b xb show ?thesis by simp
  qed
qed

lemma sub_loop_val:
  assumes "length ys \<le> length xs" and "unat b \<le> 1"
    and "b = 0 \<or> 0 \<notin> set (take (length ys) xs)"
    and "0 \<notin> set (tl (take (length ys) xs))"
  shows "\<exists>ds b'. sub_loop xs ys b = Inr (ds, drop (length ys) xs, b') \<and> length ds = length ys \<and> unat b' \<le> 1 \<and>
    int (bi_val ds) - 2 ^ (32 * length ys) * int (unat b') =
      int (bi_val (take (length ys) xs)) - int (bi_val ys) - int (unat b)"
  using assms
proof (induction xs ys b rule: sub_loop.induct)
  case (3 x xs y ys b)
  let ?b = "if x - b < y then 1 else 0 :: u32"
  have nz: "0 \<notin> set (take (length ys) xs)" using "3.prems"(4) by simp
  then have "\<exists>ds b'. sub_loop xs ys ?b = Inr (ds, drop (length ys) xs, b') \<and> length ds = length ys \<and> unat b' \<le> 1 \<and>
    int (bi_val ds) - 2 ^ (32 * length ys) * int (unat b') =
      int (bi_val (take (length ys) xs)) - int (bi_val ys) - int (unat ?b)"
    using "3.prems"(1) by (intro "3.IH") (cases "take (length ys) xs"; auto)+
  then obtain ds b' where ih: "sub_loop xs ys ?b = Inr (ds, drop (length ys) xs, b')" "length ds = length ys"
    "unat b' \<le> 1" "int (bi_val ds) - 2 ^ (32 * length ys) * int (unat b') =
      int (bi_val (take (length ys) xs)) - int (bi_val ys) - int (unat ?b)" by blast
  have "x \<noteq> 0 \<or> b = 0" using "3.prems"(3) by auto
  note dg = sub_digit [OF "3.prems"(2) this, of y]
  have "int (bi_val ((x - b - y) # ds)) - 2 ^ (32 * length (y # ys)) * int (unat b') =
      int (unat (x - b - y)) + 2 ^ 32 * (int (bi_val ds) - 2 ^ (32 * length ys) * int (unat b'))"
    by (simp add: power_add algebra_simps)
  also have "\<dots> = int (unat (x - b - y)) - 2 ^ 32 * int (unat ?b) +
      2 ^ 32 * (int (bi_val (take (length ys) xs)) - int (bi_val ys))"
    by (simp only: ih(4)) (simp add: algebra_simps)
  also have "\<dots> = int (bi_val (take (length (y # ys)) (x # xs))) - int (bi_val (y # ys)) - int (unat b)"
    by (simp only: dg) (simp add: algebra_simps)
  finally show ?case using ih(1-3) by (auto simp: Let_def)
qed simp_all

lemma borrow_loop_val:
  "unat b \<le> 1 \<Longrightarrow> unat b \<le> bi_val xs \<Longrightarrow>
   bi_val (borrow_loop xs b) = bi_val xs - unat b \<and> length (borrow_loop xs b) = length xs"
proof (induction xs b rule: borrow_loop.induct)
  case (2 x xs b)
  show ?case
  proof (cases "b = 0")
    case False
    with "2.prems"(1) have b: "b = 1" by (simp add: word_unat_eq_iff)
    show ?thesis
    proof (cases "x < b")
      case True
      then have x: "x = 0" using b by (simp add: word_less_nat_alt unat_eq_0)
      with "2.prems"(2) b have "unat (1 :: u32) \<le> bi_val xs" by simp
      with "2.IH"(1) [OF False True] have ih: "bi_val (borrow_loop xs 1) = bi_val xs - 1"
        "length (borrow_loop xs 1) = length xs" by simp_all
      have "unat (ucast (radix - 1) :: u32) = 2 ^ 32 - 1" by (simp add: unsigned_ucast_eq take_bit_eq_mod)
      with ih True False b x \<open>unat (1 :: u32) \<le> bi_val xs\<close> show ?thesis by simp
    next
      case ge: False
      then have "unat (x - 1) = unat x - 1" "1 \<le> unat x" using b by (simp_all add: word_less_nat_alt unat_sub_if')
      moreover have "borrow_loop xs 0 = xs" by (cases xs) simp_all
      ultimately show ?thesis using ge False b by simp
    qed
  qed simp
qed simp

lemma Sub_val:
  assumes len: "length that \<le> length this" and le: "bi_val that \<le> bi_val this" and ne: "this \<noteq> []"
    and nz: "0 \<notin> set (tl (take (length that) this))"
  shows "\<exists>r. Sub this that = Inr r \<and> bi_val r = bi_val this - bi_val that \<and> normal r"
proof -
  from sub_loop_val [OF len _ _ nz, of 0] obtain ds b where
    s: "sub_loop this that 0 = Inr (ds, drop (length that) this, b)" "length ds = length that" "unat b \<le> 1"
    "int (bi_val ds) - 2 ^ (32 * length that) * int (unat b) =
      int (bi_val (take (length that) this)) - int (bi_val that)" by auto
  have split: "bi_val this = bi_val (take (length that) this) + 2 ^ (32 * length that) * bi_val (drop (length that) this)"
    using bi_val_append [of "take (length that) this" "drop (length that) this"] len by (simp add: min_def)
  let ?B = "2 ^ (32 * length that) :: nat"
  have e: "bi_val ds + bi_val that + ?B * bi_val (drop (length that) this) = bi_val this + ?B * unat b"
  proof -
    have "int (bi_val ds + bi_val that) = int (bi_val (take (length that) this) + ?B * unat b)"
      using s(4) by (simp add: algebra_simps)
    then have "bi_val ds + bi_val that = bi_val (take (length that) this) + ?B * unat b"
      by (simp only: of_nat_eq_iff)
    with split show ?thesis by simp
  qed
  have b: "unat b \<le> bi_val (drop (length that) this)"
  proof (rule ccontr)
    assume "\<not> ?thesis"
    with s(3) have "unat b = 1" "bi_val (drop (length that) this) = 0" by auto
    with e le bi_val_lt [of ds] s(2) show False by simp
  qed
  let ?r = "ds @ borrow_loop (drop (length that) this) b"
  note bl = borrow_loop_val [OF s(3) b]
  have "?B * (bi_val (drop (length that) this) - unat b) + ?B * unat b = ?B * bi_val (drop (length that) this)"
    using b by (simp only: le_add_diff_inverse2 flip: distrib_left)
  moreover have "bi_val ?r = bi_val ds + ?B * (bi_val (drop (length that) this) - unat b)"
    by (simp only: bi_val_append s(2) conjunct1 [OF bl])
  ultimately have "bi_val ?r = bi_val this - bi_val that"
    using e le by linarith
  moreover have "length ?r = length this" using bl s(2) len by simp
  with ne have "?r \<noteq> []" by (metis list.size(3) length_0_conv)
  ultimately show ?thesis using trim_ok [of ?r] s(1) by (simp add: Sub_def)
qed

end
