(* ===== verification/BigInt_Props.thy ===== *)
theory BigInt_Props
  imports BigInt_Arith
begin

text \<open>
  Comparison, constructors, signed operators and decimal text of \<open>BigInt.h\<close>, and the properties of
  the class.
\<close>

section \<open>Comparison\<close>

lemma less_digits_val:
  "length xs = length ys \<Longrightarrow> less_digits (rev xs) (rev ys) \<longleftrightarrow> bi_val xs < bi_val ys"
proof (induction xs arbitrary: ys rule: rev_induct)
  case (snoc x xs)
  then obtain ys' y where ys: "ys = ys' @ [y]" "length xs = length ys'"
    by (cases ys rule: rev_cases) auto
  let ?B = "2 ^ (32 * length ys') :: nat"
  have lt: "bi_val xs < ?B" "bi_val ys' < ?B" using bi_val_lt [of xs] bi_val_lt [of ys'] ys(2) by simp_all
  have step: "bi_val xs + ?B * a < bi_val ys' + ?B * b" if "a < b" for a b
  proof -
    from that have "?B * Suc a \<le> ?B * b" by (intro mult_le_mono2) simp
    with lt show ?thesis by simp
  qed
  have step': "bi_val ys' + ?B * a < bi_val xs + ?B * b" if "a < b" for a b
  proof -
    from that have "?B * Suc a \<le> ?B * b" by (intro mult_le_mono2) simp
    with lt show ?thesis by simp
  qed
  consider "x = y" | "unat x < unat y" | "unat y < unat x"
    by (metis linorder_neqE_nat word_unat_eq_iff)
  then show ?case
  proof cases
    case 1
    with snoc.IH [OF ys(2)] ys show ?thesis by (simp add: bi_val_append)
  next
    case 2
    with step [OF 2] ys show ?thesis by (auto simp: bi_val_append word_less_nat_alt)
  next
    case 3
    with step' [OF 3] ys show ?thesis by (auto simp: bi_val_append word_less_nat_alt)
  qed
qed simp

lemma normal_longer:
  assumes "normal xs" and "normal ys" and "length xs < length ys"
  shows "bi_val xs < bi_val ys"
proof -
  from assms(2) obtain ds d where ys: "ys = ds @ [d]" by (cases ys rule: rev_cases) (auto simp: normal_def)
  have "length ys \<noteq> 1" using assms(1,3) by (auto simp: normal_def)
  then have "d \<noteq> 0" using assms(2) ys by (simp add: normal_def)
  then have "1 \<le> unat d" by (simp add: Suc_leI unat_gt_0)
  have "bi_val xs < 2 ^ (32 * length xs)" by (rule bi_val_lt)
  also have "\<dots> \<le> 2 ^ (32 * length ds)" using assms(3) ys by simp
  also have "\<dots> \<le> 2 ^ (32 * length ds) * unat d" using \<open>1 \<le> unat d\<close> by simp
  finally show ?thesis by (simp add: ys bi_val_append)
qed

lemma CompareNoSign_val:
  assumes "normal xs" and "normal ys"
  shows "CompareNoSign xs ys \<longleftrightarrow> bi_val xs < bi_val ys"
  using less_digits_val [of xs ys] normal_longer [OF assms] normal_longer [OF assms(2,1)]
  by (auto simp: CompareNoSign_def)

lemma normal_inj: "normal xs \<Longrightarrow> normal ys \<Longrightarrow> bi_val xs = bi_val ys \<Longrightarrow> xs = ys"
proof -
  assume n: "normal xs" "normal ys" and v: "bi_val xs = bi_val ys"
  have "length xs = length ys"
    using normal_longer [OF n] normal_longer [OF n(2,1)] v by (metis less_irrefl linorder_neqE_nat)
  then show "xs = ys" using v
  proof (induction xs ys rule: list_induct2)
    case (Cons x xs y ys)
    have "unat x = (unat x + 2 ^ 32 * bi_val xs) mod 2 ^ 32" using unat_u32_lt [of x] by simp
    also have "\<dots> = (unat y + 2 ^ 32 * bi_val ys) mod 2 ^ 32" using Cons.prems by simp
    also have "\<dots> = unat y" using unat_u32_lt [of y] by simp
    finally have "unat x = unat y" .
    with Cons show ?case by (simp add: word_unat_eq_iff)
  qed simp
qed

section \<open>Constructors\<close>

text \<open>\<open>wf\<close>: no leading zero digit, and zero is not negative.\<close>

definition wf :: "bigint \<Rightarrow> bool" where
  "wf b \<longleftrightarrow> normal (nums b) \<and> (bi_val (nums b) = 0 \<longrightarrow> sign b)"

lemma digits64_val:
  assumes "v \<noteq> 0"
  shows "bi_val (digits64 3 v) = unat v" and "normal (digits64 3 v)"
proof -
  have z: "v div radix div radix = 0"
  proof -
    have "unat v < 2 ^ 32 * 2 ^ 32" using unsigned_less [of v, where ?'a = nat] by simp
    then have "unat v div 2 ^ 32 div 2 ^ 32 = 0" by (simp add: less_mult_imp_div_less flip: div_mult2_eq)
    then show ?thesis by (simp add: word_unat_eq_iff unat_div_distrib)
  qed
  have lo: "unat (ucast (v mod radix) :: u32) = unat v mod 2 ^ 32" by (rule unat_low)
  have hi: "unat (ucast (v div radix) :: u32) = unat v div 2 ^ 32" by (rule unat_high)
  have low: "v div radix = 0 \<Longrightarrow> unat v < 2 ^ 32"
    by (simp add: word_unat_eq_iff unat_div_distrib div_eq_0_iff)
  have m: "v div radix mod radix = v div radix"
    using z by (simp add: word_unat_eq_iff unat_div_distrib unat_mod_distrib div_eq_0_iff)
  have d: "digits64 3 v = (if v div radix = 0 then [ucast (v mod radix)]
      else [ucast (v mod radix), ucast (v div radix)])"
    using assms z m by (simp add: numeral_3_eq_3)
  show "bi_val (digits64 3 v) = unat v"
    unfolding d using low by (auto simp: lo hi)
  show "normal (digits64 3 v)"
    unfolding d by (auto simp: normal_def word_unat_eq_iff hi unat_div_distrib)
qed

lemma sint_64: "sint (x :: u64) = (if uint x < 2 ^ 63 then uint x else uint x - 2 ^ 64)"
proof -
  have "sint x = (uint x + 2 ^ 63) mod 2 ^ 64 - 2 ^ 63"
    by (simp add: sint_uint signed_take_bit_eq_take_bit_shift take_bit_eq_mod)
  moreover have u: "0 \<le> uint x" "uint x < 2 ^ 64" using unsigned_less [of x, where ?'a = int] by simp_all
  have "(uint x + 2 ^ 63) mod 2 ^ 64 = (if uint x < 2 ^ 63 then uint x + 2 ^ 63 else uint x + 2 ^ 63 - 2 ^ 64)"
  proof (cases "uint x < 2 ^ 63")
    case False
    have "(uint x + 2 ^ 63) mod 2 ^ 64 = (uint x + 2 ^ 63 - 2 ^ 64) mod 2 ^ 64"
      by (metis minus_mod_self2)
    also have "\<dots> = uint x + 2 ^ 63 - 2 ^ 64"
      using False u by (intro mod_pos_pos_trivial) simp_all
    finally show ?thesis using False by simp
  qed (use u in simp)
  ultimately show ?thesis by simp
qed

lemma BigInt_int64_val: "int_val (BigInt_int64 x) = sint x" "wf (BigInt_int64 x)"
proof -
  have u: "0 \<le> uint x" "uint x < 2 ^ 64" using unsigned_less [of x, where ?'a = int] by simp_all
  have neg: "int (unat (- x)) = - sint x" if "sint x < 0"
  proof -
    have "uint x \<noteq> 0" using that u by (auto simp: sint_64)
    then have "uint (- x) = 2 ^ 64 - uint x" using u
      by (simp add: uint_word_ariths zmod_zminus1_eq_if)
    with that u show ?thesis by (simp add: sint_64 split: if_splits)
  qed
  have pos: "int (unat x) = sint x" if "0 \<le> sint x" using that u by (simp add: sint_64 split: if_splits)
  have z: "- x = 0 \<Longrightarrow> x = 0" by simp
  show "int_val (BigInt_int64 x) = sint x"
    using neg pos digits64_val(1) [of x] digits64_val(1) [of "- x"] z
    by (auto simp: BigInt_int64_def int_val_def Let_def)
  show "wf (BigInt_int64 x)"
    using digits64_val [of x] digits64_val [of "- x"] z
    by (auto simp: BigInt_int64_def wf_def Let_def normal_def unat_eq_0)
qed

lemma BigInt_uint64_val:
  "unat x < 2 ^ 32 \<Longrightarrow> nums (BigInt_uint64 x) = [ucast x] \<and> bi_val (nums (BigInt_uint64 x)) = unat x"
  "x = radix \<Longrightarrow> bi_val (nums (BigInt_uint64 x)) = 0"
  "2 ^ 32 < unat x \<Longrightarrow> bi_val (nums (BigInt_uint64 x)) = unat x div 2 ^ 32 + 2 ^ 32 * (unat x mod 2 ^ 32)"
proof -
  show "nums (BigInt_uint64 x) = [ucast x] \<and> bi_val (nums (BigInt_uint64 x)) = unat x" if "unat x < 2 ^ 32"
    using that by (simp add: BigInt_uint64_def word_less_nat_alt unsigned_ucast_eq take_bit_eq_mod)
  show "bi_val (nums (BigInt_uint64 x)) = 0" if "x = radix"
    unfolding that by (simp add: BigInt_uint64_def)
  show "bi_val (nums (BigInt_uint64 x)) = unat x div 2 ^ 32 + 2 ^ 32 * (unat x mod 2 ^ 32)" if "2 ^ 32 < unat x"
    using that by (simp add: BigInt_uint64_def word_less_nat_alt unat_low [simplified] unat_high [simplified])
qed

lemma int_val_times: "int_val (times_assign a b) = int_val a * int_val b"
proof -
  have "isZero r \<Longrightarrow> bi_val r = 0" for r by (cases r) (auto simp: isZero_def)
  then show ?thesis
    using Mul_val [of "nums a" "nums b"] by (auto simp: times_assign_def int_val_def Let_def)
qed

section \<open>Signed addition\<close>

definition sub_safe :: "u32 list \<Rightarrow> u32 list \<Rightarrow> bool" where
  "sub_safe this that \<longleftrightarrow> 0 \<notin> set (tl (take (length that) this))"

lemma fix_zero_val: "int_val (fix_zero b) = int_val b"
proof -
  have "isZero r \<Longrightarrow> bi_val r = 0" for r by (cases r) (auto simp: isZero_def)
  then show ?thesis by (auto simp: fix_zero_def int_val_def)
qed

lemma Sub_normal:
  assumes "normal this" and "normal that" and "bi_val that \<le> bi_val this" and "sub_safe this that"
  shows "\<exists>r. Sub this that = Inr r \<and> bi_val r = bi_val this - bi_val that \<and> normal r"
proof -
  have "\<not> length this < length that" using normal_longer [OF assms(1,2)] assms(3) by force
  then show ?thesis
    using Sub_val [of that this] assms by (auto simp: sub_safe_def normal_def)
qed

lemma plus_assign_val:
  assumes "wf a" and "wf b"
    and "sign a = sign b \<Longrightarrow> add_safe (nums a) (nums b)"
    and "sign a \<noteq> sign b \<Longrightarrow> sub_safe (nums a) (nums b) \<and> sub_safe (nums b) (nums a)"
  shows "\<exists>r. plus_assign a b = Inr r \<and> int_val r = int_val a + int_val b"
proof -
  have n: "normal (nums a)" "normal (nums b)" using assms(1,2) by (simp_all add: wf_def)
  show ?thesis
  proof (cases "sign a = sign b")
    case True
    then show ?thesis
      using Add_val [OF assms(3) [OF True]] by (auto simp: plus_assign_def fix_zero_val) (simp_all add: int_val_def)
  next
    case diff: False
    show ?thesis
    proof (cases "bi_val (nums a) < bi_val (nums b)")
      case True
      with Sub_normal [OF n(2,1)] assms(4) [OF diff] obtain r where
        "Sub (nums b) (nums a) = Inr r" "bi_val r = bi_val (nums b) - bi_val (nums a)" by force
      with True diff show ?thesis
        by (simp add: plus_assign_def CompareNoSign_val [OF n] fix_zero_val)
          (auto simp: int_val_def)
    next
      case False
      with Sub_normal [OF n] assms(4) [OF diff] obtain r where
        "Sub (nums a) (nums b) = Inr r" "bi_val r = bi_val (nums a) - bi_val (nums b)" by force
      with False diff show ?thesis
        by (simp add: plus_assign_def CompareNoSign_val [OF n] fix_zero_val)
          (auto simp: int_val_def)
    qed
  qed
qed

section \<open>One-digit numbers\<close>

lemma one_digit: "length xs = 1 \<Longrightarrow> bi_val xs = unat d \<Longrightarrow> xs = [d]"
  by (cases xs) (auto simp: word_unat_eq_iff)

lemma Add_one:
  assumes "unat a + unat b < 2 ^ 32"
  shows "Add [a] [b] = [a + b]"
proof -
  let ?t = "(ucast a :: u64) + ucast b"
  have t: "unat ?t = unat a + unat b" by (rule unat_plus_64)
  with assms have "?t < radix" by (simp add: word_less_nat_alt)
  moreover have "ucast (?t mod radix) = a + b"
    using assms by (simp add: word_unat_eq_iff unat_low [simplified] t unat_word_ariths)
  ultimately show ?thesis by (simp add: Add_def Let_def not_le)
qed

lemma Sub_one:
  assumes "unat b \<le> unat a"
  shows "Sub [a] [b] = Inr [a - b]"
proof -
  have "\<not> a < b" using assms by (simp add: word_less_nat_alt)
  then show ?thesis by (simp add: Sub_def trim_def resize_def Let_def)
qed

lemma Mul_one:
  assumes "unat a * unat b < 2 ^ 32"
  shows "Mul [a] [b] = [a * b]"
proof -
  have u: "unat (a * b) = unat a * unat b" using assms by (simp add: unat_word_ariths)
  let ?r = "mul_rows [a] [b] (replicate (length [a] + length [b]) 0)"
  obtain x y where r: "?r = [x, y]" by (simp add: Let_def)
  have "bi_val ?r = bi_val [a] * bi_val [b] + bi_val (replicate (length [a] + length [b]) 0)"
    by (rule mul_rows_val) simp_all
  then have v: "unat x + 2 ^ 32 * unat y = unat a * unat b" unfolding r by simp
  then have "unat y = 0" using assms by (cases "unat y") simp_all
  then have "y = 0" by (simp add: unat_eq_0)
  with v u have "unat x = unat (a * b)" by simp
  then have "x = a * b" by (simp only: word_unat_eq_iff)
  with \<open>y = 0\<close> show ?thesis unfolding Mul_def Let_def r by simp
qed

lemma div_loop_one:
  assumes "b \<noteq> 0" and "unat q + unat a div unat b < 2 ^ 32" and "unat a < k"
  shows "div_loop k [a] [b] [q] = Inr ([q + a div b], [a mod b])"
  using assms(2,3)
proof (induction k arbitrary: a q)
  case (Suc k)
  have ub: "0 < unat b" using assms(1) by (simp add: unat_gt_0)
  have cmp: "CompareNoSign [a] [b] \<longleftrightarrow> unat a < unat b"
    by (auto simp: CompareNoSign_def word_less_nat_alt word_unat_eq_iff)
  consider "unat a < unat b" | "a = b" | "unat b < unat a"
    by (metis linorder_neqE_nat word_unat_eq_iff)
  then show ?case
  proof cases
    case 1
    then have "a div b = 0" "a mod b = a"
      by (simp_all add: word_unat_eq_iff unat_div_distrib unat_mod_distrib)
    with 1 cmp show ?thesis by simp
  next
    case 2
    have "unat q + unat (1 :: u32) < 2 ^ 32" using Suc.prems(1) 2 ub by simp
    moreover have "b div b = 1" using ub by (simp add: word_unat_eq_iff unat_div_distrib)
    ultimately show ?thesis
      using 2 cmp Sub_one [of b a] Add_one [of q 1] by (simp add: nums_one)
  next
    case 3
    let ?m = "(ucast a :: u64) div (ucast b + 1)"
    have b1: "unat ((ucast b :: u64) + 1) = unat b + 1"
      using unat_u32_lt [of b] by (simp add: unat_word_ariths)
    have m: "unat ?m = unat a div (unat b + 1)" by (simp only: unat_div_distrib b1 unat_ucast_64)
    have mb: "unat ?m < 2 ^ 32" using unat_u32_lt [of a] div_le_dividend [of "unat a" "unat b + 1"] m by linarith
    let ?d = "ucast ?m :: u32"
    have ud: "unat ?d = unat a div (unat b + 1)"
      using mb m by (simp add: unsigned_ucast_eq take_bit_eq_mod)
    have d1: "1 \<le> unat ?d" unfolding ud using 3 by (simp add: Suc_leI div_greater_zero_iff)
    have le: "unat b * unat ?d \<le> unat a"
    proof -
      have "(unat b + 1) * unat ?d \<le> unat a" unfolding ud by (metis div_times_less_eq_dividend mult.commute)
      then show ?thesis by simp
    qed
    have bd: "unat (b * ?d) = unat b * unat ?d"
      using le unat_u32_lt [of a] by (simp add: unat_word_ariths)
    have mul: "Mul [b] [?d] = [b * ?d]" using le unat_u32_lt [of a] by (intro Mul_one) simp
    have sub: "Sub [a] [b * ?d] = Inr [a - b * ?d]" using le bd by (intro Sub_one) simp
    have ua: "unat (a - b * ?d) = unat a - unat b * unat ?d" using le bd by (simp add: unat_sub_if')
    have dv: "(unat a - unat b * unat ?d) div unat b = unat a div unat b - unat ?d"
    proof -
      obtain r where "unat a = unat b * unat ?d + r" using le le_Suc_ex by blast
      with ub show ?thesis by simp
    qed
    have dle: "unat ?d \<le> unat a div unat b" using le ub by (simp add: less_eq_div_iff_mult_less_eq mult.commute)
    have qd: "unat q + unat ?d < 2 ^ 32" using Suc.prems(1) dle by linarith
    have add: "Add [q] [?d] = [q + ?d]" using qd by (rule Add_one)
    have uq: "unat (q + ?d) = unat q + unat ?d" using qd by (simp add: unat_word_ariths)
    have "div_loop k [a - b * ?d] [b] [q + ?d] = Inr ([q + ?d + (a - b * ?d) div b], [(a - b * ?d) mod b])"
    proof (rule Suc.IH)
      show "unat (q + ?d) + unat (a - b * ?d) div unat b < 2 ^ 32"
        using Suc.prems(1) dle by (simp add: uq ua dv)
      have "0 < unat b * unat ?d" using ub d1 by simp
      then show "unat (a - b * ?d) < k" using Suc.prems(2) le unfolding ua by linarith
    qed
    moreover have "unat (q + ?d + (a - b * ?d) div b) = unat (q + a div b)"
      using Suc.prems(1) dle by (simp add: unat_word_ariths uq [simplified] unat_div_distrib ua dv)
    then have "q + ?d + (a - b * ?d) div b = q + a div b" by (simp only: word_unat_eq_iff)
    moreover have "unat ((a - b * ?d) mod b) = unat (a mod b)"
      using le by (simp only: unat_mod_distrib ua) (metis le_add_diff_inverse2 mod_mult_self2)
    then have "(a - b * ?d) mod b = a mod b" by (simp only: word_unat_eq_iff)
    ultimately show ?thesis
      using 3 cmp mb BigInt_uint64_val(1) [OF mb] mul sub add
      by (simp add: Let_def shiftLeft_def word_unat_eq_iff)
  qed
qed simp

section \<open>Reading and printing one-digit numbers\<close>

fun parse_val :: "nat \<Rightarrow> string \<Rightarrow> nat" where
  "parse_val v [] = v"
| "parse_val v (c # cs) = parse_val (10 * v + digit_of c) cs"

lemma parse_val_ge: "v \<le> parse_val v cs"
  by (induction v cs rule: parse_val.induct) simp_all

lemma digit_of_less: "digit_of c < 16"
  by (auto simp: digit_of_def Let_def)

lemma nums_small: "k < 2 ^ 31 \<Longrightarrow> nums (BigInt_int32 (of_nat k)) = [of_nat k]"
proof -
  assume k: "k < 2 ^ 31"
  let ?x = "scast (of_nat k :: i32) :: u64"
  have "unat (of_nat k :: i32) = k" using k by (simp add: unat_of_nat take_bit_eq_mod)
  then have "sint (of_nat k :: i32) = int k" using k by (subst sint_eq_unat) simp_all
  then have "?x = word_of_int (int k)" by (metis scast_eq)
  then have x: "?x = of_nat k" by simp
  have ux: "unat ?x = k" unfolding x using k by (simp add: unat_of_nat take_bit_eq_mod)
  have "uint ?x = int (unat ?x)" by simp
  then have "uint ?x = int k" by (simp only: ux)
  then have s: "0 \<le> sint ?x" unfolding sint_64 using k by simp
  show ?thesis
  proof (cases "k = 0")
    case True
    then show ?thesis by (simp add: BigInt_int32_def BigInt_int64_def)
  next
    case False
    then have nz: "?x \<noteq> 0" using ux by auto
    have "unat ?x div 2 ^ 32 = 0" unfolding ux using k by simp
    then have d0: "?x div radix = 0" by (simp add: word_unat_eq_iff unat_div_distrib)
    have "unat (ucast (?x mod radix) :: u32) = unat (of_nat k :: u32)"
      unfolding unat_low ux using k by (simp add: unat_of_nat take_bit_eq_mod)
    then have "ucast (?x mod radix) = (of_nat k :: u32)" by (simp only: word_unat_eq_iff)
    with s nz d0 show ?thesis by (simp add: BigInt_int32_def BigInt_int64_def Let_def numeral_3_eq_3)
  qed
qed

lemma parse_loop_one:
  "parse_val (unat v) cs < 2 ^ 32 \<Longrightarrow> parse_loop 10 cs [v] = [of_nat (parse_val (unat v) cs)]"
proof (induction cs arbitrary: v)
  case (Cons c cs)
  let ?n = "10 * unat v + digit_of c"
  have n: "?n < 2 ^ 32" using Cons.prems parse_val_ge [of ?n cs] by simp
  have ten: "unat (of_nat 10 :: u32) = 10" by simp
  have mul: "Mul [v] [of_nat 10] = [v * of_nat 10]" by (rule Mul_one) (simp only: ten, use n in linarith)
  have uv: "unat (v * of_nat 10) = unat v * 10" using n by (simp add: unat_word_ariths)
  have uk: "unat (of_nat (digit_of c) :: u32) = digit_of c"
    using digit_of_less [of c] by (simp add: unat_of_nat take_bit_eq_mod)
  have add: "Add [v * of_nat 10] [of_nat (digit_of c)] = [v * of_nat 10 + of_nat (digit_of c)]"
    by (rule Add_one) (simp only: uv uk, use n in simp)
  have un: "unat (v * of_nat 10 + of_nat (digit_of c)) = ?n"
    using n uv uk by (simp only: unat_word_ariths) simp
  have k: "digit_of c < 2 ^ 31" using digit_of_less [of c] by simp
  have "parse_loop 10 (c # cs) [v] = parse_loop 10 cs [v * of_nat 10 + of_nat (digit_of c)]"
    using mul add nums_small [OF k] nums_small [of 10] by simp
  with Cons.IH [of "v * of_nat 10 + of_nat (digit_of c)"] un Cons.prems show ?case by simp
qed simp

text \<open>The decimal digits of a number, least significant first.\<close>

function dec :: "nat \<Rightarrow> string" where
  "dec n = (if n = 0 then [] else ''0123456789ABCDEF'' ! (n mod 10) # dec (n div 10))"
  by pat_completeness auto
termination by (relation "measure id") auto

declare dec.simps [simp del]

lemma to_string_loop_one:
  assumes "unat a < n" and "unat a < k" and "nums v = [a]"
  shows "to_string_loop n k (BigInt_uint32 10) v ret = Inr (rev (ret @ dec (unat a)))"
  using assms
proof (induction n arbitrary: a v ret)
  case (Suc n)
  show ?case
  proof (cases "a = 0")
    case True
    then show ?thesis using Suc.prems by (simp add: isZero_def dec.simps)
  next
    case False
    have ten: "nums (BigInt_uint32 10) = [10]" "sign (BigInt_uint32 10)" by code_simp+
    have "unat (0 :: u32) + unat a div unat (10 :: u32) < 2 ^ 32" using unat_u32_lt [of a] by simp
    from div_loop_one [OF _ this Suc.prems(2)]
    have d: "Div k [a] [10] = Inr ([a div 10], [a mod 10])" by (simp add: Div_def BigInt_int64_def)
    have u: "unat (a div 10) = unat a div 10" "unat (a mod 10) = unat a mod 10"
      by (simp_all add: unat_div_distrib unat_mod_distrib)
    have "0 < unat a" using False by (simp add: unat_gt_0)
    let ?v = "if isZero [a div 10] then \<lparr>sign = True, nums = [a div 10]\<rparr>
      else \<lparr>sign = (sign v = sign (BigInt_uint32 10)), nums = [a div 10]\<rparr>"
    have "to_string_loop n k (BigInt_uint32 10) ?v (ret @ [''0123456789ABCDEF'' ! (unat a mod 10)]) =
        Inr (rev ((ret @ [''0123456789ABCDEF'' ! (unat a mod 10)]) @ dec (unat (a div 10))))"
      using Suc.prems \<open>0 < unat a\<close> by (intro Suc.IH) (auto simp: u ten(2))
    moreover have "to_string_loop (Suc n) k (BigInt_uint32 10) v ret =
        to_string_loop n k (BigInt_uint32 10) ?v (ret @ [''0123456789ABCDEF'' ! (unat a mod 10)])"
    proof -
      have "unat a mod 10 < length ''0123456789ABCDEF''" using mod_less_divisor [of 10 "unat a"] by simp
      note aread_ok [OF this]
      then show ?thesis
        using False Suc.prems(3) d ten
        by (simp only: to_string_loop.simps isZero_def mod_assign_def div_assign_def rbind_simps split) (simp add: u)
    qed
    ultimately show ?thesis using \<open>0 < unat a\<close> by (simp add: dec.simps [of "unat a"] u)
  qed
qed simp

lemma digit_of_dec: "k < 10 \<Longrightarrow> digit_of (''0123456789ABCDEF'' ! k) = k"
  by (auto simp: less_Suc_eq numeral_eq_Suc digit_of_def)

lemma parse_val_append: "parse_val v (xs @ ys) = parse_val (parse_val v xs) ys"
  by (induction v xs rule: parse_val.induct) simp_all

lemma parse_dec: "parse_val 0 (rev (dec n)) = n"
proof (induction n rule: dec.induct)
  case (1 n)
  show ?case
  proof (cases "n = 0")
    case False
    then have "parse_val 0 (rev (dec n)) = 10 * (n div 10) + digit_of (''0123456789ABCDEF'' ! (n mod 10))"
      using 1 by (subst dec.simps) (simp add: parse_val_append)
    then show ?thesis by (simp add: digit_of_dec)
  qed (simp add: dec.simps)
qed

section \<open>Properties\<close>

text \<open>C4. Multiplication is exact, for all operands and signs.\<close>

theorem bigint_times: "int_val (times_assign a b) = int_val a * int_val b"
  by (rule int_val_times)

text \<open>C32. \<open>Power\<close> (square and multiply over the bits of the exponent) is exact.\<close>

theorem bigint_power:
  assumes "n \<noteq> []"
  shows "bi_val (Power this n) = bi_val this ^ bi_val n"
  using assms by (rule Power_val)

theorem bigint_power_witness: "bi_val (Power [3] [5]) = 243"
  using bigint_power [of "[5]" "[3]"] by simp

text \<open>
  C33. Addition of two well-formed integers is exact if no digit of the second operand is
  \<open>2 ^ 32 - 1\<close> and the digit the last carry goes to is not either (equal signs), or if no digit
  above the first that a borrow can meet is 0 (different signs).
\<close>

theorem bigint_plus:
  assumes "wf a" and "wf b"
    and "sign a = sign b \<Longrightarrow> add_safe (nums a) (nums b)"
    and "sign a \<noteq> sign b \<Longrightarrow> sub_safe (nums a) (nums b) \<and> sub_safe (nums b) (nums a)"
  shows "\<exists>r. plus_assign a b = Inr r \<and> int_val r = int_val a + int_val b"
  using assms by (rule plus_assign_val)

theorem bigint_plus_witness:
  "\<exists>r. plus_assign \<lparr>sign = True, nums = [7, 2]\<rparr> \<lparr>sign = False, nums = [9, 1]\<rparr> = Inr r \<and>
     int_val r = int_val \<lparr>sign = True, nums = [7, 2]\<rparr> + int_val \<lparr>sign = False, nums = [9, 1]\<rparr>"
  by (rule bigint_plus) (simp_all add: wf_def normal_def sub_safe_def)

text \<open>
  Without these conditions a carry is lost: \<open>Add\<close> forms \<open>that.nums_[i] + carry\<close> in 32 bits, so
  1 plus \<open>2 ^ 64 - 1\<close> is 0; and the carry into a longer number stays at one digit, so
  \<open>2 ^ 64 - 1\<close> plus 1 is \<open>2 ^ 32\<close>.
\<close>

theorem bigint_add_loses_carry:
  "bi_val (Add [1] [0xFFFFFFFF, 0xFFFFFFFF]) = 0 \<and> bi_val (Add [0xFFFFFFFF, 0xFFFFFFFF] [1]) = 2 ^ 32"
proof -
  have "add_loop [1, 0] [0xFFFFFFFF, 0xFFFFFFFF] 0 = ([0, 0], [], 0)" by code_simp
  moreover have "add_loop [0xFFFFFFFF, 0xFFFFFFFF] [1] 0 = ([0], [0xFFFFFFFF], 1)" by code_simp
  moreover have "carry_loop 0xFFFFFFFF 1 = 1" by code_simp
  ultimately show ?thesis by (simp add: Add_def resize_def)
qed

text \<open>
  \<open>Sub\<close> loses a borrow that meets a zero digit: \<open>2 ^ 64\<close> minus \<open>2 ^ 32 + 1\<close> comes out
  too large by \<open>2 ^ 64\<close>.
\<close>

theorem bigint_sub_loses_borrow:
  "\<exists>r. Sub [0, 0, 1] [1, 1] = Inr r \<and> bi_val r = bi_val [0, 0, 1] - bi_val [1, 1] + 2 ^ 64"
proof -
  have "Sub [0, 0, 1] [1, 1] = Inr [0xFFFFFFFF, 0xFFFFFFFE, 1]" by code_simp
  then show ?thesis by simp
qed

text \<open>
  \<open>Compare\<close>, the order behind \<open>operator<\<close>, is right except that a negative number is less than
  itself.
\<close>

theorem bigint_compare:
  assumes "wf a" and "wf b"
  shows "Compare a b \<longleftrightarrow> int_val a < int_val b \<or> (\<not> sign a \<and> \<not> sign b \<and> nums a = nums b)"
proof -
  have n: "normal (nums a)" "normal (nums b)" using assms by (simp_all add: wf_def)
  have "\<not> sign a \<Longrightarrow> bi_val (nums a) \<noteq> 0" "\<not> sign b \<Longrightarrow> bi_val (nums b) \<noteq> 0"
    using assms by (auto simp: wf_def)
  moreover have "bi_val (nums a) = bi_val (nums b) \<longleftrightarrow> nums a = nums b"
    using normal_inj [OF n] by auto
  ultimately show ?thesis
    by (cases "sign a"; cases "sign b")
      (auto simp: Compare_def CompareNoSign_val [OF n] int_val_def)
qed

theorem bigint_compare_witness:
  "Compare \<lparr>sign = False, nums = [5]\<rparr> \<lparr>sign = False, nums = [5]\<rparr>"
  using bigint_compare [of "\<lparr>sign = False, nums = [5]\<rparr>" "\<lparr>sign = False, nums = [5]\<rparr>"]
  by (simp add: wf_def normal_def)

text \<open>The constructor from a signed 64-bit integer is exact (also for the smallest one).\<close>

theorem bigint_from_int64: "int_val (BigInt_int64 x) = sint x \<and> wf (BigInt_int64 x)"
  using BigInt_int64_val by blast

text \<open>
  The constructor from an unsigned 64-bit integer is exact below \<open>2 ^ 32\<close>, gives 0 for
  \<open>2 ^ 32\<close>, and swaps the two digits above it.
\<close>

theorem bigint_from_uint64:
  "int_val (BigInt_uint64 x) =
     (if unat x < 2 ^ 32 then int (unat x)
      else if unat x = 2 ^ 32 then 0
      else int (unat x div 2 ^ 32 + 2 ^ 32 * (unat x mod 2 ^ 32)))"
proof -
  have s: "sign (BigInt_uint64 x)" by (simp add: BigInt_uint64_def)
  consider "unat x < 2 ^ 32" | "unat x = 2 ^ 32" | "2 ^ 32 < unat x" by linarith
  then show ?thesis
  proof cases
    case 1
    from BigInt_uint64_val(1) [OF 1] have "bi_val (nums (BigInt_uint64 x)) = unat x" by blast
    with s 1 show ?thesis by (simp add: int_val_def)
  next
    case 2
    then have "x = radix" by (simp add: word_unat_eq_iff)
    from BigInt_uint64_val(2) [OF this] 2 s show ?thesis by (simp add: int_val_def)
  qed (use s BigInt_uint64_val(3) [of x] in \<open>simp add: int_val_def\<close>)
qed

text \<open>
  C34. Printing a non-negative number below \<open>2 ^ 32\<close> in decimal and reading the text back returns
  the number, and the division loops inside end (a bound above the number itself is enough).
\<close>

theorem bigint_decimal_roundtrip:
  assumes "unat a < n" and "unat a < k"
  shows "\<exists>s. toString n k \<lparr>sign = True, nums = [a]\<rparr> 10 = Inr s \<and>
    BigInt_string junk s 10 = \<lparr>sign = True, nums = [a]\<rparr>"
proof (cases "a = 0")
  case True
  have "BigInt_string junk ''0'' 10 = \<lparr>sign = True, nums = [0]\<rparr>" by code_simp
  with True show ?thesis by (simp add: toString_def isZero_def)
next
  case False
  let ?s = "rev (dec (unat a))"
  have s: "toString n k \<lparr>sign = True, nums = [a]\<rparr> 10 = Inr ?s"
    using to_string_loop_one [OF assms, of "\<lparr>sign = True, nums = [a]\<rparr>" "[]"] False
    by (simp add: toString_def isZero_def isNegative_def)
  have "set (dec m) \<subseteq> set ''0123456789''" for m
  proof (induction m rule: dec.induct)
    case (1 m)
    have "m mod 10 < 10" by simp
    then have "''0123456789'' ! (m mod 10) \<in> set ''0123456789''" by (intro nth_mem) simp
    moreover have "''0123456789ABCDEF'' ! (m mod 10) = (''0123456789'' @ ''ABCDEF'') ! (m mod 10)" by simp
    moreover have "\<dots> = ''0123456789'' ! (m mod 10)" using \<open>m mod 10 < 10\<close> by (simp only: nth_append) simp
    ultimately have "''0123456789ABCDEF'' ! (m mod 10) \<in> set ''0123456789''" by metis
    with 1 show ?case by (subst dec.simps) simp
  qed
  then have d: "set ?s \<subseteq> set ''0123456789''" by (simp only: set_rev)
  have "?s \<noteq> []" using False by (subst dec.simps) (simp add: unat_eq_0)
  moreover from this d have "hd ?s \<in> set ''0123456789''" by (meson hd_in_set subsetD)
  ultimately have "BigInt_string junk ?s 10 = \<lparr>sign = True, nums = parse_loop 10 ?s [0]\<rparr>"
    by (cases ?s) (auto simp: BigInt_string_def)
  moreover have "parse_loop 10 ?s [0] = [a]"
    using parse_loop_one [of 0 ?s] unat_u32_lt [of a] by (simp add: parse_dec)
  ultimately show ?thesis using s by simp
qed

theorem bigint_decimal_roundtrip_witness:
  "\<exists>s. toString 43 43 \<lparr>sign = True, nums = [42]\<rparr> 10 = Inr s \<and>
    BigInt_string False s 10 = \<lparr>sign = True, nums = [42]\<rparr>"
  by (rule bigint_decimal_roundtrip) simp_all

text \<open>
  The decimal text of a negative number ends with the minus sign, because the sign is put
  first and the whole string is then reversed.
\<close>

theorem bigint_negative_text:
  assumes "unat a < n" and "unat a < k" and "a \<noteq> 0"
  shows "\<exists>s. toString n k \<lparr>sign = False, nums = [a]\<rparr> 10 = Inr (s @ ''-'')"
  using to_string_loop_one [OF assms(1,2), of "\<lparr>sign = False, nums = [a]\<rparr>" "''-''"] assms(3)
  by (auto simp: toString_def isZero_def isNegative_def)

theorem bigint_negative_text_witness:
  "\<exists>s. toString 8 8 \<lparr>sign = False, nums = [7]\<rparr> 10 = Inr (s @ ''-'')"
  by (rule bigint_negative_text) simp_all

end
