(* ===== verification/Event_Queue.thy ===== *)
theory Event_Queue
  imports Prelude
begin

text \<open>
  Model of \<open>BlockingQueue\<close> (\<open>liby_cpp/BlockingQueue.h\<close>) and of the event queue of a poller
  (\<open>liby_cpp/EventQueue.cpp\<close>, \<open>Poller::runEventHandler\<close>), through which other threads hand work to the
  loop thread. Threads are interleaved at the operations that run under the mutex and at the reads
  and writes of the eventfd. Shown: handlers run in the order in which they were pushed, exactly
  once, no pop meets an empty list, and no wake-up is lost.
\<close>

section \<open>Blocking queues\<close>

text \<open>
  \<open>BlockingQueue<T>\<close>. Every method but \<open>front\<close> and \<open>empty\<close> runs under the mutex and is one step. A
  thread in \<open>pop_wait\<close> that finds the queue empty sleeps on the condition variable; a notification
  moves a sleeping thread (or all of them) to those that are awake and test the predicate again.
\<close>

record 'a bqueue =
  bq_items :: "'a list"
  sleeping :: nat
  awake :: nat

definition BlockingQueue_new :: "'a list \<Rightarrow> 'a bqueue" where
  "BlockingQueue_new elements = \<lparr>bq_items = elements, sleeping = 0, awake = 0\<rparr>"

definition push_back :: "'a \<Rightarrow> 'a bqueue \<Rightarrow> 'a bqueue" where
  "push_back e b = b\<lparr>bq_items := bq_items b @ [e]\<rparr>"

definition notify_one :: "'a bqueue \<Rightarrow> 'a bqueue" where
  "notify_one b = (if sleeping b = 0 then b else b\<lparr>sleeping := sleeping b - 1, awake := awake b + 1\<rparr>)"

definition notify_all :: "'a bqueue \<Rightarrow> 'a bqueue" where
  "notify_all b = b\<lparr>sleeping := 0, awake := awake b + sleeping b\<rparr>"

definition push_notify :: "'a \<Rightarrow> 'a bqueue \<Rightarrow> 'a bqueue" where
  "push_notify e b = notify_one (push_back e b)"

definition push_broadcast :: "'a \<Rightarrow> 'a bqueue \<Rightarrow> 'a bqueue" where
  "push_broadcast e b = notify_all (push_back e b)"

text \<open>The front of an empty list does not exist.\<close>

definition bq_front :: "'a bqueue \<Rightarrow> 'a res" where
  "bq_front b = (case bq_items b of [] \<Rightarrow> Inl WildDeref | x # xs \<Rightarrow> Inr x)"

definition bq_pop :: "'a bqueue \<Rightarrow> 'a bqueue res" where
  "bq_pop b = (case bq_items b of [] \<Rightarrow> Inl WildDeref | x # xs \<Rightarrow> Inr (b\<lparr>bq_items := xs\<rparr>))"

definition pop_front :: "'a bqueue \<Rightarrow> ('a \<times> 'a bqueue) res" where
  "pop_front b = rbind (bq_front b) (\<lambda>x. rbind (bq_pop b) (\<lambda>b'. Inr (x, b')))"

definition bq_empty :: "'a bqueue \<Rightarrow> bool" where
  "bq_empty b \<longleftrightarrow> bq_items b = []"

text \<open>
  \<open>pop_wait\<close> in two parts: the call, which takes an element or goes to sleep, and the return of a
  thread that was woken, which takes an element or goes to sleep again.
\<close>

definition pop_wait :: "'a bqueue \<Rightarrow> ('a option \<times> 'a bqueue) res" where
  "pop_wait b =
     (if bq_empty b then Inr (None, b\<lparr>sleeping := sleeping b + 1\<rparr>)
      else rbind (pop_front b) (\<lambda>(x, b'). Inr (Some x, b')))"

definition pop_resume :: "'a bqueue \<Rightarrow> ('a option \<times> 'a bqueue) res" where
  "pop_resume b = pop_wait (b\<lparr>awake := awake b - 1\<rparr>)"

text \<open>
  The steps of the threads that use a queue through \<open>push_notify\<close>, \<open>push_broadcast\<close> and \<open>pop_wait\<close>,
  with spurious wake-ups: the elements handed out and the new queue, or nothing when the step is not
  enabled.
\<close>

datatype 'a bq_event = PushNotify 'a | PushBroadcast 'a | PopWait | Resume | Spurious

definition taken :: "('a option \<times> 'a bqueue) res \<Rightarrow> ('a list \<times> 'a bqueue) res" where
  "taken r = rbind r (\<lambda>(x, b). Inr (case x of None \<Rightarrow> [] | Some y \<Rightarrow> [y], b))"

fun bq_do :: "'a bq_event \<Rightarrow> 'a bqueue \<Rightarrow> ('a list \<times> 'a bqueue) res option" where
  "bq_do (PushNotify e) b = Some (Inr ([], push_notify e b))"
| "bq_do (PushBroadcast e) b = Some (Inr ([], push_broadcast e b))"
| "bq_do PopWait b = Some (taken (pop_wait b))"
| "bq_do Resume b = (if awake b = 0 then None else Some (taken (pop_resume b)))"
| "bq_do Spurious b = (if sleeping b = 0 then None else Some (Inr ([], notify_one b)))"

fun bq_run :: "'a bq_event list \<Rightarrow> 'a list \<times> 'a bqueue \<Rightarrow> ('a list \<times> 'a bqueue) res option" where
  "bq_run [] s = Some (Inr s)"
| "bq_run (e # es) s =
     (case bq_do e (snd s) of None \<Rightarrow> None
      | Some (Inl f) \<Rightarrow> Some (Inl f)
      | Some (Inr (out, b)) \<Rightarrow> bq_run es (fst s @ out, b))"

fun bq_pushes :: "'a bq_event list \<Rightarrow> 'a list" where
  "bq_pushes [] = []"
| "bq_pushes (PushNotify e # es) = e # bq_pushes es"
| "bq_pushes (PushBroadcast e # es) = e # bq_pushes es"
| "bq_pushes (_ # es) = bq_pushes es"

definition bq_ok :: "'a bqueue \<Rightarrow> bool" where
  "bq_ok b \<longleftrightarrow> sleeping b = 0 \<or> length (bq_items b) \<le> awake b"

lemmas bq_defs = push_notify_def push_broadcast_def push_back_def notify_one_def notify_all_def
  pop_resume_def pop_wait_def pop_front_def bq_front_def bq_pop_def bq_empty_def taken_def

lemma bq_do_ok:
  assumes "bq_do e b = Some r" and "bq_ok b"
  shows "\<exists>out b'. r = Inr (out, b') \<and> bq_ok b' \<and> out @ bq_items b' = bq_items b @ bq_pushes [e]"
  using assms by (cases e; cases "bq_items b") (auto simp: bq_defs bq_ok_def split: if_splits)

lemma bq_pushes_Cons: "bq_pushes (e # es) = bq_pushes [e] @ bq_pushes es"
  by (cases e) simp_all

lemma bq_run_ok:
  assumes "bq_run es (out, b) = Some r" and "bq_ok b"
  shows "\<exists>out' b'. r = Inr (out', b') \<and> bq_ok b' \<and> out' @ bq_items b' = out @ bq_items b @ bq_pushes es"
  using assms
proof (induction es arbitrary: out b)
  case (Cons e es)
  then obtain r1 where r1: "bq_do e b = Some r1" by (cases "bq_do e b") auto
  from bq_do_ok [OF r1 Cons.prems(2)] obtain o1 b1 where
    s: "r1 = Inr (o1, b1)" "bq_ok b1" "o1 @ bq_items b1 = bq_items b @ bq_pushes [e]" by blast
  from Cons.IH [of "out @ o1" b1] Cons.prems(1) r1 s show ?case by (auto simp: bq_pushes_Cons [of e es])
qed auto

text \<open>
  Threads that use a \<open>BlockingQueue\<close> through \<open>push_notify\<close>, \<open>push_broadcast\<close> and \<open>pop_wait\<close> never
  pop from an empty list; elements are handed out in the order in which they were pushed; and no
  wake-up is lost: while an element is waiting and a thread sleeps, some thread is awake to take it.
\<close>

theorem blocking_queue_fifo:
  assumes "bq_run es ([], BlockingQueue_new xs) = Some r"
  shows "\<exists>out b. r = Inr (out, b) \<and> out @ bq_items b = xs @ bq_pushes es \<and>
    (bq_items b \<noteq> [] \<and> sleeping b > 0 \<longrightarrow> awake b > 0)"
proof -
  have "bq_ok (BlockingQueue_new xs)" by (simp add: bq_ok_def BlockingQueue_new_def)
  from bq_run_ok [OF assms this] obtain out b where
    b: "r = Inr (out, b)" "bq_ok b" "out @ bq_items b = xs @ bq_pushes es" by (auto simp: BlockingQueue_new_def)
  from b(2) have "bq_items b \<noteq> [] \<and> sleeping b > 0 \<longrightarrow> awake b > 0"
    by (cases "bq_items b") (auto simp: bq_ok_def)
  with b show ?thesis by blast
qed

theorem blocking_queue_fifo_witness:
  "\<exists>out b. bq_run [PopWait, PopWait, PushNotify (1::nat), PushNotify 2, Resume] ([], BlockingQueue_new []) = Some (Inr (out, b)) \<and>
     out @ bq_items b = [1, 2]"
  using blocking_queue_fifo [of "[PopWait, PopWait, PushNotify (1::nat), PushNotify 2, Resume]" "[]"]
  by (force simp: bq_defs BlockingQueue_new_def)

text \<open>With \<open>push_back\<close>, which notifies nobody, a thread can sleep beside an element.\<close>

lemma push_back_loses_wakeup:
  "\<exists>b. pop_wait (BlockingQueue_new []) = Inr (None, b) \<and> bq_items (push_back (1::nat) b) = [1] \<and>
     sleeping (push_back (1::nat) b) = 1 \<and> awake (push_back (1::nat) b) = 0"
  by (simp add: bq_defs BlockingQueue_new_def)

section \<open>The event queue\<close>

text \<open>
  \<open>EventQueue\<close>: the handlers other threads want the loop thread to run, and an eventfd that wakes it.
  The counter of the eventfd starts at 1000. Reading a counter that is not zero resets it; adding to
  one that would reach the largest 64-bit number fails with EAGAIN, and is ignored.
\<close>

record 'h event_queue =
  eventfp :: bool
  counter :: u64
  eventChan :: bool
  eventHandlers :: "'h bqueue option"

definition EventQueue_new :: "'h event_queue" where
  "EventQueue_new = \<lparr>eventfp = True, counter = 1000, eventChan = False, eventHandlers = Some (BlockingQueue_new [])\<rparr>"

definition EventQueue_start :: "'h event_queue \<Rightarrow> 'h event_queue" where
  "EventQueue_start q = q\<lparr>eventChan := True\<rparr>"

definition EventQueue_destroy :: "'h event_queue \<Rightarrow> 'h event_queue" where
  "EventQueue_destroy q = q\<lparr>eventfp := False, counter := 0, eventChan := False, eventHandlers := None\<rparr>"

definition EventQueue_wakeup :: "'h event_queue \<Rightarrow> 'h event_queue" where
  "EventQueue_wakeup q = (if eventfp q \<and> counter q < 0xFFFFFFFFFFFFFFFE then q\<lparr>counter := counter q + 1\<rparr> else q)"

definition pushHandler :: "'h \<Rightarrow> 'h event_queue \<Rightarrow> 'h event_queue res" where
  "pushHandler h q = rbind (deref (eventHandlers q)) (\<lambda>b. Inr (q\<lparr>eventHandlers := Some (push_back h b)\<rparr>))"

text \<open>The read callback: the read of the eventfd, and the loop that runs the handlers.\<close>

definition eventfd_read :: "'h event_queue \<Rightarrow> bool \<times> 'h event_queue" where
  "eventfd_read q = (if eventfp q \<and> counter q \<noteq> 0 then (True, q\<lparr>counter := 0\<rparr>) else (False, q))"

definition handlers_empty :: "'h event_queue \<Rightarrow> bool res" where
  "handlers_empty q = rbind (deref (eventHandlers q)) (\<lambda>b. Inr (bq_empty b))"

definition handlers_pop :: "'h event_queue \<Rightarrow> ('h \<times> 'h event_queue) res" where
  "handlers_pop q = rbind (deref (eventHandlers q)) (\<lambda>b.
     rbind (pop_front b) (\<lambda>(h, b'). Inr (h, q\<lparr>eventHandlers := Some b'\<rparr>)))"

fun drain_loop ::
    "nat \<Rightarrow> ('h \<Rightarrow> 'h event_queue \<times> 's \<Rightarrow> ('h event_queue \<times> 's) res) \<Rightarrow> 'h event_queue \<times> 's \<Rightarrow> ('h event_queue \<times> 's) res" where
  "drain_loop 0 run st = Inl NoReturn"
| "drain_loop (Suc k) run (q, s) =
     rbind (handlers_empty q) (\<lambda>b.
     if b then Inr (q, s)
     else rbind (handlers_pop q) (\<lambda>(h, q'). rbind (run h (q', s)) (drain_loop k run)))"

definition EventQueue_onRead ::
    "nat \<Rightarrow> ('h \<Rightarrow> 'h event_queue \<times> 's \<Rightarrow> ('h event_queue \<times> 's) res) \<Rightarrow> 'h event_queue \<times> 's \<Rightarrow> ('h event_queue \<times> 's) res" where
  "EventQueue_onRead k run st =
     (case eventfd_read (fst st) of (got, q) \<Rightarrow> if got then drain_loop k run (q, snd st) else Inr (q, snd st))"

definition runEventHandler :: "'h \<Rightarrow> 'h event_queue \<Rightarrow> 'h event_queue res" where
  "runEventHandler h q = rbind (pushHandler h q) (\<lambda>q'. Inr (EventQueue_wakeup q'))"

section \<open>Threads\<close>

text \<open>
  \<open>runEventHandler\<close> is called by any thread, while the loop thread waits for the eventfd or runs the
  callback. The steps between which threads may change: a push and the wake-up that follows it
  (\<open>in_flight\<close> counts the threads in between), and in the loop thread the read, each test for
  emptiness and each pop.
\<close>

datatype loop_pc = Waiting | Testing | Popping

record 'h eq_sys =
  eqs :: "'h event_queue"
  in_flight :: nat
  loop_pc :: loop_pc
  executed :: "'h list"

datatype 'h eq_event = Push 'h | Wake | Fire | Test | Pop

definition eq_start :: "'h eq_sys" where
  "eq_start = \<lparr>eqs = EventQueue_start EventQueue_new, in_flight = 0, loop_pc = Waiting, executed = []\<rparr>"

fun eq_do :: "'h eq_event \<Rightarrow> 'h eq_sys \<Rightarrow> 'h eq_sys res option" where
  "eq_do (Push h) s = Some (rbind (pushHandler h (eqs s)) (\<lambda>q. Inr (s\<lparr>eqs := q, in_flight := in_flight s + 1\<rparr>)))"
| "eq_do Wake s =
     (if in_flight s = 0 then None
      else Some (Inr (s\<lparr>eqs := EventQueue_wakeup (eqs s), in_flight := in_flight s - 1\<rparr>)))"
| "eq_do Fire s =
     (if loop_pc s = Waiting \<and> eventChan (eqs s) \<and> counter (eqs s) \<noteq> 0
      then (case eventfd_read (eqs s) of (got, q) \<Rightarrow> Some (Inr (s\<lparr>eqs := q, loop_pc := (if got then Testing else Waiting)\<rparr>)))
      else None)"
| "eq_do Test s =
     (if loop_pc s = Testing
      then Some (rbind (handlers_empty (eqs s)) (\<lambda>b. Inr (s\<lparr>loop_pc := (if b then Waiting else Popping)\<rparr>)))
      else None)"
| "eq_do Pop s =
     (if loop_pc s = Popping
      then Some (rbind (handlers_pop (eqs s)) (\<lambda>(h, q). Inr (s\<lparr>eqs := q, loop_pc := Testing, executed := executed s @ [h]\<rparr>)))
      else None)"

fun eq_run :: "'h eq_event list \<Rightarrow> 'h eq_sys \<Rightarrow> 'h eq_sys res option" where
  "eq_run [] s = Some (Inr s)"
| "eq_run (e # es) s =
     (case eq_do e s of None \<Rightarrow> None | Some (Inl f) \<Rightarrow> Some (Inl f) | Some (Inr s') \<Rightarrow> eq_run es s')"

fun pushes :: "'h eq_event list \<Rightarrow> 'h list" where
  "pushes [] = []"
| "pushes (Push h # es) = h # pushes es"
| "pushes (_ # es) = pushes es"

text \<open>
  The handlers that wait, and what the threads keep: the loop thread pops only when there is a
  handler, and while handlers wait either the loop thread is in its loop, or the eventfd is readable,
  or a thread is about to wake the loop.
\<close>

definition waiting :: "'h event_queue \<Rightarrow> 'h list" where
  "waiting q = (case eventHandlers q of None \<Rightarrow> [] | Some b \<Rightarrow> bq_items b)"

definition eq_ok :: "'h eq_sys \<Rightarrow> bool" where
  "eq_ok s \<longleftrightarrow> eventfp (eqs s) \<and> eventChan (eqs s) \<and> eventHandlers (eqs s) \<noteq> None \<and>
     (loop_pc s = Popping \<longrightarrow> waiting (eqs s) \<noteq> []) \<and>
     (waiting (eqs s) \<noteq> [] \<longrightarrow> loop_pc s \<noteq> Waiting \<or> counter (eqs s) \<noteq> 0 \<or> 0 < in_flight s)"

lemmas eq_defs = pushHandler_def EventQueue_wakeup_def eventfd_read_def handlers_empty_def handlers_pop_def
  push_back_def pop_front_def bq_front_def bq_pop_def bq_empty_def waiting_def

lemma wakeup_counter:
  assumes "eventfp q"
  shows "counter (EventQueue_wakeup q) \<noteq> 0"
proof (cases "counter q < 0xFFFFFFFFFFFFFFFE")
  case True
  have "counter q + 1 \<noteq> 0"
  proof
    assume "counter q + 1 = 0"
    then have "counter q = - 1" by (simp add: eq_neg_iff_add_eq_0)
    with True show False by simp
  qed
  with True assms show ?thesis by (simp add: EventQueue_wakeup_def)
next
  case False
  then have "counter q \<noteq> 0" by auto
  with False show ?thesis by (simp add: EventQueue_wakeup_def)
qed

lemma eq_do_ok:
  assumes "eq_do e s = Some r" and ok: "eq_ok s"
  shows "\<exists>s'. r = Inr s' \<and> eq_ok s' \<and>
    executed s' @ waiting (eqs s') = executed s @ waiting (eqs s) @ pushes [e]"
proof -
  obtain b where b: "eventHandlers (eqs s) = Some b" using ok by (auto simp: eq_ok_def)
  show ?thesis
  proof (cases e)
    case Wake
    then show ?thesis using assms b wakeup_counter [of "eqs s"]
      by (auto simp: eq_ok_def waiting_def EventQueue_wakeup_def split: if_splits)
  qed (use assms b in \<open>auto simp: eq_ok_def eq_defs split: if_splits list.splits\<close>)
qed

lemma pushes_Cons: "pushes (e # es) = pushes [e] @ pushes es"
  by (cases e) simp_all

lemma eq_run_ok:
  assumes "eq_run es s = Some r" and "eq_ok s"
  shows "\<exists>s'. r = Inr s' \<and> eq_ok s' \<and>
    executed s' @ waiting (eqs s') = executed s @ waiting (eqs s) @ pushes es"
  using assms
proof (induction es arbitrary: s)
  case (Cons e es)
  then obtain r1 where r1: "eq_do e s = Some r1" by (cases "eq_do e s") auto
  from eq_do_ok [OF r1 Cons.prems(2)] obtain s1 where
    s1: "r1 = Inr s1" "eq_ok s1" "executed s1 @ waiting (eqs s1) = executed s @ waiting (eqs s) @ pushes [e]" by blast
  from Cons.IH [of s1] Cons.prems(1) r1 s1 show ?case by (auto simp: pushes_Cons [of e es])
qed auto

lemma eq_start_ok: "eq_ok eq_start" "executed eq_start @ waiting (eqs eq_start) = []"
  by (simp_all add: eq_ok_def eq_start_def EventQueue_start_def EventQueue_new_def waiting_def BlockingQueue_new_def)

text \<open>The loop thread alone: its next steps, until it waits for the eventfd.\<close>

definition next_step :: "'h eq_sys \<Rightarrow> 'h eq_event" where
  "next_step s = (case loop_pc s of Waiting \<Rightarrow> Fire | Testing \<Rightarrow> Test | Popping \<Rightarrow> Pop)"

fun loop_thread :: "nat \<Rightarrow> 'h eq_sys \<Rightarrow> 'h eq_sys res" where
  "loop_thread 0 s = Inr s"
| "loop_thread (Suc n) s =
     (case eq_do (next_step s) s of None \<Rightarrow> Inr s | Some r \<Rightarrow> rbind r (loop_thread n))"

definition work_left :: "'h eq_sys \<Rightarrow> nat" where
  "work_left s = 2 * length (waiting (eqs s)) + (if counter (eqs s) = 0 then 0 else 2) + (if loop_pc s = Testing then 1 else 0)"

lemma next_step_blocked:
  assumes "eq_ok s" and "eq_do (next_step s) s = None"
  shows "loop_pc s = Waiting" "counter (eqs s) = 0"
  using assms by (auto simp: eq_ok_def next_step_def eventfd_read_def split: loop_pc.splits if_splits)

lemma next_step_works:
  assumes "eq_ok s" and "eq_do (next_step s) s = Some (Inr s')"
  shows "work_left s' < work_left s" "in_flight s' = in_flight s" "pushes [next_step s] = []"
proof -
  obtain b where b: "eventHandlers (eqs s) = Some b" using assms(1) by (auto simp: eq_ok_def)
  show "work_left s' < work_left s" "in_flight s' = in_flight s" "pushes [next_step s] = []"
    using assms b by (auto simp: eq_ok_def next_step_def work_left_def eq_defs split: loop_pc.splits if_splits list.splits)
qed

lemma loop_thread_drains:
  assumes "eq_ok s" and "in_flight s = 0" and "work_left s < n"
  shows "\<exists>s'. loop_thread n s = Inr s' \<and> loop_pc s' = Waiting \<and> waiting (eqs s') = [] \<and>
    executed s' = executed s @ waiting (eqs s)"
  using assms
proof (induction n arbitrary: s)
  case (Suc n)
  show ?case
  proof (cases "eq_do (next_step s) s")
    case None
    from next_step_blocked [OF Suc.prems(1) None] Suc.prems(1,2) have "waiting (eqs s) = []" by (auto simp: eq_ok_def)
    with None next_step_blocked [OF Suc.prems(1) None] show ?thesis by simp
  next
    case (Some r)
    from eq_do_ok [OF Some Suc.prems(1)] obtain s1 where
      s1: "r = Inr s1" "eq_ok s1" "executed s1 @ waiting (eqs s1) = executed s @ waiting (eqs s) @ pushes [next_step s]" by blast
    note w = next_step_works [OF Suc.prems(1), of s1] Some s1(1)
    from Suc.IH [OF s1(2)] w Suc.prems(2,3) s1 show ?thesis by (auto simp: Some)
  qed
qed simp

text \<open>
  C19. Handlers that any number of threads give to a poller run in the loop thread in the order in
  which they were pushed, each exactly once; the loop thread never pops from an empty queue; and no
  wake-up is lost: once every thread that pushed a handler has also woken the loop, the loop thread
  alone runs all the handlers that wait and goes back to waiting.
\<close>

theorem event_queue_delivers:
  assumes "eq_run es eq_start = Some r"
  shows "\<exists>s. r = Inr s \<and> executed s @ waiting (eqs s) = pushes es \<and>
    (in_flight s = 0 \<longrightarrow> (\<exists>n s'. loop_thread n s = Inr s' \<and> loop_pc s' = Waiting \<and> executed s' = pushes es))"
proof -
  from eq_run_ok [OF assms eq_start_ok(1)] eq_start_ok(2) obtain s where
    s: "r = Inr s" "eq_ok s" "executed s @ waiting (eqs s) = pushes es" by (metis append.assoc append_Nil)
  with loop_thread_drains [OF s(2), of "Suc (work_left s)"] show ?thesis by fastforce
qed

theorem event_queue_delivers_witness:
  "\<exists>s. eq_run [Push ''a'', Fire, Wake, Test, Push ''b'', Pop, Wake] eq_start = Some (Inr s) \<and>
     executed s @ waiting (eqs s) = [''a'', ''b''] \<and>
     (\<exists>n s'. loop_thread n s = Inr s' \<and> loop_pc s' = Waiting \<and> executed s' = [''a'', ''b''])"
proof -
  have "rbind (the (eq_run [Push ''a'', Fire, Wake, Test, Push ''b'', Pop, Wake] eq_start))
     (\<lambda>s. guard (in_flight s = 0) AssertFail) = Inr ()" by code_simp
  moreover have "eq_run [Push ''a'', Fire, Wake, Test, Push ''b'', Pop, Wake] eq_start \<noteq> None" by code_simp
  ultimately obtain s where s: "eq_run [Push ''a'', Fire, Wake, Test, Push ''b'', Pop, Wake] eq_start = Some (Inr s)" "in_flight s = 0"
    by (auto simp: rbind_eq_Inr)
  from event_queue_delivers [OF s(1)] s show ?thesis by auto
qed

text \<open>
  The callback in one piece: it runs all the handlers that wait when they add no others, and a
  handler pushed onto a destroyed queue dereferences a null pointer.
\<close>

definition log_run :: "('h \<Rightarrow> 'e list) \<Rightarrow> 'h \<Rightarrow> 'h event_queue \<times> 'e list \<Rightarrow> ('h event_queue \<times> 'e list) res" where
  "log_run f h st = Inr (fst st, snd st @ f h)"

lemma drain_loop_all:
  assumes "eventHandlers q = Some b" and "length (bq_items b) < k"
  shows "drain_loop k (log_run f) (q, s) = Inr (q\<lparr>eventHandlers := Some (b\<lparr>bq_items := []\<rparr>)\<rparr>, s @ concat (map f (bq_items b)))"
  using assms
proof (induction k arbitrary: q b s)
  case (Suc k)
  then show ?case
  proof (cases "bq_items b")
    case Nil
    then have "b\<lparr>bq_items := []\<rparr> = b" by simp
    with Nil Suc.prems show ?thesis by (simp add: handlers_empty_def bq_empty_def)
  next
    case (Cons x xs)
    then show ?thesis using Suc.prems Suc.IH [of "q\<lparr>eventHandlers := Some (b\<lparr>bq_items := xs\<rparr>)\<rparr>" "b\<lparr>bq_items := xs\<rparr>" "s @ f x"]
      by (simp add: eq_defs log_run_def)
  qed
qed simp

lemma onRead_all:
  assumes "eventfp q" and "counter q \<noteq> 0" and "eventHandlers q \<noteq> None" and "length (waiting q) < k"
  shows "\<exists>q'. EventQueue_onRead k (log_run f) (q, s) = Inr (q', s @ concat (map f (waiting q))) \<and> waiting q' = []"
proof -
  from assms(3) obtain b where "eventHandlers q = Some b" by auto
  with assms drain_loop_all [of "q\<lparr>counter := 0\<rparr>" b k f s] show ?thesis
    by (simp add: EventQueue_onRead_def eventfd_read_def waiting_def)
qed

lemma push_after_destroy: "pushHandler h (EventQueue_destroy q) = Inl NullDeref"
  by (simp add: pushHandler_def EventQueue_destroy_def)

end
