(* ===== verification/Binary_Heap.thy ===== *)
theory Binary_Heap
  imports Prelude
begin

text \<open>
  Model of \<open>liby_cpp/BinaryHeap.h\<close>: a binary heap in a vector whose elements are numbered from 1.
  The template's element type is a type variable; its \<open>operator<\<close> and its default value \<open>T()\<close>
  are arguments. The sizes and indices are the 32-bit \<open>size_type\<close>: natural numbers whose sums and
  products wrap around at \<open>2 ^ 32\<close> (\<open>wrap32\<close>), while the size of the vector is not bounded. An access
  outside the vector is a fault.

  The section ``Without wrap-around'' shows that below \<open>2 ^ 31\<close> elements no index wraps around, so
  that \<open>percolate_down\<close> is the loop \<open>sift_loop\<close> over the natural numbers, and that it returns.

  The section ``Nothing is lost'' holds for every comparison. The locale \<open>weak_order\<close> is what
  \<open>operator<\<close> has to promise for the heap to be ordered; the order lemmas are proved in it.
\<close>

section \<open>Operations\<close>

definition wrap32 :: "nat \<Rightarrow> nat" where
  "wrap32 n = n mod 2 ^ 32"

lemma wrap32_code [code]: "wrap32 n = nat (int n mod 4294967296)"
  by (simp add: wrap32_def nat_mod_distrib)

lemma wrap32_small [simp]: "n < 2 ^ 32 \<Longrightarrow> wrap32 n = n"
  by (simp add: wrap32_def)

record 'a binary_heap =
  heap :: "'a list"
  hsize :: nat

definition heap_capacity :: "'a \<Rightarrow> nat \<Rightarrow> 'a binary_heap" where
  "heap_capacity T capacity = \<lparr>heap = replicate capacity T, hsize = 0\<rparr>"

definition heap_empty :: "'a binary_heap \<Rightarrow> bool" where
  "heap_empty h \<longleftrightarrow> hsize h = 0"

definition heap_size :: "'a binary_heap \<Rightarrow> nat" where
  "heap_size h = hsize h"

definition find_min :: "'a binary_heap \<Rightarrow> 'a res" where
  "find_min h = aread (heap h) 1"

text \<open>
  \<open>insert\<close>: the vector doubles when it is full (on an empty vector \<open>heap.size() - 1\<close> wraps around
  and never equals \<open>size_\<close>), then the parents greater than \<open>x\<close> move down.
\<close>

function up_loop :: "('a \<Rightarrow> 'a \<Rightarrow> bool) \<Rightarrow> 'a \<Rightarrow> 'a list \<Rightarrow> nat \<Rightarrow> ('a list \<times> nat) res" where
  "up_loop lt x xs hole =
     (if hole > 1 then
        rbind (aread xs (hole div 2)) (\<lambda>p.
        if lt x p then rbind (awrite xs hole p) (\<lambda>xs'. up_loop lt x xs' (hole div 2))
        else Inr (xs, hole))
      else Inr (xs, hole))"
  by pat_completeness auto
termination by (relation "measure (\<lambda>(lt, x, xs, hole). hole)") auto

declare up_loop.simps [simp del]

definition grow :: "'a \<Rightarrow> 'a binary_heap \<Rightarrow> 'a list" where
  "grow T h = (if heap h \<noteq> [] \<and> hsize h = length (heap h) - 1
     then heap h @ replicate (length (heap h)) T else heap h)"

definition heap_insert :: "('a \<Rightarrow> 'a \<Rightarrow> bool) \<Rightarrow> 'a \<Rightarrow> 'a \<Rightarrow> 'a binary_heap \<Rightarrow> 'a binary_heap res" where
  "heap_insert lt T x h =
     (let size = wrap32 (hsize h + 1) in
      rbind (up_loop lt x (grow T h) size) (\<lambda>(xs, hole).
      rbind (awrite xs hole x) (\<lambda>xs'.
      Inr \<lparr>heap = xs', hsize = size\<rparr>)))"

text \<open>
  \<open>percolate_down\<close> on the first \<open>n\<close> elements: \<open>pick_child\<close> is the smaller child, the loop moves it up
  while it is less than \<open>tmp\<close>. Since \<open>hole * 2\<close> wraps around, the hole need not grow, and nothing
  makes the loop end in general: \<open>None\<close> is a loop that does not return.
\<close>

definition pick_child :: "('a \<Rightarrow> 'a \<Rightarrow> bool) \<Rightarrow> nat \<Rightarrow> 'a list \<Rightarrow> nat \<Rightarrow> nat res" where
  "pick_child lt n xs hole =
     (let child = wrap32 (hole * 2) in
      if child \<noteq> n then
        rbind (aread xs (wrap32 (child + 1))) (\<lambda>r.
        rbind (aread xs child) (\<lambda>l.
        Inr (if lt r l then wrap32 (child + 1) else child)))
      else Inr child)"

partial_function (option) down_loop ::
    "('a \<Rightarrow> 'a \<Rightarrow> bool) \<Rightarrow> nat \<Rightarrow> 'a \<Rightarrow> 'a list \<Rightarrow> nat \<Rightarrow> ('a list \<times> nat) res option" where
  "down_loop lt n tmp xs hole =
     (if wrap32 (hole * 2) \<le> n then
        (case pick_child lt n xs hole of
           Inl e \<Rightarrow> Some (Inl e)
         | Inr child \<Rightarrow>
             (case aread xs child of
                Inl e \<Rightarrow> Some (Inl e)
              | Inr c \<Rightarrow>
                  if lt c tmp then
                    (case awrite xs hole c of
                       Inl e \<Rightarrow> Some (Inl e)
                     | Inr xs' \<Rightarrow> down_loop lt n tmp xs' child)
                  else Some (Inr (xs, hole))))
      else Some (Inr (xs, hole)))"

declare down_loop.simps [code]

definition percolate_down :: "('a \<Rightarrow> 'a \<Rightarrow> bool) \<Rightarrow> nat \<Rightarrow> 'a binary_heap \<Rightarrow> 'a binary_heap res" where
  "percolate_down lt hole h =
     rbind (aread (heap h) hole) (\<lambda>tmp.
     rbind (returned (down_loop lt (hsize h) tmp (heap h) hole)) (\<lambda>(xs, hole').
     rbind (awrite xs hole' tmp) (\<lambda>xs'.
     Inr (h\<lparr>heap := xs'\<rparr>))))"

fun build_heap :: "('a \<Rightarrow> 'a \<Rightarrow> bool) \<Rightarrow> nat \<Rightarrow> 'a binary_heap \<Rightarrow> 'a binary_heap res" where
  "build_heap lt 0 h = Inr h"
| "build_heap lt (Suc i) h = rbind (percolate_down lt (Suc i) h) (build_heap lt i)"

text \<open>
  The constructor from a vector copies it behind the unused element 0. The index is an \<open>int\<close>, so
  \<open>i + 1\<close> overflows at \<open>2 ^ 31 - 1\<close>: what it is then is no index of the vector. \<open>size_\<close> is the 32-bit
  value of the length.
\<close>

fun copy_items :: "'a list \<Rightarrow> nat \<Rightarrow> 'a list \<Rightarrow> 'a list res" where
  "copy_items [] i xs = Inr xs"
| "copy_items (y # ys) i xs =
     (if int i + 1 = 2 ^ 31 then Inl OutOfBounds
      else rbind (awrite xs (i + 1) y) (copy_items ys (i + 1)))"

definition heap_from_vector :: "('a \<Rightarrow> 'a \<Rightarrow> bool) \<Rightarrow> 'a \<Rightarrow> 'a list \<Rightarrow> 'a binary_heap res" where
  "heap_from_vector lt T items =
     rbind (copy_items items 0 (replicate (length items + 10) T)) (\<lambda>xs.
     let size = wrap32 (length items) in
     build_heap lt (size div 2) \<lparr>heap = xs, hsize = size\<rparr>)"

fun insert_all :: "('a \<Rightarrow> 'a \<Rightarrow> bool) \<Rightarrow> 'a \<Rightarrow> 'a list \<Rightarrow> 'a binary_heap \<Rightarrow> 'a binary_heap res" where
  "insert_all lt T [] h = Inr h"
| "insert_all lt T (x # xs) h = rbind (heap_insert lt T x h) (insert_all lt T xs)"

definition heap_from_list :: "('a \<Rightarrow> 'a \<Rightarrow> bool) \<Rightarrow> 'a \<Rightarrow> 'a list \<Rightarrow> 'a binary_heap res" where
  "heap_from_list lt T L = insert_all lt T L (heap_capacity T (length L + 10))"

text \<open>Both versions of \<open>delete_min\<close>, the second of which hands out the minimum.\<close>

definition delete_min :: "('a \<Rightarrow> 'a \<Rightarrow> bool) \<Rightarrow> 'a \<Rightarrow> 'a binary_heap \<Rightarrow> 'a binary_heap res" where
  "delete_min lt T h =
     (if heap_empty h then Inl Terminate
      else rbind (aread (heap h) (hsize h)) (\<lambda>x.
           rbind (awrite (heap h) 1 x) (\<lambda>xs.
           rbind (percolate_down lt 1 \<lparr>heap = xs, hsize = hsize h - 1\<rparr>) (\<lambda>h'.
           rbind (awrite (heap h') (wrap32 (hsize h' + 1)) T) (\<lambda>xs'.
           Inr (h'\<lparr>heap := xs'\<rparr>))))))"

definition delete_min_to :: "('a \<Rightarrow> 'a \<Rightarrow> bool) \<Rightarrow> 'a \<Rightarrow> 'a binary_heap \<Rightarrow> ('a \<times> 'a binary_heap) res" where
  "delete_min_to lt T h =
     (if heap_empty h then Inl Terminate
      else rbind (aread (heap h) 1) (\<lambda>x.
           rbind (awrite (heap h) 1 T) (\<lambda>xs.
           rbind (aread xs (hsize h)) (\<lambda>y.
           rbind (awrite xs 1 y) (\<lambda>xs'.
           rbind (percolate_down lt 1 \<lparr>heap = xs', hsize = hsize h - 1\<rparr>) (\<lambda>h'.
           Inr (x, h')))))))"

function find_index :: "('a \<Rightarrow> bool) \<Rightarrow> 'a list \<Rightarrow> nat \<Rightarrow> nat \<Rightarrow> nat res" where
  "find_index f xs stop i =
     (if i < stop then rbind (aread xs i) (\<lambda>x. if f x then Inr i else find_index f xs stop (i + 1))
      else Inr i)"
  by pat_completeness auto
termination by (relation "measure (\<lambda>(f, xs, stop, i). stop - i)") auto

declare find_index.simps [simp del]

definition erase_if :: "('a \<Rightarrow> 'a \<Rightarrow> bool) \<Rightarrow> 'a \<Rightarrow> ('a \<Rightarrow> bool) \<Rightarrow> 'a binary_heap \<Rightarrow> 'a binary_heap res" where
  "erase_if lt T f h =
     (if heap_empty h then Inr h
      else rbind (find_index f (heap h) (wrap32 (hsize h + 1)) 1) (\<lambda>i.
           if i = wrap32 (hsize h + 1) then Inr h
           else rbind (aread (heap h) (hsize h)) (\<lambda>x.
                rbind (awrite (heap h) i x) (\<lambda>xs.
                rbind (percolate_down lt i \<lparr>heap = xs, hsize = hsize h - 1\<rparr>) (\<lambda>h'.
                rbind (awrite (heap h') (wrap32 (hsize h' + 1)) T) (\<lambda>xs'.
                Inr (h'\<lparr>heap := xs'\<rparr>)))))))"

definition heap_clear :: "'a binary_heap \<Rightarrow> 'a binary_heap" where
  "heap_clear h = \<lparr>heap = [], hsize = 0\<rparr>"

section \<open>Contents and order\<close>

text \<open>The elements of a heap, its well-formedness, and the order of the subtrees from \<open>L\<close> on.\<close>

definition slice :: "nat \<Rightarrow> 'a list \<Rightarrow> 'a list" where
  "slice n xs = take n (drop 1 xs)"

definition elems :: "'a binary_heap \<Rightarrow> 'a multiset" where
  "elems h = mset (slice (hsize h) (heap h))"

definition heap_from :: "('a \<Rightarrow> 'a \<Rightarrow> bool) \<Rightarrow> nat \<Rightarrow> nat \<Rightarrow> 'a list \<Rightarrow> bool" where
  "heap_from lt n L xs \<longleftrightarrow> (\<forall>i \<in> {2..n}. L \<le> i div 2 \<longrightarrow> \<not> lt (xs ! i) (xs ! (i div 2)))"

lemma slice_swap:
  assumes "1 \<le> i" "i \<le> n" "1 \<le> j" "j \<le> n" "n < length xs"
  shows "mset (slice n (xs[i := xs ! j, j := xs ! i])) = mset (slice n xs)"
proof -
  let ?s = "slice n xs"
  have len: "i - 1 < length ?s" "j - 1 < length ?s" using assms by (auto simp: slice_def)
  have "?s ! (i - 1) = xs ! i" "?s ! (j - 1) = xs ! j" using assms by (simp_all add: slice_def)
  moreover have "slice n (xs[i := xs ! j, j := xs ! i]) = ?s[i - 1 := xs ! j, j - 1 := xs ! i]"
    using assms by (simp add: slice_def drop_update_swap take_update_swap)
  ultimately show ?thesis using mset_swap [OF len(2) len(1)] by simp
qed

lemma slice_Suc: "n + 1 < length xs \<Longrightarrow> mset (slice (Suc n) xs) = add_mset (xs ! Suc n) (mset (slice n xs))"
  by (simp add: slice_def take_Suc_conv_app_nth)

lemma size_elems: "hsize h < length (heap h) \<Longrightarrow> size (elems h) = hsize h"
  by (auto simp: elems_def slice_def)

lemma slice_update_above: "n < i \<Longrightarrow> slice n (xs[i := x]) = slice n xs"
  by (simp add: slice_def drop_update_swap)


section \<open>Without wrap-around\<close>

definition min_child :: "('a \<Rightarrow> 'a \<Rightarrow> bool) \<Rightarrow> nat \<Rightarrow> 'a list \<Rightarrow> nat \<Rightarrow> nat res" where
  "min_child lt n xs hole =
     (let child = hole * 2 in
      if child \<noteq> n then
        rbind (aread xs (child + 1)) (\<lambda>r.
        rbind (aread xs child) (\<lambda>l.
        Inr (if lt r l then child + 1 else child)))
      else Inr child)"

lemma min_child_ge: "min_child lt n xs hole = Inr c \<Longrightarrow> c = hole * 2 \<or> c = hole * 2 + 1"
  by (auto simp: min_child_def Let_def rbind_eq_Inr split: if_splits)

function sift_loop :: "('a \<Rightarrow> 'a \<Rightarrow> bool) \<Rightarrow> nat \<Rightarrow> 'a \<Rightarrow> 'a list \<Rightarrow> nat \<Rightarrow> ('a list \<times> nat) res" where
  "sift_loop lt n tmp xs hole =
     (if 1 \<le> hole \<and> hole * 2 \<le> n then
        rbind (min_child lt n xs hole) (\<lambda>child.
        rbind (aread xs child) (\<lambda>c.
        if lt c tmp then rbind (awrite xs hole c) (\<lambda>xs'. sift_loop lt n tmp xs' child)
        else Inr (xs, hole)))
      else Inr (xs, hole))"
  by pat_completeness auto
termination
  by (relation "measure (\<lambda>(lt, n, tmp, xs, hole). n - hole)") (auto dest!: min_child_ge)

declare sift_loop.simps [simp del]

lemma min_child_le: "min_child lt n xs hole = Inr c \<Longrightarrow> hole * 2 \<le> n \<Longrightarrow> c \<le> n"
  by (auto simp: min_child_def Let_def rbind_eq_Inr split: if_splits)

lemma pick_child_eq:
  "hole * 2 \<le> n \<Longrightarrow> n < 2 ^ 31 \<Longrightarrow> pick_child lt n xs hole = min_child lt n xs hole"
proof -
  assume "hole * 2 \<le> n" "n < 2 ^ 31"
  then have "wrap32 (hole * 2) = hole * 2" "wrap32 (hole * 2 + 1) = hole * 2 + 1" by simp_all
  then show ?thesis by (simp only: pick_child_def min_child_def Let_def)
qed

text \<open>Below \<open>2 ^ 31\<close> elements the loop of \<open>percolate_down\<close> returns, and no index wraps around.\<close>

lemma down_loop_eq:
  assumes "n < 2 ^ 31" and "1 \<le> hole" and "hole < 2 ^ 31"
  shows "down_loop lt n tmp xs hole = Some (sift_loop lt n tmp xs hole)"
  using assms(2,3)
proof (induction "n - hole" arbitrary: xs hole rule: less_induct)
  case less
  have w: "wrap32 (hole * 2) = hole * 2" using less.prems by simp
  show ?case
  proof (cases "hole * 2 \<le> n")
    case False
    then show ?thesis by (simp add: w down_loop.simps [of lt n tmp xs hole] sift_loop.simps [of lt n tmp xs hole])
  next
    case True
    have rec: "down_loop lt n tmp xs' c = Some (sift_loop lt n tmp xs' c)"
      if "min_child lt n xs hole = Inr c" for xs' c
    proof -
      have "hole < c" "c \<le> n" using min_child_ge [OF that] min_child_le [OF that True] less.prems by auto
      then show ?thesis using less.prems assms(1) by (intro less.hyps) auto
    qed
    show ?thesis
      using True less.prems rec assms(1)
      by (subst down_loop.simps, subst sift_loop.simps)
        (auto simp: w pick_child_eq rbind_def split: sum.splits)
  qed
qed

lemma percolate_down_eq:
  assumes "hsize h < 2 ^ 31" and "1 \<le> hole" and "hole < 2 ^ 31"
  shows "percolate_down lt hole h =
     rbind (aread (heap h) hole) (\<lambda>tmp.
     rbind (sift_loop lt (hsize h) tmp (heap h) hole) (\<lambda>(xs, hole').
     rbind (awrite xs hole' tmp) (\<lambda>xs'. Inr (h\<lparr>heap := xs'\<rparr>))))"
  by (simp only: percolate_down_def down_loop_eq [OF assms] returned_simps)

text \<open>The heaps the operations work on: the elements are in the vector, and fewer than \<open>2 ^ 31\<close>.\<close>

definition heap_room :: "'a binary_heap \<Rightarrow> bool" where
  "heap_room h \<longleftrightarrow> hsize h < length (heap h) \<and> int (hsize h) < 2 ^ 31"

lemma heap_room_iff: "heap_room h \<longleftrightarrow> hsize h < length (heap h) \<and> hsize h < 2 ^ 31"
  by (auto simp: heap_room_def)

lemma heap_roomD: "heap_room h \<Longrightarrow> hsize h < length (heap h)" "heap_room h \<Longrightarrow> hsize h < 2 ^ 31"
  by (simp_all add: heap_room_iff)

definition heap_ok :: "('a \<Rightarrow> 'a \<Rightarrow> bool) \<Rightarrow> 'a binary_heap \<Rightarrow> bool" where
  "heap_ok lt h \<longleftrightarrow> heap_room h \<and> heap_from lt (hsize h) 1 (heap h)"

section \<open>Nothing is lost\<close>

text \<open>
  Whatever the comparison does, the operations stay inside the vector and keep the elements: each
  round of the loops is a swap of the hole with its parent or child.
\<close>

lemma min_child_total:
  assumes "1 \<le> hole" "hole * 2 \<le> n" "n < length xs"
  obtains c where "min_child lt n xs hole = Inr c" "c \<le> n" "c div 2 = hole"
proof -
  have "hole * 2 + 1 < length xs" if "hole * 2 \<noteq> n" using that assms by linarith
  then have "\<exists>c. min_child lt n xs hole = Inr c" using assms by (auto simp: min_child_def Let_def)
  then obtain c where c: "min_child lt n xs hole = Inr c" by blast
  moreover have "c \<le> n" using c assms by (auto simp: min_child_def Let_def rbind_eq_Inr split: if_splits)
  moreover have "c div 2 = hole" using min_child_ge [OF c] by linarith
  ultimately show thesis by (rule that)
qed

lemma sift_loop_total:
  assumes "1 \<le> hole" "hole \<le> n" "n < length xs"
  shows "\<exists>xs' hole'. sift_loop lt n tmp xs hole = Inr (xs', hole') \<and> hole' \<le> n \<and> length xs' = length xs \<and>
    mset (slice n (xs'[hole' := tmp])) = mset (slice n (xs[hole := tmp]))"
  using assms
proof (induction "n - hole" arbitrary: xs hole rule: less_induct)
  case less
  show ?case
  proof (cases "hole * 2 \<le> n")
    case False
    with less.prems show ?thesis by (subst sift_loop.simps) auto
  next
    case True
    from min_child_total [OF less.prems(1) True less.prems(3), of lt] obtain c where
      c: "min_child lt n xs hole = Inr c" "c \<le> n" "c div 2 = hole" by blast
    have ch: "hole < c" "c < length xs" "1 \<le> c" "hole < length xs" using c less.prems by linarith+
    have eq: "sift_loop lt n tmp xs hole = (if lt (xs ! c) tmp
        then sift_loop lt n tmp (xs[hole := xs ! c]) c else Inr (xs, hole))"
      using True less.prems c(1) ch by (subst sift_loop.simps) simp
    show ?thesis
    proof (cases "lt (xs ! c) tmp")
      case False
      then show ?thesis using eq less.prems by auto
    next
      case lt: True
      let ?b = "xs[hole := tmp]" and ?xs = "xs[hole := xs ! c]"
      have "?xs[c := tmp] = ?b[hole := ?b ! c, c := ?b ! hole]"
        using ch by (simp add: list_update_swap)
      then have ms: "mset (slice n (?xs[c := tmp])) = mset (slice n ?b)"
        using slice_swap [of hole n c ?b] ch c less.prems by simp
      have dec: "n - c < n - hole" "n < length ?xs" using ch c less.prems by auto
      from less.hyps [OF dec(1) ch(3) c(2) dec(2)] show ?thesis
        unfolding eq ms by (simp only: lt if_True length_list_update)
    qed
  qed
qed

lemma up_loop_total:
  assumes "1 \<le> hole" "hole \<le> n" "n < length xs"
  shows "\<exists>xs' hole'. up_loop lt x xs hole = Inr (xs', hole') \<and> hole' \<le> n \<and> length xs' = length xs \<and>
    mset (slice n (xs'[hole' := x])) = mset (slice n (xs[hole := x]))"
  using assms
proof (induction hole arbitrary: xs rule: less_induct)
  case (less hole)
  show ?case
  proof (cases "hole > 1")
    case False
    with less.prems show ?thesis by (subst up_loop.simps) auto
  next
    case True
    let ?p = "hole div 2"
    have p: "?p < hole" "1 \<le> ?p" "?p \<le> n" "?p < length xs" "hole < length xs" using True less.prems by linarith+
    have eq: "up_loop lt x xs hole = (if lt x (xs ! ?p)
        then up_loop lt x (xs[hole := xs ! ?p]) ?p else Inr (xs, hole))"
      by (subst up_loop.simps) (simp only: True if_True aread_ok [OF p(4)] awrite_ok [OF p(5)] rbind_simps)
    show ?thesis
    proof (cases "lt x (xs ! ?p)")
      case False
      with eq show ?thesis using less.prems by auto
    next
      case lt: True
      let ?b = "xs[hole := x]" and ?xs = "xs[hole := xs ! ?p]"
      have "?xs[?p := x] = ?b[hole := ?b ! ?p, ?p := ?b ! hole]"
        using p by (simp add: list_update_swap)
      then have ms: "mset (slice n (?xs[?p := x])) = mset (slice n ?b)"
        using slice_swap [of hole n ?p ?b] p less.prems by simp
      have len: "n < length ?xs" using less.prems by simp
      from less.IH [OF p(1,2,3) len] show ?thesis
        unfolding eq ms by (simp only: lt if_True length_list_update)
    qed
  qed
qed

lemma percolate_down_leaf:
  assumes "hsize h < hole * 2" "hole < length (heap h)" "hole < 2 ^ 31"
  shows "percolate_down lt hole h = Inr h"
  using assms by (simp add: percolate_down_def down_loop.simps [of lt "hsize h" _ _ hole])

lemma percolate_down_total:
  assumes "1 \<le> hole" "hole \<le> hsize h" "heap_room h"
  shows "\<exists>h'. percolate_down lt hole h = Inr h' \<and> hsize h' = hsize h \<and>
    length (heap h') = length (heap h) \<and> elems h' = elems h"
proof -
  note n = heap_roomD [OF assms(3)]
  have "percolate_down lt hole h = rbind (sift_loop lt (hsize h) (heap h ! hole) (heap h) hole) (\<lambda>(xs, hole').
     rbind (awrite xs hole' (heap h ! hole)) (\<lambda>xs'. Inr (h\<lparr>heap := xs'\<rparr>)))"
    using assms n by (simp add: percolate_down_eq)
  then show ?thesis
    using sift_loop_total [OF assms(1,2) n(1), of lt "heap h ! hole"] assms n
    by (fastforce simp: elems_def)
qed

text \<open>Moving the last element to position \<open>i\<close> and percolating it down removes the element at \<open>i\<close>.\<close>

definition drop_at :: "'a binary_heap \<Rightarrow> nat \<Rightarrow> 'a binary_heap" where
  "drop_at h i = \<lparr>heap = (heap h)[i := heap h ! hsize h], hsize = hsize h - 1\<rparr>"

lemma elems_drop_at:
  assumes n: "hsize h < length (heap h)" and i: "1 \<le> i" "i \<le> hsize h"
  shows "elems h = add_mset (heap h ! i) (elems (drop_at h i))"
proof -
  let ?n = "hsize h" and ?xs = "heap h"
  let ?ys = "?xs[i := ?xs ! ?n, ?n := ?xs ! i]"
  have "elems h = mset (slice ?n ?ys)"
    using slice_swap [of i ?n ?n ?xs] i n by (simp add: elems_def)
  also have "\<dots> = add_mset (?xs ! i) (mset (slice (?n - 1) ?ys))"
    using slice_Suc [of "?n - 1" ?ys] n i by simp
  also have "slice (?n - 1) ?ys = slice (?n - 1) (?xs[i := ?xs ! ?n])"
    using i by (intro slice_update_above) linarith
  finally show ?thesis by (simp add: elems_def drop_at_def)
qed

lemma heap_room_drop_at: "heap_room h \<Longrightarrow> i \<noteq> hsize h \<Longrightarrow> i \<le> hsize h \<Longrightarrow> heap_room (drop_at h i)"
  by (auto simp: heap_room_iff drop_at_def)

lemma drop_at_total:
  assumes room: "heap_room h" and i: "1 \<le> i" "i \<le> hsize h"
  shows "\<exists>h'. percolate_down lt i (drop_at h i) = Inr h' \<and> hsize h' = hsize h - 1 \<and>
    length (heap h') = length (heap h) \<and> elems h = add_mset (heap h ! i) (elems h')"
proof (cases "i = hsize h")
  case True
  then have "percolate_down lt i (drop_at h i) = Inr (drop_at h i)"
    using heap_roomD [OF room] i by (intro percolate_down_leaf) (auto simp: drop_at_def)
  then show ?thesis using elems_drop_at [OF heap_roomD(1) [OF room] i] by (simp add: drop_at_def)
next
  case False
  then have "i \<le> hsize (drop_at h i)" "heap_room (drop_at h i)"
    using i room heap_room_drop_at by (auto simp: drop_at_def)
  from percolate_down_total [OF i(1) this, of lt] show ?thesis
    using elems_drop_at [OF heap_roomD(1) [OF room] i] by (auto simp: drop_at_def)
qed

lemma clear_last:
  assumes "length (heap h') = length (heap h)" "hsize h' = hsize h - 1" "heap_room h" "hsize h \<noteq> 0"
  shows "awrite (heap h') (wrap32 (hsize h' + 1)) T = Inr ((heap h')[hsize h := T])"
    and "elems (h'\<lparr>heap := (heap h')[hsize h := T]\<rparr>) = elems h'"
  using assms by (simp_all add: elems_def slice_update_above heap_room_iff)

lemma delete_min_total:
  assumes room: "heap_room h" and ne: "hsize h \<noteq> 0"
  shows "\<exists>h'. delete_min lt T h = Inr (h'\<lparr>heap := (heap h')[hsize h := T]\<rparr>) \<and>
    percolate_down lt 1 (drop_at h 1) = Inr h' \<and> hsize h' = hsize h - 1 \<and>
    length (heap h') = length (heap h) \<and> find_min h = Inr (heap h ! 1) \<and>
    elems h = add_mset (heap h ! 1) (elems (h'\<lparr>heap := (heap h')[hsize h := T]\<rparr>))"
proof -
  from drop_at_total [OF room, of 1 lt] ne obtain h' where
    h': "percolate_down lt 1 (drop_at h 1) = Inr h'" "hsize h' = hsize h - 1"
      "length (heap h') = length (heap h)" "elems h = add_mset (heap h ! 1) (elems h')" by auto
  note c = clear_last [OF h'(3,2) room ne, of T] and n = heap_roomD [OF room]
  have "delete_min lt T h = Inr (h'\<lparr>heap := (heap h')[hsize h := T]\<rparr>)"
    using h'(1) c(1) ne n by (simp add: delete_min_def heap_empty_def drop_at_def)
  moreover have "find_min h = Inr (heap h ! 1)" using n ne by (simp add: find_min_def)
  ultimately show ?thesis using h' c(2) by auto
qed

text \<open>The other \<open>delete_min\<close> leaves the moved element behind the end of the heap.\<close>

lemma delete_min_to_total:
  assumes room: "heap_room h" and ne: "hsize h \<noteq> 0"
  shows "\<exists>h'. delete_min_to lt T h = Inr (heap h ! 1, h') \<and> hsize h' = hsize h - 1 \<and>
    length (heap h') = length (heap h) \<and> elems h = add_mset (heap h ! 1) (elems h')"
proof (cases "hsize h = 1")
  case True
  let ?g = "\<lparr>heap = (heap h)[1 := T], hsize = 0\<rparr>"
  note n = heap_roomD [OF room]
  have "percolate_down lt 1 ?g = Inr ?g" using n ne by (intro percolate_down_leaf) auto
  moreover have "elems h = {#heap h ! 1#}" "elems ?g = {#}"
    using True n slice_Suc [of 0 "heap h"] by (simp_all add: elems_def slice_def)
  ultimately show ?thesis using True n by (simp add: delete_min_to_def heap_empty_def)
next
  case False
  from drop_at_total [OF room, of 1 lt] ne obtain h' where
    h': "percolate_down lt 1 (drop_at h 1) = Inr h'" "hsize h' = hsize h - 1"
      "length (heap h') = length (heap h)" "elems h = add_mset (heap h ! 1) (elems h')" by auto
  then show ?thesis using False ne heap_roomD [OF room] by (auto simp: delete_min_to_def heap_empty_def drop_at_def)
qed

lemma find_index_ok:
  assumes "i \<le> stop" and "stop \<le> length xs"
  shows "\<exists>j. find_index f xs stop i = Inr j \<and> i \<le> j \<and> j \<le> stop \<and> (j < stop \<longrightarrow> f (xs ! j)) \<and>
    (\<forall>l. i \<le> l \<longrightarrow> l < j \<longrightarrow> \<not> f (xs ! l))"
  using assms
proof (induction "stop - i" arbitrary: i rule: less_induct)
  case less
  show ?case
  proof (cases "i < stop \<and> \<not> f (xs ! i)")
    case False
    with less.prems show ?thesis by (auto simp: find_index.simps [of f xs stop i])
  next
    case True
    then have "stop - Suc i < stop - i" by linarith
    with less.hyps [of "Suc i"] True less.prems obtain j where
      j: "find_index f xs stop (Suc i) = Inr j" "Suc i \<le> j" "j \<le> stop" "j < stop \<longrightarrow> f (xs ! j)"
        "\<forall>l. Suc i \<le> l \<longrightarrow> l < j \<longrightarrow> \<not> f (xs ! l)" by auto
    have "\<not> f (xs ! l)" if "i \<le> l" "l < j" for l
      using j(5) that True by (cases "l = i") auto
    with j True less.prems show ?thesis by (auto simp: find_index.simps [of f xs stop i])
  qed
qed

lemma erase_if_total:
  assumes room: "heap_room h"
  shows "\<exists>h'. erase_if lt T f h = Inr h' \<and> heap_room h' \<and>
    (if \<exists>x \<in># elems h. f x then \<exists>x. f x \<and> elems h = add_mset x (elems h') else h' = h)"
proof (cases "hsize h = 0")
  case True
  then show ?thesis using room by (simp add: erase_if_def heap_empty_def elems_def slice_def)
next
  case False
  note n = heap_roomD [OF room]
  have w: "wrap32 (hsize h + 1) = hsize h + 1" using n by simp
  from find_index_ok [of 1 "hsize h + 1" "heap h" f] n obtain j where
    j: "find_index f (heap h) (hsize h + 1) 1 = Inr j" "1 \<le> j" "j \<le> hsize h + 1" "j < hsize h + 1 \<longrightarrow> f (heap h ! j)"
      "\<forall>l. 1 \<le> l \<longrightarrow> l < j \<longrightarrow> \<not> f (heap h ! l)" by auto
  show ?thesis
  proof (cases "j = hsize h + 1")
    case True
    then have "\<not> f x" if "x \<in># elems h" for x
      using that j(5) n by (auto simp: elems_def slice_def in_set_conv_nth)
    with True j False room w show ?thesis by (auto simp: erase_if_def heap_empty_def)
  next
    case inner: False
    with j have jn: "1 \<le> j" "j \<le> hsize h" "f (heap h ! j)" by auto
    from drop_at_total [OF room jn(1,2), of lt] obtain h' where
      h': "percolate_down lt j (drop_at h j) = Inr h'" "hsize h' = hsize h - 1"
        "length (heap h') = length (heap h)" "elems h = add_mset (heap h ! j) (elems h')" by auto
    note c = clear_last [OF h'(3,2) room False, of T]
    have "erase_if lt T f h = Inr (h'\<lparr>heap := (heap h')[hsize h := T]\<rparr>)"
      using h'(1) c(1) False n j jn inner w by (simp add: erase_if_def heap_empty_def drop_at_def)
    moreover have "\<exists>x \<in># elems h. f x" using h'(4) jn by auto
    ultimately show ?thesis using c(2) h'(2-4) jn room by (auto simp: heap_room_iff)
  qed
qed

lemma grow_ok:
  assumes "hsize h < length (heap h)"
  shows "Suc (hsize h) < length (grow T h)" and "slice (hsize h) (grow T h) = slice (hsize h) (heap h)"
    and "i \<le> hsize h \<Longrightarrow> grow T h ! i = heap h ! i"
  using assms by (auto simp: grow_def slice_def nth_append)

lemma insert_total:
  assumes n: "hsize h < length (heap h)" and "hsize h + 1 < 2 ^ 32"
  shows "\<exists>xs' hole'. up_loop lt x (grow T h) (Suc (hsize h)) = Inr (xs', hole') \<and> hole' \<le> Suc (hsize h) \<and>
    length xs' = length (grow T h) \<and>
    heap_insert lt T x h = Inr \<lparr>heap = xs'[hole' := x], hsize = Suc (hsize h)\<rparr> \<and>
    elems \<lparr>heap = xs'[hole' := x], hsize = Suc (hsize h)\<rparr> = add_mset x (elems h)"
proof -
  let ?n = "hsize h" and ?xs = "grow T h"
  note g = grow_ok [OF n, where T = T]
  from up_loop_total [of "Suc ?n" "Suc ?n" ?xs lt x] g(1) obtain xs' hole' where
    r: "up_loop lt x ?xs (Suc ?n) = Inr (xs', hole')" "hole' \<le> Suc ?n" "length xs' = length ?xs"
      "mset (slice (Suc ?n) (xs'[hole' := x])) = mset (slice (Suc ?n) (?xs[Suc ?n := x]))" by auto
  have "mset (slice (Suc ?n) (?xs[Suc ?n := x])) = add_mset x (elems h)"
    using g by (simp add: slice_Suc slice_update_above elems_def)
  with r g(1) assms(2) show ?thesis by (auto simp: heap_insert_def elems_def)
qed

lemma copy_items_eq:
  "length pre + length items < 2 ^ 31 \<Longrightarrow> length items \<le> length post \<Longrightarrow>
   copy_items items (length pre) (T # pre @ post) = Inr (T # pre @ items @ drop (length items) post)"
proof (induction items arbitrary: pre post)
  case (Cons x items)
  from Cons.prems obtain y post' where post: "post = y # post'" by (cases post) auto
  have "awrite (T # pre @ post) (length pre + 1) x = Inr (T # (pre @ [x]) @ post')"
    by (simp add: post awrite_def list_update_append)
  with Cons.IH [of "pre @ [x]" post'] Cons.prems post show ?case by simp
qed simp

lemma copy_items_all:
  assumes "length items < 2 ^ 31"
  shows "copy_items items 0 (replicate (length items + 10) T) = Inr (T # items @ replicate 9 T)"
proof -
  have "replicate (length items + 10) T = T # [] @ replicate (length items + 9) T"
    by (simp add: numeral_eq_Suc)
  with copy_items_eq [of "[]" items "replicate (length items + 9) T" T] assms show ?thesis by simp
qed

section \<open>Heap order\<close>

locale weak_order =
  fixes lt :: "'a \<Rightarrow> 'a \<Rightarrow> bool"
  assumes asym: "lt x y \<Longrightarrow> \<not> lt y x"
    and negtrans: "\<not> lt x y \<Longrightarrow> \<not> lt y z \<Longrightarrow> \<not> lt x z"
begin

lemma transit: "lt x y \<Longrightarrow> lt y z \<Longrightarrow> lt x z"
  using asym negtrans by blast

text \<open>The root of an ordered tree is a minimum.\<close>

lemma root_min:
  assumes "heap_from lt n 1 xs" and "1 \<le> i" and "i \<le> n"
  shows "\<not> lt (xs ! i) (xs ! 1)"
  using assms(2,3)
proof (induction i rule: less_induct)
  case (less i)
  show ?case
  proof (cases "i = 1")
    case True
    then show ?thesis using asym by blast
  next
    case False
    with less.prems have i: "2 \<le> i" "1 \<le> i div 2" "i div 2 < i" by linarith+
    then have "\<not> lt (xs ! (i div 2)) (xs ! 1)" using less by auto
    moreover have "\<not> lt (xs ! i) (xs ! (i div 2))"
      using assms(1) i less.prems by (auto simp: heap_from_def)
    ultimately show ?thesis using negtrans by blast
  qed
qed

text \<open>
  The invariant of \<open>percolate_down\<close> on the array with \<open>tmp\<close> put into the hole: below \<open>L\<close> only the
  edges out of the hole may be unordered, and the children of the hole are ordered with its parent.
\<close>

definition down_inv :: "nat \<Rightarrow> nat \<Rightarrow> nat \<Rightarrow> 'a list \<Rightarrow> bool" where
  "down_inv n L hole b \<longleftrightarrow>
     (\<forall>i \<in> {2..n}. L \<le> i div 2 \<longrightarrow> i div 2 \<noteq> hole \<longrightarrow> \<not> lt (b ! i) (b ! (i div 2))) \<and>
     (\<forall>i \<in> {2..n}. i div 2 = hole \<longrightarrow> L \<le> hole div 2 \<longrightarrow> \<not> lt (b ! i) (b ! (hole div 2)))"

lemma down_inv_step:
  assumes inv: "down_inv n L hole b" and L: "1 \<le> L" "L \<le> hole"
    and c: "c \<le> n" "c div 2 = hole" and n: "n < length b"
    and small: "\<And>i. i \<in> {2..n} \<Longrightarrow> i div 2 = hole \<Longrightarrow> \<not> lt (b ! i) (b ! c)"
    and less: "lt (b ! c) (b ! hole)"
  shows "down_inv n L c (b[hole := b ! c, c := b ! hole])"
proof -
  let ?b = "b[hole := b ! c, c := b ! hole]"
  have hc: "hole < c" "hole \<noteq> 0" "c < length b" "2 \<le> c" using L c n by linarith+
  have out: "\<not> lt (?b ! i) (?b ! (i div 2))"
    if i: "i \<in> {2..n}" "L \<le> i div 2" "i div 2 \<noteq> c" for i
  proof -
    consider "i = c" | "i = hole" | "i \<noteq> c" "i \<noteq> hole" "i div 2 = hole"
      | "i \<noteq> c" "i \<noteq> hole" "i div 2 \<noteq> hole" by blast
    then show ?thesis
    proof cases
      case 1
      then show ?thesis using asym [OF less] hc c by simp
    next
      case 2
      then have "\<not> lt (b ! c) (b ! (hole div 2))"
        using inv c hc i by (simp add: down_inv_def)
      moreover have "hole div 2 \<noteq> hole" "hole div 2 \<noteq> c" using hc by linarith+
      ultimately show ?thesis using 2 hc by simp
    next
      case 3
      then show ?thesis using small i hc by simp
    next
      case 4
      then show ?thesis using inv i hc by (simp add: down_inv_def)
    qed
  qed
  have "\<not> lt (?b ! i) (?b ! (c div 2))" if i: "i \<in> {2..n}" "i div 2 = c" for i
  proof -
    have "i \<noteq> hole" "i \<noteq> c" using i hc by linarith+
    moreover have "\<not> lt (b ! i) (b ! (i div 2))"
      using inv i hc L unfolding down_inv_def by (metis le_less_trans less_imp_le less_irrefl)
    ultimately show ?thesis using i hc c by simp
  qed
  with out show ?thesis by (simp add: down_inv_def)
qed

lemma down_inv_done:
  assumes "down_inv n L hole b" and "\<And>i. i \<in> {2..n} \<Longrightarrow> i div 2 = hole \<Longrightarrow> \<not> lt (b ! i) (b ! hole)"
  shows "heap_from lt n L b"
  using assms by (auto simp: down_inv_def heap_from_def)

lemma min_child_ok:
  assumes "1 \<le> hole" "hole * 2 \<le> n" "n < length xs"
  obtains c where "min_child lt n xs hole = Inr c" "c \<le> n" "c div 2 = hole"
    "\<And>i. i \<in> {2..n} \<Longrightarrow> i div 2 = hole \<Longrightarrow> \<not> lt (xs ! i) (xs ! c)"
proof -
  have two: "i = hole * 2 \<or> i = hole * 2 + 1" if "i div 2 = hole" for i using that by linarith
  have irrefl: "\<not> lt x x" for x using asym by blast
  show thesis
  proof (cases "hole * 2 = n")
    case True
    show thesis
    proof (rule that [of n])
      fix i assume "i \<in> {2..n}" "i div 2 = hole"
      then have "i = n" using two [of i] True by auto
      then show "\<not> lt (xs ! i) (xs ! n)" using irrefl by simp
    qed (use True assms in \<open>auto simp: min_child_def\<close>)
  next
    case False
    let ?c = "if lt (xs ! (hole * 2 + 1)) (xs ! (hole * 2)) then hole * 2 + 1 else hole * 2"
    show thesis
    proof (rule that [of ?c])
      fix i assume "i \<in> {2..n}" "i div 2 = hole"
      then show "\<not> lt (xs ! i) (xs ! ?c)" using two [of i] irrefl asym by auto
    qed (use False assms in \<open>auto simp: min_child_def\<close>)
  qed
qed

lemma sift_loop_order:
  assumes "down_inv n L hole (xs[hole := tmp])" and "1 \<le> L" "L \<le> hole" "hole \<le> n" "n < length xs"
    and "sift_loop lt n tmp xs hole = Inr (xs', hole')"
  shows "heap_from lt n L (xs'[hole' := tmp])"
  using assms(1,3-)
proof (induction "n - hole" arbitrary: xs hole rule: less_induct)
  case less
  let ?b = "xs[hole := tmp]"
  have hole: "1 \<le> hole" "hole < length xs" using \<open>1 \<le> L\<close> less.prems by linarith+
  show ?case
  proof (cases "hole * 2 \<le> n")
    case False
    then have "heap_from lt n L ?b" using less.prems by (intro down_inv_done) auto
    moreover have "xs' = xs" "hole' = hole"
      using less.prems(5) False hole by (simp_all add: sift_loop.simps [of lt n tmp xs hole])
    ultimately show ?thesis by simp
  next
    case True
    from min_child_ok [OF hole(1) True \<open>n < length xs\<close>] obtain c where
      c: "min_child lt n xs hole = Inr c" "c \<le> n" "c div 2 = hole"
        "\<And>i. i \<in> {2..n} \<Longrightarrow> i div 2 = hole \<Longrightarrow> \<not> lt (xs ! i) (xs ! c)" by blast
    have ch: "hole < c" "c < length xs" using c hole less.prems by linarith+
    have below: "i \<noteq> hole" if "i div 2 = hole" for i using that hole by linarith
    have eq: "sift_loop lt n tmp xs hole = (if lt (xs ! c) tmp
        then sift_loop lt n tmp (xs[hole := xs ! c]) c else Inr (xs, hole))"
      using True hole c(1) ch by (subst sift_loop.simps) simp
    show ?thesis
    proof (cases "lt (xs ! c) tmp")
      case False
      have "\<not> lt (?b ! i) (?b ! hole)" if "i \<in> {2..n}" "i div 2 = hole" for i
        using negtrans [OF c(4) [OF that] False] below [OF that(2)] hole by simp
      then have "heap_from lt n L ?b" using less.prems by (intro down_inv_done) auto
      moreover have "xs' = xs" "hole' = hole" using less.prems(5) False eq by simp_all
      ultimately show ?thesis by simp
    next
      case lt: True
      let ?xs = "xs[hole := xs ! c]"
      have b': "?xs[c := tmp] = ?b[hole := ?b ! c, c := ?b ! hole]"
        using ch hole by (simp add: list_update_swap)
      have inv: "down_inv n L c (?xs[c := tmp])"
        unfolding b'
      proof (rule down_inv_step)
        fix i assume i: "i \<in> {2..n}" "i div 2 = hole"
        show "\<not> lt (?b ! i) (?b ! c)" using c(4) [OF i] below [OF i(2)] ch by simp
      qed (use less.prems \<open>1 \<le> L\<close> c ch lt hole in auto)
      have dec: "n - c < n - hole" "L \<le> c" "n < length ?xs" using ch c less.prems by auto
      have "sift_loop lt n tmp ?xs c = Inr (xs', hole')" using less.prems(5) eq lt by simp
      from less.hyps [OF dec(1) inv dec(2) c(2) dec(3) this] show ?thesis .
    qed
  qed
qed

lemma percolate_down_order:
  assumes "heap_from lt (hsize h) (Suc hole) (heap h)" and "1 \<le> hole" "hole \<le> hsize h" "heap_room h"
    and "percolate_down lt hole h = Inr h'"
  shows "heap_from lt (hsize h) hole (heap h')"
proof -
  have "down_inv (hsize h) hole hole ((heap h)[hole := heap h ! hole])"
    using assms by (auto simp: down_inv_def heap_from_def)
  moreover have "hole < 2 ^ 31" using assms heap_roomD(2) by (meson le_less_trans)
  ultimately show ?thesis
    using sift_loop_order [of "hsize h" hole hole "heap h" "heap h ! hole"] assms heap_roomD [OF assms(4)]
    by (auto simp: percolate_down_eq rbind_eq_Inr awrite_def split: if_splits)
qed

lemma build_heap_ok:
  assumes "heap_from lt (hsize h) (Suc i) (heap h)" and "i \<le> hsize h" "heap_room h"
  shows "\<exists>h'. build_heap lt i h = Inr h' \<and> heap_ok lt h' \<and> elems h' = elems h"
  using assms
proof (induction i arbitrary: h)
  case 0
  then show ?case by (simp add: heap_ok_def)
next
  case (Suc i)
  from percolate_down_total [of "Suc i" h lt] Suc.prems obtain h' where
    h': "percolate_down lt (Suc i) h = Inr h'" "hsize h' = hsize h" "length (heap h') = length (heap h)"
    "elems h' = elems h" by auto
  then have "heap_room h'" using Suc.prems by (simp add: heap_room_iff)
  with h' percolate_down_order [of h "Suc i" h'] Suc.IH [of h'] Suc.prems show ?case by auto
qed

lemma from_vector_ok:
  assumes "length items < 2 ^ 31"
  shows "\<exists>h. heap_from_vector lt T items = Inr h \<and> heap_ok lt h \<and> elems h = mset items"
proof -
  let ?h = "\<lparr>heap = T # items @ replicate 9 T, hsize = length items\<rparr>"
  have "heap_from lt (length items) (Suc (length items div 2)) (heap ?h)"
    by (auto simp: heap_from_def)
  moreover have "heap_room ?h" using assms by (simp add: heap_room_iff)
  ultimately show ?thesis
    using build_heap_ok [of ?h "length items div 2"] assms
    by (auto simp: heap_from_vector_def copy_items_all elems_def slice_def)
qed

lemma heap_from_mono: "heap_from lt n L xs \<Longrightarrow> n' \<le> n \<Longrightarrow> L \<le> L' \<Longrightarrow> heap_from lt n' L' xs"
  unfolding heap_from_def by fastforce

lemma heap_from_update: "heap_from lt n L xs \<Longrightarrow> i < L \<Longrightarrow> heap_from lt n L (xs[i := x])"
  unfolding heap_from_def by fastforce

lemma heap_from_above: "heap_from lt n L xs \<Longrightarrow> n < i \<Longrightarrow> heap_from lt n L (xs[i := x])"
  unfolding heap_from_def by fastforce

lemma drop_at_order:
  assumes ok: "heap_ok lt h" and i: "1 \<le> i" "i \<le> hsize h"
    and "percolate_down lt i (drop_at h i) = Inr h'"
  shows "heap_from lt (hsize h - 1) i (heap h')"
proof (cases "i = hsize h")
  case True
  then show ?thesis by (auto simp: heap_from_def)
next
  case False
  have room: "heap_room h" and hf: "heap_from lt (hsize h) 1 (heap h)" using ok by (auto simp: heap_ok_def)
  have "heap_from lt (hsize h - 1) (Suc i) ((heap h)[i := heap h ! hsize h])"
    using heap_from_mono [OF hf, of "hsize h - 1" "Suc i"] heap_from_update by simp
  with percolate_down_order [of "drop_at h i" i h'] heap_room_drop_at [OF room False i(2)] assms(4) False i show ?thesis
    by (simp add: drop_at_def)
qed

lemma delete_min_ok:
  assumes ok: "heap_ok lt h" and ne: "hsize h \<noteq> 0"
  shows "\<exists>h' x. delete_min lt T h = Inr h' \<and> find_min h = Inr x \<and> heap_ok lt h' \<and>
    elems h = add_mset x (elems h')"
proof -
  have room: "heap_room h" using ok by (simp add: heap_ok_def)
  let ?r = "\<lambda>g. g\<lparr>heap := (heap g)[hsize h := T]\<rparr>"
  from delete_min_total [OF room ne, of lt T] obtain h' where
    h': "delete_min lt T h = Inr (?r h')"
      "percolate_down lt 1 (drop_at h 1) = Inr h'" "hsize h' = hsize h - 1"
      "length (heap h') = length (heap h)" "find_min h = Inr (heap h ! 1)"
      "elems h = add_mset (heap h ! 1) (elems (?r h'))" by blast
  have "heap_from lt (hsize h - 1) 1 (heap h')" using drop_at_order [OF ok _ _ h'(2)] ne by simp
  then have "heap_ok lt (?r h')" using h' room ne heap_from_above by (auto simp: heap_ok_def heap_room_iff)
  with h' show ?thesis by blast
qed

text \<open>The hole of \<open>insert\<close> going up.\<close>

definition up_inv :: "nat \<Rightarrow> nat \<Rightarrow> 'a list \<Rightarrow> bool" where
  "up_inv n hole b \<longleftrightarrow>
     (\<forall>i \<in> {2..n}. i \<noteq> hole \<longrightarrow> \<not> lt (b ! i) (b ! (i div 2))) \<and>
     (\<forall>i \<in> {2..n}. i div 2 = hole \<longrightarrow> 2 \<le> hole \<longrightarrow> \<not> lt (b ! i) (b ! (hole div 2)))"

lemma up_inv_step:
  assumes inv: "up_inv n hole b" and hole: "2 \<le> hole" "hole \<le> n" "n < length b"
    and less: "lt (b ! hole) (b ! (hole div 2))"
  shows "up_inv n (hole div 2) (b[hole := b ! (hole div 2), hole div 2 := b ! hole])"
proof -
  define p where "p = hole div 2"
  let ?b = "b[hole := b ! p, p := b ! hole]"
  have hp: "p < hole" "1 \<le> p" "p < length b" "hole < length b" using hole unfolding p_def by linarith+
  have I1: "\<not> lt (b ! i) (b ! (i div 2))" if "i \<in> {2..n}" "i \<noteq> hole" for i
    using inv that by (simp add: up_inv_def)
  have I2: "\<not> lt (b ! i) (b ! p)" if "i \<in> {2..n}" "i div 2 = hole" for i
    using inv that hole by (simp add: up_inv_def p_def)
  have less: "lt (b ! hole) (b ! p)" using less by (simp add: p_def)
  have A: "\<not> lt (?b ! i) (?b ! (i div 2))" if i: "i \<in> {2..n}" "i \<noteq> p" for i
  proof -
    consider "i = hole" | "i \<noteq> hole" "i div 2 = hole" | "i \<noteq> hole" "i div 2 = p"
      | "i \<noteq> hole" "i div 2 \<noteq> hole" "i div 2 \<noteq> p" by blast
    then show ?thesis
    proof cases
      case 1
      then show ?thesis using asym [OF less] hp by (simp add: p_def [symmetric])
    next
      case 2
      then show ?thesis using I2 [OF i(1)] i hp by simp
    next
      case 3
      then have "\<not> lt (b ! i) (b ! p)" using I1 [OF i(1)] by simp
      then have "\<not> lt (b ! i) (b ! hole)" using transit less by blast
      then show ?thesis using 3 i hp by simp
    next
      case 4
      then show ?thesis using I1 [OF i(1)] i hp by simp
    qed
  qed
  have B: "\<not> lt (?b ! i) (?b ! (p div 2))" if i: "i \<in> {2..n}" "i div 2 = p" "2 \<le> p" for i
  proof -
    have pp: "p div 2 \<noteq> p" "p div 2 \<noteq> hole" "i \<noteq> p" "p \<in> {2..n}" using i hp hole by auto
    have up: "\<not> lt (b ! p) (b ! (p div 2))" using I1 [OF pp(4)] hp by simp
    show ?thesis
    proof (cases "i = hole")
      case True
      then show ?thesis using up pp hp by simp
    next
      case False
      then have "\<not> lt (b ! i) (b ! p)" using I1 [OF i(1)] i by simp
      from negtrans [OF this up] show ?thesis using False pp hp by simp
    qed
  qed
  from A B show ?thesis by (simp add: up_inv_def p_def)
qed

lemma up_inv_done:
  assumes "up_inv n hole b" and "2 \<le> hole \<Longrightarrow> \<not> lt (b ! hole) (b ! (hole div 2))"
  shows "heap_from lt n 1 b"
  unfolding heap_from_def
proof (intro ballI impI)
  fix i assume "i \<in> {2..n}"
  then show "\<not> lt (b ! i) (b ! (i div 2))"
    using assms unfolding up_inv_def by (cases "i = hole") auto
qed

lemma up_loop_order:
  assumes "up_inv n hole (xs[hole := x])" and "1 \<le> hole" "hole \<le> n" "n < length xs"
    and "up_loop lt x xs hole = Inr (xs', hole')"
  shows "heap_from lt n 1 (xs'[hole' := x])"
  using assms
proof (induction hole arbitrary: xs rule: less_induct)
  case (less hole)
  let ?b = "xs[hole := x]"
  show ?case
  proof (cases "hole > 1")
    case False
    then have "xs' = xs" "hole' = hole" using less.prems(5) by (simp_all add: up_loop.simps [of lt x xs hole])
    moreover have "heap_from lt n 1 ?b" using less.prems(1) False by (intro up_inv_done) auto
    ultimately show ?thesis by simp
  next
    case True
    let ?p = "hole div 2"
    have p: "?p < hole" "1 \<le> ?p" "?p \<le> n" "?p < length xs" "hole < length xs" using True less.prems by linarith+
    have eq: "up_loop lt x xs hole = (if lt x (xs ! ?p)
        then up_loop lt x (xs[hole := xs ! ?p]) ?p else Inr (xs, hole))"
      by (subst up_loop.simps) (simp only: True if_True aread_ok [OF p(4)] awrite_ok [OF p(5)] rbind_simps)
    show ?thesis
    proof (cases "lt x (xs ! ?p)")
      case False
      then have "xs' = xs" "hole' = hole" using less.prems(5) eq by simp_all
      moreover have "heap_from lt n 1 ?b" using less.prems(1) False p by (intro up_inv_done) auto
      ultimately show ?thesis by simp
    next
      case lt: True
      let ?xs = "xs[hole := xs ! ?p]"
      have b': "?xs[?p := x] = ?b[hole := ?b ! ?p, ?p := ?b ! hole]"
        using p by (simp add: list_update_swap)
      have inv: "up_inv n ?p (?xs[?p := x])"
        unfolding b' by (rule up_inv_step) (use less.prems p lt True in auto)
      have len: "n < length ?xs" using less.prems by simp
      have "up_loop lt x ?xs ?p = Inr (xs', hole')" using less.prems(5) eq lt by simp
      from less.IH [OF p(1) inv p(2,3) len this] show ?thesis .
    qed
  qed
qed

lemma insert_ok:
  assumes ok: "heap_ok lt h" and bound: "hsize h + 1 < 2 ^ 31"
  shows "\<exists>h'. heap_insert lt T x h = Inr h' \<and> heap_ok lt h' \<and> elems h' = add_mset x (elems h)"
proof -
  let ?n = "hsize h" and ?xs = "grow T h"
  have n: "?n < length (heap h)" and hf: "heap_from lt ?n 1 (heap h)" using ok by (auto simp: heap_ok_def heap_room_iff)
  note g = grow_ok [OF n, where T = T]
  have "up_inv (Suc ?n) (Suc ?n) (?xs[Suc ?n := x])"
    using hf g(3) unfolding up_inv_def heap_from_def by auto
  with up_loop_order [of "Suc ?n" "Suc ?n" ?xs x] insert_total [OF n, of lt x T] g(1) bound show ?thesis
    by (fastforce simp: heap_ok_def heap_room_iff)
qed

lemma insert_all_ok:
  "heap_ok lt h \<Longrightarrow> hsize h + length L < 2 ^ 31 \<Longrightarrow>
   \<exists>h'. insert_all lt T L h = Inr h' \<and> heap_ok lt h' \<and> elems h' = mset L + elems h"
proof (induction L arbitrary: h)
  case (Cons x L)
  from insert_ok [OF Cons.prems(1), of T x] Cons.prems(2) obtain h1 where
    h1: "heap_insert lt T x h = Inr h1" "heap_ok lt h1" "elems h1 = add_mset x (elems h)" by auto
  have "hsize h1 = Suc (hsize h)"
    using h1(2,3) Cons.prems(1) by (metis heap_ok_def heap_roomD(1) size_add_mset size_elems)
  with Cons.IH [OF h1(2)] Cons.prems(2) h1 show ?case by auto
qed simp

lemma find_min_ok:
  assumes "heap_ok lt h" "hsize h \<noteq> 0"
  shows "\<exists>m. find_min h = Inr m \<and> m \<in># elems h \<and> (\<forall>x \<in># elems h. \<not> lt x m)"
proof -
  let ?n = "hsize h"
  have n: "?n < length (heap h)" and hf: "heap_from lt ?n 1 (heap h)" using assms by (auto simp: heap_ok_def heap_room_iff)
  have mem: "x \<in># elems h \<longleftrightarrow> (\<exists>i. 1 \<le> i \<and> i \<le> ?n \<and> x = heap h ! i)" for x
  proof -
    have "x \<in># elems h \<longleftrightarrow> (\<exists>i < ?n. x = heap h ! Suc i)"
      using n by (auto simp: elems_def slice_def in_set_conv_nth)
    also have "\<dots> \<longleftrightarrow> (\<exists>i. 1 \<le> i \<and> i \<le> ?n \<and> x = heap h ! i)"
      using Suc_le_D by (metis One_nat_def Suc_le_eq Suc_le_mono le0)
    finally show ?thesis .
  qed
  have "\<not> lt x (heap h ! 1)" if "x \<in># elems h" for x
    using that root_min [OF hf] unfolding mem by blast
  moreover have "heap h ! 1 \<in># elems h" unfolding mem using assms by (intro exI [of _ 1]) auto
  ultimately show ?thesis using assms n by (auto simp: find_min_def)
qed
end

section \<open>Properties\<close>

text \<open>
  C2. For every comparison that is a weak order, a heap of fewer than \<open>2 ^ 31\<close> elements is a priority
  queue: \<open>insert\<close> adds the element if there are fewer than \<open>2 ^ 31\<close> with it, \<open>find_min\<close> of a heap that
  is not empty is a minimum, \<open>delete_min\<close> removes it, a heap built from a vector of fewer than \<open>2 ^ 31\<close>
  elements holds these, and the heap order is kept. The 32-bit indices do not wrap around, and every
  loop returns.
\<close>

theorem heap_priority_queue:
  assumes "\<And>x y. lt x y \<Longrightarrow> \<not> lt y x" and "\<And>x y z. \<not> lt x y \<Longrightarrow> \<not> lt y z \<Longrightarrow> \<not> lt x z"
  shows "(heap_ok lt h \<and> hsize h + 1 < 2 ^ 31 \<longrightarrow>
      (\<exists>h'. heap_insert lt T x h = Inr h' \<and> heap_ok lt h' \<and> elems h' = add_mset x (elems h))) \<and>
    (heap_ok lt h \<and> elems h \<noteq> {#} \<longrightarrow>
      (\<exists>h' m. find_min h = Inr m \<and> (\<forall>y \<in># elems h. \<not> lt y m) \<and>
        delete_min lt T h = Inr h' \<and> heap_ok lt h' \<and> elems h = add_mset m (elems h'))) \<and>
    (length items < 2 ^ 31 \<longrightarrow>
      (\<exists>g. heap_from_vector lt T items = Inr g \<and> heap_ok lt g \<and> elems g = mset items))"
proof -
  have W: "weak_order lt" using assms by (rule weak_order.intro)
  have ne: "hsize h \<noteq> 0" if "elems h \<noteq> {#}" using that by (auto simp: elems_def slice_def)
  show ?thesis
    using weak_order.insert_ok [OF W, of h T x] weak_order.from_vector_ok [OF W, of items T]
      weak_order.delete_min_ok [OF W _ ne, of T] weak_order.find_min_ok [OF W _ ne]
    by fastforce
qed

lemma heap_from_upt [code]:
  "heap_from lt n L xs \<longleftrightarrow> list_all (\<lambda>i. L \<le> i div 2 \<longrightarrow> \<not> lt (xs ! i) (xs ! (i div 2))) [2..<Suc n]"
  by (auto simp: heap_from_def list_all_iff simp del: upt_Suc)

definition three :: "nat binary_heap" where
  "three = \<lparr>heap = [0, 3, 5, 4, 0, 0], hsize = 3\<rparr>"

theorem heap_priority_queue_witness:
  "(\<exists>h'. heap_insert (<) 0 4 three = Inr h' \<and> elems h' = add_mset 4 (elems three)) \<and>
   (\<exists>h' m. find_min three = Inr m \<and> delete_min (<) 0 three = Inr h' \<and> elems three = add_mset m (elems h')) \<and>
   (\<exists>g. heap_from_vector (<) 0 [5, 2, 7] = Inr g \<and> elems g = {#2, 5, 7 :: nat#})"
proof -
  have ok: "heap_ok (<) three"
    by code_simp
  have ne: "elems three \<noteq> {#}" by (simp add: elems_def slice_def three_def)
  show ?thesis
    using heap_priority_queue [of "(<) :: nat \<Rightarrow> nat \<Rightarrow> bool" three 0 4 "[5, 2, 7]"] ok ne
    by (fastforce simp: three_def)
qed

text \<open>
  Whatever the comparison answers, \<open>insert\<close>, \<open>delete_min\<close> and \<open>erase_if\<close> stay inside the vector
  and lose or duplicate no element.
\<close>

theorem heap_keeps_elements:
  assumes "heap_room h"
  shows "(\<exists>h'. heap_insert lt T x h = Inr h' \<and> elems h' = add_mset x (elems h)) \<and>
    (\<exists>h'. erase_if lt T f h = Inr h' \<and>
      (if \<exists>y \<in># elems h. f y then \<exists>y. f y \<and> elems h = add_mset y (elems h') else h' = h)) \<and>
    (if hsize h = 0 then delete_min lt T h = Inl Terminate
     else \<exists>h' m. find_min h = Inr m \<and> delete_min lt T h = Inr h' \<and> elems h = add_mset m (elems h'))"
proof (intro conjI)
  have "hsize h < length (heap h)" "hsize h + 1 < 2 ^ 32" using heap_roomD [OF assms] by simp_all
  from insert_total [OF this, of lt x T]
  show "\<exists>h'. heap_insert lt T x h = Inr h' \<and> elems h' = add_mset x (elems h)" by blast
  show "\<exists>h'. erase_if lt T f h = Inr h' \<and>
      (if \<exists>y \<in># elems h. f y then \<exists>y. f y \<and> elems h = add_mset y (elems h') else h' = h)"
    using erase_if_total [OF assms, of lt T f] by blast
  show "if hsize h = 0 then delete_min lt T h = Inl Terminate
     else \<exists>h' m. find_min h = Inr m \<and> delete_min lt T h = Inr h' \<and> elems h = add_mset m (elems h')"
    using delete_min_total [OF assms, of lt T] by (auto simp: delete_min_def heap_empty_def)
qed

theorem heap_keeps_elements_witness:
  "\<exists>h'. heap_insert (\<lambda>x y. True) 0 7 three = Inr h' \<and> elems h' = add_mset 7 (elems three)"
  using heap_keeps_elements [of three "\<lambda>x y. True" 0 7 "\<lambda>y. y = 5"] by (simp add: three_def heap_room_def)

text \<open>
  The bound is needed: with \<open>2 ^ 32 - 1\<close> elements \<open>++size_\<close> wraps around to 0, the new element goes to
  the unused position 0, and the heap is empty.
\<close>

lemma insert_wraps_around:
  assumes "hsize h + 1 = 2 ^ 32" and "heap h \<noteq> []"
  shows "\<exists>h'. heap_insert lt T x h = Inr h' \<and> hsize h' = 0 \<and> elems h' = {#}"
proof -
  have "wrap32 (hsize h + 1) = 0" unfolding assms(1) by (simp add: wrap32_def)
  moreover have "grow T h \<noteq> []" using assms(2) by (simp add: grow_def)
  ultimately show ?thesis
    by (simp add: heap_insert_def up_loop.simps [of _ _ _ 0] elems_def slice_def)
qed

definition seven :: "nat binary_heap" where
  "seven = \<lparr>heap = [0, 1, 10, 2, 11, 12, 3, 4, 0], hsize = 7\<rparr>"

text \<open>
  \<open>erase_if\<close> only percolates down, so the element it moves may stay below a greater parent: in
  the heap 1, 10, 2, 11, 12, 3, 4 erasing 11 puts 4 below 10, and the next minima come out of order.
\<close>

theorem erase_if_breaks_order:
  "heap_ok (<) seven \<and>
   (\<exists>h'. erase_if (<) 0 (\<lambda>x. x = 11) seven = Inr h' \<and> heap h' = [0, 1, 10, 2, 4, 12, 3, 0, 0] \<and> \<not> heap_ok (<) h')"
proof
  show "heap_ok (<) seven"
    by code_simp
  have "erase_if (<) 0 (\<lambda>x. x = 11) seven = Inr \<lparr>heap = [0, 1, 10, 2, 4, 12, 3, 0, 0], hsize = 6\<rparr>"
    by code_simp
  moreover have "\<not> heap_ok (<) \<lparr>heap = [0, 1, 10, 2, 4, 12, 3, 0, 0 :: nat], hsize = 6\<rparr>"
    unfolding heap_ok_def heap_from_def by (auto intro!: bexI [of _ 4])
  ultimately show "\<exists>h'. erase_if (<) 0 (\<lambda>x. x = 11) seven = Inr h' \<and> heap h' = [0, 1, 10, 2, 4, 12, 3, 0, 0] \<and> \<not> heap_ok (<) h'"
    by auto
qed

end
