(* ===== verification/Timer_Queue.thy ===== *)
theory Timer_Queue
  imports Binary_Heap "HOL-Library.Signed_Division"
begin

text \<open>
  Model of \<open>Timestamp\<close> (\<open>liby_cpp/util.h\<close>), of \<open>Timer\<close> (\<open>liby_cpp/TimerQueue.h\<close>) and of the timer
  queue (\<open>liby_cpp/TimerQueue.cpp\<close>) over the binary heap. Seconds and microseconds are integers; the
  cast of the microseconds to 32 bits in the constructor is written out. The current time, what a
  handler does, and the bound on the rounds of the loop over expired timers are arguments.
\<close>

section \<open>Timestamps\<close>

record timestamp =
  tv_sec :: int
  tv_usec :: int

abbreviation kMicrosecondsPerSecond :: int where
  "kMicrosecondsPerSecond \<equiv> 1000000"

definition Timestamp :: "int \<Rightarrow> int \<Rightarrow> timestamp" where
  "Timestamp sec usec =
     (if usec mod 2 ^ 32 > kMicrosecondsPerSecond
      then \<lparr>tv_sec = sec + usec sdiv kMicrosecondsPerSecond, tv_usec = usec smod kMicrosecondsPerSecond\<rparr>
      else \<lparr>tv_sec = sec, tv_usec = usec\<rparr>)"

definition invalidTime :: timestamp where
  "invalidTime = Timestamp 0 0"

definition invalid :: "timestamp \<Rightarrow> bool" where
  "invalid t \<longleftrightarrow> tv_sec t = 0 \<and> tv_usec t = 0"

definition valid :: "timestamp \<Rightarrow> bool" where
  "valid t \<longleftrightarrow> \<not> invalid t"

definition toMillSec :: "timestamp \<Rightarrow> u64" where
  "toMillSec t = of_int (tv_sec t * 1000 + tv_usec t sdiv 1000)"

definition toMicroSec :: "timestamp \<Rightarrow> u64" where
  "toMicroSec t = of_int (tv_sec t) * 1000000 + of_int (tv_usec t)"

definition compareTo :: "timestamp \<Rightarrow> timestamp \<Rightarrow> int" where
  "compareTo this rhs =
     (if tv_sec rhs > tv_sec this then -1
      else if tv_sec rhs < tv_sec this then 1
      else if tv_usec rhs > tv_usec this then -1
      else if tv_usec rhs < tv_usec this then 1
      else 0)"

definition ts_less :: "timestamp \<Rightarrow> timestamp \<Rightarrow> bool" where
  "ts_less lhs rhs \<longleftrightarrow> compareTo lhs rhs = -1"

definition ts_equal :: "timestamp \<Rightarrow> timestamp \<Rightarrow> bool" where
  "ts_equal lhs rhs \<longleftrightarrow> compareTo lhs rhs = 0"

definition ts_greater :: "timestamp \<Rightarrow> timestamp \<Rightarrow> bool" where
  "ts_greater lhs rhs \<longleftrightarrow> compareTo lhs rhs = 1"

definition ts_minus :: "timestamp \<Rightarrow> timestamp \<Rightarrow> timestamp" where
  "ts_minus lhs rhs =
     (let sec = tv_sec lhs - tv_sec rhs; lusec = tv_usec lhs; rusec = tv_usec rhs;
          (sec, lusec) = (if lusec < rusec then (sec - 1, lusec + kMicrosecondsPerSecond) else (sec, lusec))
      in Timestamp sec (lusec - rusec))"

definition ts_plus :: "timestamp \<Rightarrow> timestamp \<Rightarrow> timestamp" where
  "ts_plus lhs rhs = Timestamp (tv_sec lhs + tv_sec rhs) (tv_usec lhs + tv_usec rhs)"

text \<open>The time in microseconds, and the timestamps whose microseconds are below a second.\<close>

definition micros :: "timestamp \<Rightarrow> int" where
  "micros t = tv_sec t * kMicrosecondsPerSecond + tv_usec t"

definition normal_ts :: "timestamp \<Rightarrow> bool" where
  "normal_ts t \<longleftrightarrow> 0 \<le> tv_usec t \<and> tv_usec t < kMicrosecondsPerSecond"

lemma ts_less_iff: "ts_less a b \<longleftrightarrow> tv_sec a < tv_sec b \<or> tv_sec a = tv_sec b \<and> tv_usec a < tv_usec b"
  by (auto simp: ts_less_def compareTo_def)

interpretation ts: weak_order ts_less
  by unfold_locales (auto simp: ts_less_iff)

lemma micros_Timestamp [simp]: "micros (Timestamp s u) = s * kMicrosecondsPerSecond + u"
proof -
  have "u sdiv 1000000 * 1000000 + u smod 1000000 = u" by (rule sdiv_mult_smod_eq)
  then show ?thesis by (simp add: Timestamp_def micros_def distrib_right)
qed

lemma micros_less:
  assumes "normal_ts a" "normal_ts b"
  shows "ts_less a b \<longleftrightarrow> micros a < micros b"
  using assms by (auto simp: ts_less_iff micros_def normal_ts_def)

lemma micros_plus: "micros (ts_plus a b) = micros a + micros b"
  by (simp add: ts_plus_def micros_def [of a] micros_def [of b] distrib_right)

lemma micros_minus: "micros (ts_minus a b) = micros a - micros b"
  by (simp add: ts_minus_def Let_def micros_def [of a] micros_def [of b] left_diff_distrib)

lemma micros_inject:
  assumes "normal_ts a" "normal_ts b" "micros a = micros b"
  shows "a = b"
proof -
  have "ts_less a b \<or> ts_less b a \<or> a = b" by (cases a; cases b) (auto simp: ts_less_iff)
  with assms show ?thesis by (auto simp: micros_less)
qed

lemma normal_minus: "normal_ts a \<Longrightarrow> normal_ts b \<Longrightarrow> normal_ts (ts_minus a b)"
  by (auto simp: normal_ts_def ts_minus_def Let_def Timestamp_def)

lemma normal_plus:
  assumes "normal_ts a" "normal_ts b"
  shows "normal_ts (ts_plus a b) \<longleftrightarrow> tv_usec a + tv_usec b \<noteq> kMicrosecondsPerSecond"
proof -
  have "(tv_usec a + tv_usec b) mod 2 ^ 32 = tv_usec a + tv_usec b"
    using assms by (intro mod_pos_pos_trivial) (auto simp: normal_ts_def)
  moreover have "0 \<le> (tv_usec a + tv_usec b) smod 1000000 \<and> (tv_usec a + tv_usec b) smod 1000000 < 1000000"
    if "0 \<le> tv_usec a + tv_usec b" using that by (simp add: signed_modulo_int_def signed_divide_int_def sgn_if minus_div_mult_eq_mod)
  ultimately show ?thesis using assms
    by (auto simp: normal_ts_def ts_plus_def Timestamp_def)
qed

section \<open>Timers and the timer queue\<close>

record 'h timer =
  timer_id :: u64
  timeout :: timestamp
  handler :: "'h option"

definition Timer_default :: "'h timer" where
  "Timer_default = \<lparr>timer_id = 0, timeout = invalidTime, handler = None\<rparr>"

definition getOneValidId :: "u64 \<Rightarrow> u64 \<times> u64" where
  "getOneValidId timerIds = (timerIds, timerIds + 1)"

definition Timer_new :: "u64 \<Rightarrow> timestamp \<Rightarrow> 'h \<Rightarrow> 'h timer \<times> u64" where
  "Timer_new timerIds t h =
     (let (i, next) = getOneValidId timerIds in (\<lparr>timer_id = i, timeout = t, handler = Some h\<rparr>, next))"

definition timer_less :: "'h timer \<Rightarrow> 'h timer \<Rightarrow> bool" where
  "timer_less lhs rhs \<longleftrightarrow> ts_less (timeout lhs) (timeout rhs) \<and> timer_id lhs < timer_id rhs"

text \<open>
  The state of a queue: whether its timerfd is open, the absolute time the kernel has armed it for,
  and the heap. The world \<open>'s\<close> is whatever the handlers act on; a handler may also change the queue.
\<close>

record 'h timer_queue =
  tfd_open :: bool
  armed :: "timestamp option"
  queue :: "'h timer binary_heap"

definition TimerQueue_new :: "'h timer_queue" where
  "TimerQueue_new = \<lparr>tfd_open = True, armed = None, queue = heap_capacity Timer_default 100\<rparr>"

text \<open>
  \<open>timerfd_settime\<close> with an absolute time fails (EBADF, EINVAL) on a closed descriptor, a negative
  time and nanoseconds of a second or more; zero disarms. A failure is only logged.
\<close>

definition updateTimerfd :: "timestamp \<Rightarrow> 'h timer_queue \<Rightarrow> 'h timer_queue" where
  "updateTimerfd t q =
     (if tfd_open q \<and> 0 \<le> tv_sec t \<and> 0 \<le> tv_usec t * 1000 \<and> tv_usec t * 1000 < 10 ^ 9
      then q\<lparr>armed := (if invalid t then None else Some t)\<rparr> else q)"

definition TimerQueue_destroy :: "'h timer_queue \<Rightarrow> 'h timer_queue" where
  "TimerQueue_destroy q = q\<lparr>tfd_open := False, armed := None, queue := heap_clear (queue q)\<rparr>"

definition cancel :: "u64 \<Rightarrow> 'h timer_queue \<Rightarrow> 'h timer_queue res" where
  "cancel i q =
     (if i = 0 then Inr q
      else rbind (erase_if timer_less Timer_default (\<lambda>t. timer_id t = i) (queue q)) (\<lambda>h.
           Inr (q\<lparr>queue := h\<rparr>)))"

definition cancelAll :: "'h timer_queue \<Rightarrow> 'h timer_queue" where
  "cancelAll q = q\<lparr>queue := heap_clear (queue q)\<rparr>"

definition TimerQueue_insert :: "'h timer \<Rightarrow> 'h timer_queue \<Rightarrow> 'h timer_queue res" where
  "TimerQueue_insert t q =
     (if timer_id t = 0 then Inr q
      else (let q' = (if heap_empty (queue q) then updateTimerfd (timeout t) q else q) in
            rbind (heap_insert timer_less Timer_default t (queue q')) (\<lambda>h.
            Inr (q'\<lparr>queue := h\<rparr>))))"

text \<open>Calling an empty \<open>std::function\<close> throws.\<close>

definition runHandler ::
    "('h \<Rightarrow> 'h timer_queue \<times> 's \<Rightarrow> ('h timer_queue \<times> 's) res) \<Rightarrow> 'h timer \<Rightarrow>
     'h timer_queue \<times> 's \<Rightarrow> ('h timer_queue \<times> 's) res" where
  "runHandler run t st = (case handler t of None \<Rightarrow> Inl Terminate | Some h \<Rightarrow> run h st)"

fun timeout_loop ::
    "nat \<Rightarrow> ('h \<Rightarrow> 'h timer_queue \<times> 's \<Rightarrow> ('h timer_queue \<times> 's) res) \<Rightarrow> timestamp \<Rightarrow>
     'h timer_queue \<times> 's \<Rightarrow> ('h timer_queue \<times> 's) res" where
  "timeout_loop 0 run now st = Inl NoReturn"
| "timeout_loop (Suc k) run now (q, s) =
     (if heap_empty (queue q) then Inr (q, s)
      else rbind (find_min (queue q)) (\<lambda>minTimer.
           if ts_less now (timeout minTimer) then Inr (q, s)
           else rbind (delete_min timer_less Timer_default (queue q)) (\<lambda>h.
                rbind (runHandler run minTimer (q\<lparr>queue := h\<rparr>, s)) (timeout_loop k run now))))"

definition handleTimeoutEvents ::
    "nat \<Rightarrow> ('h \<Rightarrow> 'h timer_queue \<times> 's \<Rightarrow> ('h timer_queue \<times> 's) res) \<Rightarrow> timestamp \<Rightarrow>
     'h timer_queue \<times> 's \<Rightarrow> ('h timer_queue \<times> 's) res" where
  "handleTimeoutEvents k run now st =
     (if heap_empty (queue (fst st)) then Inr st
      else rbind (timeout_loop k run now st) (\<lambda>(q, s).
           if heap_empty (queue q) then Inr (q, s)
           else rbind (find_min (queue q)) (\<lambda>m. Inr (updateTimerfd (timeout m) q, s))))"

section \<open>Comparisons that agree on the elements\<close>

lemma min_child_cong:
  assumes "\<And>x y. x \<in> set xs \<Longrightarrow> y \<in> set xs \<Longrightarrow> lt x y = lt' x y"
  shows "min_child lt n xs hole = min_child lt' n xs hole"
  using assms by (auto simp: min_child_def Let_def aread_def)

lemma sift_loop_cong:
  assumes "\<And>x y. x \<in> insert tmp (set xs) \<Longrightarrow> y \<in> insert tmp (set xs) \<Longrightarrow> lt x y = lt' x y"
  shows "sift_loop lt n tmp xs hole = sift_loop lt' n tmp xs hole"
  using assms
proof (induction lt n tmp xs hole rule: sift_loop.induct)
  case (1 lt n tmp xs hole)
  have pc: "min_child lt n xs hole = min_child lt' n xs hole" using 1(2) by (intro min_child_cong) simp
  have rec: "sift_loop lt n tmp (xs[hole := xs ! c]) c = sift_loop lt' n tmp (xs[hole := xs ! c]) c"
    if "1 \<le> hole" "hole * 2 \<le> n" "min_child lt n xs hole = Inr c" "c < length xs" "lt (xs ! c) tmp" "hole < length xs" for c
  proof -
    have "set (xs[hole := xs ! c]) \<subseteq> set xs" using that by (simp add: set_update_subsetI)
    with 1(1) [of c "xs ! c" "xs[hole := xs ! c]"] 1(2) that show ?thesis by auto
  qed
  have same: "lt (xs ! c) tmp = lt' (xs ! c) tmp" if "c < length xs" for c using 1(2) that by simp
  show ?case
    by (subst (1 2) sift_loop.simps)
      (auto intro!: rbind_cong simp: pc [symmetric] aread_def awrite_def same rec split: if_splits)
qed

lemma sift_loop_set: "sift_loop lt n tmp xs hole = Inr (xs', hole') \<Longrightarrow> set xs' \<subseteq> set xs"
proof (induction lt n tmp xs hole rule: sift_loop.induct)
  case (1 lt n tmp xs hole)
  have sub: "set xs' \<subseteq> set xs" if "1 \<le> hole" "hole * 2 \<le> n" "min_child lt n xs hole = Inr c" "c < length xs" "lt (xs ! c) tmp" "hole < length xs"
    "sift_loop lt n tmp (xs[hole := xs ! c]) c = Inr (xs', hole')" for c
  proof -
    have "set (xs[hole := xs ! c]) \<subseteq> set xs" using that by (simp add: set_update_subsetI)
    with 1(1) [of c "xs ! c" "xs[hole := xs ! c]"] that show ?thesis by auto
  qed
  from 1(2) show ?case
    by (subst (asm) sift_loop.simps)
      (auto simp: rbind_eq_Inr aread_def awrite_def split: if_splits dest: sub [THEN subsetD, rotated -1])
qed

lemma percolate_down_set:
  assumes "percolate_down lt hole h = Inr h'" and "hsize h < 2 ^ 31" and "1 \<le> hole" and "hole < 2 ^ 31"
  shows "set (heap h') \<subseteq> set (heap h)"
proof -
  from assms obtain xs hole' where
    h: "hole < length (heap h)" "sift_loop lt (hsize h) (heap h ! hole) (heap h) hole = Inr (xs, hole')"
      "heap h' = xs[hole' := heap h ! hole]"
    by (auto simp: percolate_down_eq rbind_eq_Inr aread_def awrite_def split: if_splits)
  then have "set (heap h') \<subseteq> insert (heap h ! hole) (set xs)" using set_update_subset_insert by metis
  with sift_loop_set [OF h(2)] h(1) show ?thesis by auto
qed

definition agree :: "('a \<Rightarrow> 'a \<Rightarrow> bool) \<Rightarrow> ('a \<Rightarrow> 'a \<Rightarrow> bool) \<Rightarrow> 'a list \<Rightarrow> bool" where
  "agree lt lt' xs \<longleftrightarrow> list_all (\<lambda>x. list_all (\<lambda>y. lt x y = lt' x y) xs) xs"

lemma agree_iff: "agree lt lt' xs \<longleftrightarrow> (\<forall>x \<in> set xs. \<forall>y \<in> set xs. lt x y = lt' x y)"
  by (simp add: agree_def list_all_iff)

lemma agree_mono: "agree lt lt' xs \<Longrightarrow> set ys \<subseteq> set xs \<Longrightarrow> agree lt lt' ys"
  by (auto simp: agree_iff)

lemma percolate_down_cong:
  assumes "agree lt lt' (heap h)" and "hsize h < 2 ^ 31" and "1 \<le> hole" and "hole < 2 ^ 31"
  shows "percolate_down lt hole h = percolate_down lt' hole h"
proof (cases "hole < length (heap h)")
  case True
  then have "sift_loop lt (hsize h) (heap h ! hole) (heap h) hole = sift_loop lt' (hsize h) (heap h ! hole) (heap h) hole"
    using assms(1) by (intro sift_loop_cong) (auto simp: agree_iff insert_absorb)
  then show ?thesis using True assms(2-) by (simp add: percolate_down_eq)
qed (simp add: percolate_down_def aread_def)

lemma drop_at_set:
  assumes "heap_room h"
  shows "set (heap (drop_at h i)) \<subseteq> set (heap h)" and "hsize (drop_at h i) < 2 ^ 31"
  using assms by (auto simp: drop_at_def heap_room_iff set_update_subsetI)

lemma delete_min_eq:
  assumes "heap_room h" and "hsize h \<noteq> 0"
  shows "delete_min lt T h = rbind (percolate_down lt 1 (drop_at h 1)) (\<lambda>h'.
           rbind (awrite (heap h') (wrap32 (hsize h' + 1)) T) (\<lambda>xs'. Inr (h'\<lparr>heap := xs'\<rparr>)))"
  using assms by (simp add: delete_min_def heap_empty_def drop_at_def heap_room_iff)

lemma delete_min_cong:
  assumes "heap_room h" and "hsize h \<noteq> 0" and "agree lt lt' (heap h)"
  shows "delete_min lt T h = delete_min lt' T h"
proof -
  have "agree lt lt' (heap (drop_at h 1))"
    using assms(3) drop_at_set(1) [OF assms(1)] by (rule agree_mono)
  from percolate_down_cong [OF this drop_at_set(2) [OF assms(1)], of 1] show ?thesis
    by (simp add: delete_min_eq [OF assms(1,2)])
qed

lemma delete_min_set:
  assumes "heap_room h" and "hsize h \<noteq> 0" and "delete_min lt T h = Inr h'"
  shows "set (heap h') \<subseteq> insert T (set (heap h))"
proof -
  from assms obtain g i where "percolate_down lt 1 (drop_at h 1) = Inr g" "heap h' = (heap g)[i := T]"
    by (auto simp: delete_min_eq rbind_eq_Inr awrite_def split: if_splits)
  then show ?thesis
    using percolate_down_set [of lt 1 "drop_at h 1" g] drop_at_set [of h 1, OF assms(1)]
      set_update_subset_insert [of "heap g" i T] by auto
qed

section \<open>Expired timers\<close>

definition by_timeout :: "'h timer \<Rightarrow> 'h timer \<Rightarrow> bool" where
  "by_timeout x y \<longleftrightarrow> ts_less (timeout x) (timeout y)"

interpretation by_time: weak_order by_timeout
proof
  fix x y z :: "'h timer"
  show "by_timeout x y \<Longrightarrow> \<not> by_timeout y x" unfolding by_timeout_def by (rule ts.asym)
  show "\<not> by_timeout x y \<Longrightarrow> \<not> by_timeout y z \<Longrightarrow> \<not> by_timeout x z"
    unfolding by_timeout_def by (rule ts.negtrans)
qed

text \<open>
  Handlers that leave the queue alone, whatever they do to the rest of the state, and the sequence
  of the handlers of a list of timers.
\<close>

definition quiet_handler :: "('h \<Rightarrow> 's \<Rightarrow> 's) \<Rightarrow> 'h \<Rightarrow> 'h timer_queue \<times> 's \<Rightarrow> ('h timer_queue \<times> 's) res" where
  "quiet_handler act h st = Inr (fst st, act h (snd st))"

definition run_handlers :: "('h \<Rightarrow> 's \<Rightarrow> 's) \<Rightarrow> 'h timer list \<Rightarrow> 's \<Rightarrow> 's" where
  "run_handlers act ts = fold (\<lambda>t. act (the (handler t))) ts"

definition log_handler :: "'h \<Rightarrow> 'h timer_queue \<times> 'h list \<Rightarrow> ('h timer_queue \<times> 'h list) res" where
  "log_handler = quiet_handler (\<lambda>h s. s @ [h])"

lemma run_handlers_simps [simp]:
  "run_handlers act [] s = s"
  "run_handlers act (t # ts) s = run_handlers act ts (act (the (handler t)) s)"
  by (simp_all add: run_handlers_def)

definition in_order :: "'h timer list \<Rightarrow> bool" where
  "in_order ts \<longleftrightarrow> sorted_wrt (\<lambda>x y. \<not> ts_less (timeout y) (timeout x)) ts"

definition queue_ok :: "'h timer_queue \<Rightarrow> bool" where
  "queue_ok q \<longleftrightarrow> heap_ok by_timeout (queue q) \<and> agree timer_less by_timeout (Timer_default # heap (queue q))"

lemma min_expires_first:
  assumes "heap_ok by_timeout h" and "hsize h \<noteq> 0" and "find_min h = Inr m" and "t \<in># elems h"
  shows "\<not> ts_less (timeout t) (timeout m)"
  using by_time.find_min_ok [OF assms(1,2)] assms(3,4) by (auto simp: by_timeout_def)

lemma timeout_loop_due:
  assumes "queue_ok q" and "\<And>t. t \<in># elems (queue q) \<Longrightarrow> handler t \<noteq> None" and "hsize (queue q) < k"
  shows "\<exists>q' ran. timeout_loop k (quiet_handler act) now (q, s) = Inr (q', run_handlers act ran s) \<and>
    queue_ok q' \<and> in_order ran \<and> elems (queue q) = mset ran + elems (queue q') \<and>
    (\<forall>t \<in> set ran. \<not> ts_less now (timeout t)) \<and> (\<forall>t \<in># elems (queue q'). ts_less now (timeout t))"
  using assms
proof (induction k arbitrary: q s)
  case (Suc k)
  let ?h = "queue q"
  have ok: "heap_ok by_timeout ?h" and ag: "agree timer_less by_timeout (Timer_default # heap ?h)"
    using Suc.prems(1) by (auto simp: queue_ok_def)
  have len: "heap_room ?h" using ok by (simp add: heap_ok_def)
  show ?case
  proof (cases "hsize ?h = 0")
    case True
    then have "elems ?h = {#}" by (simp add: elems_def slice_def)
    then show ?thesis using True Suc.prems(1)
      by (intro exI [of _ q] exI [of _ "[]"]) (simp add: heap_empty_def in_order_def)
  next
    case ne: False
    from by_time.delete_min_ok [OF ok ne, of Timer_default] obtain h' m where
      d: "delete_min by_timeout Timer_default ?h = Inr h'" "find_min ?h = Inr m" "heap_ok by_timeout h'"
        "elems ?h = add_mset m (elems h')" by blast
    note first = min_expires_first [OF ok ne d(2)]
    have d': "delete_min timer_less Timer_default ?h = Inr h'"
      using delete_min_cong [OF len ne agree_mono [OF ag]] d(1) by (metis set_subset_Cons)
    show ?thesis
    proof (cases "ts_less now (timeout m)")
      case True
      have "ts_less now (timeout t)" if "t \<in># elems ?h" for t
        using True first [OF that] ts.asym ts.negtrans by blast
      then show ?thesis using True ne d(2) Suc.prems(1)
        by (intro exI [of _ q] exI [of _ "[]"]) (simp add: heap_empty_def in_order_def)
    next
      case due: False
      from Suc.prems(2) [of m] d(4) obtain hd where hd: "handler m = Some hd" by auto
      let ?q = "q\<lparr>queue := h'\<rparr>"
      have "set (Timer_default # heap h') \<subseteq> set (Timer_default # heap ?h)"
        using delete_min_set [OF len ne d'] by auto
      then have "queue_ok ?q" using d(3) agree_mono [OF ag] by (simp add: queue_ok_def)
      moreover have "hsize h' < k"
      proof -
        have "Suc (hsize h') = hsize ?h"
          using arg_cong [OF d(4), of size] d(3) len by (simp add: size_elems heap_ok_def heap_roomD)
        then show ?thesis using Suc.prems(3) by simp
      qed
      ultimately obtain q' ran where r:
        "timeout_loop k (quiet_handler act) now (?q, act hd s) = Inr (q', run_handlers act ran (act hd s))"
        "queue_ok q'" "in_order ran" "elems h' = mset ran + elems (queue q')"
        "\<forall>t \<in> set ran. \<not> ts_less now (timeout t)" "\<forall>t \<in># elems (queue q'). ts_less now (timeout t)"
        using Suc.IH [of ?q "act hd s"] Suc.prems(2) d(4) by auto
      have "timeout_loop (Suc k) (quiet_handler act) now (q, s) = Inr (q', run_handlers act (m # ran) s)"
        using ne due d(2) d' hd r(1) by (simp add: heap_empty_def runHandler_def quiet_handler_def)
      moreover have "in_order (m # ran)" using r(3,4) d(4) first by (auto simp: in_order_def)
      ultimately show ?thesis using r d(4) due
        by (intro exI [of _ q'] exI [of _ "m # ran"]) simp
    qed
  qed
qed simp

lemma handleTimeoutEvents_due:
  assumes ok: "queue_ok q" and "\<And>t. t \<in># elems (queue q) \<Longrightarrow> handler t \<noteq> None" and "hsize (queue q) < k"
  shows "\<exists>q' ran. handleTimeoutEvents k (quiet_handler act) now (q, s) = Inr (q', run_handlers act ran s) \<and>
    in_order ran \<and> elems (queue q) = mset ran + elems (queue q') \<and>
    (\<forall>t \<in> set ran. \<not> ts_less now (timeout t)) \<and> (\<forall>t \<in># elems (queue q'). ts_less now (timeout t))"
proof -
  from timeout_loop_due [OF assms, of act now s] obtain q' ran where
    r: "timeout_loop k (quiet_handler act) now (q, s) = Inr (q', run_handlers act ran s)" "queue_ok q'" "in_order ran"
      "elems (queue q) = mset ran + elems (queue q')" "\<forall>t \<in> set ran. \<not> ts_less now (timeout t)"
      "\<forall>t \<in># elems (queue q'). ts_less now (timeout t)" by blast
  have same: "queue (updateTimerfd t q') = queue q'" for t by (simp add: updateTimerfd_def)
  show ?thesis
  proof (cases "heap_empty (queue q)")
    case True
    then have "elems (queue q) = {#}" by (simp add: heap_empty_def elems_def slice_def)
    then show ?thesis using True
      by (intro exI [of _ q] exI [of _ "[]"]) (simp add: handleTimeoutEvents_def in_order_def)
  next
    case False
    show ?thesis
    proof (cases "heap_empty (queue q')")
      case True
      then have "handleTimeoutEvents k (quiet_handler act) now (q, s) = Inr (q', run_handlers act ran s)"
        using False r(1) by (simp add: handleTimeoutEvents_def)
      then show ?thesis using r by blast
    next
      case ne: False
      have "hsize (queue q') < length (heap (queue q'))" using r(2) by (simp add: queue_ok_def heap_ok_def heap_roomD)
      then obtain m where "find_min (queue q') = Inr m" using ne by (simp add: find_min_def heap_empty_def)
      then have "handleTimeoutEvents k (quiet_handler act) now (q, s) = Inr (updateTimerfd (timeout m) q', run_handlers act ran s)"
        using False ne r(1) by (simp add: handleTimeoutEvents_def)
      then show ?thesis using r same by metis
    qed
  qed
qed

text \<open>
  C10. Let the queue be ordered as a heap by timeout, with fewer than \<open>2 ^ 31\<close> timers, let the
  comparison of timers agree with that of their timeouts on it (ids grow with timeouts, as when
  timers are created in the order in which they expire), and let every timer have a handler. If the
  handlers do not touch the queue, \<open>handleTimeoutEvents\<close> returns, runs the handlers of exactly the
  timers that have expired, in the order of their timeouts, and keeps the others. The bound \<open>k\<close> on
  the rounds of the loop is enough if it exceeds the number of timers.
\<close>

theorem expired_timers_run:
  assumes "queue_ok q" and "\<And>t. t \<in># elems (queue q) \<Longrightarrow> handler t \<noteq> None" and "hsize (queue q) < k"
  shows "\<exists>q' ran. handleTimeoutEvents k (quiet_handler act) now (q, s) = Inr (q', run_handlers act ran s) \<and>
    in_order ran \<and> mset ran = {#t \<in># elems (queue q). \<not> ts_less now (timeout t)#} \<and>
    elems (queue q') = {#t \<in># elems (queue q). ts_less now (timeout t)#}"
proof -
  from handleTimeoutEvents_due [OF assms, of act now s] obtain q' ran where
    r: "handleTimeoutEvents k (quiet_handler act) now (q, s) = Inr (q', run_handlers act ran s)" "in_order ran"
      "elems (queue q) = mset ran + elems (queue q')"
      "\<forall>t \<in> set ran. \<not> ts_less now (timeout t)" "\<forall>t \<in># elems (queue q'). ts_less now (timeout t)" by blast
  have all: "{#t \<in># M. P t#} = M" if "\<forall>t \<in># M. P t" for M P
    using that by (simp add: filter_mset_eq_conv)
  have none: "{#t \<in># M. P t#} = {#}" if "\<forall>t \<in># M. \<not> P t" for M P
    using that by (simp add: filter_mset_eq_conv)
  have "mset ran = {#t \<in># elems (queue q). \<not> ts_less now (timeout t)#}"
    using r(4,5) all [of "mset ran"] none [of "elems (queue q')"] by (simp add: r(3))
  moreover have "elems (queue q') = {#t \<in># elems (queue q). ts_less now (timeout t)#}"
    using r(4,5) none [of "mset ran"] all [of "elems (queue q')"] by (simp add: r(3))
  ultimately show ?thesis using r(1,2) by blast
qed

definition timer_at :: "u64 \<Rightarrow> int \<Rightarrow> nat timer" where
  "timer_at i s = \<lparr>timer_id = i, timeout = Timestamp s 0, handler = Some (unat i)\<rparr>"

definition two_timers :: "nat timer_queue" where
  "two_timers = \<lparr>tfd_open = True, armed = None,
     queue = \<lparr>heap = [Timer_default, timer_at 1 10, timer_at 2 20, Timer_default], hsize = 2\<rparr>\<rparr>"

lemma two_timers_ok: "queue_ok two_timers"
  by code_simp

theorem expired_timers_run_witness:
  "\<exists>q' ran. handleTimeoutEvents 3 log_handler (Timestamp 15 0) (two_timers, []) =
       Inr (q', run_handlers (\<lambda>h s. s @ [h]) ran []) \<and>
     mset ran = {#t \<in># elems (queue two_timers). \<not> ts_less (Timestamp 15 0) (timeout t)#}"
proof -
  have "handler t \<noteq> None" if "t \<in># elems (queue two_timers)" for t
    using that by (auto simp: two_timers_def elems_def slice_def timer_at_def)
  moreover have "hsize (queue two_timers) < 3" by (simp add: two_timers_def)
  ultimately show ?thesis
    using expired_timers_run [OF two_timers_ok, of 3 "\<lambda>h s. s @ [h]" "Timestamp 15 0" "[]"]
    unfolding log_handler_def by blast
qed

text \<open>
  In general ids and timeouts do not agree: \<open>operator<\<close> on timers asks for an earlier timeout \<^emph>\<open>and\<close> a smaller
  id, so a timer created later but expiring earlier stays below the other one. Timer 2, inserted
  for second 10 after timer 1 for second 20, does not run at second 15, and the timerfd is armed
  for second 20.
\<close>

theorem later_timer_delayed:
  "\<exists>q1 q2. TimerQueue_insert (timer_at 1 20) TimerQueue_new = Inr q1 \<and>
     TimerQueue_insert (timer_at 2 10) q1 = Inr q2 \<and>
     find_min (queue q2) = Inr (timer_at 1 20) \<and> armed q2 = Some (Timestamp 20 0) \<and>
     handleTimeoutEvents 3 log_handler (Timestamp 15 0) (q2, []) = Inr (q2, [])"
proof -
  let ?cells = "\<lambda>xs. \<lparr>tfd_open = True, armed = Some (Timestamp 20 0),
    queue = \<lparr>heap = Timer_default # xs @ replicate (99 - length xs) Timer_default, hsize = length xs\<rparr>\<rparr>"
  have "TimerQueue_insert (timer_at 1 20) TimerQueue_new = Inr (?cells [timer_at 1 20])"
    by code_simp
  moreover have "TimerQueue_insert (timer_at 2 10) (?cells [timer_at 1 20]) = Inr (?cells [timer_at 1 20, timer_at 2 10])"
    by code_simp
  moreover have "find_min (queue (?cells [timer_at 1 20, timer_at 2 10])) = Inr (timer_at 1 20)"
    by code_simp
  moreover have "handleTimeoutEvents 3 log_handler (Timestamp 15 0) (?cells [timer_at 1 20, timer_at 2 10], []) =
      Inr (?cells [timer_at 1 20, timer_at 2 10], [])"
    by code_simp
  ultimately show ?thesis by (intro exI conjI) (assumption | simp)+
qed

text \<open>
  \<open>cancelAll\<close> leaves the vector of the heap empty, so the next insertion writes outside it.
\<close>

theorem insert_after_cancelAll:
  assumes "timer_id t \<noteq> 0"
  shows "TimerQueue_insert t (cancelAll q) = Inl OutOfBounds"
  using assms by (simp add: TimerQueue_insert_def cancelAll_def heap_clear_def heap_empty_def updateTimerfd_def
      Let_def heap_insert_def grow_def up_loop.simps [of _ _ _ "Suc 0"] awrite_def)

theorem insert_after_cancelAll_witness:
  "TimerQueue_insert (timer_at 1 20) (cancelAll two_timers) = Inl OutOfBounds"
  by (rule insert_after_cancelAll) (simp add: timer_at_def)

text \<open>
  Sums and differences of timestamps are exact; differences of normalised timestamps are
  normalised and comparable, and sums are except when the microseconds add up to exactly a second:
  then a second is left in \<open>tv_usec\<close>, and \<open>timerfd_settime\<close> refuses the time.
\<close>

theorem timestamp_arithmetic:
  assumes "normal_ts a" and "normal_ts b"
  shows "micros (ts_plus a b) = micros a + micros b \<and> micros (ts_minus a b) = micros a - micros b \<and>
    normal_ts (ts_minus a b) \<and> (ts_less a b \<longleftrightarrow> micros a < micros b) \<and>
    (if tv_usec a + tv_usec b = kMicrosecondsPerSecond then updateTimerfd (ts_plus a b) q = q
     else normal_ts (ts_plus a b))"
proof -
  have "updateTimerfd (ts_plus a b) q = q" if "tv_usec a + tv_usec b = kMicrosecondsPerSecond"
    using that by (simp add: updateTimerfd_def ts_plus_def Timestamp_def)
  then show ?thesis
    using micros_plus micros_minus normal_minus [OF assms] micros_less [OF assms] normal_plus [OF assms] by auto
qed

theorem timestamp_arithmetic_witness:
  "micros (ts_minus \<lparr>tv_sec = 5, tv_usec = 1\<rparr> \<lparr>tv_sec = 2, tv_usec = 3\<rparr>) = 2999998"
  using timestamp_arithmetic [of "\<lparr>tv_sec = 5, tv_usec = 1\<rparr>" "\<lparr>tv_sec = 2, tv_usec = 3\<rparr>"]
  by (simp add: normal_ts_def micros_def)

end
