(* ===== verification/Poller_Timers.thy ===== *)
theory Poller_Timers
  imports Timer_Queue
begin

text \<open>
  Model of the timer interface of \<open>Poller\<close> (\<open>liby_cpp/Poller.cpp\<close>: \<open>runAt\<close>, \<open>runAfter\<close>, \<open>runEvery\<close>,
  \<open>runEveryHelper\<close>, \<open>cancelTimer\<close>, the read callback of the timerfd) and of \<open>TimerSet\<close>
  (\<open>liby_cpp/util.cpp\<close>) over the timer queue. Handlers may start and cancel timers themselves; the
  readings of the clock are an argument. Shown: no sequence of calls and timer events faults, a
  periodic timer runs at every wake-up, and a timer set cancels exactly its own timers.
\<close>

section \<open>Timers of a poller\<close>

text \<open>
  The closures the code puts into timers: a handler of the user, or the closure of
  \<open>runEveryHelper\<close> with what it captures. What a user's handler does with timers is a list of calls.
\<close>

datatype 'u phandler = Plain 'u | Every u64 timestamp 'u

type_synonym 'u ptimers = "'u phandler timer_queue"

datatype 'u timer_op = RunAt timestamp 'u | RunAfter timestamp 'u | RunEvery timestamp 'u | CancelTimer u64

text \<open>
  The rest of the state: the counter of timer ids, the number of times the clock was read, and the
  handlers that have run. \<open>clk n\<close> is what the \<open>n\<close>th call of \<open>Timestamp::now\<close> returns.
\<close>

record 'u tworld =
  timerIds :: u64
  ticks :: nat
  handled :: "'u list"

type_synonym 'u tstate = "'u ptimers \<times> 'u tworld"

definition runAt :: "timestamp \<Rightarrow> 'u \<Rightarrow> 'u tstate \<Rightarrow> (u64 \<times> 'u tstate) res" where
  "runAt t h st =
     (let (timer, next) = Timer_new (timerIds (snd st)) t (Plain h) in
      rbind (TimerQueue_insert timer (fst st)) (\<lambda>q.
      Inr (timer_id timer, q, (snd st)\<lparr>timerIds := next\<rparr>)))"

definition tick :: "'u tstate \<Rightarrow> 'u tstate" where
  "tick st = (fst st, (snd st)\<lparr>ticks := ticks (snd st) + 1\<rparr>)"

definition runAfter :: "(nat \<Rightarrow> timestamp) \<Rightarrow> timestamp \<Rightarrow> 'u \<Rightarrow> 'u tstate \<Rightarrow> (u64 \<times> 'u tstate) res" where
  "runAfter clk t h st = runAt (ts_plus t (clk (ticks (snd st)))) h (tick st)"

definition runEveryHelper ::
    "(nat \<Rightarrow> timestamp) \<Rightarrow> u64 \<Rightarrow> timestamp \<Rightarrow> 'u \<Rightarrow> 'u tstate \<Rightarrow> 'u tstate res" where
  "runEveryHelper clk i t h st =
     (let timer = \<lparr>timer_id = i, timeout = ts_plus t (clk (ticks (snd st))), handler = Some (Every i t h)\<rparr> in
      rbind (TimerQueue_insert timer (fst st)) (\<lambda>q. Inr (q, snd (tick st))))"

definition runEvery :: "(nat \<Rightarrow> timestamp) \<Rightarrow> timestamp \<Rightarrow> 'u \<Rightarrow> 'u tstate \<Rightarrow> (u64 \<times> 'u tstate) res" where
  "runEvery clk t h st =
     (let (i, next) = getOneValidId (timerIds (snd st)) in
      rbind (runEveryHelper clk i t h (fst st, (snd st)\<lparr>timerIds := next\<rparr>)) (\<lambda>st'. Inr (i, st')))"

definition cancelTimer :: "u64 \<Rightarrow> 'u tstate \<Rightarrow> 'u tstate res" where
  "cancelTimer i st = rbind (cancel i (fst st)) (\<lambda>q. Inr (q, snd st))"

definition Poller_cancelAllTimer :: "'u tstate \<Rightarrow> 'u tstate" where
  "Poller_cancelAllTimer st = (cancelAll (fst st), snd st)"

text \<open>The calls of a user's handler, in their order; it discards the ids.\<close>

fun run_timer_op :: "(nat \<Rightarrow> timestamp) \<Rightarrow> 'u timer_op \<Rightarrow> 'u tstate \<Rightarrow> 'u tstate res" where
  "run_timer_op clk (RunAt t h) st = rbind (runAt t h st) (\<lambda>(i, st'). Inr st')"
| "run_timer_op clk (RunAfter t h) st = rbind (runAfter clk t h st) (\<lambda>(i, st'). Inr st')"
| "run_timer_op clk (RunEvery t h) st = rbind (runEvery clk t h st) (\<lambda>(i, st'). Inr st')"
| "run_timer_op clk (CancelTimer i) st = cancelTimer i st"

fun timer_ops :: "(nat \<Rightarrow> timestamp) \<Rightarrow> 'u timer_op list \<Rightarrow> 'u tstate \<Rightarrow> 'u tstate res" where
  "timer_ops clk [] st = Inr st"
| "timer_ops clk (x # xs) st = rbind (run_timer_op clk x st) (timer_ops clk xs)"

definition run_user ::
    "(nat \<Rightarrow> timestamp) \<Rightarrow> ('u \<Rightarrow> 'u timer_op list) \<Rightarrow> 'u \<Rightarrow> 'u tstate \<Rightarrow> 'u tstate res" where
  "run_user clk prog u st = timer_ops clk (prog u) (fst st, (snd st)\<lparr>handled := handled (snd st) @ [u]\<rparr>)"

fun run_phandler ::
    "(nat \<Rightarrow> timestamp) \<Rightarrow> ('u \<Rightarrow> 'u timer_op list) \<Rightarrow> 'u phandler \<Rightarrow> 'u tstate \<Rightarrow> 'u tstate res" where
  "run_phandler clk prog (Plain u) st = run_user clk prog u st"
| "run_phandler clk prog (Every i t u) st = rbind (runEveryHelper clk i t u st) (run_user clk prog u)"

text \<open>The read callback of the timerfd: it drains the descriptor and handles the expired timers.\<close>

definition on_timerfd ::
    "nat \<Rightarrow> (nat \<Rightarrow> timestamp) \<Rightarrow> ('u \<Rightarrow> 'u timer_op list) \<Rightarrow> 'u tstate \<Rightarrow> 'u tstate res" where
  "on_timerfd k clk prog st =
     (if heap_empty (queue (fst st)) then Inr st
      else handleTimeoutEvents k (run_phandler clk prog) (clk (ticks (snd st))) (tick st))"

section \<open>Sets of timers\<close>

text \<open>
  \<open>TimerSet\<close>: the ids of the timers an object has started, so that it can cancel them. The order in
  which an \<open>unordered_set\<close> is walked is the order of the list.
\<close>

record timer_set =
  ts_poller :: bool
  ts_ids :: "u64 list"

definition set_insert :: "u64 \<Rightarrow> timer_set \<Rightarrow> timer_set" where
  "set_insert i s = s\<lparr>ts_ids := List.insert i (ts_ids s)\<rparr>"

definition TimerSet_start :: "(u64 \<times> 'u tstate) res \<Rightarrow> timer_set \<Rightarrow> (u64 \<times> timer_set \<times> 'u tstate) res" where
  "TimerSet_start r s = rbind r (\<lambda>(i, st). Inr (i, set_insert i s, st))"

definition TimerSet_runAt :: "timestamp \<Rightarrow> 'u \<Rightarrow> timer_set \<Rightarrow> 'u tstate \<Rightarrow> (u64 \<times> timer_set \<times> 'u tstate) res" where
  "TimerSet_runAt t h s st = rbind (guard (ts_poller s) AssertFail) (\<lambda>_. TimerSet_start (runAt t h st) s)"

definition TimerSet_runAfter ::
    "(nat \<Rightarrow> timestamp) \<Rightarrow> timestamp \<Rightarrow> 'u \<Rightarrow> timer_set \<Rightarrow> 'u tstate \<Rightarrow> (u64 \<times> timer_set \<times> 'u tstate) res" where
  "TimerSet_runAfter clk t h s st = rbind (guard (ts_poller s) AssertFail) (\<lambda>_. TimerSet_start (runAfter clk t h st) s)"

definition TimerSet_runEvery ::
    "(nat \<Rightarrow> timestamp) \<Rightarrow> timestamp \<Rightarrow> 'u \<Rightarrow> timer_set \<Rightarrow> 'u tstate \<Rightarrow> (u64 \<times> timer_set \<times> 'u tstate) res" where
  "TimerSet_runEvery clk t h s st = rbind (guard (ts_poller s) AssertFail) (\<lambda>_. TimerSet_start (runEvery clk t h st) s)"

definition TimerSet_cancelTimer :: "u64 \<Rightarrow> timer_set \<Rightarrow> 'u tstate \<Rightarrow> (timer_set \<times> 'u tstate) res" where
  "TimerSet_cancelTimer i s st =
     rbind (guard (ts_poller s) AssertFail) (\<lambda>_.
     rbind (cancelTimer i st) (\<lambda>st'. Inr (s\<lparr>ts_ids := removeAll i (ts_ids s)\<rparr>, st')))"

fun cancel_each :: "u64 list \<Rightarrow> 'u tstate \<Rightarrow> 'u tstate res" where
  "cancel_each [] st = Inr st"
| "cancel_each (i # is) st = rbind (cancelTimer i st) (cancel_each is)"

definition TimerSet_cancelAllTimer :: "timer_set \<Rightarrow> 'u tstate \<Rightarrow> (timer_set \<times> 'u tstate) res" where
  "TimerSet_cancelAllTimer s st =
     rbind (guard (ts_poller s) AssertFail) (\<lambda>_.
     rbind (cancel_each (ts_ids s) st) (\<lambda>st'. Inr (s\<lparr>ts_ids := []\<rparr>, st')))"

section \<open>What every operation keeps\<close>

text \<open>
  The heap is well-formed, every timer has a handler, and \<open>n\<close> more timers can be started before there
  are \<open>2 ^ 31\<close>.
\<close>

definition timers_room :: "nat \<Rightarrow> 'h timer_queue \<Rightarrow> bool" where
  "timers_room n q \<longleftrightarrow> heap_room (queue q) \<and> int (hsize (queue q) + n) < 2 ^ 31 \<and>
     list_all (\<lambda>t. handler t \<noteq> None) (slice (hsize (queue q)) (heap (queue q)))"

lemma timers_room_iff:
  "timers_room n q \<longleftrightarrow> heap_room (queue q) \<and> hsize (queue q) + n < 2 ^ 31 \<and> (\<forall>t \<in># elems (queue q). handler t \<noteq> None)"
  by (auto simp: timers_room_def elems_def list_all_iff)

lemma updateTimerfd_queue [simp]: "queue (updateTimerfd t q) = queue q"
  by (simp add: updateTimerfd_def)

lemma TimerQueue_insert_total:
  assumes "heap_room (queue q)" and "hsize (queue q) + 1 < 2 ^ 31"
  shows "\<exists>q'. TimerQueue_insert t q = Inr q' \<and> heap_room (queue q') \<and> hsize (queue q') \<le> hsize (queue q) + 1 \<and>
    elems (queue q') = (if timer_id t = 0 then elems (queue q) else add_mset t (elems (queue q)))"
proof (cases "timer_id t = 0")
  case False
  note n = heap_roomD(1) [OF assms(1)]
  from insert_total [OF n, of timer_less t Timer_default] False assms
    grow_ok(1) [OF n, where T = Timer_default] show ?thesis
    by (auto simp: TimerQueue_insert_def Let_def heap_room_iff)
qed (use assms in \<open>simp add: TimerQueue_insert_def\<close>)

lemma cancel_total:
  assumes "heap_room (queue q)"
  shows "\<exists>q'. cancel i q = Inr q' \<and> heap_room (queue q') \<and>
    (if i \<noteq> 0 \<and> (\<exists>t \<in># elems (queue q). timer_id t = i)
     then \<exists>t. timer_id t = i \<and> elems (queue q) = add_mset t (elems (queue q')) else q' = q)"
proof (cases "i = 0")
  case False
  from erase_if_total [OF assms, of timer_less Timer_default "\<lambda>t. timer_id t = i"] obtain h where
    h: "erase_if timer_less Timer_default (\<lambda>t. timer_id t = i) (queue q) = Inr h" "heap_room h"
      "if \<exists>t \<in># elems (queue q). timer_id t = i
       then \<exists>t. timer_id t = i \<and> elems (queue q) = add_mset t (elems h) else h = queue q" by blast
  with False show ?thesis by (intro exI [of _ "q\<lparr>queue := h\<rparr>"]) (auto simp: cancel_def split: if_splits)
qed (use assms in \<open>simp add: cancel_def\<close>)

lemma hsize_less:
  assumes "heap_room h" and "heap_room h'" and "elems h = add_mset t (elems h')"
  shows "hsize h = Suc (hsize h')"
  using arg_cong [OF assms(3), of size] assms(1,2) by (simp add: size_elems heap_roomD)

lemma TimerQueue_insert_room:
  assumes "timers_room (Suc n) q" and "handler t \<noteq> None"
  shows "\<exists>q'. TimerQueue_insert t q = Inr q' \<and> timers_room n q'"
  using TimerQueue_insert_total [of q t] assms by (auto simp: timers_room_iff split: if_splits)

lemma cancel_room:
  assumes "timers_room n q"
  shows "\<exists>q'. cancel i q = Inr q' \<and> timers_room n q'"
proof -
  from assms have room: "heap_room (queue q)" by (simp add: timers_room_iff)
  from cancel_total [OF this, of i] obtain q' where q': "cancel i q = Inr q'" "heap_room (queue q')"
    "if i \<noteq> 0 \<and> (\<exists>t \<in># elems (queue q). timer_id t = i)
     then \<exists>t. timer_id t = i \<and> elems (queue q) = add_mset t (elems (queue q')) else q' = q" by blast
  have "timers_room n q'"
  proof (cases "i \<noteq> 0 \<and> (\<exists>t \<in># elems (queue q). timer_id t = i)")
    case True
    with q'(3) obtain t where t: "elems (queue q) = add_mset t (elems (queue q'))" by auto
    from hsize_less [OF room q'(2) t] assms q'(2) t show ?thesis by (auto simp: timers_room_iff)
  next
    case False
    with q'(3) assms show ?thesis by (simp only: if_False)
  qed
  with q'(1) show ?thesis by blast
qed

lemma delete_min_room:
  assumes room: "heap_room h" and ne: "hsize h \<noteq> 0"
  shows "\<exists>h' m. delete_min lt T h = Inr h' \<and> find_min h = Inr m \<and> heap_room h' \<and>
    hsize h = Suc (hsize h') \<and> elems h = add_mset m (elems h')"
proof -
  from delete_min_total [OF room ne, of lt T] obtain h' where
    "delete_min lt T h = Inr (h'\<lparr>heap := (heap h')[hsize h := T]\<rparr>)" "hsize h' = hsize h - 1"
    "length (heap h') = length (heap h)" "find_min h = Inr (heap h ! 1)"
    "elems h = add_mset (heap h ! 1) (elems (h'\<lparr>heap := (heap h')[hsize h := T]\<rparr>))" by blast
  with heap_roomD [OF room] ne show ?thesis
    by (intro exI [of _ "h'\<lparr>heap := (heap h')[hsize h := T]\<rparr>"] exI [of _ "heap h ! 1"]) (auto simp: heap_room_iff)
qed

text \<open>A run is safe when it returns a state with the property, or when its loop does not end.\<close>

definition safe :: "('a \<Rightarrow> bool) \<Rightarrow> 'a res \<Rightarrow> bool" where
  "safe P r \<longleftrightarrow> (case r of Inl e \<Rightarrow> e = NoReturn | Inr x \<Rightarrow> P x)"

lemma safe_simps [simp]: "safe P (Inr x) \<longleftrightarrow> P x" "safe P (Inl e) \<longleftrightarrow> e = NoReturn"
  by (simp_all add: safe_def)

lemma safe_rbind: "safe P r \<Longrightarrow> (\<And>x. P x \<Longrightarrow> safe Q (f x)) \<Longrightarrow> safe Q (rbind r f)"
  by (cases r) auto

definition room :: "nat \<Rightarrow> 'h timer_queue \<times> 's \<Rightarrow> bool" where
  "room n st \<longleftrightarrow> timers_room n (fst st)"

lemma room_pair [simp]: "room n (q, s) \<longleftrightarrow> timers_room n q"
  by (simp add: room_def)

lemma room_tick [simp]: "room n (tick st) \<longleftrightarrow> room n st"
  by (simp add: room_def tick_def)

lemma room_mono: "room n st \<Longrightarrow> m \<le> n \<Longrightarrow> room m st"
  by (auto simp: room_def timers_room_iff)

lemma safe_mono: "safe P r \<Longrightarrow> (\<And>x. P x \<Longrightarrow> Q x) \<Longrightarrow> safe Q r"
  by (cases r) auto

text \<open>
  What the loop over the expired timers asks of the handlers: each starts at most \<open>b\<close> timers more than
  its own, whose place it may take again, and keeps the queue well-formed.
\<close>

locale timer_handlers =
  fixes run :: "'h \<Rightarrow> 'h timer_queue \<times> 's \<Rightarrow> ('h timer_queue \<times> 's) res"
    and b :: nat
  assumes run_room: "room (Suc (n + b)) st \<Longrightarrow> safe (room n) (run h st)"
begin

lemma timeout_loop_room: "room (n + k * b) st \<Longrightarrow> safe (room n) (timeout_loop k run now st)"
proof (induction k arbitrary: st)
  case (Suc k)
  obtain q s where st: "st = (q, s)" by (cases st)
  show ?case
  proof (cases "heap_empty (queue q)")
    case True
    with room_mono [OF Suc.prems, of n] st show ?thesis by simp
  next
    case False
    then have ne: "hsize (queue q) \<noteq> 0" and n: "heap_room (queue q)"
      using Suc.prems st by (auto simp: heap_empty_def timers_room_iff)
    from delete_min_room [OF n ne] obtain h m where
      d: "delete_min timer_less Timer_default (queue q) = Inr h" "find_min (queue q) = Inr m"
        "heap_room h" "hsize (queue q) = Suc (hsize h)" "elems (queue q) = add_mset m (elems h)" by blast
    then obtain u where u: "handler m = Some u" using Suc.prems st by (auto simp: timers_room_iff)
    have "room (Suc (n + k * b + b)) (q\<lparr>queue := h\<rparr>, s)" using d Suc.prems st by (auto simp: timers_room_iff)
    from safe_rbind [OF run_room [OF this, of u] Suc.IH] show ?thesis
      using False d u Suc.prems room_mono [OF Suc.prems, of n] by (simp add: st runHandler_def)
  qed
qed simp

lemma handleTimeoutEvents_room:
  assumes "room (n + k * b) st"
  shows "safe (room n) (handleTimeoutEvents k run now st)"
proof -
  have rest: "safe (room n) ((\<lambda>(q, s). if heap_empty (queue q) then Inr (q, s)
      else rbind (find_min (queue q)) (\<lambda>m. Inr (updateTimerfd (timeout m) q, s))) x)" if "room n x" for x
    using that by (cases x) (auto simp: find_min_def heap_empty_def timers_room_iff heap_room_iff)
  have "safe (room n) (rbind (timeout_loop k run now st) (\<lambda>(q, s). if heap_empty (queue q) then Inr (q, s)
      else rbind (find_min (queue q)) (\<lambda>m. Inr (updateTimerfd (timeout m) q, s))))"
    by (rule safe_rbind [OF timeout_loop_room [OF assms] rest])
  with room_mono [OF assms, of n] show ?thesis by (simp add: handleTimeoutEvents_def)
qed
end

lemma runAt_room:
  assumes "room (Suc n) st"
  shows "safe (\<lambda>x. room n (snd x)) (runAt t h st)"
  using assms TimerQueue_insert_room [of n "fst st" "fst (Timer_new (timerIds (snd st)) t (Plain h))"]
  by (auto simp: runAt_def split_beta room_def Timer_new_def)

lemma runEveryHelper_room:
  assumes "room (Suc n) st"
  shows "safe (room n) (runEveryHelper clk i t h st)"
  using assms TimerQueue_insert_room [of n "fst st" "\<lparr>timer_id = i, timeout = ts_plus t (clk (ticks (snd st))), handler = Some (Every i t h)\<rparr>"]
  by (auto simp: runEveryHelper_def Let_def room_def)

lemma cancelTimer_room:
  assumes "room (Suc n) st"
  shows "safe (room n) (cancelTimer i st)"
  using room_mono [OF assms, of n] cancel_room [of n "fst st" i] by (auto simp: cancelTimer_def room_def)

lemma safe_drop_id: "safe (\<lambda>x. room n (snd x)) r \<Longrightarrow> safe (room n) (rbind r (\<lambda>(i, st). Inr st))"
  by (erule safe_rbind) auto

lemma runEvery_room:
  assumes "room (Suc n) st"
  shows "safe (\<lambda>x. room n (snd x)) (runEvery clk t h st)"
proof -
  let ?st = "(fst st, (snd st)\<lparr>timerIds := timerIds (snd st) + 1\<rparr>)"
  have "room (Suc n) ?st" using assms by (simp add: room_def)
  then have "safe (\<lambda>x. room n (snd x)) (rbind (runEveryHelper clk i t h ?st) (\<lambda>st'. Inr (i, st')))" for i
    by (rule safe_rbind [OF runEveryHelper_room]) simp
  then show ?thesis by (simp add: runEvery_def getOneValidId_def)
qed

lemma run_timer_op_room: "room (Suc n) st \<Longrightarrow> safe (room n) (run_timer_op clk x st)"
  by (cases x) (auto simp: runAfter_def intro!: safe_drop_id runAt_room runEvery_room cancelTimer_room)

lemma timer_ops_room: "room (n + length xs) st \<Longrightarrow> safe (room n) (timer_ops clk xs st)"
proof (induction xs arbitrary: st)
  case (Cons x xs)
  have "room (Suc (n + length xs)) st" using Cons.prems by simp
  from safe_rbind [OF run_timer_op_room [OF this] Cons.IH] show ?case by simp
qed simp

lemma run_user_room: "room (n + length (prog u)) st \<Longrightarrow> safe (room n) (run_user clk prog u st)"
  unfolding run_user_def by (rule timer_ops_room) (simp add: room_def)

text \<open>No handler makes more than \<open>b\<close> calls: what a longer program does is cut off.\<close>

definition at_most :: "nat \<Rightarrow> ('u \<Rightarrow> 'u timer_op list) \<Rightarrow> 'u \<Rightarrow> 'u timer_op list" where
  "at_most b prog u = take b (prog u)"

interpretation ph: timer_handlers "run_phandler clk (at_most b prog)" b
proof
  fix n h and st :: "'a tstate"
  assume st: "room (Suc (n + b)) st"
  have le: "n + length (at_most b prog u) \<le> n + b" for u by (simp add: at_most_def)
  have user: "safe (room n) (run_user clk (at_most b prog) u st')" if "room (n + b) st'" for u st'
    using run_user_room [OF room_mono [OF that le]] .
  show "safe (room n) (run_phandler clk (at_most b prog) h st)"
  proof (cases h)
    case (Every i t u)
    from safe_rbind [OF runEveryHelper_room [OF st] user] show ?thesis by (simp add: Every)
  next
    case (Plain u)
    from user [OF room_mono [OF st]] show ?thesis by (simp add: Plain)
  qed
qed

text \<open>The calls a program makes and the events of its timerfd, in any order.\<close>

datatype 'u timer_event = Call "'u timer_op" | Timerfd

fun timer_run ::
    "nat \<Rightarrow> (nat \<Rightarrow> timestamp) \<Rightarrow> ('u \<Rightarrow> 'u timer_op list) \<Rightarrow> 'u timer_event list \<Rightarrow> 'u tstate \<Rightarrow> 'u tstate res" where
  "timer_run k clk prog [] st = Inr st"
| "timer_run k clk prog (Call x # es) st = rbind (run_timer_op clk x st) (timer_run k clk prog es)"
| "timer_run k clk prog (Timerfd # es) st = rbind (on_timerfd k clk prog st) (timer_run k clk prog es)"

lemma at_most_all: "(\<And>u. length (prog u) \<le> b) \<Longrightarrow> at_most b prog = prog"
  by (rule ext) (simp add: at_most_def)

lemma on_timerfd_room:
  assumes "\<And>u. length (prog u) \<le> b" and "room (n + k * b) st"
  shows "safe (room n) (on_timerfd k clk prog st)"
  using ph.handleTimeoutEvents_room [of n k b "tick st" clk prog] room_mono [OF assms(2), of n] assms(2)
  by (simp add: on_timerfd_def at_most_all [OF assms(1)])

lemma timer_run_room:
  assumes "\<And>u. length (prog u) \<le> b"
  shows "room (n + length es * Suc (k * b)) st \<Longrightarrow> safe (room n) (timer_run k clk prog es st)"
proof (induction es arbitrary: st)
  case (Cons e es)
  let ?n = "n + length es * Suc (k * b)"
  have st: "room (Suc ?n) st" "room (?n + k * b) st"
    using room_mono [OF Cons.prems, of "Suc ?n"] room_mono [OF Cons.prems, of "?n + k * b"] by simp_all
  show ?case
  proof (cases e)
    case (Call x)
    from safe_rbind [OF run_timer_op_room [OF st(1)] Cons.IH] show ?thesis by (simp add: Call)
  next
    case Timerfd
    from safe_rbind [OF on_timerfd_room [of prog, OF assms st(2)] Cons.IH] show ?thesis by (simp add: Timerfd)
  qed
qed simp

definition Timers_new :: "'u tstate" where
  "Timers_new = (TimerQueue_new, \<lparr>timerIds = 1, ticks = 0, handled = []\<rparr>)"

lemma Timers_new_room: "n < 2 ^ 31 \<Longrightarrow> room n Timers_new"
  by (simp add: Timers_new_def timers_room_iff heap_room_iff TimerQueue_new_def heap_capacity_def elems_def slice_def)

text \<open>
  Whatever timers a program and its handlers start and cancel through a poller, in whatever order
  the timerfd fires, the timer queue does not fault, as long as fewer than \<open>2 ^ 31\<close> timers can have been
  started (a handler makes at most \<open>b\<close> calls, a call starts at most one timer, \<open>k\<close> bounds the rounds of
  the loop over expired timers): each run ends in a well-formed queue whose timers all have handlers,
  or it stays in that loop.
\<close>

theorem poller_timers_safe:
  assumes "\<And>u. length (prog u) \<le> b" and "length es * Suc (k * b) < 2 ^ 31"
  shows "safe (\<lambda>st. timers_room 0 (fst st)) (timer_run k clk prog es Timers_new)"
  using timer_run_room [of prog b 0 es k Timers_new clk, OF assms(1)] Timers_new_room [OF assms(2)]
  by (simp add: room_def [abs_def])

theorem poller_timers_safe_witness:
  "safe (\<lambda>st. timers_room 0 (fst st))
     (timer_run 10 (\<lambda>n. Timestamp (int n) 0) (\<lambda>u. [RunAfter (Timestamp 1 0) u, CancelTimer 1])
       (Call (RunEvery (Timestamp 5 0) ''a'') # replicate 20 Timerfd) Timers_new)"
  by (rule poller_timers_safe [where b = 2]) simp_all

section \<open>Periodic timers\<close>

text \<open>A queue whose only timer has the given contents.\<close>

definition only_timer :: "'h timer \<Rightarrow> 'h timer_queue \<Rightarrow> bool" where
  "only_timer t q \<longleftrightarrow> hsize (queue q) = 1 \<and> 1 < length (heap (queue q)) \<and> heap (queue q) ! 1 = t"

lemma insert_only:
  assumes "hsize (queue q) = 0" and "heap (queue q) \<noteq> []" and "timer_id t \<noteq> 0"
  shows "\<exists>h. TimerQueue_insert t q = Inr ((updateTimerfd (timeout t) q)\<lparr>queue := h\<rparr>) \<and>
    only_timer t ((updateTimerfd (timeout t) q)\<lparr>queue := h\<rparr>)"
proof -
  have "1 < length (grow Timer_default (queue q))"
    using assms by (cases "heap (queue q)") (auto simp: grow_def)
  then have "heap_insert timer_less Timer_default t (queue q) =
      Inr \<lparr>heap = (grow Timer_default (queue q))[1 := t], hsize = 1\<rparr>"
    using assms by (simp add: heap_insert_def up_loop.simps [of _ _ _ "Suc 0"])
  then show ?thesis using assms \<open>1 < length (grow Timer_default (queue q))\<close>
    by (intro exI [of _ "\<lparr>heap = (grow Timer_default (queue q))[1 := t], hsize = 1\<rparr>"])
      (simp add: TimerQueue_insert_def heap_empty_def Let_def only_timer_def)
qed

lemma delete_only:
  assumes "only_timer t q"
  shows "find_min (queue q) = Inr t"
    and "\<exists>h. delete_min lt T (queue q) = Inr h \<and> hsize h = 0 \<and> length (heap h) = length (heap (queue q))"
  using assms by (auto simp: only_timer_def find_min_def delete_min_def heap_empty_def percolate_down_def
      down_loop.simps [of _ _ _ _ "Suc 0"])

text \<open>The times \<open>timerfd_settime\<close> accepts.\<close>

definition armable :: "timestamp \<Rightarrow> bool" where
  "armable t \<longleftrightarrow> normal_ts t \<and> 0 \<le> tv_sec t \<and> valid t"

lemma updateTimerfd_armable:
  assumes "tfd_open q" and "armable t"
  shows "updateTimerfd t q = q\<lparr>armed := Some t\<rparr>"
  using assms by (auto simp: updateTimerfd_def armable_def normal_ts_def valid_def)

definition periodic :: "u64 \<Rightarrow> timestamp \<Rightarrow> 'u \<Rightarrow> timestamp \<Rightarrow> 'u phandler timer" where
  "periodic i iv u t = \<lparr>timer_id = i, timeout = t, handler = Some (Every i iv u)\<rparr>"

lemma runEveryHelper_only:
  assumes "tfd_open q" and "hsize (queue q) = 0" and "heap (queue q) \<noteq> []" and "i \<noteq> 0"
    and "armable (ts_plus iv (clk (ticks w)))"
  shows "\<exists>q'. runEveryHelper clk i iv u (q, w) = Inr (q', w\<lparr>ticks := ticks w + 1\<rparr>) \<and> tfd_open q' \<and>
    only_timer (periodic i iv u (ts_plus iv (clk (ticks w)))) q' \<and> armed q' = Some (ts_plus iv (clk (ticks w)))"
  using insert_only [OF assms(2,3), of "periodic i iv u (ts_plus iv (clk (ticks w)))"] assms
  by (auto simp: runEveryHelper_def Let_def periodic_def tick_def updateTimerfd_armable)

lemma periodic_round:
  assumes "tfd_open q" and q: "only_timer (periodic i iv u t) q" and "i \<noteq> 0" and "prog u = []"
    and now: "\<not> ts_less (clk (ticks w)) t"
    and nxt: "ts_less (clk (ticks w)) (ts_plus iv (clk (Suc (ticks w))))"
    and arm: "armable (ts_plus iv (clk (Suc (ticks w))))"
  shows "\<exists>q'. on_timerfd (Suc (Suc k)) clk prog (q, w) = Inr (q', w\<lparr>ticks := ticks w + 2, handled := handled w @ [u]\<rparr>) \<and>
    tfd_open q' \<and> only_timer (periodic i iv u (ts_plus iv (clk (Suc (ticks w))))) q' \<and>
    armed q' = Some (ts_plus iv (clk (Suc (ticks w))))"
proof -
  let ?w = "w\<lparr>ticks := Suc (ticks w)\<rparr>" and ?t = "ts_plus iv (clk (Suc (ticks w)))"
  have ne: "\<not> heap_empty (queue q)" using q by (simp add: only_timer_def heap_empty_def)
  obtain h where h: "delete_min timer_less Timer_default (queue q) = Inr h" "hsize h = 0"
      "length (heap h) = length (heap (queue q))" using delete_only(2) [OF q] by blast
  then have "heap h \<noteq> []" using q by (auto simp: only_timer_def)
  then obtain q1 where q1: "runEveryHelper clk i iv u (q\<lparr>queue := h\<rparr>, ?w) = Inr (q1, ?w\<lparr>ticks := Suc (Suc (ticks w))\<rparr>)"
      "tfd_open q1" "only_timer (periodic i iv u ?t) q1" "armed q1 = Some ?t"
    using runEveryHelper_only [of "q\<lparr>queue := h\<rparr>" i iv clk ?w u] h assms by auto
  have ne1: "\<not> heap_empty (queue q1)" using q1(3) by (simp add: only_timer_def heap_empty_def)
  have "timeout_loop (Suc (Suc k)) (run_phandler clk prog) (clk (ticks w)) (q, ?w) =
      Inr (q1, w\<lparr>ticks := Suc (Suc (ticks w)), handled := handled w @ [u]\<rparr>)"
    using ne ne1 delete_only(1) [OF q] delete_only(1) [OF q1(3)] h(1) q1(1) now nxt \<open>prog u = []\<close>
    by (simp add: periodic_def runHandler_def run_user_def)
  moreover have "updateTimerfd ?t q1 = q1" using updateTimerfd_armable [OF q1(2) arm] q1(4) by simp
  ultimately show ?thesis
    using ne ne1 q1 delete_only(1) [OF q1(3)]
    by (simp add: on_timerfd_def tick_def handleTimeoutEvents_def periodic_def)
qed

text \<open>
  The readings of the clock while a periodic timer runs: they do not go back, each wake-up comes at
  the armed time or later, and no sum has exactly a second of microseconds.
\<close>

definition clock_ok :: "(nat \<Rightarrow> timestamp) \<Rightarrow> timestamp \<Rightarrow> nat \<Rightarrow> bool" where
  "clock_ok clk iv m \<longleftrightarrow> list_all (\<lambda>n. normal_ts (clk n) \<and> 0 \<le> tv_sec (clk n) \<and>
     tv_usec iv + tv_usec (clk n) \<noteq> kMicrosecondsPerSecond \<and>
     (n < 2 * m \<longrightarrow> micros (clk n) \<le> micros (clk (Suc n))) \<and>
     (n < 2 * m \<and> even n \<longrightarrow> micros iv + micros (clk n) \<le> micros (clk (Suc n)))) [0..<2 * m + 1]"

lemma clock_okD:
  assumes "clock_ok clk iv m" and "n \<le> 2 * m"
  shows "normal_ts (clk n)" "0 \<le> tv_sec (clk n)" "tv_usec iv + tv_usec (clk n) \<noteq> kMicrosecondsPerSecond"
    "n < 2 * m \<Longrightarrow> micros (clk n) \<le> micros (clk (Suc n))"
    "n < 2 * m \<Longrightarrow> even n \<Longrightarrow> micros iv + micros (clk n) \<le> micros (clk (Suc n))"
  using assms by (auto simp: clock_ok_def list_all_iff simp del: upt_Suc)

lemma armable_plus:
  assumes "clock_ok clk iv m" and "n \<le> 2 * m" and "normal_ts iv" and "0 < micros iv"
  shows "armable (ts_plus iv (clk n))"
proof -
  note c = clock_okD [OF assms(1,2)]
  have nrm: "normal_ts (ts_plus iv (clk n))" using normal_plus [OF assms(3) c(1)] c(3) by simp
  have "0 \<le> micros (clk n)" using c(1,2) by (simp add: micros_def normal_ts_def)
  then have "0 < micros (ts_plus iv (clk n))" using assms(4) by (simp add: micros_plus)
  with nrm show ?thesis by (auto simp: armable_def valid_def invalid_def micros_def normal_ts_def)
qed

lemma timer_run_append: "timer_run k clk prog (es @ es') st = rbind (timer_run k clk prog es st) (timer_run k clk prog es')"
proof (induction es arbitrary: st)
  case (Cons e es)
  show ?case
  proof (cases e)
    case (Call x)
    then show ?thesis using Cons by (cases "run_timer_op clk x st") simp_all
  next
    case Timerfd
    then show ?thesis using Cons by (cases "on_timerfd k clk prog st") simp_all
  qed
qed simp

lemma periodic_start:
  assumes "armable (ts_plus iv (clk 0))"
  shows "\<exists>q w. timer_run k clk prog [Call (RunEvery iv u)] Timers_new = Inr (q, w) \<and> handled w = [] \<and> ticks w = 1 \<and>
    tfd_open q \<and> only_timer (periodic 1 iv u (ts_plus iv (clk 0))) q \<and> armed q = Some (ts_plus iv (clk 0))"
  using runEveryHelper_only [of TimerQueue_new 1 iv clk "\<lparr>timerIds = 2, ticks = 0, handled = []\<rparr>" u] assms
  by (auto simp: runEvery_def getOneValidId_def Timers_new_def TimerQueue_new_def heap_capacity_def)

lemma periodic_rounds:
  assumes ok: "clock_ok clk iv m" and iv: "normal_ts iv" "0 < micros iv" and prog: "prog u = []" and "j \<le> m"
  shows "\<exists>q w. timer_run (Suc (Suc k)) clk prog (Call (RunEvery iv u) # replicate j Timerfd) Timers_new = Inr (q, w) \<and>
    handled w = replicate j u \<and> ticks w = 2 * j + 1 \<and> tfd_open q \<and>
    only_timer (periodic 1 iv u (ts_plus iv (clk (2 * j)))) q \<and> armed q = Some (ts_plus iv (clk (2 * j)))"
  using \<open>j \<le> m\<close>
proof (induction j)
  case 0
  from armable_plus [OF ok _ iv, of 0] show ?case using periodic_start [of iv clk "Suc (Suc k)" prog u] by simp
next
  case (Suc j)
  then obtain q w where qw:
    "timer_run (Suc (Suc k)) clk prog (Call (RunEvery iv u) # replicate j Timerfd) Timers_new = Inr (q, w)"
    "handled w = replicate j u" "ticks w = 2 * j + 1" "tfd_open q"
    "only_timer (periodic 1 iv u (ts_plus iv (clk (2 * j)))) q" by auto
  have n: "2 * j < 2 * m" "2 * j + 1 < 2 * m" "2 * j + 2 \<le> 2 * m" using Suc.prems by auto
  note c0 = clock_okD [OF ok, of "2 * j"] and c1 = clock_okD [OF ok, of "2 * j + 1"] and c2 = clock_okD [OF ok, of "2 * j + 2"]
  have arm: "armable (ts_plus iv (clk (2 * j)))" "armable (ts_plus iv (clk (2 * j + 2)))"
    using armable_plus [OF ok _ iv] n by simp_all
  have now: "\<not> ts_less (clk (2 * j + 1)) (ts_plus iv (clk (2 * j)))"
    using arm c0 c1 n by (subst micros_less) (auto simp: armable_def micros_plus)
  have nxt: "ts_less (clk (2 * j + 1)) (ts_plus iv (clk (2 * j + 2)))"
    using arm c1 c2 n iv by (subst micros_less) (auto simp: armable_def micros_plus)
  from periodic_round [of q 1 iv u "ts_plus iv (clk (2 * j))" prog clk w k] prog qw(3-5) now nxt arm(2) obtain q' where
    "on_timerfd (Suc (Suc k)) clk prog (q, w) = Inr (q', w\<lparr>ticks := ticks w + 2, handled := handled w @ [u]\<rparr>)" "tfd_open q'"
    "only_timer (periodic 1 iv u (ts_plus iv (clk (2 * j + 2)))) q'" "armed q' = Some (ts_plus iv (clk (2 * j + 2)))"
    by (auto simp: numeral_2_eq_2)
  moreover have "Call (RunEvery iv u) # replicate (Suc j) Timerfd = (Call (RunEvery iv u) # replicate j Timerfd) @ [Timerfd]"
    by (simp add: replicate_append_same)
  then have "timer_run (Suc (Suc k)) clk prog (Call (RunEvery iv u) # replicate (Suc j) Timerfd) Timers_new =
      on_timerfd (Suc (Suc k)) clk prog (q, w)"
    unfolding \<open>Call (RunEvery iv u) # replicate (Suc j) Timerfd = _\<close> timer_run_append qw(1)
    by (cases "on_timerfd (Suc (Suc k)) clk prog (q, w)") simp_all
  ultimately show ?case using qw(2,3) by (simp add: replicate_append_same)
qed

text \<open>
  C23. The only timer of a fresh poller, started by \<open>runEvery\<close> with a positive interval and a handler
  that starts and cancels no timers, keeps running: each of the \<open>m\<close> wake-ups runs the handler exactly
  once and arms the timerfd an interval after the wake-up. The clock must not go back, no wake-up may
  come before the armed time, and no sum of the interval and the time may have exactly a second of
  microseconds. Two rounds of the loop over expired timers are enough.
\<close>

theorem periodic_timer_runs:
  assumes "clock_ok clk iv m" and "normal_ts iv" and "0 < micros iv" and "prog u = []" and "2 \<le> k"
  shows "\<exists>q w. timer_run k clk prog (Call (RunEvery iv u) # replicate m Timerfd) Timers_new = Inr (q, w) \<and>
    handled w = replicate m u \<and> armed q = Some (ts_plus iv (clk (2 * m)))"
proof -
  from \<open>2 \<le> k\<close> obtain j where "k = Suc (Suc j)" by (metis add_2_eq_Suc le_Suc_ex)
  with periodic_rounds [of clk iv m prog u m j] assms show ?thesis by auto
qed

theorem periodic_timer_runs_witness:
  "\<exists>q w. timer_run 2 (\<lambda>n. Timestamp (10 * int n) 0) (\<lambda>u. []) (Call (RunEvery (Timestamp 5 0) ''tick'') # replicate 3 Timerfd)
      Timers_new = Inr (q, w) \<and> handled w = replicate 3 ''tick'' \<and> armed q = Some (Timestamp 65 0)"
proof -
  have "clock_ok (\<lambda>n. Timestamp (10 * int n) 0) (Timestamp 5 0) 3" by code_simp
  from periodic_timer_runs [OF this, of "\<lambda>u. []" "''tick''" 2] show ?thesis
    by (simp add: normal_ts_def Timestamp_def micros_def ts_plus_def)
qed

text \<open>
  The proviso matters: a timer of half a second started at half past a second asks \<open>timerfd_settime\<close>
  for 1000000 microseconds. The call fails, the timerfd is never armed, and the timer never runs.
\<close>

lemma half_second_never_armed:
  "\<exists>i q w. runEvery (\<lambda>n. Timestamp 100 500000) (Timestamp 0 500000) ''tick'' Timers_new = Inr (i, q, w) \<and>
     hsize (queue q) = 1 \<and> armed q = None"
proof -
  have "rbind (runEvery (\<lambda>n. Timestamp 100 500000) (Timestamp 0 500000) ''tick'' Timers_new)
      (\<lambda>(i, q, w). guard (hsize (queue q) = 1 \<and> armed q = None) AssertFail) = Inr ()" by code_simp
  then show ?thesis by (auto simp: rbind_eq_Inr)
qed

section \<open>Cancelling\<close>

definition ids_distinct :: "'h timer_queue \<Rightarrow> bool" where
  "ids_distinct q \<longleftrightarrow> distinct (map timer_id (slice (hsize (queue q)) (heap (queue q))))"

lemma distinct_count_le: "distinct xs \<longleftrightarrow> (\<forall>a. count (mset xs) a \<le> 1)"
proof (induction xs)
  case (Cons x xs)
  show ?case
  proof
    assume "distinct (x # xs)"
    with Cons.IH show "\<forall>a. count (mset (x # xs)) a \<le> 1" by (auto simp: count_mset_0_iff)
  next
    assume *: "\<forall>a. count (mset (x # xs)) a \<le> 1"
    have "count (mset xs) a \<le> count (mset (x # xs)) a" for a by simp
    then have "count (mset xs) a \<le> 1" for a using * order_trans by blast
    moreover have "x \<notin> set xs" using * [rule_format, of x] by (simp add: count_mset_0_iff)
    ultimately show "distinct (x # xs)" using Cons.IH by simp
  qed
qed simp

lemma ids_distinct_iff: "ids_distinct q \<longleftrightarrow> (\<forall>i. count (image_mset timer_id (elems (queue q))) i \<le> 1)"
  unfolding ids_distinct_def distinct_count_le by (simp add: elems_def)

lemma cancel_filter:
  assumes "ids_distinct q" and "heap_room (queue q)" and "i \<noteq> 0"
  shows "\<exists>q'. cancel i q = Inr q' \<and> heap_room (queue q') \<and> ids_distinct q' \<and>
    elems (queue q') = {#t \<in># elems (queue q). timer_id t \<noteq> i#}"
proof -
  from cancel_total [OF assms(2), of i] \<open>i \<noteq> 0\<close> obtain q' where
    q': "cancel i q = Inr q'" "heap_room (queue q')"
      "if \<exists>t \<in># elems (queue q). timer_id t = i
       then \<exists>t. timer_id t = i \<and> elems (queue q) = add_mset t (elems (queue q')) else q' = q" by auto
  have keep: "{#t \<in># M. timer_id t \<noteq> i#} = M" if "\<forall>t \<in># M. timer_id t \<noteq> i" for M :: "'a timer multiset"
    using that by (simp add: filter_mset_eq_conv)
  show ?thesis
  proof (cases "\<exists>t \<in># elems (queue q). timer_id t = i")
    case False
    with q' have "q' = q" by simp
    moreover have "{#t \<in># elems (queue q). timer_id t \<noteq> i#} = elems (queue q)" using False by (intro keep) blast
    ultimately show ?thesis using q'(1) assms by auto
  next
    case True
    with q' obtain t where t: "timer_id t = i" "elems (queue q) = add_mset t (elems (queue q'))" by auto
    have cnt: "count (image_mset timer_id (add_mset t (elems (queue q')))) j \<le> 1" for j
      using assms(1) unfolding ids_distinct_iff t(2) by blast
    have "count (image_mset timer_id (elems (queue q'))) i = 0" using cnt [of i] t(1) by simp
    then have "i \<notin># image_mset timer_id (elems (queue q'))" by (simp only: not_in_iff)
    then have "\<forall>t \<in># elems (queue q'). timer_id t \<noteq> i" by auto
    from keep [OF this] have "elems (queue q') = {#t \<in># elems (queue q). timer_id t \<noteq> i#}" using t by simp
    moreover have "ids_distinct q'" unfolding ids_distinct_iff
    proof
      fix j
      show "count (image_mset timer_id (elems (queue q'))) j \<le> 1" using cnt [of j] by (simp split: if_splits)
    qed
    ultimately show ?thesis using q' by blast
  qed
qed

lemma cancel_each_filter:
  assumes "ids_distinct q" and "heap_room (queue q)" and "0 \<notin> set is"
  shows "\<exists>q'. cancel_each is (q, w) = Inr (q', w) \<and>
    elems (queue q') = {#t \<in># elems (queue q). timer_id t \<notin> set is#}"
  using assms
proof (induction "is" arbitrary: q)
  case (Cons i "is")
  from cancel_filter [OF Cons.prems(1,2), of i] Cons.prems(3) obtain q1 where
    q1: "cancel i q = Inr q1" "heap_room (queue q1)" "ids_distinct q1"
      "elems (queue q1) = {#t \<in># elems (queue q). timer_id t \<noteq> i#}" by auto
  from Cons.IH [OF q1(3,2)] Cons.prems(3) obtain q' where
    "cancel_each is (q1, w) = Inr (q', w)" "elems (queue q') = {#t \<in># elems (queue q1). timer_id t \<notin> set is#}" by auto
  with q1 show ?case by (auto simp: cancelTimer_def filter_filter_mset)
qed simp

text \<open>
  Destroying a \<open>TimerSet\<close> (or cancelling all its timers) removes exactly its own timers from the
  queue of the poller: those of the other users stay, whatever the order in which the set is walked.
  Without a poller the assertion of \<open>cancelAllTimer\<close> fails.
\<close>

theorem timer_set_cancels:
  assumes "ids_distinct q" and "heap_room (queue q)" and "0 \<notin> set (ts_ids s)"
  shows "if ts_poller s
    then \<exists>q'. TimerSet_cancelAllTimer s (q, w) = Inr (s\<lparr>ts_ids := []\<rparr>, q', w) \<and>
      elems (queue q') = {#t \<in># elems (queue q). timer_id t \<notin> set (ts_ids s)#}
    else TimerSet_cancelAllTimer s (q, w) = Inl AssertFail"
  using cancel_each_filter [OF assms, of w] by (auto simp: TimerSet_cancelAllTimer_def)

definition set_of_one :: timer_set where
  "set_of_one = \<lparr>ts_poller = True, ts_ids = [2]\<rparr>"

definition two_users :: "nat tstate" where
  "two_users = (\<lparr>tfd_open = True, armed = None,
     queue = \<lparr>heap = [Timer_default, \<lparr>timer_id = 1, timeout = Timestamp 10 0, handler = Some (Plain 1)\<rparr>,
       \<lparr>timer_id = 2, timeout = Timestamp 20 0, handler = Some (Plain 2)\<rparr>, Timer_default], hsize = 2\<rparr>\<rparr>,
     \<lparr>timerIds = 3, ticks = 0, handled = []\<rparr>)"

theorem timer_set_cancels_witness:
  "\<exists>q'. TimerSet_cancelAllTimer set_of_one two_users = Inr (set_of_one\<lparr>ts_ids := []\<rparr>, q', snd two_users) \<and>
     elems (queue q') = {#t \<in># elems (queue (fst two_users)). timer_id t \<notin> set (ts_ids set_of_one)#}"
proof -
  have "ids_distinct (fst two_users)" by (simp add: ids_distinct_def two_users_def slice_def)
  moreover have "heap_room (queue (fst two_users))" by (simp add: two_users_def heap_room_def)
  ultimately show ?thesis
    using timer_set_cancels [of "fst two_users" set_of_one "snd two_users"] by (simp add: set_of_one_def)
qed

end
