(* ===== verification/Tcp_Server.thy ===== *)
theory Tcp_Server
  imports Event_Queue Poller_Timers
begin

text \<open>
  Model of the event loop (\<open>liby_cpp/EventLoop.cpp\<close>), of TCP servers (\<open>liby_cpp/TcpServer.cpp\<close>) and of
  TCP clients (\<open>liby_cpp/TcpClient.cpp\<close>) over the event queues of the pollers. The results of \<open>accept\<close>
  and of \<open>connect\<close> are arguments. Shown: every accepted descriptor reaches exactly one poller that
  exists, in order, and that poller is woken.
\<close>

section \<open>The event loop\<close>

text \<open>
  \<open>EventLoop\<close>: one poller for the main thread and one for each of the \<open>N\<close> worker threads. Of a poller
  only the event queue matters here. \<open>operator[]\<close> of a vector is not checked: an index outside it is
  a fault.
\<close>

datatype poller_chooser = EPOLL | POLL | SELECT | KQUEUE

datatype poller_class = PollerEpoll | PollerPoll | PollerSelect

definition newPoller :: "poller_chooser \<Rightarrow> poller_class" where
  "newPoller chooser = (case chooser of POLL \<Rightarrow> PollerPoll | SELECT \<Rightarrow> PollerSelect | _ \<Rightarrow> PollerEpoll)"

text \<open>\<open>operator[]\<close> of the map gives the first enumerator for a name it does not hold.\<close>

definition ChooserStrings :: "string \<Rightarrow> poller_chooser" where
  "ChooserStrings s =
     (if s = ''EPOLL'' then EPOLL else if s = ''POLL'' then POLL else if s = ''SELECT'' then SELECT
      else if s = ''KQUEUE'' then KQUEUE else EPOLL)"

record 'h event_loop =
  workers :: int
  chooser :: poller_chooser
  pollers :: "(poller_class \<times> 'h event_queue) list"

definition EventLoop_new :: "int \<Rightarrow> poller_chooser \<Rightarrow> 'h event_loop" where
  "EventLoop_new n c = \<lparr>workers = n, chooser = c, pollers = replicate (Suc (nat n)) (newPoller c, EventQueue_new)\<rparr>"

definition getSuitablePoller :: "'h event_loop \<Rightarrow> int \<Rightarrow> nat" where
  "getSuitablePoller l fd = (if workers l = 0 then 0 else nat (fd smod workers l + 1))"

definition getSuitablePoller2 :: "'h event_loop \<Rightarrow> int \<Rightarrow> nat" where
  "getSuitablePoller2 l fd = nat (fd smod (workers l + 1))"

definition getFirstPoller :: "'h event_loop \<Rightarrow> nat res" where
  "getFirstPoller l = rbind (guard (0 < length (pollers l)) AssertFail) (\<lambda>_. Inr 0)"

text \<open>A worker thread: it starts the queue of its poller and loops while the functor says so.\<close>

definition worker_thread ::
    "int \<Rightarrow> bool list \<Rightarrow> 'h event_loop \<Rightarrow> ('h event_loop \<times> nat) res" where
  "worker_thread index insist l =
     rbind (guard (0 \<le> index \<and> nat index < length (pollers l)) AssertFail) (\<lambda>_.
     rbind (aread (pollers l) (nat index)) (\<lambda>(c, q).
     Inr (l\<lparr>pollers := (pollers l)[nat index := (c, EventQueue_start q)]\<rparr>, length (takeWhile id insist))))"

definition run_in_poller :: "nat \<Rightarrow> 'h \<Rightarrow> 'h event_loop \<Rightarrow> 'h event_loop res" where
  "run_in_poller p h l =
     rbind (aread (pollers l) p) (\<lambda>(c, q).
     rbind (runEventHandler h q) (\<lambda>q'.
     Inr (l\<lparr>pollers := (pollers l)[p := (c, q')]\<rparr>)))"

section \<open>TCP servers\<close>

text \<open>
  \<open>TcpServer\<close>: its listening channel and the callbacks of the user (\<open>None\<close> is an empty functor). The
  closure of \<open>handleAcceptFd\<close> holds the new connection: its descriptor, the poller it lives in and the
  callbacks \<open>initConnection\<close> gave it; its error callback is always \<open>handleErroEventOfConn\<close> of the server.
\<close>

record 'c tcp_server =
  listenfd :: int
  srv_chan :: bool
  acceptorCallback :: "'c option"
  readEventCallback :: "'c option"
  writAllCallback :: "'c option"
  erroEventCallback :: "'c option"

datatype 'c erro_handler = OfServer | OfUser "'c option"

record 'c new_conn =
  nc_fd :: int
  nc_poller :: nat
  nc_udata :: nat
  nc_read :: "'c option"
  nc_writ :: "'c option"
  nc_erro :: "'c erro_handler"

definition TcpServer_start :: "'c tcp_server \<Rightarrow> 'c tcp_server" where
  "TcpServer_start s = s\<lparr>srv_chan := True\<rparr>"

definition initConnection :: "'c tcp_server \<Rightarrow> nat \<Rightarrow> int \<Rightarrow> 'c new_conn" where
  "initConnection s p fd = \<lparr>nc_fd = fd, nc_poller = p, nc_udata = 0, nc_read = readEventCallback s,
     nc_writ = writAllCallback s, nc_erro = OfServer\<rparr>"

definition handleAcceptFd :: "'c tcp_server \<Rightarrow> int \<Rightarrow> 'c new_conn event_loop \<Rightarrow> 'c new_conn event_loop res" where
  "handleAcceptFd s fd l =
     rbind (guard (0 \<le> fd) AssertFail) (\<lambda>_.
     let p = getSuitablePoller l fd in run_in_poller p (initConnection s p fd) l)"

definition TcpServer_handleErroEvent :: "'c tcp_server \<Rightarrow> 'c tcp_server" where
  "TcpServer_handleErroEvent s = s\<lparr>srv_chan := False, acceptorCallback := None, readEventCallback := None,
     writAllCallback := None, erroEventCallback := None\<rparr>"

text \<open>What the calls of \<open>accept\<close> return; after the last one the next would block.\<close>

datatype accept_result = Accepted int | AcceptAgain | AcceptIntr | AcceptError

fun tcp_accept_loop ::
    "accept_result list \<Rightarrow> 'c tcp_server \<Rightarrow> 'c new_conn event_loop \<Rightarrow> ('c tcp_server \<times> 'c new_conn event_loop) res" where
  "tcp_accept_loop [] s l = Inr (s, l)"
| "tcp_accept_loop (AcceptAgain # rs) s l = Inr (s, l)"
| "tcp_accept_loop (AcceptIntr # rs) s l = tcp_accept_loop rs s l"
| "tcp_accept_loop (AcceptError # rs) s l = Inr (TcpServer_handleErroEvent s, l)"
| "tcp_accept_loop (Accepted fd # rs) s l = rbind (handleAcceptFd s fd l) (tcp_accept_loop rs s)"

definition handleAcceptEvent ::
    "accept_result list \<Rightarrow> 'c tcp_server \<Rightarrow> 'c new_conn event_loop \<Rightarrow> ('c tcp_server \<times> 'c new_conn event_loop) res" where
  "handleAcceptEvent rs s l = rbind (guard (0 \<le> listenfd s) AssertFail) (\<lambda>_. tcp_accept_loop rs s l)"

text \<open>
  The closure when the poller runs it, with the server as it is then: the connection registers its
  channel, and the user's callback learns of it if there still is one.
\<close>

datatype 'c server_event = Registered "'c new_conn" | AcceptorCalled 'c int | ErroCalled 'c int | ConnDestroyed int

definition run_accepted :: "'c tcp_server \<Rightarrow> 'c new_conn \<Rightarrow> 'c server_event list" where
  "run_accepted s c = Registered c # (case acceptorCallback s of None \<Rightarrow> [] | Some f \<Rightarrow> [AcceptorCalled f (nc_fd c)])"

definition handleErroEventOfConn :: "'c tcp_server \<Rightarrow> int \<Rightarrow> 'c server_event list" where
  "handleErroEventOfConn s fd =
     (case erroEventCallback s of None \<Rightarrow> [] | Some f \<Rightarrow> [ErroCalled f fd]) @ [ConnDestroyed fd]"

section \<open>TCP clients\<close>

text \<open>
  \<open>TcpClient\<close>: the channel that waits for the connection to be made, the callbacks, and the timers.
  \<open>creatTcpClient\<close> asks for the poller of \<open>clientfd()\<close> before \<open>setSocket\<close> has set the descriptor, so
  it is the value-initialised 0. A failure to connect is caught, and the client is a null pointer.
\<close>

record 'c tcp_client =
  clientfd :: int
  cl_poller :: nat
  cl_chan :: bool
  cl_udata :: nat
  connector :: "'c option"
  cl_read :: "'c option"
  cl_writ :: "'c option"
  cl_erro :: "'c option"
  cl_timers :: timer_set

definition creatTcpClient :: "'h event_loop \<Rightarrow> int option \<Rightarrow> 'c tcp_client option" where
  "creatTcpClient l connected =
     map_option (\<lambda>fd. \<lparr>clientfd = fd, cl_poller = getSuitablePoller2 l 0, cl_chan = False, cl_udata = 0, connector = None,
       cl_read = None, cl_writ = None, cl_erro = None, cl_timers = \<lparr>ts_poller = True, ts_ids = []\<rparr>\<rparr>) connected"

text \<open>The other version is told the poller.\<close>

definition creatTcpClient_on :: "nat \<Rightarrow> int option \<Rightarrow> 'c tcp_client option" where
  "creatTcpClient_on p connected =
     map_option (\<lambda>fd. \<lparr>clientfd = fd, cl_poller = p, cl_chan = False, cl_udata = 0, connector = None,
       cl_read = None, cl_writ = None, cl_erro = None, cl_timers = \<lparr>ts_poller = True, ts_ids = []\<rparr>\<rparr>) connected"

definition TcpClient_start :: "'c tcp_client \<Rightarrow> 'c tcp_client" where
  "TcpClient_start c = c\<lparr>cl_chan := True\<rparr>"

definition client_conn :: "'c tcp_client \<Rightarrow> 'c new_conn" where
  "client_conn c = \<lparr>nc_fd = clientfd c, nc_poller = cl_poller c, nc_udata = cl_udata c, nc_read = cl_read c,
     nc_writ = cl_writ c, nc_erro = OfUser (cl_erro c)\<rparr>"

definition client_onWrit ::
    "'c tcp_client \<Rightarrow> 'c new_conn event_loop \<Rightarrow> ('c tcp_client \<times> 'c new_conn event_loop) res" where
  "client_onWrit c l =
     rbind (run_in_poller (cl_poller c) (client_conn c) l) (\<lambda>l'.
     Inr (c\<lparr>cl_writ := None, cl_read := None, cl_erro := None, cl_chan := False\<rparr>, l'))"

definition run_connected :: "'c tcp_client \<Rightarrow> 'c new_conn \<Rightarrow> 'c server_event list" where
  "run_connected c n = Registered n # (case connector c of None \<Rightarrow> [] | Some f \<Rightarrow> [AcceptorCalled f (nc_fd n)])"

definition TcpClient_destroy :: "'c tcp_client \<Rightarrow> 'u tstate \<Rightarrow> ('c tcp_client \<times> 'u tstate) res" where
  "TcpClient_destroy c st =
     rbind (TimerSet_cancelAllTimer (cl_timers c) st) (\<lambda>(ts, st').
     Inr (c\<lparr>cl_chan := False, connector := None, cl_read := None, cl_writ := None, cl_erro := None, cl_timers := ts\<rparr>, st'))"

text \<open>The error callback is told of a null connection.\<close>

definition client_onErro ::
    "'c tcp_client \<Rightarrow> 'u tstate \<Rightarrow> ('c server_event list \<times> 'c tcp_client \<times> 'u tstate) res" where
  "client_onErro c st =
     rbind (TcpClient_destroy c st) (\<lambda>(c', st').
     Inr (case cl_erro c of None \<Rightarrow> [] | Some f \<Rightarrow> [ErroCalled f (-1)], c', st'))"

section \<open>Accepted connections reach their pollers\<close>

text \<open>The descriptors the loop hands on, and whether it ends in an error.\<close>

fun accepted_fds :: "accept_result list \<Rightarrow> int list" where
  "accepted_fds (Accepted fd # rs) = fd # accepted_fds rs"
| "accepted_fds (AcceptIntr # rs) = accepted_fds rs"
| "accepted_fds rs = []"

fun accept_fails :: "accept_result list \<Rightarrow> bool" where
  "accept_fails (Accepted fd # rs) = accept_fails rs"
| "accept_fails (AcceptIntr # rs) = accept_fails rs"
| "accept_fails (AcceptError # rs) = True"
| "accept_fails rs = False"

text \<open>A loop as its constructor leaves it, whatever handlers wait in it.\<close>

definition loop_ok :: "'h event_loop \<Rightarrow> bool" where
  "loop_ok l \<longleftrightarrow> 0 \<le> workers l \<and> length (pollers l) = Suc (nat (workers l)) \<and>
     list_all (\<lambda>p. eventfp (snd p) \<and> eventHandlers (snd p) \<noteq> None) (pollers l)"

definition poller_queue :: "'h event_loop \<Rightarrow> nat \<Rightarrow> 'h list" where
  "poller_queue l p = waiting (snd (pollers l ! p))"

lemma EventLoop_new_ok: "0 \<le> n \<Longrightarrow> loop_ok (EventLoop_new n c)"
  by (simp add: loop_ok_def EventLoop_new_def list_all_iff EventQueue_new_def)

lemma getSuitablePoller_range:
  assumes "loop_ok l" and "0 \<le> fd"
  shows "getSuitablePoller l fd < length (pollers l)"
    and "getSuitablePoller l fd = (if workers l = 0 then 0 else nat (fd mod workers l) + 1)"
proof -
  have e: "fd smod workers l = fd mod workers l" if "0 < workers l"
    using assms(2) that by (simp add: signed_modulo_int_def signed_divide_int_def sgn_if minus_div_mult_eq_mod)
  have n: "0 \<le> workers l" using assms(1) by (simp add: loop_ok_def)
  show *: "getSuitablePoller l fd = (if workers l = 0 then 0 else nat (fd mod workers l) + 1)"
    using e n assms(2) by (auto simp: getSuitablePoller_def nat_add_distrib)
  show "getSuitablePoller l fd < length (pollers l)"
    unfolding * using assms(1) n by (auto simp: loop_ok_def)
qed

lemma runEventHandler_ok:
  assumes "eventfp q" and "eventHandlers q \<noteq> None"
  shows "\<exists>q'. runEventHandler h q = Inr q' \<and> eventfp q' \<and> eventHandlers q' \<noteq> None \<and>
    waiting q' = waiting q @ [h] \<and> counter q' \<noteq> 0"
proof -
  from assms obtain b where b: "eventHandlers q = Some b" by auto
  let ?q = "q\<lparr>eventHandlers := Some (push_back h b)\<rparr>"
  have "counter (EventQueue_wakeup ?q) \<noteq> 0" using wakeup_counter [of ?q] assms(1) by simp
  moreover have "eventHandlers (EventQueue_wakeup ?q) = Some (push_back h b)" "eventfp (EventQueue_wakeup ?q)"
    using assms(1) by (simp_all add: EventQueue_wakeup_def)
  ultimately show ?thesis using b
    by (simp add: runEventHandler_def pushHandler_def waiting_def push_back_def)
qed

lemma run_in_poller_ok:
  assumes ok: "loop_ok l" and p: "p < length (pollers l)"
  shows "\<exists>l'. run_in_poller p h l = Inr l' \<and> loop_ok l' \<and> workers l' = workers l \<and> counter (snd (pollers l' ! p)) \<noteq> 0 \<and>
    (\<forall>i. poller_queue l' i = (if i = p then poller_queue l i @ [h] else poller_queue l i)) \<and>
    (\<forall>i. i \<noteq> p \<longrightarrow> pollers l' ! i = pollers l ! i)"
proof -
  obtain c q where cq: "pollers l ! p = (c, q)" by (cases "pollers l ! p")
  have all: "list_all (\<lambda>p. eventfp (snd p) \<and> eventHandlers (snd p) \<noteq> None) (pollers l)"
    using ok by (simp add: loop_ok_def)
  with p cq have "eventfp q" "eventHandlers q \<noteq> None" by (auto simp: list_all_length)
  from runEventHandler_ok [OF this, of h] obtain q' where
    q': "runEventHandler h q = Inr q'" "eventfp q'" "eventHandlers q' \<noteq> None" "waiting q' = waiting q @ [h]" "counter q' \<noteq> 0" by blast
  let ?l = "l\<lparr>pollers := (pollers l)[p := (c, q')]\<rparr>"
  have "run_in_poller p h l = Inr ?l" using p cq q'(1) by (simp add: run_in_poller_def)
  moreover have "loop_ok ?l"
    using ok all q'(2,3) set_update_subset_insert [of "pollers l" p "(c, q')"] by (fastforce simp: loop_ok_def list_all_iff)
  moreover have "poller_queue ?l i = (if i = p then poller_queue l i @ [h] else poller_queue l i)" for i
    using p cq q'(4) by (simp add: poller_queue_def)
  ultimately show ?thesis using p q'(5) by auto
qed

definition fds_ok :: "accept_result list \<Rightarrow> bool" where
  "fds_ok rs \<longleftrightarrow> list_all (\<lambda>r. case r of Accepted fd \<Rightarrow> 0 \<le> fd | _ \<Rightarrow> True) rs"

lemma getSuitablePoller_cong: "workers l' = workers l \<Longrightarrow> getSuitablePoller l' = getSuitablePoller l"
  by (simp add: getSuitablePoller_def fun_eq_iff)

lemma accept_loop_ok:
  assumes "loop_ok l" and "fds_ok rs"
  shows "\<exists>l'. tcp_accept_loop rs s l = Inr (if accept_fails rs then TcpServer_handleErroEvent s else s, l') \<and>
    loop_ok l' \<and> workers l' = workers l \<and>
    (\<forall>p. poller_queue l' p = poller_queue l p @ map (initConnection s p) (filter (\<lambda>fd. getSuitablePoller l fd = p) (accepted_fds rs))) \<and>
    (\<forall>p. counter (snd (pollers l ! p)) \<noteq> 0 \<or> p \<in> getSuitablePoller l ` set (accepted_fds rs) \<longrightarrow> counter (snd (pollers l' ! p)) \<noteq> 0)"
  using assms
proof (induction rs s l rule: tcp_accept_loop.induct)
  case (5 fd rs s l)
  let ?p = "getSuitablePoller l fd"
  have fd: "0 \<le> fd" and rs: "fds_ok rs" using 5(3) by (simp_all add: fds_ok_def)
  from run_in_poller_ok [OF 5(2) getSuitablePoller_range(1) [OF 5(2) fd], of "initConnection s ?p fd"] obtain l1 where
    l1: "run_in_poller ?p (initConnection s ?p fd) l = Inr l1" "loop_ok l1" "workers l1 = workers l"
      "counter (snd (pollers l1 ! ?p)) \<noteq> 0"
      "\<forall>i. poller_queue l1 i = (if i = ?p then poller_queue l i @ [initConnection s ?p fd] else poller_queue l i)"
      "\<forall>i. i \<noteq> ?p \<longrightarrow> pollers l1 ! i = pollers l ! i" by blast
  note same = getSuitablePoller_cong [OF l1(3)]
  have a: "handleAcceptFd s fd l = Inr l1" using l1(1) fd by (simp add: handleAcceptFd_def Let_def)
  from 5(1) [OF a l1(2) rs] obtain l' where
    l': "tcp_accept_loop rs s l1 = Inr (if accept_fails rs then TcpServer_handleErroEvent s else s, l')" "loop_ok l'" "workers l' = workers l1"
      "\<forall>p. poller_queue l' p = poller_queue l1 p @ map (initConnection s p) (filter (\<lambda>fd. getSuitablePoller l1 fd = p) (accepted_fds rs))"
      "\<forall>p. counter (snd (pollers l1 ! p)) \<noteq> 0 \<or> p \<in> getSuitablePoller l1 ` set (accepted_fds rs) \<longrightarrow> counter (snd (pollers l' ! p)) \<noteq> 0"
    by blast
  have "counter (snd (pollers l' ! p)) \<noteq> 0"
    if "counter (snd (pollers l ! p)) \<noteq> 0 \<or> p \<in> getSuitablePoller l ` set (accepted_fds (Accepted fd # rs))" for p
    using that l'(5) l1(4,6) by (cases "p = ?p") (auto simp: same)
  moreover have "poller_queue l' p = poller_queue l p @
      map (initConnection s p) (filter (\<lambda>fd. getSuitablePoller l fd = p) (accepted_fds (Accepted fd # rs)))" for p
    using l'(4) l1(5) by (simp add: same)
  ultimately show ?case using a l'(1-3) l1(3) by auto
qed (auto simp: fds_ok_def)

text \<open>
  C20. However many connections a wake-up of the listening socket brings and whatever interrupts
  \<open>accept\<close>, each accepted descriptor is handed to one poller of the event loop, the same one for the
  same descriptor and always one that exists; within a poller the connections are initialised in the
  order in which they were accepted, with the server's callbacks, and the poller is woken. An error
  of \<open>accept\<close> other than EAGAIN and EINTR closes the listening channel and drops the callbacks.
\<close>

theorem tcp_server_dispatch:
  assumes "loop_ok l" and "0 \<le> listenfd s" and "fds_ok rs"
  shows "\<exists>l'. handleAcceptEvent rs s l = Inr (if accept_fails rs then TcpServer_handleErroEvent s else s, l') \<and> loop_ok l' \<and>
    (\<forall>p. poller_queue l' p = poller_queue l p @
      map (initConnection s p) (filter (\<lambda>fd. (if workers l = 0 then 0 else nat (fd mod workers l) + 1) = p) (accepted_fds rs))) \<and>
    list_all (\<lambda>fd. counter (snd (pollers l' ! (if workers l = 0 then 0 else nat (fd mod workers l) + 1))) \<noteq> 0) (accepted_fds rs)"
proof -
  have fds: "list_all ((\<le>) 0) (accepted_fds rs)"
    using assms(3) unfolding fds_ok_def by (induction rs rule: accepted_fds.induct) auto
  have p: "getSuitablePoller l fd = (if workers l = 0 then 0 else nat (fd mod workers l) + 1)" if "fd \<in> set (accepted_fds rs)" for fd
    using getSuitablePoller_range(2) [OF assms(1), of fd] fds that by (simp add: list_all_iff)
  have f: "filter (\<lambda>fd. getSuitablePoller l fd = q) (accepted_fds rs) =
      filter (\<lambda>fd. (if workers l = 0 then 0 else nat (fd mod workers l) + 1) = q) (accepted_fds rs)" for q
    by (rule filter_cong) (simp_all only: p)
  from accept_loop_ok [OF assms(1,3), of s] obtain l' where
    l': "tcp_accept_loop rs s l = Inr (if accept_fails rs then TcpServer_handleErroEvent s else s, l')" "loop_ok l'"
      "\<forall>p. poller_queue l' p = poller_queue l p @ map (initConnection s p) (filter (\<lambda>fd. getSuitablePoller l fd = p) (accepted_fds rs))"
      "\<forall>p. counter (snd (pollers l ! p)) \<noteq> 0 \<or> p \<in> getSuitablePoller l ` set (accepted_fds rs) \<longrightarrow> counter (snd (pollers l' ! p)) \<noteq> 0"
    by blast
  have "list_all (\<lambda>fd. counter (snd (pollers l' ! (if workers l = 0 then 0 else nat (fd mod workers l) + 1))) \<noteq> 0) (accepted_fds rs)"
    unfolding list_all_iff
  proof
    fix fd
    assume "fd \<in> set (accepted_fds rs)"
    with l'(4) p [of fd] show "counter (snd (pollers l' ! (if workers l = 0 then 0 else nat (fd mod workers l) + 1))) \<noteq> 0"
      by (metis image_eqI)
  qed
  with l' assms(2) show ?thesis unfolding f by (auto simp: handleAcceptEvent_def)
qed

definition a_server :: "string tcp_server" where
  "a_server = \<lparr>listenfd = 3, srv_chan = True, acceptorCallback = Some ''accept'', readEventCallback = Some ''read'',
     writAllCallback = None, erroEventCallback = None\<rparr>"

theorem tcp_server_dispatch_witness:
  "\<exists>l'. handleAcceptEvent [Accepted 7, AcceptIntr, Accepted 8, Accepted 9, AcceptAgain] a_server (EventLoop_new 2 EPOLL) =
       Inr (a_server, l') \<and>
     map nc_fd (poller_queue l' 0) = [] \<and> map nc_fd (poller_queue l' 1) = [8] \<and> map nc_fd (poller_queue l' 2) = [7, 9]"
proof -
  have "loop_ok (EventLoop_new 2 EPOLL :: string new_conn event_loop)" by (rule EventLoop_new_ok) simp
  from tcp_server_dispatch [OF this, of a_server "[Accepted 7, AcceptIntr, Accepted 8, Accepted 9, AcceptAgain]"] show ?thesis
    by (auto simp: a_server_def fds_ok_def EventLoop_new_def poller_queue_def initConnection_def waiting_def EventQueue_new_def
        BlockingQueue_new_def)
qed

text \<open>
  What a poller does when it is woken: the connections it was given are registered and announced to
  the callback of the server, in the order of acceptance.
\<close>

lemma accepted_run:
  assumes "loop_ok l" and "p < length (pollers l)" and "counter (snd (pollers l ! p)) \<noteq> 0" and "length (poller_queue l p) < k"
  shows "\<exists>q. EventQueue_onRead k (log_run (run_accepted s)) (snd (pollers l ! p), []) = Inr (q, concat (map (run_accepted s) (poller_queue l p)))"
proof -
  have "eventfp (snd (pollers l ! p))" "eventHandlers (snd (pollers l ! p)) \<noteq> None"
    using assms(1,2) by (auto simp: loop_ok_def list_all_length)
  from onRead_all [OF this(1) assms(3) this(2), of k "run_accepted s" "[]"] assms(4) show ?thesis
    by (auto simp: poller_queue_def)
qed

text \<open>
  After an error of \<open>accept\<close> the connections that are still waiting for their poller are registered,
  but the user's callback is never told of them.
\<close>

lemma accept_error_forgets: "run_accepted (TcpServer_handleErroEvent s) c = [Registered c]"
  by (simp add: run_accepted_def TcpServer_handleErroEvent_def)

text \<open>
  A client that becomes connected hands its callbacks over to the connection, once; it always lives
  in the first poller, whatever its descriptor.
\<close>

lemma client_first_poller:
  assumes "creatTcpClient l (Some fd) = Some c"
  shows "cl_poller c = 0"
  using assms by (auto simp: creatTcpClient_def getSuitablePoller2_def signed_modulo_int_def signed_divide_int_def)

lemma client_connects:
  assumes "loop_ok l" and "cl_poller c < length (pollers l)" and "connector c = Some f"
  shows "\<exists>c' l'. client_onWrit c l = Inr (c', l') \<and> poller_queue l' (cl_poller c) = poller_queue l (cl_poller c) @ [client_conn c] \<and>
    run_connected c' (client_conn c) = [Registered (client_conn c), AcceptorCalled f (clientfd c)] \<and>
    client_conn c' = (client_conn c)\<lparr>nc_read := None, nc_writ := None, nc_erro := OfUser None\<rparr>"
  using run_in_poller_ok [OF assms(1,2), of "client_conn c"] assms(3)
  by (auto simp: client_onWrit_def run_connected_def client_conn_def)

end
