(* ===== verification/Logging.thy ===== *)
theory Logging
  imports Timer_Queue
begin

text \<open>
  Model of the logs: \<open>Timestamp::toString\<close> with the second it remembers (\<open>liby_cpp/util.cpp\<close>),
  \<open>Logger::log\<close> (\<open>liby_cpp/Logger.cpp\<close>) and \<open>log_doit\<close> (\<open>liby/src/log.c\<close>). What a format expands to is
  an argument. Shown: remembering the second changes no output, \<open>log_doit\<close> stays inside its buffer for
  every text, and for which lines \<open>Logger::log\<close> does.
\<close>

section \<open>Formatting\<close>

text \<open>
  The conversions the formats use: decimal digits of a number that is not negative, padded on the
  left with blanks (\<open>%4d\<close>) or zeros (\<open>%02d\<close>, \<open>%06ld\<close>).
\<close>

fun dec_digits :: "nat \<Rightarrow> string" where
  "dec_digits n = (if n < 10 then [char_of (48 + n)] else dec_digits (n div 10) @ [char_of (48 + n mod 10)])"

declare dec_digits.simps [simp del]

definition pad :: "char \<Rightarrow> nat \<Rightarrow> string \<Rightarrow> string" where
  "pad c w s = replicate (w - length s) c @ s"

definition fmt_d :: "char \<Rightarrow> nat \<Rightarrow> int \<Rightarrow> string" where
  "fmt_d c w i = pad c w (dec_digits (nat i))"

section \<open>Timestamps as strings\<close>

text \<open>
  \<open>Timestamp::toString\<close> keeps the text of the last second it formatted in variables of the thread,
  which start as 0 and the empty string. \<open>localtime_r\<close> is an argument.
\<close>

record tm =
  tm_year :: int
  tm_mon :: int
  tm_mday :: int
  tm_hour :: int
  tm_min :: int
  tm_sec :: int

record saved =
  savedSec :: int
  savedSecString :: string

definition sec_string :: "tm \<Rightarrow> string" where
  "sec_string t = fmt_d CHR '' '' 4 (tm_year t + 1900) @ ''.'' @ fmt_d CHR ''0'' 2 (tm_mon t + 1) @ ''.'' @
     fmt_d CHR ''0'' 2 (tm_mday t) @ '' - '' @ fmt_d CHR ''0'' 2 (tm_hour t) @ '':'' @ fmt_d CHR ''0'' 2 (tm_min t) @ '':'' @
     fmt_d CHR ''0'' 2 (tm_sec t) @ '' -''"

definition usec_string :: "int \<Rightarrow> string" where
  "usec_string u = '' '' @ fmt_d CHR ''0'' 6 u"

definition Timestamp_toString :: "(int \<Rightarrow> tm) \<Rightarrow> timestamp \<Rightarrow> saved \<Rightarrow> string \<times> saved" where
  "Timestamp_toString localtime_r ts sv =
     (let sv = (if tv_sec ts \<noteq> savedSec sv
                then \<lparr>savedSec = tv_sec ts, savedSecString = sec_string (localtime_r (tv_sec ts))\<rparr> else sv)
      in (savedSecString sv @ usec_string (tv_usec ts), sv))"

definition saved_start :: saved where
  "saved_start = \<lparr>savedSec = 0, savedSecString = ''''\<rparr>"

fun toStrings :: "(int \<Rightarrow> tm) \<Rightarrow> timestamp list \<Rightarrow> saved \<Rightarrow> string list" where
  "toStrings lt [] sv = []"
| "toStrings lt (t # ts) sv = (case Timestamp_toString lt t sv of (s, sv') \<Rightarrow> s # toStrings lt ts sv')"

text \<open>The same without the saved second.\<close>

definition plain_string :: "(int \<Rightarrow> tm) \<Rightarrow> timestamp \<Rightarrow> string" where
  "plain_string lt t = sec_string (lt (tv_sec t)) @ usec_string (tv_usec t)"

lemma toStrings_plain:
  assumes "list_all (\<lambda>t. tv_sec t \<noteq> 0) ts" and "savedSec sv = 0 \<or> savedSecString sv = sec_string (lt (savedSec sv))"
  shows "toStrings lt ts sv = map (plain_string lt) ts"
  using assms
proof (induction ts arbitrary: sv)
  case (Cons t ts)
  then show ?case by (cases "tv_sec t = savedSec sv") (auto simp: Timestamp_toString_def plain_string_def Let_def)
qed simp

text \<open>
  Keeping the text of the last second changes nothing: for every sequence of times (but the first
  second of 1970) in any order, \<open>Timestamp::toString\<close> gives what formatting each time afresh gives.
\<close>

theorem toString_cached:
  assumes "list_all (\<lambda>t. tv_sec t \<noteq> 0) ts"
  shows "toStrings lt ts saved_start = map (plain_string lt) ts"
  using toStrings_plain [OF assms] by (simp add: saved_start_def)

theorem toString_cached_witness:
  "toStrings (\<lambda>s. \<lparr>tm_year = 116, tm_mon = 0, tm_mday = 2, tm_hour = 3, tm_min = 4, tm_sec = s mod 60\<rparr>)
     [Timestamp 65 7, Timestamp 65 42] saved_start = [''2016.01.02 - 03:04:05 - 000007'', ''2016.01.02 - 03:04:05 - 000042'']"
proof -
  let ?lt = "\<lambda>s. \<lparr>tm_year = 116, tm_mon = 0, tm_mday = 2, tm_hour = 3, tm_min = 4, tm_sec = s mod 60\<rparr>"
  have "list_all (\<lambda>t. tv_sec t \<noteq> 0) [Timestamp 65 7, Timestamp 65 42]" by code_simp
  note toString_cached [OF this, of ?lt]
  moreover have "map (plain_string ?lt) [Timestamp 65 7, Timestamp 65 42] =
      [''2016.01.02 - 03:04:05 - 000007'', ''2016.01.02 - 03:04:05 - 000042'']" by code_simp
  ultimately show ?thesis by simp
qed

text \<open>In the first second of 1970 the date is missing.\<close>

lemma toString_epoch: "fst (Timestamp_toString lt (Timestamp 0 7) saved_start) = '' 000007''"
proof -
  have "usec_string 7 = '' 000007''" by code_simp
  then show ?thesis by (simp add: Timestamp_toString_def saved_start_def Timestamp_def)
qed

section \<open>Writing into buffers\<close>

text \<open>
  \<open>snprintf\<close> into \<open>buf + off\<close> with room for \<open>sz\<close> bytes: at most \<open>sz - 1\<close> bytes of the text and a zero byte
  are stored; the result is the length of the whole text. A size that reaches over the end of the
  buffer is a fault when the text uses it.
\<close>

definition buf_str :: "byte list \<Rightarrow> byte list" where
  "buf_str buf = takeWhile (\<lambda>c. c \<noteq> 0) buf"

definition snprintf :: "byte list \<Rightarrow> nat \<Rightarrow> nat \<Rightarrow> byte list \<Rightarrow> (nat \<times> byte list) res" where
  "snprintf buf off sz msg =
     (let out = (if sz = 0 then [] else take (sz - 1) msg @ [0]) in
      if off + length out > length buf then Inl OutOfBounds
      else Inr (length msg, memcpy buf off out))"

lemma buf_str_text: "0 \<notin> set msg \<Longrightarrow> buf_str (msg @ 0 # rest) = msg"
  unfolding buf_str_def by (subst takeWhile_append2) auto

section \<open>The log of liby\<close>

abbreviation MAXLINE :: nat where "MAXLINE \<equiv> 4096"

text \<open>
  \<open>log_doit\<close> of \<open>liby/src/log.c\<close>: \<open>msg\<close> is what the format expands to, \<open>err\<close> the text of \<open>strerror\<close>. The
  result is the string that is printed.
\<close>

definition log_doit :: "bool \<Rightarrow> byte list \<Rightarrow> byte list \<Rightarrow> byte list \<Rightarrow> byte list res" where
  "log_doit errnoflag err msg buf =
     rbind (snprintf buf 0 (MAXLINE - 1) msg) (\<lambda>(_, buf).
     rbind (if errnoflag
            then rbind (snprintf buf (length (buf_str buf)) (MAXLINE - length (buf_str buf) - 1) ([58, 32] @ err)) (\<lambda>(_, buf). Inr buf)
            else Inr buf) (\<lambda>buf.
     let n = length (buf_str buf) in
     if n + 2 > length buf then Inl OutOfBounds else Inr (buf_str (memcpy buf n [10, 0]))))"

lemma snprintf_ok:
  assumes "0 < sz" and "off + sz \<le> length buf"
  shows "snprintf buf off sz msg = Inr (length msg, take off buf @ take (sz - 1) msg @ 0 # drop (off + Suc (length (take (sz - 1) msg))) buf)"
  using assms by (auto simp: snprintf_def memcpy_def Let_def min_def)

lemma log_tail:
  assumes "length buf = MAXLINE" and "buf = t @ 0 # rest" and "0 \<notin> set t" and "length t \<le> MAXLINE - 2"
  shows "(let n = length (buf_str buf) in if n + 2 > length buf then Inl OutOfBounds else Inr (buf_str (memcpy buf n [10, 0]))) = Inr (t @ [10])"
proof -
  have c: "buf_str buf = t" using assms(2,3) by (simp add: buf_str_text)
  have "buf_str (t @ 10 # 0 # drop (length t + 2) buf) = t @ [10]"
    using buf_str_text [of "t @ [10]" "drop (length t + 2) buf"] assms(3) by simp
  moreover have "memcpy buf (length t) [10, 0] = t @ 10 # 0 # drop (length t + 2) buf" using assms(2) by (simp add: memcpy_def)
  moreover have "length t + 2 \<le> length buf" using assms(1,4) by simp
  ultimately show ?thesis unfolding Let_def c by simp
qed

lemma log_doit_text:
  assumes "length buf = MAXLINE" and "0 \<notin> set msg" and "0 \<notin> set err"
  shows "log_doit errnoflag err msg buf =
    Inr (take (MAXLINE - 2) (if errnoflag then take (MAXLINE - 2) msg @ [58, 32] @ err else msg) @ [10])"
proof -
  define t where "t = take (MAXLINE - 2) msg"
  have nz: "0 \<notin> set t" using assms(2) unfolding t_def by (meson in_set_takeD)
  have len: "length t \<le> MAXLINE - 2" by (simp add: t_def)
  define b1 where "b1 = t @ 0 # drop (Suc (length t)) buf"
  have b1: "snprintf buf 0 (MAXLINE - 1) msg = Inr (length msg, b1)"
    using snprintf_ok [of "MAXLINE - 1" 0 buf msg] assms(1) by (simp add: b1_def t_def)
  have l1: "length b1 = MAXLINE" using assms(1) len by (simp add: b1_def)
  have c1: "buf_str b1 = t" using nz by (simp add: b1_def buf_str_text)
  show ?thesis
  proof (cases errnoflag)
    case False
    then show ?thesis unfolding log_doit_def b1 using log_tail [OF l1 b1_def nz len] by (simp add: t_def)
  next
    case True
    define m2 where "m2 = [58, 32] @ err"
    define v where "v = take (MAXLINE - 2 - length t) m2"
    define u where "u = t @ v"
    have u: "u = take (MAXLINE - 2) (t @ m2)" using len by (simp add: u_def v_def)
    have "0 \<notin> set m2" using assms(3) by (simp add: m2_def)
    then have nu: "0 \<notin> set u" using nz by (auto simp: u_def v_def dest: in_set_takeD)
    define b2 where "b2 = u @ 0 # drop (Suc (length u)) b1"
    have t1: "take (length t) b1 = t" by (simp add: b1_def)
    have s1: "MAXLINE - length t - 1 - 1 = MAXLINE - 2 - length t" by simp
    have "snprintf b1 (length t) (MAXLINE - length t - 1) m2 =
        Inr (length m2, take (length t) b1 @ v @ 0 # drop (length t + Suc (length v)) b1)"
      unfolding v_def s1 [symmetric] by (rule snprintf_ok) (use l1 len in simp_all)
    then have sn: "snprintf b1 (length t) (MAXLINE - length t - 1) m2 = Inr (length m2, b2)"
      by (simp only: t1 b2_def u_def length_append append_assoc add_Suc_right)
    have lu: "length u \<le> MAXLINE - 2" by (simp add: u)
    have l2: "length b2 = MAXLINE" using l1 lu by (simp add: b2_def)
    have "log_doit errnoflag err msg buf = Inr (u @ [10])"
      unfolding log_doit_def b1 rbind_simps prod.case using True c1 sn log_tail [OF l2 b2_def nu lu]
      by (simp only: if_True m2_def rbind_simps prod.case)
    then show ?thesis using True by (simp only: u if_True m2_def t_def)
  qed
qed

section \<open>The logger of liby\_cpp\<close>

datatype log_level = VERBOSE | DEBUG | INFO | WARN | ERROR | FATAL

definition level_no :: "log_level \<Rightarrow> nat" where
  "level_no l = (case l of VERBOSE \<Rightarrow> 0 | DEBUG \<Rightarrow> 1 | INFO \<Rightarrow> 2 | WARN \<Rightarrow> 3 | ERROR \<Rightarrow> 4 | FATAL \<Rightarrow> 5)"

definition getLevelString :: "log_level \<Rightarrow> string" where
  "getLevelString l = [''VERBOSE'', ''DEBUG'', ''INFO'', ''WARN'', ''ERROR'', ''FATAL''] ! level_no l"

definition log_prefix :: "log_level \<Rightarrow> string \<Rightarrow> string \<Rightarrow> nat \<Rightarrow> string \<Rightarrow> string" where
  "log_prefix level now fname line func =
     ''['' @ getLevelString level @ ''] ['' @ now @ '']: '' @ fname @ '': '' @ dec_digits line @ '' '' @ func @ '' ''"

text \<open>
  \<open>while (buf[--offset] == '\n') {}\<close>: the index of the last byte before \<open>offset\<close> that is no line end; running
  over the start of the buffer is a fault.
\<close>

fun trim_loop :: "byte list \<Rightarrow> nat \<Rightarrow> nat res" where
  "trim_loop buf 0 = Inl OutOfBounds"
| "trim_loop buf (Suc k) = rbind (aread buf k) (\<lambda>c. if c = 10 then trim_loop buf k else Inr k)"

text \<open>
  \<open>Logger::log\<close>, with the text its format expands to; the result is what is written to the standard
  error. \<open>snprintf\<close> returns the length of the whole text even when it was cut.
\<close>

definition Logger_log ::
    "log_level \<Rightarrow> log_level \<Rightarrow> string \<Rightarrow> string \<Rightarrow> nat \<Rightarrow> string \<Rightarrow> byte list \<Rightarrow> byte list \<Rightarrow> byte list option res" where
  "Logger_log threshold level now fname line func msg buf =
     (if level_no level < level_no threshold then Inr None
      else rbind (snprintf buf 0 4096 (map of_char (log_prefix level now fname line func))) (\<lambda>(n, buf).
           if n > 4096 then Inl OutOfBounds
           else rbind (snprintf buf n (4096 - n) msg) (\<lambda>(m, buf).
                rbind (trim_loop buf (n + m)) (\<lambda>k.
                rbind (awrite buf (k + 1) 10) (\<lambda>buf.
                rbind (awrite buf (k + 2) 0) (\<lambda>buf. Inr (Some (buf_str buf))))))))"

definition strip_newlines :: "byte list \<Rightarrow> byte list" where
  "strip_newlines xs = rev (dropWhile (\<lambda>c. c = 10) (rev xs))"

lemma trim_loop_strip:
  assumes "strip_newlines xs \<noteq> []"
  shows "trim_loop (xs @ ys) (length xs) = Inr (length (strip_newlines xs) - 1)"
  using assms
proof (induction xs arbitrary: ys rule: rev_induct)
  case (snoc x xs)
  show ?case
  proof (cases "x = 10")
    case True
    then show ?thesis using snoc.IH [of "x # ys"] snoc.prems by (simp add: strip_newlines_def nth_append)
  qed (simp add: strip_newlines_def nth_append)
qed (simp add: strip_newlines_def)

lemma strip_newlines_prefix: "\<exists>n. strip_newlines xs = take n xs"
proof -
  have "rev (dropWhile P ys) = take (length ys - length (takeWhile P ys)) (rev ys)" for P and ys :: "byte list"
    by (metis dropWhile_eq_drop rev_drop)
  then show ?thesis by (auto simp: strip_newlines_def)
qed

lemma strip_newlines_append: "strip_newlines xs \<noteq> [] \<Longrightarrow> strip_newlines (xs @ ys) \<noteq> []"
  by (auto simp: strip_newlines_def dropWhile_eq_Nil_conv)

lemma two_writes:
  assumes l: "length buf = 4096" and x: "length x \<le> 4094" and s: "strip_newlines x \<noteq> []" and nz: "0 \<notin> set x"
    and b: "buf = x @ 0 # rest"
  shows "rbind (trim_loop buf (length x)) (\<lambda>k. rbind (awrite buf (k + 1) 10) (\<lambda>buf.
     rbind (awrite buf (k + 2) 0) (\<lambda>buf. Inr (Some (buf_str buf))))) = Inr (Some (strip_newlines x @ [10]))"
proof -
  let ?s = "strip_newlines x" and ?k = "length (strip_newlines x) - 1"
  obtain n where n: "?s = take n x" using strip_newlines_prefix by blast
  have k: "?k + 1 = length ?s" "length ?s \<le> length x" using s n by (auto simp: n)
  have t: "trim_loop buf (length x) = Inr ?k" using trim_loop_strip [OF s] by (simp add: b)
  have len: "length ?s < length buf" "length ?s + 1 < length buf" using k x l by auto
  let ?b = "buf[length ?s := 10, length ?s + 1 := 0]"
  have "?b = take (length ?s) buf @ 10 # 0 # drop (length ?s + 2) buf"
    using len by (simp add: upd_conv_take_nth_drop take_update_cancel drop_update_swap take_Suc_conv_app_nth)
  moreover have "take (length ?s) buf = ?s" using k(2) by (cases "n \<le> length x") (simp_all add: b n)
  ultimately have "buf_str ?b = ?s @ [10]"
    using buf_str_text [of "?s @ [10]"] nz n by (auto dest: in_set_takeD)
  moreover have "?k + 2 = length ?s + 1" using k by simp
  ultimately show ?thesis using t len k(1) by simp
qed

lemma log_prefix_strip: "strip_newlines (map of_char (log_prefix level now fname line func)) \<noteq> []"
  by (simp add: strip_newlines_def log_prefix_def)

lemma snprintf_twice:
  assumes l: "length buf = 4096" and p: "length p < 4096"
  shows "\<exists>b1 b2. snprintf buf 0 4096 p = Inr (length p, b1) \<and> snprintf b1 (length p) (4096 - length p) msg = Inr (length msg, b2) \<and>
    length b2 = 4096 \<and> b2 = take 4095 (p @ msg) @ 0 # drop (Suc (length (take 4095 (p @ msg)))) b1"
proof -
  have t: "take 4095 p = p" using p by simp
  define b1 where "b1 = p @ 0 # drop (Suc (length p)) buf"
  have b1: "snprintf buf 0 4096 p = Inr (length p, b1)" using snprintf_ok [of 4096 0 buf p] l t by (simp add: b1_def)
  have l1: "length b1 = 4096" using l p by (simp add: b1_def)
  define v where "v = take (4095 - length p) msg"
  have v: "take 4095 (p @ msg) = p @ v" using p by (simp add: v_def)
  have lv: "length p + length v < 4096" using p by (simp add: v_def)
  have t1: "take (length p) b1 = p" by (simp add: b1_def)
  define b2 where "b2 = p @ v @ 0 # drop (length p + Suc (length v)) b1"
  have s1: "4096 - length p - 1 = 4095 - length p" by simp
  have "snprintf b1 (length p) (4096 - length p) msg =
      Inr (length msg, take (length p) b1 @ v @ 0 # drop (length p + Suc (length v)) b1)"
    unfolding v_def s1 [symmetric] by (rule snprintf_ok) (use l1 p in simp_all)
  then have "snprintf b1 (length p) (4096 - length p) msg = Inr (length msg, b2)" by (simp only: t1 b2_def)
  moreover have "length b2 = 4096" using l1 lv by (simp add: b2_def)
  moreover have "b2 = take 4095 (p @ msg) @ 0 # drop (Suc (length (take 4095 (p @ msg)))) b1" unfolding v by (simp add: b2_def)
  ultimately show ?thesis using b1 by blast
qed

text \<open>
  A line of the log that fits is written without the line ends behind it and with one line end;
  a line of 4096 bytes or more makes \<open>log\<close> write outside its buffer, because \<open>offset\<close> counts the bytes
  \<open>snprintf\<close> cut off.
\<close>

theorem logger_line:
  assumes "length buf = 4096" and "level_no threshold \<le> level_no level"
    and "p = map of_char (log_prefix level now fname line func)" and "length p < 4096" and "0 \<notin> set (p @ msg)"
  shows "(length (p @ msg) \<le> 4094 \<longrightarrow>
      Logger_log threshold level now fname line func msg buf = Inr (Some (strip_newlines (p @ msg) @ [10]))) \<and>
    (4096 \<le> length (p @ msg) \<longrightarrow> Logger_log threshold level now fname line func msg buf = Inl OutOfBounds)"
proof -
  let ?x = "p @ msg"
  from snprintf_twice [OF assms(1,4), of msg] obtain b1 b2 where
    b: "snprintf buf 0 4096 p = Inr (length p, b1)" "snprintf b1 (length p) (4096 - length p) msg = Inr (length msg, b2)"
      "length b2 = 4096" "b2 = take 4095 ?x @ 0 # drop (Suc (length (take 4095 ?x))) b1" by blast
  have run: "Logger_log threshold level now fname line func msg buf =
      rbind (trim_loop b2 (length ?x)) (\<lambda>k. rbind (awrite b2 (k + 1) 10) (\<lambda>buf.
        rbind (awrite buf (k + 2) 0) (\<lambda>buf. Inr (Some (buf_str buf)))))"
    using assms(2,4) b(1,2) by (simp add: Logger_log_def assms(3) [symmetric])
  have s: "strip_newlines ?x \<noteq> []" unfolding assms(3) by (rule strip_newlines_append [OF log_prefix_strip])
  have "Logger_log threshold level now fname line func msg buf = Inr (Some (strip_newlines ?x @ [10]))" if "length ?x \<le> 4094"
  proof -
    have "take 4095 ?x = ?x" using that by simp
    from two_writes [OF b(3) that s assms(5)] b(4) this show ?thesis unfolding run by metis
  qed
  moreover have "Logger_log threshold level now fname line func msg buf = Inl OutOfBounds" if x: "4096 \<le> length ?x"
  proof (cases "length ?x = 4096")
    case True
    have "length (take 4095 ?x) = 4095" using x by simp
    then have "b2 ! 4095 = 0" using b(4) by (metis nth_append_length)
    then have "trim_loop b2 (Suc 4095) = Inr 4095" using b(3) by (subst trim_loop.simps) (simp add: aread_def)
    moreover have "length ?x = Suc 4095" using True by simp
    ultimately have "trim_loop b2 (length ?x) = Inr 4095" by (simp only:)
    then show ?thesis unfolding run using b(3) by (simp add: awrite_def)
  next
    case False
    then obtain k where "length ?x = Suc k" "4096 \<le> k" using x by (cases "length ?x") auto
    then show ?thesis unfolding run using b(3) by (simp add: aread_def)
  qed
  ultimately show ?thesis by blast
qed

definition hello :: "byte list" where
  "hello = map of_char ''hello'' @ [10, 10]"

theorem logger_line_witness:
  "Logger_log DEBUG ERROR ''now'' ''a.cpp'' 7 ''main'' hello (replicate 4096 1) =
     Inr (Some (map of_char ''[ERROR] [now]: a.cpp: 7 main hello'' @ [10]))"
proof -
  let ?p = "map of_char (log_prefix ERROR ''now'' ''a.cpp'' 7 ''main'') :: byte list"
  have "level_no DEBUG \<le> level_no ERROR" "length ?p < 4096" "0 \<notin> set (?p @ hello)" "length (?p @ hello) \<le> 4094"
    "strip_newlines (?p @ hello) = map of_char ''[ERROR] [now]: a.cpp: 7 main hello''" by code_simp+
  then show ?thesis using logger_line [of "replicate 4096 1" DEBUG ERROR ?p "''now''" "''a.cpp''" 7 "''main''" hello]
    by (simp only: length_replicate simp_thms)
qed

end
