(* ===== verification/Net_Tools.thy ===== *)
theory Net_Tools
  imports Timer_Queue
begin

text \<open>
  Models of the small network programs: the time servers and clients over TCP and UDP
  (\<open>time_server\<close>), \<open>tcpping\<close>, and what \<open>chat_client\<close> shows. What system calls return is an argument.
  Shown: until when the time survives the trip, and which times \<open>tcpping\<close> prints correctly.
\<close>

section \<open>Network byte order\<close>

text \<open>
  The bytes of a 32-bit number in the memory of a little-endian machine, the number with given bytes,
  and \<open>htonl\<close>, which on such a machine reverses them; \<open>ntohl\<close> does the same.
\<close>

definition word_bytes :: "u32 \<Rightarrow> byte list" where
  "word_bytes w = (let n = unat w in [of_nat n, of_nat (n div 256), of_nat (n div 65536), of_nat (n div 16777216)])"

fun bytes_word :: "byte list \<Rightarrow> u32" where
  "bytes_word [a, b, c, d] = of_nat (unat a + 256 * unat b + 65536 * unat c + 16777216 * unat d)"
| "bytes_word _ = 0"

definition htonl :: "u32 \<Rightarrow> u32" where
  "htonl w = bytes_word (rev (word_bytes w))"

definition ntohl :: "u32 \<Rightarrow> u32" where
  "ntohl w = bytes_word (rev (word_bytes w))"

lemma unat_byte: "unat (of_nat n :: byte) = n mod 256"
  by (simp add: unat_of_nat take_bit_eq_mod)

lemma base256:
  fixes n :: nat
  assumes "n < 2 ^ 32"
  shows "n mod 256 + 256 * (n div 256 mod 256) + 65536 * (n div 65536 mod 256) + 16777216 * (n div 16777216 mod 256) = n"
proof -
  have d: "n div 65536 = n div 256 div 256" "n div 16777216 = n div 256 div 256 div 256" by (simp_all add: div_mult2_eq [symmetric])
  have "n div 256 div 256 div 256 < 256" using assms by (simp add: div_mult2_eq [symmetric] div_less_iff_less_mult)
  then have "n div 256 div 256 div 256 mod 256 = n div 256 div 256 div 256" by simp
  moreover have "n mod 256 + 256 * (n div 256) = n" "n div 256 mod 256 + 256 * (n div 256 div 256) = n div 256"
    "n div 256 div 256 mod 256 + 256 * (n div 256 div 256 div 256) = n div 256 div 256" by simp_all
  ultimately show ?thesis unfolding d by linarith
qed

lemma base256_digits:
  fixes a b c d :: nat
  assumes "a < 256" "b < 256" "c < 256" "d < 256" and "n = a + 256 * b + 65536 * c + 16777216 * d"
  shows "n mod 256 = a" "n div 256 mod 256 = b" "n div 65536 mod 256 = c" "n div 16777216 mod 256 = d" "n < 2 ^ 32"
proof -
  have n: "n = a + 256 * (b + 256 * (c + 256 * d))" using assms by simp
  have q: "n div 256 = b + 256 * (c + 256 * d)" "(b + 256 * (c + 256 * d)) div 256 = c + 256 * d" "(c + 256 * d) div 256 = d"
    using assms(1-3) unfolding n by simp_all
  have d: "n div 65536 = n div 256 div 256" "n div 16777216 = n div 256 div 256 div 256" by (simp_all add: div_mult2_eq [symmetric])
  show "n mod 256 = a" using assms(1) unfolding n by (simp only: mod_mult_self2 mod_less)
  show "n div 256 mod 256 = b" using assms(2) unfolding q by (simp only: mod_mult_self2 mod_less)
  show "n div 65536 mod 256 = c" using assms(3) unfolding d q by (simp only: mod_mult_self2 mod_less)
  show "n div 16777216 mod 256 = d" unfolding d q using assms(4) by simp
  show "n < 2 ^ 32" using assms by simp
qed

lemma bytes_word_bytes: "bytes_word (word_bytes w) = w"
proof -
  have "unat w < 2 ^ 32" using unsigned_less [of w] by simp
  from base256 [OF this] show ?thesis by (simp only: word_bytes_def Let_def bytes_word.simps unat_byte) simp
qed

lemma word_bytes_word: "word_bytes (bytes_word [a, b, c, d]) = [a, b, c, d]"
proof -
  define n where "n = unat a + 256 * unat b + 65536 * unat c + 16777216 * unat d"
  note dg = base256_digits [OF unat_byte_lt unat_byte_lt unat_byte_lt unat_byte_lt n_def]
  have u: "unat (of_nat n :: u32) = n" using dg(5) by (simp add: unat_of_nat take_bit_eq_mod)
  have "(of_nat n :: byte) = a" "(of_nat (n div 256) :: byte) = b" "(of_nat (n div 65536) :: byte) = c"
    "(of_nat (n div 16777216) :: byte) = d" by (simp_all only: word_unat_eq_iff unat_byte dg)
  then show ?thesis by (simp only: word_bytes_def bytes_word.simps n_def [symmetric] u Let_def)
qed

lemma ntohl_htonl: "ntohl (htonl w) = w"
proof -
  have "\<exists>a b c d. rev (word_bytes w) = [a, b, c, d]" by (simp add: word_bytes_def Let_def)
  then obtain a b c d where r: "rev (word_bytes w) = [a, b, c, d]" by blast
  then have "word_bytes w = [d, c, b, a]" by (metis rev_rev_ident rev.simps append.simps)
  then show ?thesis using bytes_word_bytes [of w] by (simp only: ntohl_def htonl_def r word_bytes_word rev.simps append.simps)
qed

section \<open>The time service\<close>

text \<open>
  \<open>time_t\<close> is a signed 64-bit number. Over TCP the server sends the time as 4 bytes (\<open>time_server.c\<close>);
  the client takes them if it reads exactly 4 (\<open>time_client.c\<close>). Over UDP (\<open>time_server_udp.c\<close>,
  \<open>time_client_udp.c\<close>) the time counts from 1900: the constant is a 64-bit number, the sum is cut to
  32 bits by \<open>htonl\<close>, and the client subtracts the constant from a 64-bit number.
\<close>

abbreviation UNIXEPOCH :: int where "UNIXEPOCH \<equiv> 2208988800"

definition time_reply :: "int \<Rightarrow> byte list" where
  "time_reply now = word_bytes (htonl (of_int now))"

definition time_client :: "byte list \<Rightarrow> int res" where
  "time_client bs = (if length bs \<noteq> 4 then Inl (Exit 2) else Inr (uint (ntohl (bytes_word bs))))"

definition udp_reply :: "int \<Rightarrow> byte list" where
  "udp_reply now = word_bytes (htonl (of_int (uint (of_int now :: u32) + UNIXEPOCH)))"

definition udp_client :: "byte list \<Rightarrow> int" where
  "udp_client buf = uint (ntohl (bytes_word (take 4 buf))) - UNIXEPOCH"

lemma length_word_bytes [simp]: "length (word_bytes w) = 4"
  by (simp add: word_bytes_def Let_def)

lemma uint_of_int32: "uint (of_int i :: u32) = i mod 2 ^ 32"
  by (simp add: uint_word_of_int)

lemma time_client_reply:
  assumes "0 \<le> now" and "now < 2 ^ 32"
  shows "time_client (time_reply now) = Inr now"
  using assms by (simp add: time_client_def time_reply_def bytes_word_bytes ntohl_htonl uint_of_int32)

text \<open>
  C40. What the server sends is what the client gets: over TCP for every time below $2^{32}$, and
  over UDP for every time before $2085978496$ (February 2036); after that the client is
  136 years early.
\<close>

theorem time_roundtrip:
  assumes "0 \<le> now" and "now < 2 ^ 32"
  shows "time_client (time_reply now) = Inr now \<and>
    udp_client (udp_reply now @ rest) = (if now < 2085978496 then now else now - 2 ^ 32)"
proof -
  have u: "uint (of_int now :: u32) = now" using assms by (simp add: uint_of_int32)
  have "udp_client (udp_reply now @ rest) = uint (of_int (now + UNIXEPOCH) :: u32) - UNIXEPOCH"
    unfolding udp_client_def udp_reply_def u by (simp only: take_append length_word_bytes) (simp add: bytes_word_bytes ntohl_htonl)
  then have "udp_client (udp_reply now @ rest) = (now + UNIXEPOCH) mod 2 ^ 32 - UNIXEPOCH" by (simp only: uint_of_int32)
  moreover have "(now + UNIXEPOCH) mod 2 ^ 32 = (if now < 2085978496 then now + UNIXEPOCH else now + UNIXEPOCH - 2 ^ 32)"
  proof (cases "now < 2085978496")
    case True
    then show ?thesis using assms by simp
  next
    case False
    have "(now + UNIXEPOCH) mod 2 ^ 32 = (now + UNIXEPOCH - 2 ^ 32) mod 2 ^ 32" by (simp only: minus_mod_self2)
    also have "\<dots> = now + UNIXEPOCH - 2 ^ 32" using False assms by (intro mod_pos_pos_trivial) auto
    finally show ?thesis using False by simp
  qed
  ultimately show ?thesis using time_client_reply [OF assms] by simp
qed

theorem time_roundtrip_witness:
  "time_client (time_reply 1443000000) = Inr 1443000000 \<and> udp_client (udp_reply 2100000000 @ []) = - 2194967296"
  using time_roundtrip [of 1443000000 "[]"] time_roundtrip [of 2100000000 "[]"] by simp

section \<open>The TCP time server\<close>

text \<open>
  One entry of \<open>epoll_wait\<close>: the listening socket with what \<open>accept\<close> returns until it fails, or a
  connection with its events. A connection is registered for output, gets the time and is closed.
\<close>

record time_world =
  tw_open :: "int list"
  tw_sent :: "(int \<times> byte list) list"

datatype time_ready = TimeListen "int list" | TimeReady int u32 nat

fun time_accept :: "int list \<Rightarrow> time_world \<Rightarrow> time_world" where
  "time_accept [] w = w"
| "time_accept (fd # fds) w = (if fd < 0 then w else time_accept fds (w\<lparr>tw_open := fd # tw_open w\<rparr>))"

fun time_handle :: "int \<Rightarrow> time_ready \<Rightarrow> time_world \<Rightarrow> time_world" where
  "time_handle now (TimeListen fds) w = time_accept fds w"
| "time_handle now (TimeReady fd events n) w =
     (if (events AND 8) OR (events AND 16) \<noteq> 0 then w\<lparr>tw_open := removeAll fd (tw_open w)\<rparr>
      else if events AND 4 \<noteq> 0
      then w\<lparr>tw_sent := tw_sent w @ [(fd, take n (time_reply now))], tw_open := removeAll fd (tw_open w)\<rparr>
      else w)"

text \<open>A connection that is writable gets the time, and nothing after it.\<close>

lemma time_handle_serves:
  assumes "events = 4" and "n = 4" and "0 \<le> now" and "now < 2 ^ 32"
  shows "let w' = time_handle now (TimeReady fd events n) w in
    fd \<notin> set (tw_open w') \<and> (\<exists>bs. tw_sent w' = tw_sent w @ [(fd, bs)] \<and> time_client bs = Inr now)"
  using assms time_client_reply [of now] by (simp add: time_reply_def)

section \<open>tcpping\<close>

text \<open>
  \<open>print\<close>: the difference of two times, printed in milliseconds. The division of C truncates; the
  microseconds it divides are positive.
\<close>

definition print_ms :: "timestamp \<Rightarrow> timestamp \<Rightarrow> int" where
  "print_ms oldtime newtime =
     (let (usec, sec) = (if tv_usec newtime > tv_usec oldtime
        then (tv_usec newtime - tv_usec oldtime, tv_sec newtime - tv_sec oldtime)
        else (tv_usec newtime + 1000000 - tv_usec oldtime, tv_sec newtime - tv_sec oldtime - 1))
      in if sec = 0 then usec sdiv 1000 else usec sdiv 1000 + sec)"

text \<open>
  A round of \<open>do_epoll\<close>: whether the socket could be made, what \<open>connect\<close> did at once, whether the first
  event of \<open>epoll_wait\<close> is for the socket, and the two readings of the clock.
\<close>

datatype connect_now = Connected | InProgress | ConnectFailed

record ping_round =
  pr_socket :: bool
  pr_connect :: connect_now
  pr_event :: bool
  pr_old :: timestamp
  pr_new :: timestamp

definition nonb_connect :: "ping_round \<Rightarrow> (int \<times> int list) res" where
  "nonb_connect r =
     (case pr_connect r of
        Connected \<Rightarrow> Inr (1, [print_ms (pr_old r) (pr_new r)])
      | InProgress \<Rightarrow> Inr (0, [])
      | ConnectFailed \<Rightarrow> Inl (Exit 1))"

fun do_epoll :: "ping_round list \<Rightarrow> int list res" where
  "do_epoll [] = Inr []"
| "do_epoll (r # rs) =
     (if \<not> pr_socket r then Inr []
      else rbind (nonb_connect r) (\<lambda>(ret, out).
           let out = (if ret \<noteq> 0 then out else if pr_event r then [print_ms (pr_old r) (pr_new r)] else []) in
           rbind (do_epoll rs) (\<lambda>outs. Inr (out @ outs))))"

lemma print_ms_eq:
  assumes "normal_ts old" and "normal_ts new"
  shows "print_ms old new = ((micros new - micros old - 1) mod 1000000 + 1) div 1000 + (micros new - micros old - 1) div 1000000"
proof -
  define u where "u = tv_usec new - tv_usec old"
  define s where "s = tv_sec new - tv_sec old"
  have d: "micros new - micros old - 1 = u - 1 + s * 1000000" by (simp add: micros_def u_def s_def left_diff_distrib)
  have u: "- 1000000 < u" "u < 1000000" using assms by (auto simp: normal_ts_def u_def)
  have sd: "x sdiv 1000 = x div 1000" if "0 \<le> x" for x :: int using that by (simp add: signed_divide_int_def sgn_if)
  show ?thesis
  proof (cases "u > 0")
    case True
    have "(u - 1 + s * 1000000) mod 1000000 = u - 1" "(u - 1 + s * 1000000) div 1000000 = s" using True u by auto
    then show ?thesis using True unfolding d by (simp add: print_ms_def Let_def u_def s_def sd)
  next
    case False
    have e: "u - 1 + s * 1000000 = (u + 1000000 - 1) + (s - 1) * 1000000" by simp
    have r: "0 \<le> u + 1000000 - 1" "u + 1000000 - 1 < 1000000" using False u by auto
    have "(u - 1 + s * 1000000) mod 1000000 = u + 1000000 - 1" unfolding e mod_mult_self1 using r by (rule mod_pos_pos_trivial)
    moreover have "(u - 1 + s * 1000000) div 1000000 = s - 1" unfolding e using r div_pos_pos_trivial [OF r] by simp
    moreover have "print_ms old new = (u + 1000000) div 1000 + (s - 1)"
    proof -
      have "tv_usec new + 1000000 - tv_usec old = u + 1000000" "tv_sec new - tv_sec old - 1 = s - 1"
        "\<not> tv_usec new > tv_usec old" using False by (simp_all add: u_def s_def)
      then show ?thesis using sd [of "u + 1000000"] u(1) by (simp only: print_ms_def Let_def if_False prod.case) simp
    qed
    moreover have "u + 1000000 - 1 + 1 = u + 1000000" by simp
    ultimately show ?thesis unfolding d by (simp only:)
  qed
qed

text \<open>
  The time \<open>tcpping\<close> prints is the elapsed time in milliseconds exactly when that is between a
  microsecond and a second: longer times are printed with one millisecond for every whole second
  (the seconds are added without the factor 1000), and no time at all is printed as 999 ms.
\<close>

theorem tcpping_prints_elapsed:
  assumes "normal_ts old" and "normal_ts new" and "micros old \<le> micros new"
  shows "print_ms old new = (micros new - micros old) div 1000 \<longleftrightarrow>
    0 < micros new - micros old \<and> micros new - micros old \<le> 1000000"
proof -
  define d where "d = micros new - micros old"
  define q where "q = (d - 1) div 1000000"
  define r where "r = (d - 1) mod 1000000 + 1"
  have dr: "d = 1000 * (1000 * q) + r" "0 < r" "r \<le> 1000000" by (auto simp: q_def r_def)
  have "d div 1000 = 1000 * q + r div 1000" unfolding dr(1) by simp
  moreover have "print_ms old new = r div 1000 + q"
    using print_ms_eq [OF assms(1,2)] by (simp only: d_def [symmetric] q_def r_def)
  ultimately have "print_ms old new = d div 1000 \<longleftrightarrow> q = 0" by auto
  also have "\<dots> \<longleftrightarrow> 0 < d \<and> d \<le> 1000000"
    using dr assms(3) by (auto simp: d_def)
  finally show ?thesis by (simp add: d_def)
qed

theorem tcpping_prints_elapsed_witness:
  "print_ms (Timestamp 10 999000) (Timestamp 11 24000) = 25"
  using tcpping_prints_elapsed [of "Timestamp 10 999000" "Timestamp 11 24000"]
  by (simp add: normal_ts_def Timestamp_def micros_def)

lemma tcpping_wrong_times:
  "print_ms (Timestamp 10 0) (Timestamp 13 500000) = 503" "print_ms (Timestamp 10 5) (Timestamp 10 5) = 999"
  by code_simp+

section \<open>The chat client\<close>

text \<open>
  The part of \<open>chat_client.c\<close> that shows what the server sends: the buffer of 4096 bytes is cleared, read
  into and printed with \<open>%s\<close>, which runs up to the first zero byte; if there is none it reads outside the
  buffer.
\<close>

definition client_show :: "byte list \<Rightarrow> byte list res" where
  "client_show bs =
     (let buf = take 4096 bs @ replicate (4096 - length (take 4096 bs)) 0 in
      if bs = [] then Inr []
      else if 0 \<in> set buf then Inr (takeWhile (\<lambda>c. c \<noteq> 0) buf @ [10]) else Inl OutOfBounds)"

text \<open>Messages are shown as they are when they are shorter than the buffer; a full one overruns it.\<close>

lemma client_show_spec:
  assumes "0 \<notin> set bs" and "bs \<noteq> []"
  shows "length bs < 4096 \<Longrightarrow> client_show bs = Inr (bs @ [10])" and "4096 \<le> length bs \<Longrightarrow> client_show bs = Inl OutOfBounds"
proof -
  have tw: "takeWhile (\<lambda>c. c \<noteq> 0) (bs @ ys) = bs @ takeWhile (\<lambda>c. c \<noteq> 0) ys" for ys
    using assms(1) by (intro takeWhile_append2) auto
  show "client_show bs = Inr (bs @ [10])" if "length bs < 4096"
    using that assms by (cases "4096 - length bs") (auto simp: client_show_def Let_def tw)
  show "client_show bs = Inl OutOfBounds" if "4096 \<le> length bs"
    using that assms by (auto simp: client_show_def Let_def dest: in_set_takeD)
qed

end
