(* ===== verification/Sockets.thy ===== *)
theory Sockets
  imports Prelude
begin

text \<open>
  Model of the code that opens sockets: \<open>liby/src/socket.c\<close>, \<open>liby_cpp/ServerSocket.cpp\<close>,
  \<open>liby_cpp/Socket.cpp\<close> and \<open>echo/Implement.cpp\<close> (of which \<open>time_server\<close> has copies). What the
  system calls return for each address is an argument. Shown: the C++ code leaks neither
  descriptors nor address lists on any path, the two forms of \<open>initsocket\<close> are equal.
\<close>

section \<open>The kernel\<close>

text \<open>
  What the code sees of the kernel: the open descriptors, their status flags, \<open>errno\<close>, and the number
  of address lists \<open>getaddrinfo\<close> has allocated and nobody has freed. The outcomes of the system calls
  for one address are a script: the new descriptor or an error, and for the other calls an error or
  success. \<open>close\<close> may overwrite \<open>errno\<close>.
\<close>

record os =
  fds :: "int list"
  fflags :: "int \<Rightarrow> u32"
  err_no :: int
  ai_live :: nat

record script =
  sc_socket :: "int + int"
  sc_reuse :: "int option"
  sc_bind :: "int option"
  sc_listen :: "int option"
  sc_getfl :: "int option"
  sc_setfl :: "int option"
  sc_connect :: "int option"
  sc_close :: "int option"

definition os_open :: "int \<Rightarrow> os \<Rightarrow> os" where
  "os_open fd st = st\<lparr>fds := fd # fds st\<rparr>"

definition os_fail :: "int option \<Rightarrow> os \<Rightarrow> os" where
  "os_fail e st = (case e of None \<Rightarrow> st | Some x \<Rightarrow> st\<lparr>err_no := x\<rparr>)"

definition os_close :: "int \<Rightarrow> script \<Rightarrow> os \<Rightarrow> os" where
  "os_close fd sc st = os_fail (sc_close sc) (st\<lparr>fds := remove1 fd (fds st)\<rparr>)"

abbreviation O_NONBLOCK :: u32 where
  "O_NONBLOCK \<equiv> 0x800"

text \<open>Both versions of \<open>set_noblock\<close>; the second can also clear the flag. An error ends the program.\<close>

definition set_noblock :: "int \<Rightarrow> script \<Rightarrow> os \<Rightarrow> os res" where
  "set_noblock fd sc st =
     (if sc_getfl sc \<noteq> None then Inl (Exit 1)
      else let opt = fflags st fd OR O_NONBLOCK in
           if sc_setfl sc \<noteq> None then Inl (Exit 1) else Inr (st\<lparr>fflags := (fflags st)(fd := opt)\<rparr>))"

definition set_noblock_to :: "int \<Rightarrow> bool \<Rightarrow> script \<Rightarrow> os \<Rightarrow> os res" where
  "set_noblock_to fd flag sc st =
     (if sc_getfl sc \<noteq> None then Inl (Exit 1)
      else let opt = (if flag then fflags st fd OR O_NONBLOCK else fflags st fd AND NOT O_NONBLOCK) in
           if sc_setfl sc \<noteq> None then Inl (Exit 1) else Inr (st\<lparr>fflags := (fflags st)(fd := opt)\<rparr>))"

section \<open>Listening sockets\<close>

datatype sock_type = SOCK_STREAM | SOCK_DGRAM | SOCK_SEQPACKET

text \<open>
  \<open>initsocket\<close> with one exit for all errors (\<open>liby/src/socket.c\<close>, \<open>liby_cpp/ServerSocket.cpp\<close>, and under
  the name \<open>initserver\<close> \<open>time_server_udp.c\<close>), and with an exit per error (\<open>echo\<close>, \<open>time_server.c\<close>).
\<close>

definition errout :: "int \<Rightarrow> script \<Rightarrow> os \<Rightarrow> int \<times> os" where
  "errout fd sc st = (let err = err_no st in (-1, (os_close fd sc st)\<lparr>err_no := err\<rparr>))"

definition initsocket :: "sock_type \<Rightarrow> script \<Rightarrow> os \<Rightarrow> int \<times> os" where
  "initsocket type sc st =
     (case sc_socket sc of
        Inl e \<Rightarrow> (-1, st\<lparr>err_no := e\<rparr>)
      | Inr fd \<Rightarrow>
        let st = os_open fd st in
        if sc_reuse sc \<noteq> None then errout fd sc (os_fail (sc_reuse sc) st)
        else if sc_bind sc \<noteq> None then errout fd sc (os_fail (sc_bind sc) st)
        else if (type = SOCK_STREAM \<or> type = SOCK_SEQPACKET) \<and> sc_listen sc \<noteq> None
             then errout fd sc (os_fail (sc_listen sc) st)
        else (fd, st))"

definition initsocket_inline :: "sock_type \<Rightarrow> script \<Rightarrow> os \<Rightarrow> int \<times> os" where
  "initsocket_inline type sc st =
     (case sc_socket sc of
        Inl e \<Rightarrow> (-1, st\<lparr>err_no := e\<rparr>)
      | Inr fd \<Rightarrow>
        let st = os_open fd st in
        case sc_reuse sc of
          Some e \<Rightarrow> (let st = st\<lparr>err_no := e\<rparr>; err = err_no st; st = os_close fd sc st; st = st\<lparr>err_no := err\<rparr> in (-1, st))
        | None \<Rightarrow>
        case sc_bind sc of
          Some e \<Rightarrow> (let st = st\<lparr>err_no := e\<rparr>; err = err_no st; st = os_close fd sc st; st = st\<lparr>err_no := err\<rparr> in (-1, st))
        | None \<Rightarrow>
        if type = SOCK_STREAM \<or> type = SOCK_SEQPACKET then
          case sc_listen sc of
            Some e \<Rightarrow> (let st = st\<lparr>err_no := e\<rparr>; err = err_no st; st = os_close fd sc st; st = st\<lparr>err_no := err\<rparr> in (-1, st))
          | None \<Rightarrow> (fd, st)
        else (fd, st))"

text \<open>
  \<open>initserver\<close> of \<open>liby/src/socket.c\<close> (and of \<open>echo\<close> and \<open>time_server.c\<close>): the first address that works;
  the address list is never freed.
\<close>

fun try_addrs :: "(script \<Rightarrow> os \<Rightarrow> int \<times> os) \<Rightarrow> script list \<Rightarrow> os \<Rightarrow> (int \<times> script option) \<times> os" where
  "try_addrs init [] st = ((-1, None), st)"
| "try_addrs init (sc # scs) st =
     (case init sc st of (fd, st') \<Rightarrow> if 0 \<le> fd then ((fd, Some sc), st') else try_addrs init scs st')"

definition initserver :: "int \<Rightarrow> script list \<Rightarrow> os \<Rightarrow> int \<times> os" where
  "initserver gai scs st =
     (if gai \<noteq> 0 then (-1, st)
      else case try_addrs (initsocket SOCK_STREAM) scs (st\<lparr>ai_live := ai_live st + 1\<rparr>) of ((fd, _), st') \<Rightarrow> (fd, st'))"

definition Implement_initserver :: "int \<Rightarrow> script list \<Rightarrow> os \<Rightarrow> int \<times> os" where
  "Implement_initserver gai scs st =
     (if gai \<noteq> 0 then (-1, st)
      else case try_addrs (initsocket_inline SOCK_STREAM) scs (st\<lparr>ai_live := ai_live st + 1\<rparr>) of ((fd, _), st') \<Rightarrow> (fd, st'))"

text \<open>
  The version of \<open>ServerSocket.cpp\<close> frees the list when it returns and makes the socket non-blocking.
  \<open>listen\<close> throws with \<open>throw;\<close> outside any handler, which terminates the program.
\<close>

definition freeaddrinfo :: "os \<Rightarrow> os" where
  "freeaddrinfo st = st\<lparr>ai_live := ai_live st - 1\<rparr>"

definition ServerSocket_initserver :: "int \<Rightarrow> script list \<Rightarrow> os \<Rightarrow> ((int \<times> script option) \<times> os) res" where
  "ServerSocket_initserver gai scs st =
     (if gai \<noteq> 0 then Inr ((-1, None), st)
      else case try_addrs (initsocket SOCK_STREAM) scs (st\<lparr>ai_live := ai_live st + 1\<rparr>) of
        ((fd, Some sc), st') \<Rightarrow> rbind (set_noblock_to fd True sc st') (\<lambda>st''. Inr ((fd, Some sc), freeaddrinfo st''))
      | ((fd, None), st') \<Rightarrow> Inr ((-1, None), freeaddrinfo st'))"

abbreviation Nonagle :: u32 where "Nonagle \<equiv> 1"
abbreviation Nonblock :: u32 where "Nonblock \<equiv> 2"

definition setSocketOption :: "u32 \<Rightarrow> u32 \<Rightarrow> u32" where
  "setSocketOption opt cur = cur OR opt"

definition clearSocketOption :: "u32 \<Rightarrow> u32 \<Rightarrow> u32" where
  "clearSocketOption opt cur = cur AND NOT opt"

definition FileDescriptor_new :: "int \<Rightarrow> int res" where
  "FileDescriptor_new fd = (if fd < 0 then Inl Terminate else Inr fd)"

definition ServerSocket_listen :: "u32 \<Rightarrow> int \<Rightarrow> script list \<Rightarrow> os \<Rightarrow> (int \<times> os) res" where
  "ServerSocket_listen opt gai scs st =
     rbind (ServerSocket_initserver gai scs st) (\<lambda>((listenfd, sc), st').
     if listenfd < 0 then Inl Terminate
     else rbind (if opt AND Nonblock \<noteq> 0 then rbind (deref sc) (\<lambda>s. set_noblock_to listenfd True s st') else Inr st') (\<lambda>st''.
          rbind (FileDescriptor_new listenfd) (\<lambda>fp. Inr (fp, st''))))"

section \<open>Connecting sockets\<close>

text \<open>
  \<open>Socket::connect\<close>: a failure is an exception that the callers catch. \<open>connect_tcp_\<close> of \<open>liby\<close>
  compares the result of \<open>getaddrinfo\<close> with -1 only, so after any other error it follows an
  uninitialised pointer; it also takes EINPROGRESS for a failure.
\<close>

abbreviation EINPROGRESS :: int where "EINPROGRESS \<equiv> 115"

datatype connect_error = GaiError | SocketError | ConnectError

definition Socket_connect :: "u32 \<Rightarrow> int \<Rightarrow> script \<Rightarrow> os \<Rightarrow> ((connect_error + int) \<times> os) res" where
  "Socket_connect opt gai sc st =
     (if gai \<noteq> 0 then Inr (Inl GaiError, st)
      else let st = st\<lparr>ai_live := ai_live st + 1\<rparr> in
      case sc_socket sc of
        Inl e \<Rightarrow> Inr (Inl SocketError, freeaddrinfo (st\<lparr>err_no := e\<rparr>))
      | Inr fd \<Rightarrow>
        rbind (if opt AND Nonblock \<noteq> 0 then set_noblock_to fd True sc (os_open fd st) else Inr (os_open fd st)) (\<lambda>st.
        let st = os_fail (sc_connect sc) st in
        if sc_connect sc \<noteq> None \<and> err_no st \<noteq> EINPROGRESS
        then Inr (Inl ConnectError, freeaddrinfo (os_close fd sc st))
        else rbind (FileDescriptor_new fd) (\<lambda>fp. Inr (Inr fp, freeaddrinfo st))))"

definition connect_tcp_impl :: "bool \<Rightarrow> int \<Rightarrow> script \<Rightarrow> os \<Rightarrow> (int \<times> os) res" where
  "connect_tcp_impl is_noblock gai sc st =
     (if gai = -1 then Inr (-1, st)
      else if gai \<noteq> 0 then Inl WildDeref
      else let st = st\<lparr>ai_live := ai_live st + 1\<rparr> in
      case sc_socket sc of
        Inl e \<Rightarrow> Inr (-1, st\<lparr>err_no := e\<rparr>)
      | Inr fd \<Rightarrow>
        rbind (if is_noblock then set_noblock fd sc (os_open fd st) else Inr (os_open fd st)) (\<lambda>st.
        let st = os_fail (sc_connect sc) st in
        if sc_connect sc \<noteq> None then Inr (-1, os_close fd sc st) else Inr (fd, st)))"

section \<open>Nothing leaks\<close>

text \<open>\<open>socket\<close> returns a descriptor that is not negative.\<close>

definition fd_ok :: "script \<Rightarrow> bool" where
  "fd_ok sc \<longleftrightarrow> (case sc_socket sc of Inl e \<Rightarrow> True | Inr fd \<Rightarrow> 0 \<le> fd)"

text \<open>The scripts with which a socket listens, and the error of the others.\<close>

definition can_listen :: "script \<Rightarrow> bool" where
  "can_listen sc \<longleftrightarrow> \<not> isl (sc_socket sc) \<and> sc_reuse sc = None \<and> sc_bind sc = None \<and> sc_listen sc = None"

definition listen_error :: "script \<Rightarrow> int" where
  "listen_error sc = (case sc_socket sc of Inl e \<Rightarrow> e
     | Inr fd \<Rightarrow> (case sc_reuse sc of Some e \<Rightarrow> e | None \<Rightarrow> (case sc_bind sc of Some e \<Rightarrow> e | None \<Rightarrow> the (sc_listen sc))))"

lemma initsocket_inline_eq: "initsocket_inline type sc st = initsocket type sc st"
  by (auto simp: initsocket_inline_def initsocket_def errout_def os_fail_def Let_def split: sum.splits option.splits)

lemma os_close_open: "(os_close fd sc (os_fail e (os_open fd st)))\<lparr>err_no := x\<rparr> = st\<lparr>err_no := x\<rparr>"
  by (auto simp: os_close_def os_open_def os_fail_def split: option.splits)

lemma initsocket_stream:
  "initsocket SOCK_STREAM sc st =
     (if can_listen sc then (projr (sc_socket sc), os_open (projr (sc_socket sc)) st)
      else (-1, st\<lparr>err_no := listen_error sc\<rparr>))"
  by (auto simp: initsocket_def can_listen_def listen_error_def errout_def Let_def os_close_open os_fail_def
      os_close_def os_open_def split: sum.splits option.splits)

lemma try_addrs_none:
  "find can_listen scs = None \<Longrightarrow>
     try_addrs (initsocket SOCK_STREAM) scs st = ((-1, None), if scs = [] then st else st\<lparr>err_no := listen_error (last scs)\<rparr>)"
  by (induction scs arbitrary: st) (auto simp: initsocket_stream split: if_splits)

lemma try_addrs_some:
  assumes "find can_listen scs = Some sc" and "list_all fd_ok scs"
  shows "\<exists>e. try_addrs (initsocket SOCK_STREAM) scs st = ((projr (sc_socket sc), Some sc), os_open (projr (sc_socket sc)) (st\<lparr>err_no := e\<rparr>))"
  using assms
proof (induction scs arbitrary: st)
  case (Cons x scs)
  show ?case
  proof (cases "can_listen x")
    case True
    then have "0 \<le> projr (sc_socket x)" using Cons.prems(2) by (auto simp: can_listen_def fd_ok_def split: sum.splits)
    with True Cons.prems(1) have "try_addrs (initsocket SOCK_STREAM) (x # scs) st = ((projr (sc_socket sc), Some sc), os_open (projr (sc_socket sc)) (st\<lparr>err_no := err_no st\<rparr>))"
      by (simp add: initsocket_stream)
    then show ?thesis by blast
  next
    case False
    with Cons.IH [of "st\<lparr>err_no := listen_error x\<rparr>"] Cons.prems show ?thesis by (simp add: initsocket_stream)
  qed
qed simp

lemma set_noblock_to_cases:
  "set_noblock_to fd True sc st = Inl (Exit 1) \<or>
   set_noblock_to fd True sc st = Inr (st\<lparr>fflags := (fflags st)(fd := fflags st fd OR O_NONBLOCK)\<rparr>)"
  by (simp add: set_noblock_to_def)

lemma ServerSocket_initserver_ok:
  assumes "list_all fd_ok scs"
  shows "case ServerSocket_initserver gai scs st of
      Inl e \<Rightarrow> e = Exit 1
    | Inr ((fd, _), st') \<Rightarrow> ai_live st' = ai_live st \<and>
        (if gai \<noteq> 0 \<or> find can_listen scs = None then fd = -1 \<and> fds st' = fds st
         else fd = projr (sc_socket (the (find can_listen scs))) \<and> fds st' = fd # fds st \<and>
           fflags st' fd = fflags st fd OR O_NONBLOCK)"
proof (cases "find can_listen scs")
  case None
  then show ?thesis by (simp add: ServerSocket_initserver_def try_addrs_none freeaddrinfo_def)
next
  case (Some sc)
  let ?fd = "projr (sc_socket sc)" and ?st = "st\<lparr>ai_live := ai_live st + 1\<rparr>"
  from try_addrs_some [OF Some assms, of ?st] obtain e where
    e: "try_addrs (initsocket SOCK_STREAM) scs ?st = ((?fd, Some sc), os_open ?fd (?st\<lparr>err_no := e\<rparr>))" by blast
  from set_noblock_to_cases [of ?fd sc "os_open ?fd (?st\<lparr>err_no := e\<rparr>)"] show ?thesis
    using Some e by (auto simp: ServerSocket_initserver_def freeaddrinfo_def os_open_def)
qed

lemma Socket_connect_ok:
  assumes "fd_ok sc"
  shows "case Socket_connect opt gai sc st of
      Inl e \<Rightarrow> e = Exit 1
    | Inr (Inl x, st') \<Rightarrow> fds st' = fds st \<and> ai_live st' = ai_live st
    | Inr (Inr fd, st') \<Rightarrow> fds st' = fd # fds st \<and> ai_live st' = ai_live st \<and>
        (sc_connect sc = None \<or> sc_connect sc = Some EINPROGRESS)"
  using assms
  by (auto simp: Socket_connect_def Let_def fd_ok_def freeaddrinfo_def os_open_def os_fail_def os_close_def set_noblock_to_def
      FileDescriptor_new_def split: sum.splits option.splits)

text \<open>
  C39. Opening sockets with \<open>liby_cpp/ServerSocket.cpp\<close> and \<open>liby_cpp/Socket.cpp\<close> leaks nothing (the
  functions of \<open>liby/src/socket.c\<close>, \<open>echo/Implement.cpp\<close> and \<open>connect_tcp_\<close> do leak), if the kernel gives
  descriptors that are not negative: \<open>initserver\<close> of \<open>ServerSocket.cpp\<close> returns the socket of the first
  address that can be bound and listened to, non-blocking, as the only new descriptor, and -1 with no
  new descriptor if there is none; \<open>Socket::connect\<close>, which tries only the first address of the list,
  leaves a descriptor only when it returns one, for a connection that is made or in progress. The address
  list is freed in every case; the only other way out is the \<open>exit\<close> of \<open>set_noblock\<close>.
\<close>

theorem sockets_leak_nothing:
  assumes "list_all fd_ok scs" and "fd_ok sc"
  shows "(case ServerSocket_initserver gai scs st of
      Inl e \<Rightarrow> e = Exit 1
    | Inr ((fd, _), st') \<Rightarrow> ai_live st' = ai_live st \<and>
        (if gai \<noteq> 0 \<or> find can_listen scs = None then fd = -1 \<and> fds st' = fds st
         else fd = projr (sc_socket (the (find can_listen scs))) \<and> fds st' = fd # fds st \<and>
           fflags st' fd = fflags st fd OR O_NONBLOCK)) \<and>
    (case Socket_connect opt gai sc st of
      Inl e \<Rightarrow> e = Exit 1
    | Inr (Inl x, st') \<Rightarrow> fds st' = fds st \<and> ai_live st' = ai_live st
    | Inr (Inr fd, st') \<Rightarrow> fds st' = fd # fds st \<and> ai_live st' = ai_live st \<and>
        (sc_connect sc = None \<or> sc_connect sc = Some EINPROGRESS))"
  using ServerSocket_initserver_ok [OF assms(1)] Socket_connect_ok [OF assms(2)] by blast

definition works :: script where
  "works = \<lparr>sc_socket = Inr 4, sc_reuse = None, sc_bind = None, sc_listen = None, sc_getfl = None, sc_setfl = None,
     sc_connect = Some 115, sc_close = None\<rparr>"

definition idle_os :: os where
  "idle_os = \<lparr>fds = [0, 1, 2], fflags = (\<lambda>_. 0), err_no = 0, ai_live = 0\<rparr>"

theorem sockets_leak_nothing_witness:
  "(case ServerSocket_initserver 0 [works\<lparr>sc_bind := Some 98\<rparr>, works] idle_os of
      Inl e \<Rightarrow> False | Inr ((fd, _), st') \<Rightarrow> fd = 4 \<and> fds st' = [4, 0, 1, 2] \<and> ai_live st' = 0) \<and>
   (case Socket_connect 3 0 works idle_os of Inr (Inr fd, st') \<Rightarrow> fds st' = fd # fds idle_os | _ \<Rightarrow> False)"
proof -
  have "list_all fd_ok [works\<lparr>sc_bind := Some 98\<rparr>, works]" "fd_ok works" by (simp_all add: fd_ok_def works_def)
  moreover have "isl (ServerSocket_initserver 0 [works\<lparr>sc_bind := Some 98\<rparr>, works] idle_os) = False"
    "(case Socket_connect 3 0 works idle_os of Inr (Inr fd, st') \<Rightarrow> True | _ \<Rightarrow> False)" by code_simp+
  ultimately show ?thesis
    using sockets_leak_nothing [of "[works\<lparr>sc_bind := Some 98\<rparr>, works]" works, where gai = 0 and st = idle_os and opt = 3]
    by (auto simp: works_def idle_os_def can_listen_def split: sum.splits prod.splits)
qed

text \<open>
  The other versions return the same sockets but never free the list; and \<open>connect_tcp_\<close> cannot make a
  non-blocking connection, since EINPROGRESS is an error to it.
\<close>

lemma initserver_leaks_list:
  assumes "list_all fd_ok scs"
  shows "ai_live (snd (initserver 0 scs st)) = ai_live st + 1"
    and "Implement_initserver gai scs st = initserver gai scs st"
proof -
  show "ai_live (snd (initserver 0 scs st)) = ai_live st + 1"
  proof (cases "find can_listen scs")
    case (Some sc)
    from try_addrs_some [OF Some assms, of "st\<lparr>ai_live := ai_live st + 1\<rparr>"] show ?thesis
      by (auto simp: initserver_def os_open_def)
  qed (simp add: initserver_def try_addrs_none)
  have "initsocket_inline SOCK_STREAM = initsocket SOCK_STREAM" by (simp add: fun_eq_iff initsocket_inline_eq)
  then show "Implement_initserver gai scs st = initserver gai scs st"
    by (simp add: Implement_initserver_def initserver_def)
qed

lemma connect_noblock_fails:
  assumes "sc_connect sc = Some EINPROGRESS" and "connect_tcp_impl True 0 sc st = Inr (r, st')"
  shows "r = -1 \<and> fds st' = fds st"
  using assms by (auto simp: connect_tcp_impl_def Let_def os_open_def os_fail_def os_close_def set_noblock_def rbind_eq_Inr
      split: sum.splits option.splits if_splits)

lemma listen_failure_terminates:
  assumes "find can_listen scs = None"
  shows "ServerSocket_listen opt gai scs st = Inl Terminate"
  using assms by (simp add: ServerSocket_listen_def ServerSocket_initserver_def try_addrs_none)

end
