(* ===== verification/Echo.thy ===== *)
theory Echo
  imports Prelude
begin

text \<open>
  Model of the echo server (\<open>echo/Epoll.h\<close>, \<open>echo/Epoll.cpp\<close>, \<open>echo/main.cpp\<close>): events, the epoll
  wrapper, the handlers and the main loop. What the system calls return is an argument of the
  handlers. Shown: while no write is partial, every connection gets back exactly what it sent, for
  every interleaving of connections; and what a partial write does instead.
\<close>

section \<open>Events\<close>

text \<open>
  A connection (\<open>class Event\<close>): its descriptor, the flag that says it is usable, the two buffers of 4096
  bytes with their offsets, and the epoll events it asks for. The callbacks of the class are never set
  by the program and are left out. \<open>new char[4096]\<close> is not initialised: the bytes are an argument.
\<close>

record echo_event =
  ev_fd :: int
  ev_flag :: bool
  ev_buf :: "byte list"
  ev_offset :: int
  ev_wbuf :: "byte list"
  ev_woffset :: int
  ev_events :: u32

abbreviation EPOLLIN :: u32 where "EPOLLIN \<equiv> 1"
abbreviation EPOLLOUT :: u32 where "EPOLLOUT \<equiv> 4"
abbreviation EPOLLERR :: u32 where "EPOLLERR \<equiv> 8"
abbreviation EPOLLHUP :: u32 where "EPOLLHUP \<equiv> 16"
abbreviation EPOLLET :: u32 where "EPOLLET \<equiv> 0x80000000"
abbreviation EAGAIN :: int where "EAGAIN \<equiv> 11"

definition Event_new :: "byte list \<Rightarrow> byte list \<Rightarrow> int \<Rightarrow> echo_event res" where
  "Event_new b1 b2 fd =
     (if fd \<le> 0 then Inl WildDeref
      else Inr \<lparr>ev_fd = fd, ev_flag = True, ev_buf = b1, ev_offset = 0, ev_wbuf = b2, ev_woffset = 0,
        ev_events = EPOLLIN OR EPOLLET\<rparr>)"

text \<open>What \<open>read\<close> and \<open>write\<close> return. \<open>errno\<close> keeps its old value when a call succeeds.\<close>

datatype read_outcome = Got "byte list" | Eof | ReadErr int
datatype write_outcome = Wrote nat | WriteErr int

fun Event_Read :: "read_outcome \<Rightarrow> int \<Rightarrow> echo_event \<Rightarrow> bool \<times> int \<times> echo_event" where
  "Event_Read (Got bs) err p =
     (let bs = take (length (ev_buf p)) bs in
      if bs \<noteq> [] then (True, err, p\<lparr>ev_buf := memcpy (ev_buf p) 0 bs, ev_offset := int (length bs)\<rparr>)
      else (False, err, p\<lparr>ev_flag := False\<rparr>))"
| "Event_Read Eof err p = (False, err, p\<lparr>ev_flag := False\<rparr>)"
| "Event_Read (ReadErr e) err p = (False, e, if e \<noteq> EAGAIN then p\<lparr>ev_flag := False\<rparr> else p)"

text \<open>
  \<open>write\<close> is asked for \<open>offset - woffset\<close> bytes from the start of \<open>wbuf\<close>; more than the buffer holds is a
  read outside it. The result has the bytes that went out.
\<close>

definition Event_Write :: "write_outcome \<Rightarrow> int \<Rightarrow> echo_event \<Rightarrow> (bool \<times> byte list \<times> int \<times> echo_event) res" where
  "Event_Write w err p =
     (let count = ev_offset p - ev_woffset p in
      if count < 0 \<or> nat count > length (ev_wbuf p) then Inl OutOfBounds
      else let n = (case w of Wrote n \<Rightarrow> min n (nat count) | WriteErr e \<Rightarrow> 0);
               ret = (case w of Wrote _ \<Rightarrow> int n | WriteErr e \<Rightarrow> -1);
               err = (case w of Wrote _ \<Rightarrow> err | WriteErr e \<Rightarrow> e);
               out = take n (ev_wbuf p) in
        Inr (if ret = count then (True, out, err, p\<lparr>ev_offset := 0\<rparr>)
             else if err \<noteq> EAGAIN then (False, out, err, p\<lparr>ev_flag := False\<rparr>)
             else if ret > 0 then (False, out, err, p\<lparr>ev_offset := ev_offset p + ret\<rparr>)
             else (False, out, err, p)))"

section \<open>The server\<close>

text \<open>
  The epoll instance holds the events each descriptor is registered for; \<open>esent\<close> is what was sent on
  the connection that has a descriptor. \<open>Epoll::ctl\<close> only prints a
  message when its arguments or the call are bad; \<open>del(fd, NULL)\<close> therefore does nothing, and it is the
  \<open>close\<close> in the destructor of the event that ends the registration.
\<close>

record echo_world =
  ereg :: "int \<rightharpoonup> u32"
  econns :: "int \<rightharpoonup> echo_event"
  eerr :: int
  esent :: "int \<Rightarrow> byte list"

datatype epoll_op = CTL_ADD | CTL_DEL | CTL_MOD

definition Epoll_ctl :: "epoll_op \<Rightarrow> int \<Rightarrow> u32 option \<Rightarrow> (int \<rightharpoonup> u32) \<Rightarrow> (int \<rightharpoonup> u32)" where
  "Epoll_ctl op fd e reg =
     (if fd < 0 then reg
      else case e of None \<Rightarrow> reg
        | Some x \<Rightarrow> (case op of
            CTL_ADD \<Rightarrow> if reg fd = None then reg(fd \<mapsto> x) else reg
          | CTL_DEL \<Rightarrow> reg(fd := None)
          | CTL_MOD \<Rightarrow> if reg fd = None then reg else reg(fd \<mapsto> x)))"

definition Event_delete :: "int \<Rightarrow> echo_world \<Rightarrow> echo_world" where
  "Event_delete fd w = w\<lparr>ereg := (ereg w)(fd := None), econns := (econns w)(fd := None)\<rparr>"

definition err_handler :: "echo_event \<Rightarrow> echo_world \<Rightarrow> echo_world" where
  "err_handler p w = Event_delete (ev_fd p) (w\<lparr>ereg := Epoll_ctl CTL_DEL (ev_fd p) None (ereg w)\<rparr>)"

definition in_handler :: "read_outcome \<Rightarrow> echo_event \<Rightarrow> echo_world \<Rightarrow> echo_world res" where
  "in_handler r p w =
     (case Event_Read r (eerr w) p of (ret, err, p) \<Rightarrow>
      let w = w\<lparr>eerr := err\<rparr> in
      if \<not> ret \<and> \<not> ev_flag p then Inr (err_handler p w)
      else let p = p\<lparr>ev_events := (ev_events p AND NOT EPOLLIN) OR EPOLLOUT\<rparr>;
               w = w\<lparr>ereg := Epoll_ctl CTL_MOD (ev_fd p) (Some (ev_events p)) (ereg w)\<rparr> in
        if nat (ev_offset p) > length (ev_wbuf p) \<or> nat (ev_offset p) > length (ev_buf p) then Inl OutOfBounds
        else Inr (w\<lparr>econns := (econns w)(ev_fd p \<mapsto>
               p\<lparr>ev_wbuf := memcpy (ev_wbuf p) 0 (take (nat (ev_offset p)) (ev_buf p))\<rparr>)\<rparr>))"

definition out_handler :: "write_outcome \<Rightarrow> echo_event \<Rightarrow> echo_world \<Rightarrow> echo_world res" where
  "out_handler o1 p w =
     rbind (Event_Write o1 (eerr w) p) (\<lambda>(ret, out, err, p).
     let w = w\<lparr>eerr := err, esent := (esent w)(ev_fd p := esent w (ev_fd p) @ out)\<rparr> in
     Inr (if \<not> ret \<and> \<not> ev_flag p then err_handler p w
          else if ev_offset p = 0
          then let p = p\<lparr>ev_events := (ev_events p AND NOT EPOLLOUT) OR EPOLLIN\<rparr> in
               w\<lparr>ereg := Epoll_ctl CTL_MOD (ev_fd p) (Some (ev_events p)) (ereg w), econns := (econns w)(ev_fd p \<mapsto> p)\<rparr>
          else w\<lparr>econns := (econns w)(ev_fd p \<mapsto> p)\<rparr>))"

text \<open>\<open>handle_newcon\<close>: connections are accepted until \<open>accept\<close> fails, for whatever reason.\<close>

fun handle_newcon :: "(int \<times> byte list \<times> byte list) list \<Rightarrow> echo_world \<Rightarrow> echo_world res" where
  "handle_newcon [] w = Inr w"
| "handle_newcon ((fd, b1, b2) # cs) w =
     (if fd < 0 then Inr w
      else rbind (Event_new b1 b2 fd) (\<lambda>p.
           handle_newcon cs (w\<lparr>ereg := Epoll_ctl CTL_ADD fd (Some (ev_events p)) (ereg w), econns := (econns w)(fd \<mapsto> p),
             esent := (esent w)(fd := [])\<rparr>)))"

text \<open>
  One entry of the array \<open>epoll_wait\<close> fills: the listening socket with the connections that wait, or
  a connection with its events and what its next read and write will do.
\<close>

datatype echo_ready = Listen "(int \<times> byte list \<times> byte list) list" | Ready int u32 read_outcome write_outcome

fun echo_handler1 :: "echo_ready \<Rightarrow> echo_world \<Rightarrow> echo_world res" where
  "echo_handler1 (Listen cs) w = handle_newcon cs w"
| "echo_handler1 (Ready fd events r o1) w =
     (case econns w fd of None \<Rightarrow> Inl WildDeref
      | Some e \<Rightarrow>
        if events AND EPOLLHUP \<noteq> 0 \<or> events AND EPOLLERR \<noteq> 0 then Inr (err_handler e w)
        else if events AND EPOLLIN \<noteq> 0 then in_handler r e w
        else if events AND EPOLLOUT \<noteq> 0 then out_handler o1 e w
        else Inr w)"

fun echo_handler :: "echo_ready list \<Rightarrow> echo_world \<Rightarrow> echo_world res" where
  "echo_handler [] w = Inr w"
| "echo_handler (e # es) w = rbind (echo_handler1 e w) (echo_handler es)"

text \<open>
  The main loop, with what each call of \<open>epoll_wait\<close> reports (nothing when it fails). The number of
  entries it is given defaults to 10240.
\<close>

definition Epoll_size :: "int \<Rightarrow> int" where
  "Epoll_size epoll_size0 = (if epoll_size0 > 0 then epoll_size0 else 10240)"

fun epoll_main_event_loop :: "int \<Rightarrow> echo_ready list list \<Rightarrow> echo_world \<Rightarrow> echo_world res" where
  "epoll_main_event_loop epollfd [] w = Inr w"
| "epoll_main_event_loop epollfd (b # bs) w =
     (if epollfd \<le> 0 then Inr w
      else if b = [] then epoll_main_event_loop epollfd bs w
      else rbind (echo_handler b w) (epoll_main_event_loop epollfd bs))"

section \<open>Echoing\<close>

text \<open>
  What the kernel may report: events a connection is registered for, besides errors and hang-ups, and
  new descriptors that are not in use. Writes take everything or nothing (EAGAIN) or fail.
\<close>

definition write_fits :: "echo_event \<Rightarrow> write_outcome \<Rightarrow> bool" where
  "write_fits p o1 \<longleftrightarrow> (case o1 of Wrote n \<Rightarrow> ev_offset p - ev_woffset p \<le> int n | WriteErr e \<Rightarrow> True)"

definition new_conns_ok :: "(int \<times> byte list \<times> byte list) list \<Rightarrow> echo_world \<Rightarrow> bool" where
  "new_conns_ok cs w \<longleftrightarrow> distinct (map fst cs) \<and>
     list_all (\<lambda>(fd, b1, b2). 0 < fd \<and> econns w fd = None \<and> ereg w fd = None \<and> length b1 = 4096 \<and> length b2 = 4096) cs"

fun kernel_ok :: "echo_ready \<Rightarrow> echo_world \<Rightarrow> bool" where
  "kernel_ok (Listen cs) w = new_conns_ok cs w"
| "kernel_ok (Ready fd events r o1) w =
     (case (econns w fd, ereg w fd) of
        (Some p, Some x) \<Rightarrow> events AND NOT (x OR EPOLLERR OR EPOLLHUP) = 0 \<and> write_fits p o1
      | _ \<Rightarrow> False)"

text \<open>The bytes each connection has received.\<close>

definition got :: "u32 \<Rightarrow> read_outcome \<Rightarrow> byte list" where
  "got events r =
     (if events AND EPOLLHUP \<noteq> 0 \<or> events AND EPOLLERR \<noteq> 0 \<or> events AND EPOLLIN = 0 then []
      else case r of Got bs \<Rightarrow> take 4096 bs | _ \<Rightarrow> [])"

fun receive :: "echo_ready \<Rightarrow> (int \<Rightarrow> byte list) \<Rightarrow> (int \<Rightarrow> byte list)" where
  "receive (Listen cs) rcv = (\<lambda>fd. if fd \<in> fst ` set cs then [] else rcv fd)"
| "receive (Ready fd events r o1) rcv = rcv(fd := rcv fd @ got events r)"

fun echo_run :: "echo_ready list \<Rightarrow> echo_world \<times> (int \<Rightarrow> byte list) \<Rightarrow> (echo_world \<times> (int \<Rightarrow> byte list)) res option" where
  "echo_run [] s = Some (Inr s)"
| "echo_run (e # es) (w, rcv) =
     (if kernel_ok e w
      then case echo_handler1 e w of Inl f \<Rightarrow> Some (Inl f) | Inr w' \<Rightarrow> echo_run es (w', receive e rcv)
      else None)"

definition echo_start :: "echo_world \<times> (int \<Rightarrow> byte list)" where
  "echo_start = (\<lparr>ereg = Map.empty, econns = Map.empty, eerr = 0, esent = (\<lambda>_. [])\<rparr>, \<lambda>_. [])"

text \<open>What a connection keeps, and the whole server.\<close>

definition reading :: "echo_event \<Rightarrow> bool" where
  "reading p \<longleftrightarrow> ev_events p = EPOLLIN OR EPOLLET"

definition conn_inv :: "int \<Rightarrow> echo_event \<Rightarrow> byte list \<Rightarrow> byte list \<Rightarrow> bool" where
  "conn_inv fd p sent rcv \<longleftrightarrow> ev_fd p = fd \<and> 0 < fd \<and> ev_flag p \<and> length (ev_buf p) = 4096 \<and> length (ev_wbuf p) = 4096 \<and>
     ev_woffset p = 0 \<and>
     (reading p \<and> ev_offset p = 0 \<and> sent = rcv \<or>
      ev_events p = EPOLLOUT OR EPOLLET \<and> 0 \<le> ev_offset p \<and> ev_offset p \<le> 4096 \<and>
      sent @ take (nat (ev_offset p)) (ev_wbuf p) = rcv)"

definition echo_inv :: "echo_world \<Rightarrow> (int \<Rightarrow> byte list) \<Rightarrow> bool" where
  "echo_inv w rcv \<longleftrightarrow> (\<forall>fd p. econns w fd = Some p \<longrightarrow>
     ereg w fd = Some (ev_events p) \<and> conn_inv fd p (esent w fd) (rcv fd))"

lemma echo_invD: "echo_inv w rcv \<Longrightarrow> econns w fd = Some p \<Longrightarrow> ereg w fd = Some (ev_events p) \<and> conn_inv fd p (esent w fd) (rcv fd)"
  by (simp add: echo_inv_def)

text \<open>The arithmetic of the event masks.\<close>

lemma mask_disjoint:
  fixes events x :: u32
  assumes "events AND NOT (x OR EPOLLERR OR EPOLLHUP) = 0"
  shows "x = EPOLLIN OR EPOLLET \<Longrightarrow> events AND EPOLLOUT = 0" and "x = EPOLLOUT OR EPOLLET \<Longrightarrow> events AND EPOLLIN = 0"
proof -
  have sub: "events AND m = (events AND NOT (x OR EPOLLERR OR EPOLLHUP)) AND m" if "NOT (x OR EPOLLERR OR EPOLLHUP) AND m = m" for m
    using that by (simp add: and.assoc)
  show "events AND EPOLLOUT = 0" if "x = EPOLLIN OR EPOLLET"
    using sub [of EPOLLOUT] assms that by simp
  show "events AND EPOLLIN = 0" if "x = EPOLLOUT OR EPOLLET"
    using sub [of EPOLLIN] assms that by simp
qed

text \<open>A handler touches one connection only, which it closes or keeps well-formed.\<close>

definition step_ok :: "int \<Rightarrow> echo_world \<Rightarrow> byte list \<Rightarrow> echo_world \<Rightarrow> bool" where
  "step_ok fd w rcv w' \<longleftrightarrow>
     (\<forall>fd'. fd' \<noteq> fd \<longrightarrow> econns w' fd' = econns w fd' \<and> ereg w' fd' = ereg w fd' \<and> esent w' fd' = esent w fd') \<and>
     (\<forall>p. econns w' fd = Some p \<longrightarrow> ereg w' fd = Some (ev_events p) \<and> conn_inv fd p (esent w' fd) rcv)"

lemma err_handler_step: "ev_fd p = fd \<Longrightarrow> step_ok fd w rcv (err_handler p w)"
  by (simp add: step_ok_def err_handler_def Event_delete_def Epoll_ctl_def)

lemma step_ok_eerr [simp]: "step_ok fd (w\<lparr>eerr := e\<rparr>) rcv w' \<longleftrightarrow> step_ok fd w rcv w'"
  by (simp add: step_ok_def)

lemma in_handler_step:
  assumes c: "conn_inv fd p (esent w fd) rcv" and rd: "reading p" and reg: "ereg w fd = Some (ev_events p)"
  shows "\<exists>w'. in_handler r p w = Inr w' \<and> step_ok fd w (rcv @ (case r of Got bs \<Rightarrow> take 4096 bs | _ \<Rightarrow> [])) w'"
proof -
  have ev: "ev_events p = EPOLLIN OR EPOLLET" using rd by (simp add: reading_def)
  have p: "ev_fd p = fd" "0 < fd" "ev_flag p" "length (ev_buf p) = 4096" "length (ev_wbuf p) = 4096" "ev_woffset p = 0"
    "ev_offset p = 0" "esent w fd = rcv" using c rd by (auto simp: conn_inv_def reading_def)
  note defs = in_handler_def step_ok_def conn_inv_def reading_def Epoll_ctl_def Let_def
  show ?thesis
  proof (cases r)
    case (Got bs)
    show ?thesis
    proof (cases "take 4096 bs = []")
      case True
      then have "in_handler r p w = Inr (err_handler (p\<lparr>ev_flag := False\<rparr>) (w\<lparr>eerr := eerr w\<rparr>))"
        using Got p by (simp add: in_handler_def)
      then show ?thesis using err_handler_step [of "p\<lparr>ev_flag := False\<rparr>" fd "w\<lparr>eerr := eerr w\<rparr>"] p by simp
    next
      case False
      let ?bs = "take 4096 bs"
      have l: "length ?bs \<le> 4096" "bs \<noteq> []" using False by auto
      have "take (length ?bs) (memcpy (ev_buf p) 0 ?bs) = ?bs" by (rule take_memcpy_0)
      moreover have "take (length ?bs) (memcpy (ev_wbuf p) 0 ?bs) = ?bs" by (rule take_memcpy_0)
      ultimately show ?thesis using Got False p ev reg l
        by (simp add: defs)
    qed
  next
    case Eof
    then show ?thesis using err_handler_step [of "p\<lparr>ev_flag := False\<rparr>" fd w] p by (simp add: in_handler_def)
  next
    case (ReadErr e)
    show ?thesis
    proof (cases "e = EAGAIN")
      case True
      then show ?thesis using ReadErr p ev reg by (simp add: defs memcpy_def)
    next
      case False
      then show ?thesis using ReadErr err_handler_step [of "p\<lparr>ev_flag := False\<rparr>" fd "w\<lparr>eerr := e\<rparr>"] p
        by (simp add: in_handler_def)
    qed
  qed
qed

lemma out_handler_step:
  assumes c: "conn_inv fd p (esent w fd) rcv" and wr: "\<not> reading p" and reg: "ereg w fd = Some (ev_events p)" and "write_fits p o1"
  shows "\<exists>w'. out_handler o1 p w = Inr w' \<and> step_ok fd w rcv w'"
proof -
  have p: "ev_fd p = fd" "0 < fd" "ev_flag p" "length (ev_buf p) = 4096" "length (ev_wbuf p) = 4096" "ev_woffset p = 0"
    "ev_events p = EPOLLOUT OR EPOLLET" "0 \<le> ev_offset p" "ev_offset p \<le> 4096"
    "esent w fd @ take (nat (ev_offset p)) (ev_wbuf p) = rcv" using c wr by (auto simp: conn_inv_def)
  note defs = out_handler_def Event_Write_def step_ok_def conn_inv_def reading_def Epoll_ctl_def Let_def
  show ?thesis
  proof (cases o1)
    case (Wrote n)
    then have "ev_offset p \<le> int n" using \<open>write_fits p o1\<close> p by (simp add: write_fits_def)
    then have "min n (nat (ev_offset p)) = nat (ev_offset p)" by simp
    then show ?thesis using Wrote p reg by (simp add: defs)
  next
    case (WriteErr e)
    show ?thesis
    proof (cases "e = EAGAIN")
      case True
      then show ?thesis using WriteErr p reg by (auto simp: defs)
    next
      case False
      then show ?thesis using WriteErr p
          err_handler_step [of "p\<lparr>ev_flag := False\<rparr>" fd "w\<lparr>eerr := e, esent := (esent w)(fd := esent w fd @ [])\<rparr>" rcv]
        by (auto simp: out_handler_def Event_Write_def Let_def step_ok_def)
    qed
  qed
qed

lemma step_inv: "echo_inv w rcv \<Longrightarrow> step_ok fd w r w' \<Longrightarrow> echo_inv w' (rcv(fd := r))"
  unfolding echo_inv_def step_ok_def by (metis fun_upd_apply)

lemma ready_inv:
  assumes inv: "echo_inv w rcv" and k: "kernel_ok (Ready fd events r o1) w"
  shows "\<exists>w'. echo_handler1 (Ready fd events r o1) w = Inr w' \<and> echo_inv w' (receive (Ready fd events r o1) rcv)"
proof -
  from k obtain p x where p: "econns w fd = Some p" "ereg w fd = Some x"
    "events AND NOT (x OR EPOLLERR OR EPOLLHUP) = 0" "write_fits p o1" by (auto split: option.splits)
  from echo_invD [OF inv p(1)] p(2) have x: "x = ev_events p" "ereg w fd = Some (ev_events p)"
    and c: "conn_inv fd p (esent w fd) (rcv fd)" by auto
  have same: "step_ok fd w (rcv fd) w" using p(1) x c by (simp add: step_ok_def)
  have "\<exists>w'. echo_handler1 (Ready fd events r o1) w = Inr w' \<and> step_ok fd w (rcv fd @ got events r) w'"
  proof (cases "events AND EPOLLHUP \<noteq> 0 \<or> events AND EPOLLERR \<noteq> 0")
    case True
    then show ?thesis using p(1) c err_handler_step [of p fd w] by (auto simp: conn_inv_def)
  next
    case ok: False
    show ?thesis
    proof (cases "reading p")
      case True
      then have "events AND EPOLLOUT = 0" using mask_disjoint(1) [OF p(3)] x by (simp add: reading_def)
      with ok p(1) in_handler_step [OF c True x(2), of r] same show ?thesis
        by (cases "events AND EPOLLIN = 0") (auto simp: got_def)
    next
      case False
      then have "ev_events p = EPOLLOUT OR EPOLLET" using c by (simp add: conn_inv_def)
      then have "events AND EPOLLIN = 0" using mask_disjoint(2) [OF p(3)] x by simp
      with ok p(1) out_handler_step [OF c False x(2) p(4)] same show ?thesis
        by (cases "events AND EPOLLOUT = 0") (auto simp: got_def)
    qed
  qed
  with step_inv [OF inv] show ?thesis by auto
qed

lemma newcon_inv:
  assumes "echo_inv w rcv" and "new_conns_ok cs w"
  shows "\<exists>w'. handle_newcon cs w = Inr w' \<and> echo_inv w' (receive (Listen cs) rcv)"
  using assms
proof (induction cs arbitrary: w rcv)
  case (Cons c cs)
  obtain fd b1 b2 where c: "c = (fd, b1, b2)" by (cases c) auto
  have ok: "0 < fd" "econns w fd = None" "ereg w fd = None" "length b1 = 4096" "length b2 = 4096" "fd \<notin> fst ` set cs"
    using Cons.prems(2) c by (auto simp: new_conns_ok_def)
  define p where "p = \<lparr>ev_fd = fd, ev_flag = True, ev_buf = b1, ev_offset = 0, ev_wbuf = b2, ev_woffset = 0,
    ev_events = EPOLLIN OR EPOLLET\<rparr>"
  define w1 where "w1 = w\<lparr>ereg := (ereg w)(fd \<mapsto> ev_events p), econns := (econns w)(fd \<mapsto> p), esent := (esent w)(fd := [])\<rparr>"
  have "echo_inv w1 (rcv(fd := []))"
    using Cons.prems(1) ok by (auto simp: echo_inv_def w1_def p_def conn_inv_def reading_def)
  moreover have "new_conns_ok cs w1"
    using Cons.prems(2) ok(6) by (force simp: new_conns_ok_def w1_def list_all_iff c)
  ultimately obtain w' where w': "handle_newcon cs w1 = Inr w'" "echo_inv w' (receive (Listen cs) (rcv(fd := [])))"
    using Cons.IH by blast
  have "handle_newcon (c # cs) w = handle_newcon cs w1"
    using ok by (simp add: c Event_new_def Epoll_ctl_def w1_def p_def)
  moreover have "receive (Listen cs) (rcv(fd := [])) = receive (Listen (c # cs)) rcv"
    by (auto simp: c fun_eq_iff)
  ultimately show ?case using w' by simp
qed simp

lemma event_inv:
  assumes "echo_inv w rcv" and "kernel_ok e w"
  shows "\<exists>w'. echo_handler1 e w = Inr w' \<and> echo_inv w' (receive e rcv)"
proof (cases e)
  case (Listen cs)
  with newcon_inv assms show ?thesis by fastforce
next
  case (Ready fd events r o1)
  with ready_inv assms show ?thesis by blast
qed

lemma echo_run_inv:
  assumes "echo_run es (w, rcv) = Some r" and "echo_inv w rcv"
  shows "\<exists>w' rcv'. r = Inr (w', rcv') \<and> echo_inv w' rcv'"
  using assms
proof (induction es arbitrary: w rcv)
  case (Cons e es)
  then have k: "kernel_ok e w" by (auto split: if_splits)
  from event_inv [OF Cons.prems(2) k] obtain w1 where "echo_handler1 e w = Inr w1" "echo_inv w1 (receive e rcv)" by blast
  with Cons k show ?case by auto
qed auto

lemma conn_inv_reading: "conn_inv fd p sent rcv \<Longrightarrow> reading p \<Longrightarrow> rcv = sent"
  by (simp add: conn_inv_def reading_def)

text \<open>
  C21. The echo server echoes: whatever connections come, whatever they send and in whatever order
  the kernel reports events, as long as each write takes all it is given or nothing, the server never
  faults, what was sent on a live connection is a prefix of what was received on it, and it is all of
  it when the server waits for input.
\<close>

theorem echo_server_echoes:
  assumes "echo_run es echo_start = Some r"
  shows "\<exists>w rcv. r = Inr (w, rcv) \<and> (\<forall>fd p. econns w fd = Some p \<longrightarrow>
    (\<exists>rest. rcv fd = esent w fd @ rest \<and> (reading p \<longrightarrow> rest = []) \<and> length rest \<le> 4096))"
proof -
  have "echo_inv (fst echo_start) (snd echo_start)" by (simp add: echo_inv_def echo_start_def)
  with echo_run_inv [of es "fst echo_start" "snd echo_start" r] assms obtain w rcv where
    w: "r = Inr (w, rcv)" "echo_inv w rcv" by auto
  have "\<exists>rest. rcv fd = esent w fd @ rest \<and> (reading p \<longrightarrow> rest = []) \<and> length rest \<le> 4096" if "econns w fd = Some p" for fd p
  proof (cases "reading p")
    case True
    then have "rcv fd = esent w fd" using echo_invD [OF w(2) that] conn_inv_reading by blast
    then show ?thesis by simp
  next
    case False
    then have "rcv fd = esent w fd @ take (nat (ev_offset p)) (ev_wbuf p)" "length (ev_wbuf p) = 4096"
      using echo_invD [OF w(2) that] by (auto simp: conn_inv_def)
    with False show ?thesis by (intro exI [of _ "take (nat (ev_offset p)) (ev_wbuf p)"]) simp
  qed
  with w(1) show ?thesis by blast
qed

definition two_messages :: "echo_ready list" where
  "two_messages = [Listen [(5, replicate 4096 0, replicate 4096 0)], Ready 5 EPOLLIN (Got [1, 2, 3]) (Wrote 0),
     Ready 5 EPOLLOUT Eof (Wrote 3), Ready 5 EPOLLIN (Got [4]) (Wrote 0), Ready 5 EPOLLOUT Eof (WriteErr EAGAIN)]"

theorem echo_server_echoes_witness:
  "\<exists>w rcv rest. echo_run two_messages echo_start = Some (Inr (w, rcv)) \<and> rcv 5 = esent w 5 @ rest"
proof -
  have "\<exists>w rcv p. echo_run two_messages echo_start = Some (Inr (w, rcv)) \<and> econns w 5 = Some p"
    by (simp add: two_messages_def echo_start_def new_conns_ok_def Event_new_def Epoll_ctl_def write_fits_def in_handler_def
        out_handler_def Event_Write_def memcpy_def Let_def)
  then obtain w rcv p where w: "echo_run two_messages echo_start = Some (Inr (w, rcv))" "econns w 5 = Some p" by blast
  from echo_server_echoes [OF w(1)] w(2) obtain rest where "rcv 5 = esent w 5 @ rest" by auto
  with w(1) show ?thesis by blast
qed

text \<open>
  The proviso matters. After a write that takes only \<open>n\<close> bytes the old \<open>errno\<close> decides: if it is not
  EAGAIN the connection is given up; if it is, \<open>offset\<close> grows by \<open>n\<close> instead of \<open>woffset\<close>, so that the next
  write starts again at the first byte and asks for more bytes than there are, beyond the end of the
  buffer when the message was long enough.
\<close>

lemma partial_write:
  assumes "ev_woffset p = 0" and "ev_offset p = int k" and "k \<le> length (ev_wbuf p)" and "0 < n" and "n < k"
  shows "\<exists>q. Event_Write (Wrote n) err p = Inr (False, take n (ev_wbuf p), err, q) \<and>
    (if err = EAGAIN
     then (if k + n \<le> length (ev_wbuf p)
           then Event_Write (Wrote (k + n)) err q = Inr (True, take (k + n) (ev_wbuf p), err, q\<lparr>ev_offset := 0\<rparr>)
           else Event_Write (Wrote m) err q = Inl OutOfBounds)
     else \<not> ev_flag q)"
proof -
  have "\<not> (int k < 0 \<or> nat (int k) > length (ev_wbuf p))" "min n k = n" "int n \<noteq> int k" using assms by auto
  then show ?thesis using assms by (simp add: Event_Write_def Let_def nat_add_distrib of_nat_add [symmetric] del: of_nat_add)
qed

end
