(* ===== verification/Chat.thy ===== *)
theory Chat
  imports Prelude
begin

text \<open>
  Model of the chat server (\<open>chat/chat.h\<close>, \<open>chat/chat.cpp\<close>). The library boost.asio is the
  environment: it completes asynchronous accepts, reads and writes in any order, each at most once.
  Shown: a session never reads into its buffer while writes from it are under way; messages are
  forwarded exactly once to each other client and no client is forgotten, as long as writes succeed
  and nobody sends alone; and that these two cases block a client for ever.
\<close>

section \<open>Sessions\<close>

text \<open>
  A session (\<open>chat_session\<close>) is named by a number, as the code names it by its address. It has an
  asynchronous read under way or not, the counter \<open>i\<close>, and the data of its last read, in the buffer
  from which the writes to the other clients are made. The server has the vector of clients; \<open>pending\<close>
  are the asynchronous writes (sender, receiver, data) that have not completed, \<open>delivered\<close> those that
  have succeeded. \<open>i\<close> is not initialised, its first value is arbitrary.
\<close>

record session =
  reading :: bool
  ch_i :: int
  ch_buf :: "byte list"

type_synonym message = "nat \<times> nat \<times> byte list"

record chat =
  clients :: "nat list"
  sessions :: "nat \<Rightarrow> session"
  pending :: "message list"
  delivered :: "message list"

definition do_read :: "nat \<Rightarrow> chat \<Rightarrow> chat" where
  "do_read s c = c\<lparr>sessions := (sessions c)(s := (sessions c s)\<lparr>reading := True\<rparr>)\<rparr>"

definition delete_this_client :: "nat \<Rightarrow> chat \<Rightarrow> chat" where
  "delete_this_client s c = c\<lparr>clients := remove1 s (clients c)\<rparr>"

definition do_release :: "nat \<Rightarrow> chat \<Rightarrow> chat" where
  "do_release s c = delete_this_client s c"

definition do_write :: "nat \<Rightarrow> chat \<Rightarrow> chat" where
  "do_write s c =
     (let x = sessions c s; i = ch_i x - 1;
          c = c\<lparr>sessions := (sessions c)(s := x\<lparr>ch_i := i\<rparr>)\<rparr>
      in if i = 1 then do_read s c else c)"

text \<open>
  The loop of the read handler over the clients: it counts all of them and starts a write to each but
  the session itself.
\<close>

fun forward_loop :: "nat \<Rightarrow> byte list \<Rightarrow> nat list \<Rightarrow> int \<times> message list \<Rightarrow> int \<times> message list" where
  "forward_loop s data [] st = st"
| "forward_loop s data (x # xs) (i, ms) = forward_loop s data xs (i + 1, if x = s then ms else ms @ [(s, x, data)])"

definition read_handler :: "nat \<Rightarrow> byte list option \<Rightarrow> chat \<Rightarrow> chat" where
  "read_handler s r c =
     (let c = c\<lparr>sessions := (sessions c)(s := (sessions c s)\<lparr>reading := False\<rparr>)\<rparr> in
      case r of None \<Rightarrow> do_release s c
      | Some data \<Rightarrow>
        (case forward_loop s data (clients c) (0, []) of (i, ms) \<Rightarrow>
         c\<lparr>sessions := (sessions c)(s := (sessions c s)\<lparr>ch_i := i, ch_buf := data\<rparr>), pending := pending c @ ms\<rparr>))"

definition write_handler :: "message \<Rightarrow> bool \<Rightarrow> chat \<Rightarrow> chat" where
  "write_handler m good c =
     (let c = c\<lparr>pending := remove1 m (pending c)\<rparr> in
      if good then do_write (fst m) (c\<lparr>delivered := delivered c @ [m]\<rparr>) else c)"

text \<open>\<open>do_accept\<close>: a new session joins the clients and starts to read.\<close>

definition accept_handler :: "nat option \<Rightarrow> int \<Rightarrow> chat \<Rightarrow> chat" where
  "accept_handler s junk c =
     (case s of None \<Rightarrow> c
      | Some x \<Rightarrow> do_read x (c\<lparr>clients := clients c @ [x],
          sessions := (sessions c)(x := \<lparr>reading = False, ch_i = junk, ch_buf = []\<rparr>)\<rparr>))"

section \<open>Runs\<close>

text \<open>
  The completions boost.asio may deliver: of an accept (with a new session, or an error), of a read a
  session has under way (data that fits the buffer, or an error), of a pending write.
\<close>

datatype completion = Accept "nat option" int | ReadDone nat "byte list option" | WriteDone message bool

fun enabled :: "completion \<Rightarrow> chat \<Rightarrow> bool" where
  "enabled (Accept None junk) c = True"
| "enabled (Accept (Some s) junk) c = (s \<notin> set (clients c) \<and> \<not> reading (sessions c s) \<and> s \<notin> fst ` set (pending c))"
| "enabled (ReadDone s r) c = (reading (sessions c s) \<and> (case r of None \<Rightarrow> True | Some d \<Rightarrow> d \<noteq> [] \<and> length d \<le> 4096))"
| "enabled (WriteDone m good) c = (m \<in> set (pending c))"

fun complete :: "completion \<Rightarrow> chat \<Rightarrow> chat" where
  "complete (Accept s junk) c = accept_handler s junk c"
| "complete (ReadDone s r) c = read_handler s r c"
| "complete (WriteDone m good) c = write_handler m good c"

fun chat_run :: "completion list \<Rightarrow> chat \<Rightarrow> chat option" where
  "chat_run [] c = Some c"
| "chat_run (e # es) c = (if enabled e c then chat_run es (complete e c) else None)"

definition chat_start :: chat where
  "chat_start = \<lparr>clients = [], sessions = (\<lambda>_. \<lparr>reading = False, ch_i = 0, ch_buf = []\<rparr>), pending = [], delivered = []\<rparr>"

definition sends :: "chat \<Rightarrow> nat \<Rightarrow> nat" where
  "sends c s = length (filter (\<lambda>m. fst m = s) (pending c))"

text \<open>
  What holds in every run: the clients are distinct, a session that reads is one of them and has no
  write under way, a session with writes under way is a client whose counter is above their number,
  and each of these writes has the contents of the buffer of its session.
\<close>

definition chat_inv :: "chat \<Rightarrow> bool" where
  "chat_inv c \<longleftrightarrow> distinct (clients c) \<and>
     (\<forall>s. reading (sessions c s) \<longrightarrow> s \<in> set (clients c) \<and> sends c s = 0) \<and>
     (\<forall>s. sends c s \<noteq> 0 \<longrightarrow> s \<in> set (clients c) \<and> int (sends c s) < ch_i (sessions c s)) \<and>
     (\<forall>m \<in> set (pending c). snd (snd m) = ch_buf (sessions c (fst m)))"

lemma forward_loop_spec:
  "forward_loop s data xs (i, ms) = (i + int (length xs), ms @ map (\<lambda>x. (s, x, data)) (filter (\<lambda>x. x \<noteq> s) xs))"
  by (induction xs arbitrary: i ms) auto

lemma read_handler_some:
  "read_handler s (Some data) c =
     c\<lparr>sessions := (sessions c)(s := \<lparr>reading = False, ch_i = int (length (clients c)), ch_buf = data\<rparr>),
       pending := pending c @ map (\<lambda>x. (s, x, data)) (filter (\<lambda>x. x \<noteq> s) (clients c))\<rparr>"
  by (cases "sessions c s") (simp add: read_handler_def forward_loop_spec Let_def)

lemma read_handler_none:
  "read_handler s None c =
     c\<lparr>sessions := (sessions c)(s := (sessions c s)\<lparr>reading := False\<rparr>), clients := remove1 s (clients c)\<rparr>"
  by (simp add: read_handler_def do_release_def delete_this_client_def)

lemma length_others: "distinct xs \<Longrightarrow> s \<in> set xs \<Longrightarrow> length (filter (\<lambda>x. x \<noteq> s) xs) = length xs - 1"
proof (induction xs)
  case (Cons x xs)
  have "filter (\<lambda>y. y \<noteq> s) xs = xs" if "s \<notin> set xs" using that by (induction xs) auto
  with Cons show ?case by (cases xs) auto
qed simp

lemma sends_remove1:
  assumes "m \<in> set (pending c)"
  shows "sends (c\<lparr>pending := remove1 m (pending c)\<rparr>) s = (if fst m = s then sends c s - 1 else sends c s)"
    and "fst m = s \<Longrightarrow> sends c s \<noteq> 0"
proof -
  have f: "filter (\<lambda>m. fst m = s) (remove1 m xs) = (if fst m = s then remove1 m (filter (\<lambda>m. fst m = s) xs) else filter (\<lambda>m. fst m = s) xs)" for xs
    by (induction xs) auto
  have mem: "m \<in> set (filter (\<lambda>m. fst m = s) (pending c))" if "fst m = s" using assms that by simp
  show "sends (c\<lparr>pending := remove1 m (pending c)\<rparr>) s = (if fst m = s then sends c s - 1 else sends c s)"
    using mem by (simp add: sends_def f length_remove1)
  show "sends c s \<noteq> 0" if "fst m = s" using mem [OF that] by (auto simp: sends_def filter_empty_conv)
qed

lemma sends_cong: "pending c' = pending c \<Longrightarrow> sends c' s = sends c s"
  by (simp add: sends_def)

lemma sends_zero: "sends c s = 0 \<longleftrightarrow> s \<notin> fst ` set (pending c)"
  by (auto simp: sends_def filter_empty_conv)

lemma sends_broadcast:
  assumes "distinct (clients c)" and "s \<in> set (clients c)" and "sends c s = 0"
  shows "sends (read_handler s (Some data) c) y = (if y = s then length (clients c) - 1 else sends c y)"
proof -
  have "filter (\<lambda>m. fst m = y) (map (\<lambda>x. (s, x, data)) xs) = (if y = s then map (\<lambda>x. (s, x, data)) xs else [])" for xs
    by (induction xs) auto
  then show ?thesis using assms length_others [OF assms(1,2)] by (simp add: read_handler_some sends_def)
qed

lemma accept_inv:
  assumes "chat_inv c" and "enabled (Accept s junk) c"
  shows "chat_inv (accept_handler s junk c)"
proof (cases s)
  case (Some x)
  then have x: "x \<notin> set (clients c)" "sends c x = 0" "x \<notin> fst ` set (pending c)" using assms(2) by (auto simp: sends_zero)
  have p: "sends (accept_handler s junk c) y = sends c y" for y
    by (rule sends_cong) (simp add: Some accept_handler_def do_read_def)
  have buf: "snd (snd m) = ch_buf (sessions (accept_handler s junk c) (fst m))" if "m \<in> set (pending c)" for m
  proof -
    have "fst m \<noteq> x" using x(3) that by auto
    then show ?thesis using assms(1) that by (simp add: Some accept_handler_def do_read_def chat_inv_def)
  qed
  show ?thesis using assms(1) x buf unfolding chat_inv_def p
    by (auto simp: Some accept_handler_def do_read_def)
qed (use assms in \<open>simp add: accept_handler_def\<close>)

lemma read_inv:
  assumes inv: "chat_inv c" and "reading (sessions c s)"
  shows "chat_inv (read_handler s r c)"
proof -
  have s: "s \<in> set (clients c)" "sends c s = 0" "distinct (clients c)" using assms by (auto simp: chat_inv_def)
  then have np: "s \<notin> fst ` set (pending c)" by (simp add: sends_zero)
  show ?thesis
  proof (cases r)
    case None
    note eq = read_handler_none [of s c, folded None]
    have p: "sends (read_handler s r c) y = sends c y" for y by (rule sends_cong) (simp add: eq)
    show ?thesis using inv s np unfolding chat_inv_def p by (auto simp: eq)
  next
    case (Some data)
    let ?c = "read_handler s (Some data) c"
    note p = sends_broadcast [OF s(3,1,2), of data]
    have buf: "snd (snd m) = ch_buf (sessions ?c (fst m))" if "m \<in> set (pending ?c)" for m
    proof (cases "fst m = s")
      case True
      then have "m \<notin> set (pending c)" using np by auto
      then have "m \<in> (\<lambda>x. (s, x, data)) ` set (clients c)" using that by (auto simp: read_handler_some)
      then show ?thesis by (auto simp: read_handler_some)
    next
      case False
      then have "m \<in> set (pending c)" using that by (auto simp: read_handler_some)
      then show ?thesis using inv False by (simp add: read_handler_some chat_inv_def)
    qed
    have "reading (sessions ?c y) \<Longrightarrow> y \<in> set (clients ?c) \<and> sends ?c y = 0" for y
      using inv unfolding p by (auto simp: read_handler_some chat_inv_def split: if_splits)
    moreover have "sends ?c y \<noteq> 0 \<Longrightarrow> y \<in> set (clients ?c) \<and> int (sends ?c y) < ch_i (sessions ?c y)" for y
      using inv s unfolding p by (auto simp: read_handler_some chat_inv_def)
    moreover have "distinct (clients ?c)" using s(3) by (simp add: read_handler_some)
    ultimately show ?thesis using buf unfolding chat_inv_def Some by blast
  qed
qed

lemma write_inv:
  assumes inv: "chat_inv c" and m: "m \<in> set (pending c)"
  shows "chat_inv (write_handler m good c)"
proof -
  let ?s = "fst m" and ?c = "c\<lparr>pending := remove1 m (pending c)\<rparr>"
  note sd = sends_remove1 [OF m]
  have s: "?s \<in> set (clients c)" "int (sends c ?s) < ch_i (sessions c ?s)" "sends c ?s \<noteq> 0"
    using inv sd(2) [of ?s] by (auto simp: chat_inv_def)
  have nr: "\<not> reading (sessions c ?s)" using inv s(3) by (auto simp: chat_inv_def)
  have lt: "int (sends c y) < ch_i (sessions c y)" if "sends c y \<noteq> 0" for y using inv that by (simp add: chat_inv_def)
  have pend: "set (pending ?c) \<subseteq> set (pending c)" using set_remove1_subset [of m "pending c"] by simp
  have i1: "chat_inv ?c"
    unfolding chat_inv_def sd(1)
  proof (intro conjI allI impI ballI)
    show "distinct (clients ?c)" using inv by (simp add: chat_inv_def)
    fix y
    show "y \<in> set (clients ?c)" if "reading (sessions ?c y)" using inv that by (simp add: chat_inv_def)
    show "(if ?s = y then sends c y - 1 else sends c y) = 0" if "reading (sessions ?c y)" using inv that by (auto simp: chat_inv_def)
    show "y \<in> set (clients ?c)" if "(if ?s = y then sends c y - 1 else sends c y) \<noteq> 0"
      using inv that by (auto simp: chat_inv_def split: if_splits)
    show "int (if ?s = y then sends c y - 1 else sends c y) < ch_i (sessions ?c y)" if "(if ?s = y then sends c y - 1 else sends c y) \<noteq> 0"
      using lt [of y] that by (auto split: if_splits)
  next
    fix x
    assume "x \<in> set (pending ?c)"
    with pend inv show "snd (snd x) = ch_buf (sessions ?c (fst x))" by (auto simp: chat_inv_def)
  qed
  show ?thesis
  proof (cases good)
    case False
    with i1 show ?thesis by (simp add: write_handler_def)
  next
    case True
    let ?i = "ch_i (sessions c ?s) - 1"
    define c2 where "c2 = write_handler m True c"
    have c2: "clients c2 = clients c" "pending c2 = remove1 m (pending c)"
      "sessions c2 = (sessions c)(?s := (sessions c ?s)\<lparr>ch_i := ?i, reading := (?i = 1)\<rparr>)"
      using nr by (auto simp: c2_def write_handler_def do_write_def do_read_def Let_def fun_eq_iff)
    have p: "sends c2 y = (if ?s = y then sends c y - 1 else sends c y)" for y
      using sd(1) [of y] sends_cong [of c2 ?c y] c2(2) by simp
    have "chat_inv c2"
      unfolding chat_inv_def p
    proof (intro conjI allI impI ballI)
      show "distinct (clients c2)" using inv by (simp add: chat_inv_def c2)
      fix y
      show "y \<in> set (clients c2)" if "reading (sessions c2 y)" using inv s that by (auto simp: chat_inv_def c2 split: if_splits)
      show "(if ?s = y then sends c y - 1 else sends c y) = 0" if "reading (sessions c2 y)"
      proof (cases "?s = y")
        case True
        with that have "ch_i (sessions c ?s) = 2" by (auto simp: c2)
        with s(2) True show ?thesis by auto
      next
        case False
        with that inv show ?thesis by (auto simp: c2 chat_inv_def)
      qed
      show "y \<in> set (clients c2)" if "(if ?s = y then sends c y - 1 else sends c y) \<noteq> 0"
        using inv that by (auto simp: chat_inv_def c2 split: if_splits)
      show "int (if ?s = y then sends c y - 1 else sends c y) < ch_i (sessions c2 y)" if "(if ?s = y then sends c y - 1 else sends c y) \<noteq> 0"
        using lt [of y] that by (auto simp: c2 split: if_splits)
    next
      fix x
      assume "x \<in> set (pending c2)"
      with pend inv c2 show "snd (snd x) = ch_buf (sessions c2 (fst x))" by (auto simp: chat_inv_def)
    qed
    with True show ?thesis by (simp add: c2_def)
  qed
qed

lemma complete_inv:
  assumes "chat_inv c" and "enabled e c"
  shows "chat_inv (complete e c)"
  using assms accept_inv read_inv write_inv by (cases e) auto

lemma chat_run_inv: "chat_run es c = Some c' \<Longrightarrow> chat_inv c \<Longrightarrow> chat_inv c'"
  by (induction es arbitrary: c) (auto simp: complete_inv split: if_splits)

lemma chat_start_inv: "chat_inv chat_start"
  by (simp add: chat_inv_def chat_start_def sends_def)

text \<open>
  However connections come and go and in whatever order reads and writes complete, a session of
  the chat server never reads into its buffer while writes from it are under way: all the writes that
  are pending have the data of the session's last read.
\<close>

theorem chat_buffer_safe:
  assumes "chat_run es chat_start = Some c"
  shows "(reading (sessions c s) \<longrightarrow> s \<notin> fst ` set (pending c)) \<and>
    list_all (\<lambda>(from, to, data). data = ch_buf (sessions c from)) (pending c)"
  using chat_run_inv [OF assms chat_start_inv] by (auto simp: chat_inv_def sends_zero list_all_iff)

definition three_join :: "completion list" where
  "three_join = [Accept (Some 1) 0, Accept (Some 2) 0, Accept (Some 3) 0, ReadDone 1 (Some [65, 66]), WriteDone (1, 3, [65, 66]) True]"

theorem chat_buffer_safe_witness:
  "\<exists>c. chat_run three_join chat_start = Some c \<and> pending c = [(1, 2, [65, 66])] \<and>
     list_all (\<lambda>(from, to, data). data = ch_buf (sessions c from)) (pending c)"
proof -
  have "map_option pending (chat_run three_join chat_start) = Some [(1, 2, [65, 66])]" by code_simp
  then obtain c where "chat_run three_join chat_start = Some c" "pending c = [(1, 2, [65, 66])]" by blast
  with chat_buffer_safe [OF this(1)] show ?thesis by blast
qed

section \<open>Who gets stuck\<close>

text \<open>
  The runs in which every write succeeds and nobody sends while being the only client; the messages
  due in a run: each message a session reads, once for every other client.
\<close>

fun smooth :: "completion \<Rightarrow> chat \<Rightarrow> bool" where
  "smooth (ReadDone s (Some data)) c = (2 \<le> length (clients c))"
| "smooth (WriteDone m good) c = good"
| "smooth e c = True"

fun due :: "completion list \<Rightarrow> chat \<Rightarrow> message list" where
  "due [] c = []"
| "due (ReadDone s (Some data) # es) c =
     map (\<lambda>x. (s, x, data)) (filter (\<lambda>x. x \<noteq> s) (clients c)) @ due es (complete (ReadDone s (Some data)) c)"
| "due (e # es) c = due es (complete e c)"

fun smooth_run :: "completion list \<Rightarrow> chat \<Rightarrow> bool" where
  "smooth_run [] c = True"
| "smooth_run (e # es) c = (smooth e c \<and> smooth_run es (complete e c))"

definition live_inv :: "chat \<Rightarrow> bool" where
  "live_inv c \<longleftrightarrow> chat_inv c \<and> (\<forall>s \<in> set (clients c). \<not> reading (sessions c s) \<longrightarrow>
     0 < sends c s \<and> ch_i (sessions c s) = 1 + int (sends c s))"

lemma accept_live:
  assumes "live_inv c" and "enabled (Accept s junk) c"
  shows "live_inv (accept_handler s junk c)"
proof (cases s)
  case (Some x)
  have p: "sends (accept_handler s junk c) y = sends c y" for y
    by (rule sends_cong) (simp add: Some accept_handler_def do_read_def)
  have "chat_inv (accept_handler s junk c)" using assms by (intro accept_inv) (auto simp: live_inv_def)
  moreover have "0 < sends c y \<and> ch_i (sessions (accept_handler s junk c) y) = 1 + int (sends c y)"
    if "y \<in> set (clients (accept_handler s junk c))" "\<not> reading (sessions (accept_handler s junk c) y)" for y
    using that assms by (auto simp: Some accept_handler_def do_read_def live_inv_def split: if_splits)
  ultimately show ?thesis unfolding live_inv_def p by blast
qed (use assms in \<open>simp add: accept_handler_def\<close>)

lemma read_live:
  assumes "live_inv c" and rd: "reading (sessions c s)" and "r \<noteq> None \<Longrightarrow> 2 \<le> length (clients c)"
  shows "live_inv (read_handler s r c)"
proof -
  have inv: "chat_inv c" and live: "\<And>y. y \<in> set (clients c) \<Longrightarrow> \<not> reading (sessions c y) \<Longrightarrow>
      0 < sends c y \<and> ch_i (sessions c y) = 1 + int (sends c y)" using assms(1) by (auto simp: live_inv_def)
  have s: "s \<in> set (clients c)" "sends c s = 0" "distinct (clients c)" using inv rd by (auto simp: chat_inv_def)
  show ?thesis
  proof (cases r)
    case None
    note eq = read_handler_none [of s c, folded None]
    have p: "sends (read_handler s r c) y = sends c y" for y by (rule sends_cong) (simp add: eq)
    have "0 < sends c y \<and> ch_i (sessions (read_handler s r c) y) = 1 + int (sends c y)"
      if "y \<in> set (clients (read_handler s r c))" "\<not> reading (sessions (read_handler s r c) y)" for y
      using that live [of y] s(3) by (auto simp: eq split: if_splits)
    with read_inv [OF inv rd, of r] show ?thesis unfolding live_inv_def p by blast
  next
    case (Some data)
    let ?c = "read_handler s (Some data) c"
    note p = sends_broadcast [OF s(3,1,2), of data]
    have "0 < sends ?c y \<and> ch_i (sessions ?c y) = 1 + int (sends ?c y)"
      if "y \<in> set (clients ?c)" "\<not> reading (sessions ?c y)" for y
      using that live [of y] assms(3) Some unfolding p by (auto simp: read_handler_some)
    with read_inv [OF inv rd, of r] Some show ?thesis unfolding live_inv_def by blast
  qed
qed

lemma write_live:
  assumes live: "live_inv c" and m: "m \<in> set (pending c)"
  shows "live_inv (write_handler m True c)"
proof -
  let ?s = "fst m"
  have inv: "chat_inv c" using live by (simp add: live_inv_def)
  note sd = sends_remove1 [OF m]
  have s: "?s \<in> set (clients c)" "sends c ?s \<noteq> 0" using inv sd(2) [of ?s] by (auto simp: chat_inv_def)
  have nr: "\<not> reading (sessions c ?s)" using inv s by (auto simp: chat_inv_def)
  then have i: "ch_i (sessions c ?s) = 1 + int (sends c ?s)" using live s by (auto simp: live_inv_def)
  define c2 where "c2 = write_handler m True c"
  have c2: "clients c2 = clients c" "pending c2 = remove1 m (pending c)"
    "sessions c2 = (sessions c)(?s := (sessions c ?s)\<lparr>ch_i := int (sends c ?s), reading := (sends c ?s = 1)\<rparr>)"
    using nr i by (auto simp: c2_def write_handler_def do_write_def do_read_def Let_def fun_eq_iff)
  have p: "sends c2 y = (if ?s = y then sends c y - 1 else sends c y)" for y
    using sd(1) [of y] sends_cong [of c2 "c\<lparr>pending := remove1 m (pending c)\<rparr>" y] c2(2) by simp
  have "0 < sends c2 y \<and> ch_i (sessions c2 y) = 1 + int (sends c2 y)"
    if "y \<in> set (clients c2)" "\<not> reading (sessions c2 y)" for y
    using that live s(2) unfolding p by (auto simp: c2 live_inv_def split: if_splits)
  with write_inv [OF inv m, of True] show ?thesis unfolding live_inv_def c2_def by blast
qed

lemma complete_live:
  assumes "live_inv c" and "enabled e c" and "smooth e c"
  shows "live_inv (complete e c)"
proof (cases e)
  case (ReadDone s r)
  then show ?thesis using assms read_live [of c s r] by (cases r) auto
qed (use assms accept_live write_live in auto)

lemma chat_run_live: "chat_run es c = Some c' \<Longrightarrow> smooth_run es c \<Longrightarrow> live_inv c \<Longrightarrow> live_inv c'"
  by (induction es arbitrary: c) (auto simp: complete_live split: if_splits)

lemma complete_messages:
  assumes "enabled e c" and "smooth e c"
  shows "mset (delivered (complete e c)) + mset (pending (complete e c)) = mset (delivered c) + mset (pending c) + mset (due [e] c)"
proof (cases e)
  case (ReadDone s r)
  then show ?thesis
    by (cases r) (auto simp: read_handler_some read_handler_none)
next
  case (WriteDone m good)
  with assms have "m \<in> set (pending c)" good by auto
  with WriteDone show ?thesis by (simp add: write_handler_def do_write_def do_read_def Let_def)
next
  case (Accept s junk)
  then show ?thesis by (cases s) (auto simp: accept_handler_def do_read_def)
qed

lemma due_Cons: "due (e # es) c = due [e] c @ due es (complete e c)"
proof (cases e)
  case (ReadDone s r)
  then show ?thesis by (cases r) auto
qed auto

lemma chat_run_messages:
  "chat_run es c = Some c' \<Longrightarrow> smooth_run es c \<Longrightarrow>
     mset (delivered c') + mset (pending c') = mset (delivered c) + mset (pending c) + mset (due es c)"
proof (induction es arbitrary: c)
  case (Cons e es)
  then show ?case using complete_messages [of e c] by (simp add: due_Cons [of e es] split: if_splits)
qed simp

text \<open>
  C22. While writes succeed and nobody sends alone, the chat server forwards and never blocks: every
  message a client sends is delivered, or still being written, exactly once to each of the other
  clients of that moment, and every client is either being read from or has writes under way.
\<close>

theorem chat_forwards:
  assumes "chat_run es chat_start = Some c" and "smooth_run es chat_start"
  shows "mset (delivered c) + mset (pending c) = mset (due es chat_start) \<and>
    list_all (\<lambda>s. reading (sessions c s) \<or> s \<in> fst ` set (pending c)) (clients c)"
proof -
  have "live_inv chat_start" using chat_start_inv by (simp add: live_inv_def chat_start_def)
  from chat_run_live [OF assms this] have "list_all (\<lambda>s. reading (sessions c s) \<or> s \<in> fst ` set (pending c)) (clients c)"
    unfolding list_all_iff live_inv_def by (metis sends_zero less_irrefl)
  moreover have "delivered chat_start = []" "pending chat_start = []" by (simp_all add: chat_start_def)
  ultimately show ?thesis using chat_run_messages [OF assms] by simp
qed

theorem chat_forwards_witness:
  "\<exists>c. chat_run three_join chat_start = Some c \<and>
     mset (delivered c) + mset (pending c) = {#(1, 2, [65, 66]), (1, 3, [65, 66])#}"
proof -
  have "map_option pending (chat_run three_join chat_start) = Some [(1, 2, [65, 66])]" by code_simp
  then obtain c where c: "chat_run three_join chat_start = Some c" by blast
  moreover have "smooth_run three_join chat_start" by code_simp
  moreover have "due three_join chat_start = [(1, 2, [65, 66]), (1, 3, [65, 66])]" by code_simp
  ultimately show ?thesis using chat_forwards [OF c] by auto
qed

text \<open>
  The provisos matter: a client that sends while it is alone is never read from again, whoever joins
  later, and a write that fails has the same effect on its sender, whose counter stays above 1.
\<close>

definition stuck :: "chat \<Rightarrow> nat \<Rightarrow> bool" where
  "stuck c s \<longleftrightarrow> s \<in> set (clients c) \<and> \<not> reading (sessions c s) \<and> s \<notin> fst ` set (pending c)"

lemma alone_stuck:
  assumes "clients c = [s]" and "reading (sessions c s)" and "chat_inv c"
  shows "stuck (read_handler s (Some data) c) s"
proof -
  have "s \<notin> fst ` set (pending c)" using assms(2,3) by (simp add: chat_inv_def sends_zero)
  with assms(1) show ?thesis by (simp add: stuck_def read_handler_some)
qed

lemma failed_write_stuck:
  assumes "chat_inv c" and "sends c s = 1" and "m \<in> set (pending c)" and "fst m = s"
  shows "stuck (write_handler m False c) s"
proof -
  have "sends (write_handler m False c) s = 0"
    using sends_remove1(1) [OF assms(3), of s] assms(2,4) by (simp add: write_handler_def)
  moreover have "s \<in> set (clients c)" "\<not> reading (sessions c s)" using assms(1,2) by (auto simp: chat_inv_def)
  ultimately show ?thesis by (simp add: stuck_def sends_zero) (simp add: write_handler_def)
qed

lemma stuck_forever:
  assumes "stuck c s" and "chat_run es c = Some c'"
  shows "stuck c' s"
  using assms
proof (induction es arbitrary: c)
  case (Cons e es)
  have "stuck (complete e c) s"
  proof (cases e)
    case (Accept x junk)
    with Cons.prems show ?thesis by (cases x) (auto simp: stuck_def accept_handler_def do_read_def split: if_splits)
  next
    case (ReadDone x r)
    with Cons.prems show ?thesis
      by (cases r) (auto simp: stuck_def read_handler_some read_handler_none split: if_splits)
  next
    case (WriteDone m good)
    have "fst m \<noteq> s" using WriteDone Cons.prems by (auto simp: stuck_def split: if_splits)
    moreover have "s \<notin> fst ` set (remove1 m (pending c))"
      using Cons.prems(1) set_remove1_subset [of m "pending c"] by (auto simp: stuck_def)
    ultimately show ?thesis using WriteDone Cons.prems(1)
      by (simp add: stuck_def write_handler_def do_write_def do_read_def Let_def)
  qed
  with Cons show ?case by (auto split: if_splits)
qed simp

end
