(* ===== verification/Buffer.thy ===== *)
theory Buffer
  imports Prelude
begin

text \<open>
  Model of \<open>liby_cpp/Buffer.cpp\<close> and \<open>liby_cpp/Buffer.h\<close>: a block of memory with the indices of the
  first byte in use and behind the last. A byte that was never written is \<open>None\<close>; the null pointer
  is the block \<open>None\<close>. Indices and capacities are natural numbers: the code never stores a negative
  one without having touched memory outside the block before. An argument passed by reference is a
  value: no operation is called with an alias of its own object.

  The locale \<open>byte_stream\<close> is what the users of a buffer rely on, interpreted on \<open>append\<close> and
  \<open>retriveveAsString\<close>.
\<close>

section \<open>State\<close>

type_synonym cell = "byte option"

record buffer =
  mem :: "cell list option"
  leftIndex :: nat
  rightIndex :: nat
  cap :: nat

text \<open>Reading a cell that was never written gives some byte.\<close>

definition cell_byte :: "byte \<Rightarrow> cell \<Rightarrow> byte" where
  "cell_byte junk x = (case x of None \<Rightarrow> junk | Some y \<Rightarrow> y)"

text \<open>
  \<open>memcpy\<close> and \<open>memmove\<close> between offsets of blocks of memory: reading or writing outside a block is a
  fault. \<open>memmove\<close> reads all bytes before it writes.
\<close>

definition read_block :: "cell list \<Rightarrow> nat \<Rightarrow> nat \<Rightarrow> cell list res" where
  "read_block m off n = (if off + n \<le> length m then Inr (take n (drop off m)) else Inl OutOfBounds)"

definition write_block :: "cell list \<Rightarrow> nat \<Rightarrow> cell list \<Rightarrow> cell list res" where
  "write_block m off bs = (if off + length bs \<le> length m then Inr (memcpy m off bs) else Inl OutOfBounds)"

definition memmove :: "cell list \<Rightarrow> nat \<Rightarrow> nat \<Rightarrow> nat \<Rightarrow> cell list res" where
  "memmove m dst src n = rbind (read_block m src n) (write_block m dst)"

definition fresh :: "nat \<Rightarrow> cell list" where
  "fresh n = replicate n None"

text \<open>The block of a buffer; copying 0 bytes from a null pointer does nothing.\<close>

definition block :: "buffer \<Rightarrow> cell list" where
  "block b = (case mem b of None \<Rightarrow> [] | Some m \<Rightarrow> m)"

section \<open>Construction\<close>

definition Buffer_default :: buffer where
  "Buffer_default = \<lparr>mem = None, leftIndex = 0, rightIndex = 0, cap = 0\<rparr>"

definition Buffer_length :: "nat \<Rightarrow> buffer" where
  "Buffer_length n = \<lparr>mem = Some (fresh n), leftIndex = 0, rightIndex = 0, cap = n\<rparr>"

definition Buffer_bytes :: "byte list \<Rightarrow> buffer" where
  "Buffer_bytes bs = \<lparr>mem = Some (map Some bs), leftIndex = 0, rightIndex = length bs, cap = length bs\<rparr>"

text \<open>A string is copied with its terminating zero.\<close>

definition Buffer_string :: "byte list \<Rightarrow> buffer" where
  "Buffer_string bs = Buffer_bytes (bs @ [0])"

definition setBuffer :: "cell list \<Rightarrow> buffer \<Rightarrow> buffer" where
  "setBuffer bs b = b\<lparr>mem := Some bs, leftIndex := 0, rightIndex := length bs, cap := length bs\<rparr>"

definition resetBuffer :: "buffer \<Rightarrow> buffer" where
  "resetBuffer b = b\<lparr>mem := None\<rparr>"

section \<open>Observers\<close>

definition data :: "buffer \<Rightarrow> (cell list \<times> nat) res" where
  "data b = (case mem b of None \<Rightarrow> Inl AssertFail
     | Some m \<Rightarrow> if rightIndex b \<ge> leftIndex b then Inr (m, leftIndex b) else Inl AssertFail)"

definition wdata :: "buffer \<Rightarrow> (cell list \<times> nat) res" where
  "wdata b = (case mem b of None \<Rightarrow> Inl AssertFail
     | Some m \<Rightarrow> if rightIndex b \<ge> leftIndex b then Inr (m, rightIndex b) else Inl AssertFail)"

definition bsize :: "buffer \<Rightarrow> nat res" where
  "bsize b = (if rightIndex b \<ge> leftIndex b then Inr (rightIndex b - leftIndex b) else Inl AssertFail)"

definition capacity :: "buffer \<Rightarrow> nat res" where
  "capacity b = (if cap b > 0 \<and> rightIndex b \<ge> leftIndex b then Inr (cap b) else Inl AssertFail)"

definition availbleSize :: "buffer \<Rightarrow> nat res" where
  "availbleSize b = (if mem b \<noteq> None \<and> rightIndex b \<ge> leftIndex b then Inr (cap b - rightIndex b) else Inl AssertFail)"

definition bempty :: "buffer \<Rightarrow> bool" where
  "bempty b \<longleftrightarrow> leftIndex b = rightIndex b"

section \<open>Moving the contents\<close>

definition forward :: "int \<Rightarrow> buffer \<Rightarrow> buffer res" where
  "forward offset b =
     rbind (guard (offset \<ge> 0) AssertFail) (\<lambda>_.
     let off = nat offset; l = leftIndex b; r = rightIndex b in
     if off = 0 then
       (if l = 0 then Inr b
        else rbind (deref (mem b)) (\<lambda>m.
             rbind (bsize b) (\<lambda>n.
             rbind (memmove m 0 l n) (\<lambda>m'.
             Inr (b\<lparr>mem := Some m', rightIndex := r - l, leftIndex := 0\<rparr>)))))
     else if off \<ge> r then Inr (b\<lparr>leftIndex := 0, rightIndex := 0\<rparr>)
     else if off \<le> l then
       rbind (deref (mem b)) (\<lambda>m.
       rbind (memmove m (l - off) l (r - l)) (\<lambda>m'.
       Inr (b\<lparr>mem := Some m', leftIndex := l - off, rightIndex := r - off\<rparr>)))
     else
       rbind (deref (mem b)) (\<lambda>m.
       rbind (memmove m 0 (r - off) (r - off)) (\<lambda>m'.
       Inr (b\<lparr>mem := Some m', leftIndex := 0, rightIndex := r - off\<rparr>))))"

definition backward :: "int \<Rightarrow> buffer \<Rightarrow> buffer res" where
  "backward offset b =
     rbind (guard (offset \<ge> 0) AssertFail) (\<lambda>_.
     let off = nat offset; l = leftIndex b; r = rightIndex b; c = cap b in
     if off = 0 then
       (if r = c then Inr b
        else rbind (deref (mem b)) (\<lambda>m.
             rbind (memmove m (l + c - r) l (c - r)) (\<lambda>m'.
             Inr (b\<lparr>mem := Some m', leftIndex := l + (c - r), rightIndex := c\<rparr>))))
     else if off \<ge> c - l then Inr (b\<lparr>leftIndex := c, rightIndex := c\<rparr>)
     else if off \<le> c - r then
       rbind (deref (mem b)) (\<lambda>m.
       rbind (memmove m (l + off) l (r - l)) (\<lambda>m'.
       Inr (b\<lparr>mem := Some m', leftIndex := l + off, rightIndex := r + off\<rparr>)))
     else
       rbind (deref (mem b)) (\<lambda>m.
       rbind (memmove m (l + off) l (c - l - off)) (\<lambda>m'.
       Inr (b\<lparr>mem := Some m', leftIndex := l + (c - l - off), rightIndex := c\<rparr>))))"

section \<open>Growing\<close>

text \<open>The loop of \<open>reserve\<close>; \<open>None\<close> is a loop that does not return.\<close>

partial_function (option) double_up :: "nat \<Rightarrow> nat \<Rightarrow> nat option" where
  "double_up n k = (if n < k then double_up (2 * n) k else Some n)"

declare double_up.simps [code]

definition resize_buffer :: "nat \<Rightarrow> buffer \<Rightarrow> buffer res" where
  "resize_buffer k b =
     (if k < cap b then Inr b
      else rbind (bsize b) (\<lambda>n.
           rbind (read_block (block b) (leftIndex b) n) (\<lambda>bs.
           rbind (write_block (fresh k) (leftIndex b) bs) (\<lambda>m'.
           Inr (b\<lparr>mem := Some m', cap := k\<rparr>)))))"

definition reserve :: "nat \<Rightarrow> buffer \<Rightarrow> buffer res" where
  "reserve k b =
     (if k < cap b then Inr b
      else rbind (returned (map_option Inr (double_up (2 * cap b) k))) (\<lambda>n. resize_buffer n b))"

definition safeAppend :: "cell list \<Rightarrow> buffer \<Rightarrow> buffer res" where
  "safeAppend bs b =
     rbind (deref (mem b)) (\<lambda>m.
     rbind (write_block m (rightIndex b) bs) (\<lambda>m'.
     Inr (b\<lparr>mem := Some m', rightIndex := rightIndex b + length bs\<rparr>)))"

definition safePreappend :: "cell list \<Rightarrow> buffer \<Rightarrow> buffer res" where
  "safePreappend bs b =
     rbind (data b) (\<lambda>(m, off).
     if length bs \<le> off then
       rbind (write_block m (off - length bs) bs) (\<lambda>m'.
       Inr (b\<lparr>mem := Some m', leftIndex := leftIndex b - length bs\<rparr>))
     else Inl OutOfBounds)"

text \<open>\<open>append(off_t)\<close> accounts for bytes written behind \<open>wdata()\<close>, the other versions copy bytes.\<close>

definition append_count :: "int \<Rightarrow> buffer \<Rightarrow> buffer res" where
  "append_count n b =
     (if n \<ge> 0 \<and> int (rightIndex b) + n \<le> int (cap b) then Inr (b\<lparr>rightIndex := rightIndex b + nat n\<rparr>)
      else Inl AssertFail)"

definition append_bytes :: "cell list \<Rightarrow> buffer \<Rightarrow> buffer res" where
  "append_bytes bs b =
     rbind (guard (length bs > 0) AssertFail) (\<lambda>_.
     let len = length bs in
     rbind (if int (cap b) - int (rightIndex b) \<ge> int len then Inr b
            else rbind (bsize b) (\<lambda>n.
                 if len + n \<le> cap b then forward 0 b
                 else reserve (n + len + leftIndex b) b))
       (safeAppend bs))"

definition append_buffer :: "buffer \<Rightarrow> buffer \<Rightarrow> buffer res" where
  "append_buffer that b =
     rbind (data that) (\<lambda>(m, off).
     rbind (bsize that) (\<lambda>n.
     rbind (read_block m off n) (\<lambda>bs. append_bytes bs b)))"

definition append_string :: "byte list \<Rightarrow> buffer \<Rightarrow> buffer res" where
  "append_string s b = append_bytes (map Some (s @ [0])) b"

definition prepend_bytes :: "cell list \<Rightarrow> buffer \<Rightarrow> buffer res" where
  "prepend_bytes bs b =
     rbind (guard (length bs > 0) AssertFail) (\<lambda>_.
     let len = length bs in
     rbind (if leftIndex b \<ge> len then Inr b
            else rbind (bsize b) (\<lambda>n.
                 if len + n \<le> cap b then backward (int len - int (leftIndex b)) b
                 else append_buffer b (Buffer_length (len + n))))
       (safePreappend bs))"

definition prepend_buffer :: "buffer \<Rightarrow> buffer \<Rightarrow> buffer res" where
  "prepend_buffer that b =
     rbind (data that) (\<lambda>(m, off).
     rbind (bsize that) (\<lambda>n.
     rbind (read_block m off n) (\<lambda>bs. prepend_bytes bs b)))"

definition prepend_string :: "byte list \<Rightarrow> buffer \<Rightarrow> buffer res" where
  "prepend_string s b = prepend_bytes (map Some (s @ [0])) b"

definition deepCopy :: "buffer \<Rightarrow> buffer \<Rightarrow> buffer res" where
  "deepCopy that b =
     (let b1 = resetBuffer b in
      rbind (bsize that) (\<lambda>n.
      rbind (data that) (\<lambda>(m, off).
      rbind (read_block m off n) (\<lambda>bs.
      rbind (write_block (fresh n) 0 bs) (\<lambda>m'.
      Inr (b1\<lparr>cap := n, mem := Some m', leftIndex := 0, rightIndex := n\<rparr>))))))"

section \<open>Taking bytes out\<close>

definition retrieve_all :: "buffer \<Rightarrow> buffer" where
  "retrieve_all b = b\<lparr>leftIndex := 0, rightIndex := 0\<rparr>"

definition retrieve :: "int \<Rightarrow> buffer \<Rightarrow> buffer res" where
  "retrieve len b =
     rbind (guard (len \<ge> 0) AssertFail) (\<lambda>_.
     rbind (bsize b) (\<lambda>n.
     if n = 0 then Inr b
     else if nat len > n then Inr (b\<lparr>leftIndex := 0, rightIndex := 0\<rparr>)
     else Inr (b\<lparr>leftIndex := leftIndex b + nat len\<rparr>)))"

text \<open>
  \<open>retriveveAsString\<close> calls itself with the size when the length is 0 or too large; \<open>None\<close> is a
  recursion that does not return.
\<close>

definition take_string :: "nat \<Rightarrow> buffer \<Rightarrow> (cell list \<times> buffer) res" where
  "take_string len b =
     rbind (data b) (\<lambda>(m, off).
     rbind (read_block m off len) (\<lambda>bs.
     rbind (retrieve (int len) b) (\<lambda>b'. Inr (bs, b'))))"

partial_function (option) as_string :: "int \<Rightarrow> buffer \<Rightarrow> (cell list \<times> buffer) res option" where
  "as_string len b =
     (if len \<ge> 0 then
        (case bsize b of
           Inl e \<Rightarrow> Some (Inl e)
         | Inr n \<Rightarrow> if len = 0 \<or> len > int n then as_string (int n) b else Some (take_string (nat len) b))
      else Some (Inl AssertFail))"

declare as_string.simps [code]

definition retriveveAsString :: "int \<Rightarrow> buffer \<Rightarrow> (cell list \<times> buffer) res" where
  "retriveveAsString len b = returned (as_string len b)"

definition retriveveAllAsString :: "buffer \<Rightarrow> (cell list \<times> buffer) res" where
  "retriveveAllAsString b = rbind (bsize b) (\<lambda>n. retriveveAsString (int n) b)"

text \<open>\<open>retriveveAsVector\<close> copies everything but retrieves only \<open>len\<close> bytes.\<close>

definition take_vector :: "nat \<Rightarrow> buffer \<Rightarrow> (cell list \<times> buffer) res" where
  "take_vector len b =
     rbind (deref (mem b)) (\<lambda>m.
     rbind (bsize b) (\<lambda>n.
     rbind (read_block m (leftIndex b) n) (\<lambda>bs.
     rbind (retrieve (int len) b) (\<lambda>b'. Inr (bs, b')))))"

partial_function (option) as_vector :: "int \<Rightarrow> buffer \<Rightarrow> (cell list \<times> buffer) res option" where
  "as_vector len b =
     (if len \<ge> 0 then
        (case bsize b of
           Inl e \<Rightarrow> Some (Inl e)
         | Inr n \<Rightarrow> if len = 0 \<or> len > int n then as_vector (int n) b else Some (take_vector (nat len) b))
      else Some (Inl AssertFail))"

declare as_vector.simps [code]

definition retriveveAsVector :: "int \<Rightarrow> buffer \<Rightarrow> (cell list \<times> buffer) res" where
  "retriveveAsVector len b = returned (as_vector len b)"

definition retriveveAllAsVector :: "buffer \<Rightarrow> (cell list \<times> buffer) res" where
  "retriveveAllAsVector b = rbind (bsize b) (\<lambda>n. retriveveAsVector (int n) b)"

section \<open>Shrinking\<close>

definition shrink :: "nat \<Rightarrow> buffer \<Rightarrow> buffer res" where
  "shrink len b =
     (if len < cap b then
        rbind (deref (mem b)) (\<lambda>m.
        rbind (read_block m 0 len) (\<lambda>bs.
        rbind (write_block (fresh len) 0 bs) (\<lambda>m'.
        Inr (b\<lparr>mem := Some m', cap := len, leftIndex := 0, rightIndex := 0\<rparr>))))
      else Inr b)"

definition shrink_to_fit :: "nat \<Rightarrow> buffer \<Rightarrow> buffer res" where
  "shrink_to_fit len b =
     rbind (bsize b) (\<lambda>n.
     if len < n then shrink n b
     else if len < cap b - leftIndex b then
       rbind (read_block (block b) (leftIndex b) n) (\<lambda>bs.
       rbind (write_block (fresh (len + leftIndex b)) (leftIndex b) bs) (\<lambda>m'.
       Inr (b\<lparr>mem := Some m', cap := len + leftIndex b\<rparr>)))
     else Inr b)"

text \<open>\<open>swap\<close> exchanges two buffers; \<open>copy\<close> moves one into another.\<close>

definition swap_buffers :: "buffer \<Rightarrow> buffer \<Rightarrow> buffer \<times> buffer" where
  "swap_buffers this that = (that, this)"

definition copy_buffer :: "buffer \<Rightarrow> buffer \<Rightarrow> buffer \<times> buffer" where
  "copy_buffer this that =
     (let this = resetBuffer this in
      (\<lparr>mem = mem that, leftIndex = leftIndex that, rightIndex = rightIndex that, cap = cap that\<rparr>,
       that\<lparr>mem := None\<rparr>))"

section \<open>Contents and well-formedness\<close>

definition wf_buffer :: "buffer \<Rightarrow> bool" where
  "wf_buffer b \<longleftrightarrow> leftIndex b \<le> rightIndex b \<and> rightIndex b \<le> cap b \<and>
     (case mem b of None \<Rightarrow> cap b = 0 | Some m \<Rightarrow> length m = cap b)"

definition contents :: "buffer \<Rightarrow> cell list" where
  "contents b = take (rightIndex b - leftIndex b) (drop (leftIndex b) (block b))"

lemma length_block: "wf_buffer b \<Longrightarrow> length (block b) = cap b"
  by (auto simp: wf_buffer_def block_def split: option.splits)

lemma wf_bsize [simp]: "wf_buffer b \<Longrightarrow> bsize b = Inr (rightIndex b - leftIndex b)"
  by (simp add: wf_buffer_def bsize_def)

lemma length_contents [simp]: "wf_buffer b \<Longrightarrow> length (contents b) = rightIndex b - leftIndex b"
  using length_block [of b] by (auto simp: contents_def wf_buffer_def)

lemma read_contents:
  assumes "wf_buffer b" "n \<le> rightIndex b - leftIndex b"
  shows "read_block (block b) (leftIndex b) n = Inr (take n (contents b))"
  using assms length_block [of b] by (auto simp: read_block_def contents_def wf_buffer_def min_def)

lemma wf_memE:
  assumes "wf_buffer b" "cap b > 0"
  obtains m where "mem b = Some m" "block b = m" "length m = cap b"
  using assms by (auto simp: wf_buffer_def block_def split: option.splits)

lemma take_drop_memcpy:
  assumes "off + length bs \<le> length m"
  shows "take (length bs) (drop off (memcpy m off bs)) = bs"
  using assms by (simp add: memcpy_def)

lemma take_drop_memcpy_before:
  assumes "off + length bs \<le> length m" "i + n \<le> off"
  shows "take n (drop i (memcpy m off bs)) = take n (drop i m)"
  using assms by (simp add: memcpy_def take_drop)

lemma contents_memcpy:
  assumes "l + length bs \<le> length m" and "block b = memcpy m l bs" "leftIndex b = l" "rightIndex b = l + length bs"
  shows "contents b = bs"
  using assms by (simp add: contents_def take_drop_memcpy)

lemma forward_0:
  assumes wf: "wf_buffer b"
  shows "\<exists>b'. forward 0 b = Inr b' \<and> wf_buffer b' \<and> contents b' = contents b \<and> cap b' = cap b \<and> leftIndex b' = 0"
proof (cases "leftIndex b = 0")
  case True
  then show ?thesis using wf by (simp add: forward_def)
next
  case False
  then have "cap b > 0" using wf by (auto simp: wf_buffer_def)
  from wf_memE [OF wf this] obtain m where m: "mem b = Some m" "block b = m" "length m = cap b" .
  have le: "leftIndex b \<le> rightIndex b" "rightIndex b \<le> cap b" using wf by (auto simp: wf_buffer_def)
  have rd: "read_block m (leftIndex b) (rightIndex b - leftIndex b) = Inr (contents b)"
    using read_contents [OF wf order_refl] wf m by simp
  let ?b = "b\<lparr>mem := Some (memcpy m 0 (contents b)), rightIndex := rightIndex b - leftIndex b, leftIndex := 0\<rparr>"
  have len: "length (contents b) \<le> length m" using wf le m by simp
  have "forward 0 b = Inr ?b"
    using False wf m rd len by (simp add: forward_def memmove_def write_block_def)
  moreover have "contents ?b = contents b"
    by (rule contents_memcpy [of 0 _ m]) (use wf len in \<open>simp_all add: block_def\<close>)
  moreover have "wf_buffer ?b" using le m len by (simp add: wf_buffer_def)
  ultimately show ?thesis by simp
qed

text \<open>
  The loops that may not return. Doubling ends from a capacity above 0; from 0 a loop that returned
  would have to have left the state 0, which it never does.
\<close>

lemma double_up_ok: "n > 0 \<Longrightarrow> \<exists>n'. double_up n k = Some n' \<and> n \<le> n' \<and> k \<le> n'"
proof (induction "k - n" arbitrary: n rule: less_induct)
  case less
  show ?case
  proof (cases "n < k")
    case True
    with less.prems have "k - 2 * n < k - n" "2 * n > 0" by linarith+
    with less.hyps obtain n' where "double_up (2 * n) k = Some n'" "2 * n \<le> n'" "k \<le> n'" by blast
    with True show ?thesis by (subst double_up.simps) simp
  next
    case False
    then show ?thesis by (subst double_up.simps) simp
  qed
qed

lemma double_up_0:
  assumes "k > 0"
  shows "double_up 0 k = None"
proof -
  have stays: "n = 0 \<longrightarrow> \<not> n < k" if "double_up n k = Some r" for n k r
  proof (rule double_up.raw_induct [where P = "\<lambda>n k r. n = 0 \<longrightarrow> \<not> n < k", OF _ that])
    fix f and n k r :: nat
    assume IH: "\<And>n k r. f n k = Some r \<Longrightarrow> n = 0 \<longrightarrow> \<not> n < k"
      and eq: "(if n < k then f (2 * n) k else Some n) = Some r"
    show "n = 0 \<longrightarrow> \<not> n < k" using eq IH [of "2 * n" k r] by (auto split: if_splits)
  qed
  with assms show ?thesis by (cases "double_up 0 k") auto
qed

lemma as_string_empty:
  assumes "bsize b = Inr 0" and "len \<ge> 0"
  shows "as_string len b = None"
proof -
  have stays: "\<not> (bsize b = Inr 0 \<and> len \<ge> 0)" if "as_string len b = Some r" for len b r
  proof (rule as_string.raw_induct [where P = "\<lambda>len b r. \<not> (bsize b = Inr 0 \<and> len \<ge> 0)", OF _ that])
    fix f len b r
    assume IH: "\<And>len b r. f len b = Some r \<Longrightarrow> \<not> (bsize b = Inr 0 \<and> len \<ge> 0)"
      and eq: "(if len \<ge> 0 then (case bsize b of Inl e \<Rightarrow> Some (Inl e)
         | Inr n \<Rightarrow> if len = 0 \<or> len > int n then f (int n) b else Some (take_string (nat len) b))
      else Some (Inl AssertFail)) = Some r"
    show "\<not> (bsize b = Inr 0 \<and> len \<ge> 0)"
      using eq IH [of 0 b r] by (auto split: if_splits)
  qed
  with assms show ?thesis by (cases "as_string len b") auto
qed

lemma as_vector_empty:
  assumes "bsize b = Inr 0" and "len \<ge> 0"
  shows "as_vector len b = None"
proof -
  have stays: "\<not> (bsize b = Inr 0 \<and> len \<ge> 0)" if "as_vector len b = Some r" for len b r
  proof (rule as_vector.raw_induct [where P = "\<lambda>len b r. \<not> (bsize b = Inr 0 \<and> len \<ge> 0)", OF _ that])
    fix f len b r
    assume IH: "\<And>len b r. f len b = Some r \<Longrightarrow> \<not> (bsize b = Inr 0 \<and> len \<ge> 0)"
      and eq: "(if len \<ge> 0 then (case bsize b of Inl e \<Rightarrow> Some (Inl e)
         | Inr n \<Rightarrow> if len = 0 \<or> len > int n then f (int n) b else Some (take_vector (nat len) b))
      else Some (Inl AssertFail)) = Some r"
    show "\<not> (bsize b = Inr 0 \<and> len \<ge> 0)"
      using eq IH [of 0 b r] by (auto split: if_splits)
  qed
  with assms show ?thesis by (cases "as_vector len b") auto
qed

text \<open>A buffer that is not empty answers after at most one call of itself.\<close>

lemma retriveveAsString_eq:
  "retriveveAsString len b =
     rbind (guard (len \<ge> 0) AssertFail) (\<lambda>_.
     rbind (bsize b) (\<lambda>n.
     if n = 0 then Inl NoReturn
     else take_string (if len = 0 \<or> len > int n then n else nat len) b))"
proof (cases "bsize b")
  case (Inr n)
  have full: "as_string (int n) b = Some (take_string n b)" if "n \<noteq> 0"
    using that Inr by (subst as_string.simps) simp
  show ?thesis
  proof (cases "n = 0")
    case True
    then show ?thesis
      using Inr as_string_empty [of b len] by (cases "len \<ge> 0") (simp_all add: retriveveAsString_def as_string.simps [of len b])
  qed (use Inr full in \<open>simp add: retriveveAsString_def as_string.simps [of len b]\<close>)
qed (simp add: retriveveAsString_def as_string.simps [of len b])

lemma retriveveAsVector_eq:
  "retriveveAsVector len b =
     rbind (guard (len \<ge> 0) AssertFail) (\<lambda>_.
     rbind (bsize b) (\<lambda>n.
     if n = 0 then Inl NoReturn
     else take_vector (if len = 0 \<or> len > int n then n else nat len) b))"
proof (cases "bsize b")
  case (Inr n)
  have full: "as_vector (int n) b = Some (take_vector n b)" if "n \<noteq> 0"
    using that Inr by (subst as_vector.simps) simp
  show ?thesis
  proof (cases "n = 0")
    case True
    then show ?thesis
      using Inr as_vector_empty [of b len] by (cases "len \<ge> 0") (simp_all add: retriveveAsVector_def as_vector.simps [of len b])
  qed (use Inr full in \<open>simp add: retriveveAsVector_def as_vector.simps [of len b]\<close>)
qed (simp add: retriveveAsVector_def as_vector.simps [of len b])

lemma resize_ok:
  assumes wf: "wf_buffer b" and k: "cap b \<le> k"
  shows "\<exists>b'. resize_buffer k b = Inr b' \<and> wf_buffer b' \<and> contents b' = contents b \<and> cap b' = k \<and>
    mem b' \<noteq> None \<and> leftIndex b' = leftIndex b \<and> rightIndex b' = rightIndex b"
proof -
  have le: "leftIndex b \<le> rightIndex b" "rightIndex b \<le> cap b" using wf by (auto simp: wf_buffer_def)
  let ?b = "b\<lparr>mem := Some (memcpy (fresh k) (leftIndex b) (contents b)), cap := k\<rparr>"
  have len: "leftIndex b + length (contents b) \<le> length (fresh k)" using wf le k by (simp add: fresh_def)
  have "resize_buffer k b = Inr ?b"
    using wf k read_contents [OF wf order_refl] len by (simp add: resize_buffer_def write_block_def)
  moreover have "contents ?b = contents b"
    by (rule contents_memcpy [OF len]) (use wf le in \<open>simp_all add: block_def\<close>)
  moreover have "wf_buffer ?b" using le k len by (simp add: wf_buffer_def fresh_def)
  ultimately show ?thesis by simp
qed

lemma safeAppend_ok:
  assumes wf: "wf_buffer b" and room: "rightIndex b + length bs \<le> cap b" and "bs \<noteq> []"
  shows "\<exists>b'. safeAppend bs b = Inr b' \<and> wf_buffer b' \<and> contents b' = contents b @ bs \<and> cap b' = cap b"
proof -
  have "cap b > 0" using room \<open>bs \<noteq> []\<close> by (cases bs) auto
  from wf_memE [OF wf this] obtain m where m: "mem b = Some m" "block b = m" "length m = cap b" .
  have le: "leftIndex b \<le> rightIndex b" "rightIndex b \<le> cap b" using wf by (auto simp: wf_buffer_def)
  let ?b = "b\<lparr>mem := Some (memcpy m (rightIndex b) bs), rightIndex := rightIndex b + length bs\<rparr>"
  have "contents ?b = contents b @ bs"
  proof -
    let ?m = "memcpy m (rightIndex b) bs"
    have e: "rightIndex b + length bs - leftIndex b = (rightIndex b - leftIndex b) + length bs" using le by simp
    have "contents ?b = take (rightIndex b + length bs - leftIndex b) (drop (leftIndex b) ?m)"
      by (simp add: contents_def block_def)
    also have "\<dots> = take (rightIndex b - leftIndex b) (drop (leftIndex b) ?m) @
        take (length bs) (drop (rightIndex b) ?m)"
      unfolding e using le by (simp only: take_add drop_drop le_add_diff_inverse2)
    finally have "contents ?b = take (rightIndex b - leftIndex b) (drop (leftIndex b) ?m) @
        take (length bs) (drop (rightIndex b) ?m)" .
    then show ?thesis
      using room m le by (simp add: take_drop_memcpy take_drop_memcpy_before contents_def)
  qed
  moreover have "safeAppend bs b = Inr ?b" using m room by (simp add: safeAppend_def write_block_def)
  moreover have "wf_buffer ?b" using le m room by (simp add: wf_buffer_def)
  ultimately show ?thesis by simp
qed

lemma append_bytes_ok:
  assumes wf: "wf_buffer b" and c: "cap b > 0" and ne: "bs \<noteq> []"
  shows "\<exists>b'. append_bytes bs b = Inr b' \<and> wf_buffer b' \<and> contents b' = contents b @ bs"
proof -
  have le: "leftIndex b \<le> rightIndex b" "rightIndex b \<le> cap b" using wf by (auto simp: wf_buffer_def)
  let ?n = "rightIndex b - leftIndex b"
  let ?room = "if int (cap b) - int (rightIndex b) \<ge> int (length bs) then Inr b
     else if length bs + ?n \<le> cap b then forward 0 b else reserve (?n + length bs + leftIndex b) b"
  have "\<exists>b1. ?room = Inr b1 \<and> wf_buffer b1 \<and> contents b1 = contents b \<and> rightIndex b1 + length bs \<le> cap b1"
  proof -
    consider "int (cap b) - int (rightIndex b) \<ge> int (length bs)"
      | "\<not> int (cap b) - int (rightIndex b) \<ge> int (length bs)" "length bs + ?n \<le> cap b"
      | "\<not> int (cap b) - int (rightIndex b) \<ge> int (length bs)" "\<not> length bs + ?n \<le> cap b" by blast
    then show ?thesis
    proof cases
      case 1
      then show ?thesis using wf by auto
    next
      case 2
      from forward_0 [OF wf] obtain b1 where
        b1: "forward 0 b = Inr b1" "wf_buffer b1" "contents b1 = contents b" "cap b1 = cap b" "leftIndex b1 = 0" by blast
      have "rightIndex b1 = ?n" using length_contents [OF b1(2)] length_contents [OF wf] b1(3,5) by simp
      with b1 2 show ?thesis by simp
    next
      case 3
      let ?k = "?n + length bs + leftIndex b"
      have k: "cap b < ?k" "?k = rightIndex b + length bs" using 3 le by auto
      from double_up_ok [of "2 * cap b" ?k] c obtain n' where
        n': "double_up (2 * cap b) ?k = Some n'" "2 * cap b \<le> n'" "?k \<le> n'" by auto
      have "cap b \<le> n'" using n' by simp
      from resize_ok [OF wf this] n' k 3 show ?thesis by (auto simp: reserve_def)
    qed
  qed
  then obtain b1 where b1: "?room = Inr b1" "wf_buffer b1" "contents b1 = contents b"
    "rightIndex b1 + length bs \<le> cap b1" by blast
  have "append_bytes bs b = safeAppend bs b1"
    using ne wf b1(1) by (simp add: append_bytes_def Let_def split: if_splits)
  with safeAppend_ok [OF b1(2,4) ne] b1(3) show ?thesis by auto
qed

lemma append_buffer_ok:
  assumes that: "wf_buffer that" "cap that > 0" "contents that \<noteq> []" and "wf_buffer b" "cap b > 0"
  shows "\<exists>b'. append_buffer that b = Inr b' \<and> wf_buffer b' \<and> contents b' = contents b @ contents that"
proof -
  from wf_memE [OF that(1,2)] obtain m where m: "mem that = Some m" "block that = m" .
  have "data that = Inr (m, leftIndex that)" using that(1) m by (simp add: data_def wf_buffer_def)
  moreover have "read_block m (leftIndex that) (rightIndex that - leftIndex that) = Inr (contents that)"
    using read_contents [OF that(1) order_refl] that(1) m by simp
  ultimately have "append_buffer that b = append_bytes (contents that) b"
    using that(1) by (simp add: append_buffer_def)
  with append_bytes_ok [OF assms(4,5) that(3)] show ?thesis by simp
qed

section \<open>Prepending\<close>

lemma safePreappend_ok:
  assumes wf: "wf_buffer b" and room: "length bs \<le> leftIndex b" and "bs \<noteq> []"
  shows "\<exists>b'. safePreappend bs b = Inr b' \<and> wf_buffer b' \<and> contents b' = bs @ contents b"
proof -
  have le: "leftIndex b \<le> rightIndex b" "rightIndex b \<le> cap b" using wf by (auto simp: wf_buffer_def)
  have "cap b > 0" using room le \<open>bs \<noteq> []\<close> by (cases bs) auto
  from wf_memE [OF wf this] obtain m where m: "mem b = Some m" "block b = m" "length m = cap b" .
  let ?l = "leftIndex b - length bs"
  let ?m = "memcpy m ?l bs"
  let ?b = "b\<lparr>mem := Some ?m, leftIndex := ?l\<rparr>"
  have len: "?l + length bs \<le> length m" using room le m by simp
  have "safePreappend bs b = Inr ?b"
    using m room le len by (simp add: safePreappend_def data_def write_block_def)
  moreover have "wf_buffer ?b" using le m len by (simp add: wf_buffer_def)
  moreover have "contents ?b = bs @ contents b"
  proof -
    have e: "rightIndex b - ?l = length bs + (rightIndex b - leftIndex b)" and l: "length bs + ?l = leftIndex b"
      using le room by simp_all
    have "contents ?b = take (rightIndex b - ?l) (drop ?l ?m)" by (simp add: contents_def block_def)
    also have "\<dots> = take (length bs) (drop ?l ?m) @ take (rightIndex b - leftIndex b) (drop (leftIndex b) ?m)"
      by (simp only: e take_add drop_drop l)
    finally have "contents ?b = take (length bs) (drop ?l ?m) @ take (rightIndex b - leftIndex b) (drop (leftIndex b) ?m)" .
    moreover have "drop (leftIndex b) ?m = drop (leftIndex b) m"
      using room len by (simp add: memcpy_def)
    ultimately show ?thesis using len m by (simp add: take_drop_memcpy contents_def)
  qed
  ultimately show ?thesis by simp
qed

lemma backward_room:
  assumes wf: "wf_buffer b" and k: "leftIndex b < k" "k + (rightIndex b - leftIndex b) \<le> cap b"
  shows "\<exists>b'. backward (int k - int (leftIndex b)) b = Inr b' \<and> wf_buffer b' \<and> contents b' = contents b \<and> k \<le> leftIndex b'"
proof -
  let ?l = "leftIndex b" and ?r = "rightIndex b" and ?c = "cap b"
  have le: "?l \<le> ?r" "?r \<le> ?c" using wf by (auto simp: wf_buffer_def)
  define off where "off = k - ?l"
  have off: "int k - int ?l = int off" "off > 0" "off \<le> ?c - ?r" "?l + off = k" using k le by (auto simp: off_def)
  show ?thesis
  proof (cases "off \<ge> ?c - ?l")
    case True
    then have "?l = ?r" "k = ?c" using off le by linarith+
    then have "contents (b\<lparr>leftIndex := ?c, rightIndex := ?c\<rparr>) = contents b" by (simp add: contents_def)
    moreover have "wf_buffer (b\<lparr>leftIndex := ?c, rightIndex := ?c\<rparr>)"
      using wf by (auto simp: wf_buffer_def split: option.splits)
    moreover have "backward (int k - int ?l) b = Inr (b\<lparr>leftIndex := ?c, rightIndex := ?c\<rparr>)"
      unfolding off(1) using True off(2) by (simp add: backward_def Let_def)
    ultimately show ?thesis using \<open>k = ?c\<close> by simp
  next
    case False
    have "?c > 0" using k by linarith
    from wf_memE [OF wf this] obtain m where m: "mem b = Some m" "block b = m" "length m = ?c" .
    have rd: "read_block m ?l (?r - ?l) = Inr (contents b)" using read_contents [OF wf order_refl] wf m by simp
    let ?b = "b\<lparr>mem := Some (memcpy m (?l + off) (contents b)), leftIndex := ?l + off, rightIndex := ?r + off\<rparr>"
    have len: "?l + off + length (contents b) \<le> length m" using wf le off m by simp
    have "backward (int k - int ?l) b = Inr ?b"
      unfolding off(1) using False off(2,3) m rd len by (simp add: backward_def Let_def memmove_def write_block_def)
    moreover have "contents ?b = contents b"
      by (rule contents_memcpy [OF len]) (use wf le in \<open>simp_all add: block_def\<close>)
    moreover have "wf_buffer ?b" using le m len off by (simp add: wf_buffer_def)
    ultimately show ?thesis using off(4) by simp
  qed
qed

lemma wf_Buffer_length: "wf_buffer (Buffer_length n)" "contents (Buffer_length n) = []" "cap (Buffer_length n) = n"
  by (simp_all add: Buffer_length_def wf_buffer_def contents_def fresh_def)

lemma prepend_bytes_cases:
  assumes wf: "wf_buffer b" and c: "cap b > 0" and ne: "bs \<noteq> []"
  shows "if length bs \<le> leftIndex b \<or> length bs + length (contents b) \<le> cap b
    then \<exists>b'. prepend_bytes bs b = Inr b' \<and> wf_buffer b' \<and> contents b' = bs @ contents b
    else prepend_bytes bs b = Inl (if contents b = [] then AssertFail else OutOfBounds)"
proof -
  let ?n = "rightIndex b - leftIndex b"
  have n: "length (contents b) = ?n" using wf by simp
  consider "length bs \<le> leftIndex b" | "\<not> length bs \<le> leftIndex b" "length bs + ?n \<le> cap b"
    | "\<not> length bs \<le> leftIndex b" "\<not> length bs + ?n \<le> cap b" by blast
  then show ?thesis
  proof cases
    case 1
    then show ?thesis using safePreappend_ok [OF wf 1 ne] ne by (simp add: prepend_bytes_def)
  next
    case 2
    from backward_room [OF wf _ 2(2)] 2(1) obtain b1 where
      b1: "backward (int (length bs) - int (leftIndex b)) b = Inr b1" "wf_buffer b1" "contents b1 = contents b"
        "length bs \<le> leftIndex b1" by auto
    then have "prepend_bytes bs b = safePreappend bs b1" using 2 wf ne by (simp add: prepend_bytes_def)
    with safePreappend_ok [OF b1(2,4) ne] b1(3) 2 n show ?thesis by simp
  next
    case 3
    let ?nb = "Buffer_length (length bs + ?n)"
    have p: "prepend_bytes bs b = rbind (append_buffer b ?nb) (safePreappend bs)"
      using 3 wf ne by (simp add: prepend_bytes_def)
    from wf_memE [OF wf c] obtain m where m: "mem b = Some m" "block b = m" .
    have ab: "append_buffer b ?nb = append_bytes (contents b) ?nb"
      using read_contents [OF wf order_refl] wf m by (simp add: append_buffer_def data_def wf_buffer_def)
    show ?thesis
    proof (cases "contents b = []")
      case True
      then show ?thesis using 3 n p ab by (simp add: append_bytes_def)
    next
      case False
      have "append_bytes (contents b) ?nb = safeAppend (contents b) ?nb"
        using False n length_greater_0_conv [of "contents b"] by (simp add: append_bytes_def Buffer_length_def Let_def guard_def)
      also have "\<dots> = Inr (?nb\<lparr>mem := Some (memcpy (fresh (length bs + ?n)) 0 (contents b)), rightIndex := length (contents b)\<rparr>)"
        using n by (simp add: safeAppend_def Buffer_length_def write_block_def fresh_def)
      finally show ?thesis
        using 3 n p ab False ne by (simp add: safePreappend_def data_def Buffer_length_def)
    qed
  qed
qed

section \<open>Taking bytes out\<close>

lemma cell_byte_Some [simp]: "map (cell_byte j) (map Some bs) = bs"
  by (simp add: cell_byte_def o_def)

lemma retrieve_ok:
  assumes wf: "wf_buffer b" and k: "k \<le> length (contents b)"
  shows "\<exists>b'. retrieve (int k) b = Inr b' \<and> wf_buffer b' \<and> contents b' = drop k (contents b) \<and> cap b' = cap b"
proof (cases "contents b = []")
  case True
  then show ?thesis using wf k by (auto simp: retrieve_def dest: arg_cong [of _ _ length])
next
  case False
  have n: "length (contents b) = rightIndex b - leftIndex b" using wf by simp
  let ?b = "b\<lparr>leftIndex := leftIndex b + k\<rparr>"
  have "retrieve (int k) b = Inr ?b" using False wf k n by (auto simp: retrieve_def)
  moreover have "wf_buffer ?b" using wf k n by (auto simp: wf_buffer_def split: option.splits)
  moreover have "contents ?b = drop k (contents b)"
    by (simp add: contents_def block_def drop_take add.commute diff_diff_left)
  ultimately show ?thesis by simp
qed

lemma take_string_ok:
  assumes wf: "wf_buffer b" and k: "0 < k" "k \<le> length (contents b)"
  shows "\<exists>b'. take_string k b = Inr (take k (contents b), b') \<and> wf_buffer b' \<and> contents b' = drop k (contents b) \<and> cap b' = cap b"
proof -
  have "cap b > 0" using wf k by (auto simp: wf_buffer_def)
  from wf_memE [OF wf this] obtain m where m: "mem b = Some m" "block b = m" .
  have "data b = Inr (m, leftIndex b)" using wf m by (simp add: data_def wf_buffer_def)
  moreover have "read_block m (leftIndex b) k = Inr (take k (contents b))"
    using read_contents [OF wf, of k] wf k m by simp
  ultimately show ?thesis using retrieve_ok [OF wf k(2)] by (auto simp: take_string_def)
qed

section \<open>A buffer is a byte stream\<close>

text \<open>
  What a user of a buffer relies on: bytes put in come out in order. The operations of a script put
  a chunk or get a number of bytes that are there.
\<close>

datatype 'b stream_op = Put "'b list" | Get nat

fun run_ops :: "('b list \<Rightarrow> 's \<Rightarrow> 's res) \<Rightarrow> (nat \<Rightarrow> 's \<Rightarrow> ('b list \<times> 's) res) \<Rightarrow>
    'b stream_op list \<Rightarrow> 's \<Rightarrow> ('b list \<times> 's) res" where
  "run_ops put get [] s = Inr ([], s)"
| "run_ops put get (Put bs # ops) s = rbind (put bs s) (run_ops put get ops)"
| "run_ops put get (Get k # ops) s =
     rbind (get k s) (\<lambda>(bs, s'). rbind (run_ops put get ops s') (\<lambda>(cs, s''). Inr (bs @ cs, s'')))"

fun fits :: "nat \<Rightarrow> 'b stream_op list \<Rightarrow> bool" where
  "fits n [] \<longleftrightarrow> True"
| "fits n (Put bs # ops) \<longleftrightarrow> bs \<noteq> [] \<and> fits (n + length bs) ops"
| "fits n (Get k # ops) \<longleftrightarrow> 0 < k \<and> k \<le> n \<and> fits (n - k) ops"

fun input :: "'b stream_op list \<Rightarrow> 'b list" where
  "input [] = []"
| "input (Put bs # ops) = bs @ input ops"
| "input (Get k # ops) = input ops"

locale byte_stream =
  fixes ok :: "'s \<Rightarrow> bool"
    and cont :: "'s \<Rightarrow> 'b list"
    and put :: "'b list \<Rightarrow> 's \<Rightarrow> 's res"
    and get :: "nat \<Rightarrow> 's \<Rightarrow> ('b list \<times> 's) res"
  assumes put_ok: "ok s \<Longrightarrow> bs \<noteq> [] \<Longrightarrow> \<exists>s'. put bs s = Inr s' \<and> ok s' \<and> cont s' = cont s @ bs"
    and get_ok: "ok s \<Longrightarrow> 0 < k \<Longrightarrow> k \<le> length (cont s) \<Longrightarrow>
      \<exists>s'. get k s = Inr (take k (cont s), s') \<and> ok s' \<and> cont s' = drop k (cont s)"
begin

lemma run_ops_stream:
  assumes "ok s" and "fits (length (cont s)) ops"
  shows "\<exists>out s'. run_ops put get ops s = Inr (out, s') \<and> ok s' \<and> out @ cont s' = cont s @ input ops"
  using assms
proof (induction ops arbitrary: s)
  case (Cons a ops)
  show ?case
  proof (cases a)
    case (Put bs)
    with Cons.prems put_ok [of s bs] obtain s1 where
      s1: "put bs s = Inr s1" "ok s1" "cont s1 = cont s @ bs" by auto
    with Cons.IH [of s1] Cons.prems Put show ?thesis by auto
  next
    case (Get k)
    with Cons.prems get_ok [of s k] obtain s1 where
      s1: "get k s = Inr (take k (cont s), s1)" "ok s1" "cont s1 = drop k (cont s)" by auto
    with Cons.IH [of s1] Cons.prems Get obtain out s' where
      "run_ops put get ops s1 = Inr (out, s')" "ok s'" "out @ cont s' = drop k (cont s) @ input ops" by auto
    with s1 Get show ?thesis by (auto simp: append_assoc [symmetric])
  qed
qed simp

end

definition buffer_ok :: "buffer \<Rightarrow> bool" where
  "buffer_ok b \<longleftrightarrow> wf_buffer b \<and> cap b > 0"

definition get_string :: "nat \<Rightarrow> buffer \<Rightarrow> (cell list \<times> buffer) res" where
  "get_string k b = retriveveAsString (int k) b"

interpretation buf: byte_stream buffer_ok contents append_bytes get_string
proof
  fix s :: buffer and bs :: "cell list"
  assume "buffer_ok s" "bs \<noteq> []"
  then obtain s' where s': "append_bytes bs s = Inr s'" "wf_buffer s'" "contents s' = contents s @ bs"
    using append_bytes_ok [of s bs] by (auto simp: buffer_ok_def)
  moreover have "cap s' > 0"
    using s'(2,3) length_contents [OF s'(2)] \<open>bs \<noteq> []\<close> by (cases bs) (auto simp: wf_buffer_def)
  ultimately show "\<exists>s'. append_bytes bs s = Inr s' \<and> buffer_ok s' \<and> contents s' = contents s @ bs"
    by (auto simp: buffer_ok_def)
next
  fix s :: buffer and k :: nat
  assume s: "buffer_ok s" "0 < k" "k \<le> length (contents s)"
  then have "get_string k s = take_string k s"
    by (auto simp: get_string_def retriveveAsString_eq buffer_ok_def)
  with take_string_ok [of s k] s
  show "\<exists>s'. get_string k s = Inr (take k (contents s), s') \<and> buffer_ok s' \<and> contents s' = drop k (contents s)"
    by (auto simp: buffer_ok_def)
qed

section \<open>Properties\<close>

text \<open>
  C3. A well-formed buffer with a capacity above 0 is a byte stream: for every sequence of appends of
  chunks that are not empty and of retrievals of a positive number of bytes, each at most as many as
  are there at that moment (\<open>fits\<close>), nothing faults, every call returns, and the bytes come out in the
  order they were put in.
\<close>

theorem buffer_byte_stream:
  assumes "wf_buffer b" and "cap b > 0" and "fits (length (contents b)) ops"
  shows "\<exists>out b'. run_ops append_bytes get_string ops b = Inr (out, b') \<and> wf_buffer b' \<and>
    out @ contents b' = contents b @ input ops"
  using buf.run_ops_stream [of b ops] assms by (auto simp: buffer_ok_def)

theorem buffer_byte_stream_witness:
  "\<exists>out b'. run_ops append_bytes get_string [Put [Some 1, Some 2], Put [Some 3], Get 2] (Buffer_length 2) = Inr (out, b') \<and>
     out @ contents b' = [Some 1, Some 2, Some 3]"
  using buffer_byte_stream [of "Buffer_length 2" "[Put [Some 1, Some 2], Put [Some 3], Get 2]"]
  by (auto simp: wf_Buffer_length simp del: run_ops.simps)

text \<open>
  \<open>prepend\<close> puts the bytes in front if there is room for them; if the buffer would have to grow
  it writes before the start of the new block (or fails an assertion if the buffer is empty),
  because the new buffer is filled from its start.
\<close>

theorem buffer_prepend:
  assumes "wf_buffer b" and "cap b > 0" and "bs \<noteq> []"
  shows "if length bs \<le> leftIndex b \<or> length bs + length (contents b) \<le> cap b
    then \<exists>b'. prepend_bytes bs b = Inr b' \<and> wf_buffer b' \<and> contents b' = bs @ contents b
    else prepend_bytes bs b = Inl (if contents b = [] then AssertFail else OutOfBounds)"
  using assms by (rule prepend_bytes_cases)

theorem buffer_prepend_witness:
  "prepend_bytes [Some 7, Some 8] (Buffer_bytes [1, 2]) = Inl OutOfBounds"
  using buffer_prepend [of "Buffer_bytes [1, 2]" "[Some 7, Some 8]"]
  by (simp add: Buffer_bytes_def wf_buffer_def contents_def block_def)

text \<open>
  C36. Appending a chunk that is not empty to a default-constructed buffer never returns, since the
  loop of \<open>reserve\<close> doubles the capacity 0 for ever; taking a string or a vector of any length that is
  not negative from a well-formed empty buffer never returns, since the call repeats itself with the
  size 0. From every other well-formed buffer with a capacity above 0 both return: appending a chunk
  adds it, and a string is taken from the front.
\<close>

theorem buffer_hangs:
  assumes "bs \<noteq> []" and "0 \<le> len" and "wf_buffer b"
  shows "append_bytes bs Buffer_default = Inl NoReturn \<and>
    (if contents b = [] then retriveveAsString len b = Inl NoReturn \<and> retriveveAsVector len b = Inl NoReturn
     else \<exists>b'. retriveveAsString len b =
       Inr (take (if len = 0 then length (contents b) else nat len) (contents b), b')) \<and>
    (if cap b = 0 then True else \<exists>b'. append_bytes bs b = Inr b' \<and> contents b' = contents b @ bs)"
proof (intro conjI)
  show "append_bytes bs Buffer_default = Inl NoReturn"
    using assms(1) double_up_0 [of "length bs"]
    by (simp add: append_bytes_def Buffer_default_def bsize_def reserve_def)
  define n where "n = length (contents b)"
  have n: "bsize b = Inr n" using assms(3) by (simp add: n_def)
  show "if contents b = [] then retriveveAsString len b = Inl NoReturn \<and> retriveveAsVector len b = Inl NoReturn
     else \<exists>b'. retriveveAsString len b = Inr (take (if len = 0 then length (contents b) else nat len) (contents b), b')"
  proof (cases "contents b = []")
    case False
    let ?k = "if len = 0 \<or> len > int n then n else nat len"
    have "n > 0" using False by (simp only: n_def length_greater_0_conv not_False_eq_True)
    then have k: "0 < ?k" "?k \<le> length (contents b)" using assms(2) by (auto simp only: n_def split: if_splits)
    have "take ?k (contents b) = take (if len = 0 then length (contents b) else nat len) (contents b)"
      using assms(2) by (auto simp: n_def simp del: length_contents)
    moreover have "retriveveAsString len b = take_string ?k b"
      using \<open>n > 0\<close> n assms(2) by (simp add: retriveveAsString_eq)
    ultimately show ?thesis using take_string_ok [OF assms(3) k] False by auto
  next
    case True
    then have "n = 0" by (simp add: n_def del: length_contents)
    with True n assms(2) show ?thesis by (simp add: retriveveAsString_eq retriveveAsVector_eq)
  qed
  show "if cap b = 0 then True else \<exists>b'. append_bytes bs b = Inr b' \<and> contents b' = contents b @ bs"
    using append_bytes_ok [of b bs] assms(1,3) by auto
qed

theorem buffer_hangs_witness:
  "retriveveAsString 0 (Buffer_length 4) = Inl NoReturn \<and> append_bytes [Some 1] Buffer_default = Inl NoReturn"
  using buffer_hangs [of "[Some 1]" 0 "Buffer_length 4"] wf_Buffer_length [of 4]
  by simp

text \<open>
  \<open>backward()\<close> moves the free bytes instead of the contents and writes behind the block if there are
  more of them.
\<close>

lemma backward_overruns:
  assumes "wf_buffer b" and "length (contents b) < cap b - rightIndex b"
  shows "backward 0 b = Inl OutOfBounds"
proof -
  have "0 < cap b" using assms(2) by simp
  with assms wf_memE [of b] obtain m where m: "mem b = Some m" "length m = cap b" by blast
  have le: "leftIndex b \<le> rightIndex b" "rightIndex b < cap b" "rightIndex b - leftIndex b < cap b - rightIndex b"
    using assms length_contents [of b] by (auto simp: wf_buffer_def)
  then show ?thesis
    using m by (simp add: backward_def Let_def memmove_def read_block_def write_block_def)
qed

section \<open>Every operation keeps the buffer well-formed\<close>

lemma wf_iff: "wf_buffer b \<longleftrightarrow> leftIndex b \<le> rightIndex b \<and> rightIndex b \<le> cap b \<and> length (block b) = cap b"
  by (cases "mem b") (auto simp: wf_buffer_def block_def)

lemma write_block_length: "write_block m off bs = Inr m' \<Longrightarrow> length m' = length m"
  by (auto simp: write_block_def split: if_splits)

lemma memmove_length: "memmove m d s n = Inr m' \<Longrightarrow> length m' = length m"
  by (auto simp: memmove_def rbind_eq_Inr dest: write_block_length)

lemma deref_block: "deref (mem b) = Inr m \<Longrightarrow> block b = m"
  by (cases "mem b") (simp_all add: block_def)

lemmas wf_ops = rbind_eq_Inr wf_iff block_def deref_def

lemma forward_wf: "forward off b = Inr b' \<Longrightarrow> wf_buffer b \<Longrightarrow> wf_buffer b'"
  by (auto simp: forward_def Let_def wf_ops dest!: memmove_length split: if_splits option.splits)

lemma backward_wf: "backward off b = Inr b' \<Longrightarrow> wf_buffer b \<Longrightarrow> wf_buffer b'"
  by (auto simp: backward_def Let_def wf_ops dest!: memmove_length split: if_splits option.splits)

lemma resize_wf: "resize_buffer k b = Inr b' \<Longrightarrow> wf_buffer b \<Longrightarrow> wf_buffer b'"
  by (auto simp: resize_buffer_def Let_def wf_ops fresh_def dest!: write_block_length split: if_splits option.splits)

lemma reserve_wf: "reserve k b = Inr b' \<Longrightarrow> wf_buffer b \<Longrightarrow> wf_buffer b'"
  by (auto simp: reserve_def rbind_eq_Inr split: if_splits intro: resize_wf)

lemma safeAppend_wf: "safeAppend bs b = Inr b' \<Longrightarrow> wf_buffer b \<Longrightarrow> wf_buffer b'"
  by (auto simp: safeAppend_def wf_ops write_block_def split: if_splits option.splits)

lemma safePreappend_wf: "safePreappend bs b = Inr b' \<Longrightarrow> wf_buffer b \<Longrightarrow> wf_buffer b'"
  by (auto simp: safePreappend_def data_def wf_ops write_block_def split: if_splits option.splits)

lemma append_bytes_wf: "append_bytes bs b = Inr b' \<Longrightarrow> wf_buffer b \<Longrightarrow> wf_buffer b'"
  by (auto simp: append_bytes_def rbind_eq_Inr Let_def split: if_splits intro: safeAppend_wf forward_wf reserve_wf)

lemma append_buffer_wf: "append_buffer a b = Inr b' \<Longrightarrow> wf_buffer b \<Longrightarrow> wf_buffer b'"
  by (auto simp: append_buffer_def rbind_eq_Inr intro: append_bytes_wf)

lemma prepend_bytes_wf: "prepend_bytes bs b = Inr b' \<Longrightarrow> wf_buffer b \<Longrightarrow> wf_buffer b'"
  by (auto simp: prepend_bytes_def rbind_eq_Inr Let_def split: if_splits
      intro: safePreappend_wf backward_wf append_buffer_wf [OF _ wf_Buffer_length(1)])

lemma retrieve_wf: "retrieve n b = Inr b' \<Longrightarrow> wf_buffer b \<Longrightarrow> wf_buffer b'"
  by (auto simp: retrieve_def bsize_def wf_ops split: if_splits option.splits)

lemma append_count_wf: "append_count n b = Inr b' \<Longrightarrow> wf_buffer b \<Longrightarrow> wf_buffer b'"
  by (auto simp: append_count_def wf_iff block_def split: if_splits)

lemma take_wf:
  "retriveveAsString n b = Inr (s, b') \<Longrightarrow> wf_buffer b \<Longrightarrow> wf_buffer b'"
  "retriveveAsVector n b = Inr (s, b') \<Longrightarrow> wf_buffer b \<Longrightarrow> wf_buffer b'"
  by (auto simp: retriveveAsString_eq retriveveAsVector_eq take_string_def take_vector_def rbind_eq_Inr split: if_splits intro: retrieve_wf)

lemma shrink_wf: "shrink n b = Inr b' \<Longrightarrow> wf_buffer b \<Longrightarrow> wf_buffer b'"
  by (auto simp: shrink_def wf_ops fresh_def dest!: write_block_length split: if_splits option.splits)

lemma shrink_to_fit_wf:
  assumes "shrink_to_fit n b = Inr b'" "wf_buffer b"
  shows "wf_buffer b'"
proof (cases "n < rightIndex b - leftIndex b")
  case True
  then show ?thesis using assms by (auto simp: shrink_to_fit_def intro: shrink_wf)
next
  case False
  then show ?thesis using assms
    by (auto simp: shrink_to_fit_def wf_ops bsize_def fresh_def dest!: write_block_length split: if_splits)
qed

datatype buffer_op =
    Append "cell list" | Count int | Prepend "cell list" | Forward int | Backward int | Reserve nat | Resize nat
  | Retrieve int | RetrieveAll | AsString int | AsVector int | Shrink nat | ShrinkToFit nat

fun buffer_step :: "buffer_op \<Rightarrow> buffer \<Rightarrow> buffer res" where
  "buffer_step (Append bs) b = append_bytes bs b"
| "buffer_step (Count n) b = append_count n b"
| "buffer_step (Prepend bs) b = prepend_bytes bs b"
| "buffer_step (Forward n) b = forward n b"
| "buffer_step (Backward n) b = backward n b"
| "buffer_step (Reserve n) b = reserve n b"
| "buffer_step (Resize n) b = resize_buffer n b"
| "buffer_step (Retrieve n) b = retrieve n b"
| "buffer_step RetrieveAll b = Inr (retrieve_all b)"
| "buffer_step (AsString n) b = rbind (retriveveAsString n b) (\<lambda>(_, b'). Inr b')"
| "buffer_step (AsVector n) b = rbind (retriveveAsVector n b) (\<lambda>(_, b'). Inr b')"
| "buffer_step (Shrink n) b = shrink n b"
| "buffer_step (ShrinkToFit n) b = shrink_to_fit n b"

fun buffer_run :: "buffer_op list \<Rightarrow> buffer \<Rightarrow> buffer res" where
  "buffer_run [] b = Inr b"
| "buffer_run (x # xs) b = rbind (buffer_step x b) (buffer_run xs)"

lemmas step_wf = append_bytes_wf append_count_wf prepend_bytes_wf forward_wf backward_wf reserve_wf resize_wf retrieve_wf take_wf
  shrink_wf shrink_to_fit_wf

lemma retrieve_all_wf: "wf_buffer b \<Longrightarrow> wf_buffer (retrieve_all b)"
  by (simp add: retrieve_all_def wf_iff block_def)

lemma buffer_step_wf: "buffer_step x b = Inr b' \<Longrightarrow> wf_buffer b \<Longrightarrow> wf_buffer b'"
  by (cases x) (auto simp: rbind_eq_Inr intro: step_wf retrieve_all_wf)

text \<open>
  C27. The indices stay in order and within the capacity, and the capacity is the size of the block,
  whatever sequence of operations is run on a buffer made by a constructor, as long as they return.
\<close>

theorem buffer_well_formed:
  assumes "b = Buffer_default \<or> b = Buffer_length n \<or> b = Buffer_bytes bs" and "buffer_run xs b = Inr b'"
  shows "leftIndex b' \<le> rightIndex b' \<and> rightIndex b' \<le> cap b' \<and> length (block b') = cap b'"
proof -
  have "wf_buffer b"
    using assms(1) by (auto simp: wf_iff block_def Buffer_default_def Buffer_length_def Buffer_bytes_def fresh_def)
  with assms(2) have "wf_buffer b'"
    by (induction xs arbitrary: b) (auto simp: rbind_eq_Inr intro: buffer_step_wf)
  then show ?thesis by (simp add: wf_iff)
qed

theorem buffer_well_formed_witness:
  "\<exists>b'. buffer_run [Append [Some 1, Some 2, Some 3], Retrieve 1, Append [Some 4, Some 5], Shrink 1] (Buffer_length 4) = Inr b' \<and> rightIndex b' \<le> cap b'"
proof -
  have "\<exists>b'. buffer_run [Append [Some 1, Some 2, Some 3], Retrieve 1, Append [Some 4, Some 5], Shrink 1] (Buffer_length 4) = Inr b'"
    by (simp add: append_bytes_def bsize_def forward_def memmove_def read_block_def write_block_def safeAppend_def Buffer_length_def fresh_def
        retrieve_def shrink_def memcpy_def numeral_eq_Suc)
  then obtain b' where "buffer_run [Append [Some 1, Some 2, Some 3], Retrieve 1, Append [Some 4, Some 5], Shrink 1] (Buffer_length 4) = Inr b'" by blast
  with buffer_well_formed [OF _ this, of 4] show ?thesis by auto
qed

end
