(* ===== verification/Trie.thy ===== *)
theory Trie
  imports Prelude
begin

text \<open>
  Model of the class template \<open>Trie\<close> in \<open>liby_cpp/util.h\<close>: a tree with 95 children per node, one for
  each printable ASCII character. The nodes are values, since no node is shared. A \<open>throw\<close> outside a
  handler ends the program. \<open>lookup\<close> is the map a trie stands for.
\<close>

section \<open>Operations\<close>

datatype 'a trie = Trie (element: "'a option") (nodes: "'a trie option list")

abbreviation max_elements :: nat where
  "max_elements \<equiv> 95"

definition Trie_new :: "'a trie" where
  "Trie_new = Trie None (replicate max_elements None)"

text \<open>A C string ends before its first zero byte.\<close>

definition c_str :: "byte list \<Rightarrow> byte list" where
  "c_str s = takeWhile (\<lambda>c. c \<noteq> 0) s"

text \<open>A \<open>char\<close> is signed: the bytes from 128 on are negative.\<close>

definition conv :: "byte \<Rightarrow> nat res" where
  "conv c = (if sint c < 32 \<or> sint c > 126 then Inl Terminate else Inr (nat (sint c - 32)))"

definition child_or_new :: "'a trie option \<Rightarrow> 'a trie" where
  "child_or_new n = (case n of None \<Rightarrow> Trie_new | Some t \<Rightarrow> t)"

fun find_loop :: "byte list \<Rightarrow> 'a trie \<Rightarrow> bool res" where
  "find_loop [] p = Inr (element p \<noteq> None)"
| "find_loop (c # str) p =
     rbind (conv c) (\<lambda>i.
     rbind (aread (nodes p) i) (\<lambda>n.
     case n of None \<Rightarrow> Inr False | Some t \<Rightarrow> find_loop str t))"

definition trie_find :: "byte list option \<Rightarrow> 'a trie \<Rightarrow> bool res" where
  "trie_find str p = (case str of None \<Rightarrow> Inr False | Some s \<Rightarrow> find_loop (c_str s) p)"

fun insert_loop :: "byte list \<Rightarrow> 'a \<Rightarrow> 'a trie \<Rightarrow> 'a trie res" where
  "insert_loop [] x p = Inr (Trie (Some x) (nodes p))"
| "insert_loop (c # str) x p =
     rbind (conv c) (\<lambda>i.
     rbind (aread (nodes p) i) (\<lambda>n.
     rbind (insert_loop str x (child_or_new n)) (\<lambda>t.
     Inr (Trie (element p) ((nodes p)[i := Some t])))))"

definition insert_trie :: "byte list option \<Rightarrow> 'a \<Rightarrow> 'a trie \<Rightarrow> 'a trie res" where
  "insert_trie str x p = (case str of None \<Rightarrow> Inl Terminate | Some s \<Rightarrow> insert_loop (c_str s) x p)"

text \<open>\<open>operator[]\<close> creates the element (with the default value \<open>T\<close>) if there is none.\<close>

fun index_loop :: "byte list \<Rightarrow> 'a \<Rightarrow> 'a trie \<Rightarrow> ('a \<times> 'a trie) res" where
  "index_loop [] T p =
     (case element p of None \<Rightarrow> Inr (T, Trie (Some T) (nodes p)) | Some x \<Rightarrow> Inr (x, p))"
| "index_loop (c # str) T p =
     rbind (conv c) (\<lambda>i.
     rbind (aread (nodes p) i) (\<lambda>n.
     rbind (index_loop str T (child_or_new n)) (\<lambda>(x, t).
     Inr (x, Trie (element p) ((nodes p)[i := Some t])))))"

definition index_trie :: "byte list option \<Rightarrow> 'a \<Rightarrow> 'a trie \<Rightarrow> ('a \<times> 'a trie) res" where
  "index_trie str T p = (case str of None \<Rightarrow> Inl Terminate | Some s \<Rightarrow> index_loop (c_str s) T p)"

section \<open>A trie is a map\<close>

text \<open>Keys are strings of printable ASCII characters; a well-formed trie has 95 children everywhere.\<close>

definition key_char :: "byte \<Rightarrow> bool" where
  "key_char c \<longleftrightarrow> 32 \<le> unat c \<and> unat c \<le> 126"

definition key :: "byte list \<Rightarrow> bool" where
  "key s \<longleftrightarrow> list_all key_char s"

fun lookup :: "'a trie \<Rightarrow> byte list \<Rightarrow> 'a option" where
  "lookup t [] = element t"
| "lookup t (c # s) = (case nodes t ! (unat c - 32) of None \<Rightarrow> None | Some t' \<Rightarrow> lookup t' s)"

primrec wf_trie :: "'a trie \<Rightarrow> bool" where
  "wf_trie (Trie e ns) \<longleftrightarrow> length ns = max_elements \<and> list_all (pred_option id) (map (map_option wf_trie) ns)"

lemma byte_nat:
  obtains n where "unat (c :: byte) = n" "n < 256" "sint c = (if n < 128 then int n else int n - 256)"
proof -
  obtain n where n: "unat c = n" "uint c = int n" by simp
  have "n < 256" using unat_byte_lt [of c] n by simp
  have "sint c = (int n + 128) mod 256 - 128"
    by (simp add: sint_uint signed_take_bit_eq_take_bit_shift take_bit_eq_mod n)
  also have "\<dots> = (if n < 128 then int n else int n - 256)"
  proof (cases "n < 128")
    case False
    have "(int n + 128) mod 256 = ((int n - 128) + 256) mod 256" by (simp add: add.commute)
    also have "\<dots> = int n - 128" using False \<open>n < 256\<close> by (simp only: mod_add_self2) simp
    finally show ?thesis using False by simp
  qed simp
  finally show thesis using n(1) \<open>n < 256\<close> that by blast
qed

lemma conv_key: "key_char c \<Longrightarrow> conv c = Inr (unat c - 32) \<and> unat c - 32 < max_elements"
  by (rule byte_nat [of c]) (simp add: conv_def key_char_def, linarith)

lemma conv_other: "\<not> key_char c \<Longrightarrow> conv c = Inl Terminate"
  by (rule byte_nat [of c]) (auto simp: conv_def key_char_def)

lemma key_char_inject: "key_char c \<Longrightarrow> key_char d \<Longrightarrow> unat c - 32 = unat d - 32 \<Longrightarrow> c = d"
  by (auto simp: key_char_def unsigned_word_eqI intro!: unsigned_word_eqI [where ?'a = nat])

lemma key_c_str: "key s \<Longrightarrow> c_str s = s"
  by (auto simp: key_def key_char_def c_str_def takeWhile_eq_all_conv list_all_iff)

lemma wf_trie_iff:
  "wf_trie t \<longleftrightarrow> length (nodes t) = max_elements \<and> (\<forall>t'. Some t' \<in> set (nodes t) \<longrightarrow> wf_trie t')"
  by (cases t) (auto simp: list_all_iff pred_option_def split: option.splits)

lemma wf_len [simp]: "wf_trie t \<Longrightarrow> length (nodes t) = max_elements"
  by (cases t) simp

lemma wf_new: "wf_trie Trie_new"
  by (simp add: Trie_new_def list_all_iff)

lemma lookup_new: "key s \<Longrightarrow> lookup Trie_new s = None"
  by (cases s) (auto simp: Trie_new_def key_def key_char_def)

lemma wf_child:
  assumes "wf_trie t" "i < max_elements"
  shows "wf_trie (child_or_new (nodes t ! i))"
proof (cases "nodes t ! i")
  case (Some t')
  then have "Some t' \<in> set (nodes t)" using assms by (metis nth_mem wf_trie_iff)
  then show ?thesis using assms(1) Some by (auto simp: child_or_new_def wf_trie_iff [of t])
qed (simp add: child_or_new_def wf_new)

lemma wf_update:
  assumes "wf_trie t" "wf_trie t'"
  shows "wf_trie (Trie e ((nodes t)[i := Some t']))"
proof -
  have "wf_trie u" if "Some u \<in> set ((nodes t)[i := Some t'])" for u
    using that set_update_subset_insert [of "nodes t" i "Some t'"] assms by (auto simp: wf_trie_iff [of t])
  then show ?thesis
    using assms(1) wf_trie_iff [of t] wf_trie_iff [of "Trie e ((nodes t)[i := Some t'])"] by simp
qed

lemma lookup_child: "lookup (child_or_new n) s = (case n of None \<Rightarrow> lookup Trie_new s | Some t \<Rightarrow> lookup t s)"
  by (cases n) (simp_all add: child_or_new_def)

lemma lookup_update:
  assumes "wf_trie t" "key_char c" "key (d # r)"
  shows "lookup (Trie e ((nodes t)[unat c - 32 := Some t'])) (d # r) =
    (if c = d then lookup t' r else lookup t (d # r))"
proof (cases "c = d")
  case True
  then show ?thesis using assms conv_key [of c] by simp
next
  case False
  then have "unat c - 32 \<noteq> unat d - 32" using key_char_inject [of c d] assms by (auto simp: key_def)
  then show ?thesis using False by simp
qed

lemma insert_loop_ok:
  "key s \<Longrightarrow> wf_trie p \<Longrightarrow> \<exists>p'. insert_loop s x p = Inr p' \<and> wf_trie p' \<and>
    (\<forall>k. key k \<longrightarrow> lookup p' k = (if k = s then Some x else lookup p k))"
proof (induction s arbitrary: p)
  case Nil
  have "lookup (Trie (Some x) (nodes p)) k = (if k = [] then Some x else lookup p k)" for k by (cases k) simp_all
  moreover have "wf_trie (Trie (Some x) (nodes p))" using Nil.prems wf_trie_iff [of p] wf_trie_iff [of "Trie (Some x) (nodes p)"] by simp
  ultimately show ?case by simp
next
  case (Cons c s)
  have c: "key_char c" "key s" using Cons.prems by (auto simp: key_def)
  let ?i = "unat c - 32"
  have i: "conv c = Inr ?i" "?i < max_elements" using conv_key [OF c(1)] by auto
  have len: "length (nodes p) = max_elements" using Cons.prems(2) by simp
  from Cons.IH [OF c(2) wf_child [OF Cons.prems(2) i(2)]] obtain t' where
    t': "insert_loop s x (child_or_new (nodes p ! ?i)) = Inr t'" "wf_trie t'"
      "\<forall>k. key k \<longrightarrow> lookup t' k = (if k = s then Some x else lookup (child_or_new (nodes p ! ?i)) k)" by blast
  let ?p = "Trie (element p) ((nodes p)[?i := Some t'])"
  have "lookup ?p k = (if k = c # s then Some x else lookup p k)" if k: "key k" for k
  proof (cases k)
    case (Cons d r)
    then have r: "key r" using k by (simp add: key_def)
    show ?thesis
    proof (cases "c = d")
      case True
      then show ?thesis
        using Cons k t'(3) r lookup_update [OF \<open>wf_trie p\<close> c(1)]
        by (auto simp: lookup_child lookup_new split: option.splits)
    next
      case False
      then show ?thesis using Cons k lookup_update [OF \<open>wf_trie p\<close> c(1), of d r] by simp
    qed
  qed simp
  moreover have "insert_loop (c # s) x p = Inr ?p" using i len t'(1) by simp
  ultimately show ?case using wf_update [OF \<open>wf_trie p\<close> t'(2)] by blast
qed

lemma find_loop_ok: "key s \<Longrightarrow> wf_trie p \<Longrightarrow> find_loop s p = Inr (lookup p s \<noteq> None)"
proof (induction s arbitrary: p)
  case (Cons c s)
  have c: "key_char c" "key s" using Cons.prems by (auto simp: key_def)
  have i: "conv c = Inr (unat c - 32)" "unat c - 32 < max_elements" using conv_key [OF c(1)] by auto
  have len: "length (nodes p) = max_elements" using Cons.prems(2) by simp
  show ?case
    using Cons.IH [OF c(2)] wf_child [OF Cons.prems(2) i(2)] i len
    by (auto simp: child_or_new_def split: option.splits)
qed simp

text \<open>\<open>operator[]\<close> is an insertion of the element it returns.\<close>

lemma index_loop_insert:
  "key s \<Longrightarrow> wf_trie p \<Longrightarrow>
   \<exists>x p'. index_loop s T p = Inr (x, p') \<and> insert_loop s x p = Inr p' \<and>
     x = (case lookup p s of None \<Rightarrow> T | Some y \<Rightarrow> y)"
proof (induction s arbitrary: p)
  case Nil
  show ?case by (cases p; cases "element p") auto
next
  case (Cons c s)
  have c: "key_char c" "key s" using Cons.prems by (auto simp: key_def)
  have i: "conv c = Inr (unat c - 32)" "unat c - 32 < max_elements" using conv_key [OF c(1)] by auto
  have len: "length (nodes p) = max_elements" using Cons.prems(2) by simp
  from Cons.IH [OF c(2) wf_child [OF Cons.prems(2) i(2)]] i len c(2) show ?case
    by (auto simp: lookup_child lookup_new split: option.splits)
qed

text \<open>A key with a character outside the printable ones ends the program when it is inserted.\<close>

lemma insert_loop_bad: "\<not> key s \<Longrightarrow> wf_trie p \<Longrightarrow> insert_loop s x p = Inl Terminate"
proof (induction s arbitrary: p)
  case (Cons c s)
  show ?case
  proof (cases "key_char c")
    case True
    have i: "conv c = Inr (unat c - 32)" "unat c - 32 < max_elements" using conv_key [OF True] by auto
    have len: "length (nodes p) = max_elements" using Cons.prems(2) by simp
    show ?thesis
      using Cons.IH [OF _ wf_child [OF Cons.prems(2) i(2)]] Cons.prems(1) True i len by (simp add: key_def)
  next
    case False
    then show ?thesis by (simp add: conv_other)
  qed
qed (simp add: key_def)

section \<open>Property\<close>

lemma insert_loop_same: "key s \<Longrightarrow> wf_trie p \<Longrightarrow> lookup p s = Some x \<Longrightarrow> insert_loop s x p = Inr p"
proof (induction s arbitrary: p)
  case Nil
  then show ?case by (cases p) simp
next
  case (Cons c s)
  have c: "key_char c" "key s" using Cons.prems by (auto simp: key_def)
  have i: "conv c = Inr (unat c - 32)" "unat c - 32 < max_elements" using conv_key [OF c(1)] by auto
  have len: "length (nodes p) = max_elements" using Cons.prems(2) by simp
  from Cons.prems(3) obtain t where t: "nodes p ! (unat c - 32) = Some t" "lookup t s = Some x"
    by (auto split: option.splits)
  have "wf_trie t" using wf_child [OF Cons.prems(2) i(2)] t(1) by (simp add: child_or_new_def)
  from Cons.IH [OF c(2) this t(2)] show ?case
    using i len t(1) by (cases p) (simp add: child_or_new_def list_update_same_conv)
qed

lemma c_str_bad: "c \<noteq> 0 \<Longrightarrow> \<not> key_char c \<Longrightarrow> \<not> key (c_str (s @ c # r)) \<or> 0 \<in> set s"
  by (induction s) (auto simp: c_str_def key_def)

text \<open>
  A search for a string that is no key ends the program at its first other character, unless the
  nodes of the trie end before it.
\<close>

fun has_path :: "'a trie \<Rightarrow> byte list \<Rightarrow> bool" where
  "has_path t [] \<longleftrightarrow> True"
| "has_path t (c # s) \<longleftrightarrow> (case nodes t ! (unat c - 32) of None \<Rightarrow> False | Some t' \<Rightarrow> has_path t' s)"

lemma find_loop_bad:
  "key s \<Longrightarrow> wf_trie t \<Longrightarrow> \<not> key_char c \<Longrightarrow>
   find_loop (s @ c # r) t = (if has_path t s then Inl Terminate else Inr False)"
proof (induction s arbitrary: t)
  case Nil
  then show ?case by (simp add: conv_other)
next
  case (Cons d s)
  have d: "key_char d" "key s" using Cons.prems by (auto simp: key_def)
  have i: "conv d = Inr (unat d - 32)" "unat d - 32 < max_elements" using conv_key [OF d(1)] by auto
  have len: "length (nodes t) = max_elements" using Cons.prems(2) by simp
  show ?case
  proof (cases "nodes t ! (unat d - 32)")
    case (Some t')
    then have "wf_trie t'" using wf_child [OF Cons.prems(2) i(2)] by (simp add: child_or_new_def)
    from Cons.IH [OF d(2) this Cons.prems(3)] show ?thesis using Some i len by simp
  qed (use i len in simp)
qed

lemma index_loop_bad:
  "key s \<Longrightarrow> wf_trie t \<Longrightarrow> \<not> key_char c \<Longrightarrow> index_loop (s @ c # r) T t = Inl Terminate"
proof (induction s arbitrary: t)
  case Nil
  then show ?case by (simp add: conv_other)
next
  case (Cons d s)
  have d: "key_char d" "key s" using Cons.prems by (auto simp: key_def)
  have i: "conv d = Inr (unat d - 32)" "unat d - 32 < max_elements" using conv_key [OF d(1)] by auto
  have len: "length (nodes t) = max_elements" using Cons.prems(2) by simp
  from Cons.IH [OF d(2) wf_child [OF Cons.prems(2) i(2)] Cons.prems(3)] show ?case using i len by simp
qed



end
