(* ===== verification/Uthread.thy ===== *)
theory Uthread
  imports Prelude
begin

text \<open>
  Model of \<open>uthread/uthread.c\<close>, user-level threads on \<open>ucontext\<close>, and of the scheduling loop of
  \<open>uthread/main.c\<close>. Threads live in a memory of addresses; a thread's function is the number of
  times it yields before it returns, since only \<open>uthread_yield\<close> and its return touch the scheduler.
  A context switch is the hand-over of control between the main program and \<open>running_uthread\<close>; the
  steps of the system are the relation \<open>ustep\<close>. The code does not check who calls \<open>uthread_resume\<close>, so
  \<open>ustep\<close> does not either; \<open>main_reachable\<close> are the runs in which only the main program calls it, as
  \<open>main.c\<close> does. Where a thread resumes another one, \<open>swapcontext\<close> overwrites the context of the main
  program, and only the state after the call itself is modelled.
\<close>

section \<open>State\<close>

datatype uthread_state = FREE | READY | RUNNING | SUSPEND

record uthread =
  ustate :: uthread_state
  yields_left :: nat
  unext :: "nat option"
  uprev :: "nat option"

record schedule =
  threads :: "nat \<Rightarrow> uthread option"
  next_addr :: nat
  running_uthread :: "nat option"
  uthreads_head :: "nat option"
  uthreads_tail :: "nat option"

definition get_thread :: "nat \<Rightarrow> schedule \<Rightarrow> uthread res" where
  "get_thread p s = (case threads s p of None \<Rightarrow> Inl WildDeref | Some u \<Rightarrow> Inr u)"

definition set_thread :: "nat \<Rightarrow> uthread \<Rightarrow> schedule \<Rightarrow> schedule" where
  "set_thread p u s = s\<lparr>threads := (threads s)(p := Some u)\<rparr>"

section \<open>The list of threads\<close>

definition uthread_push :: "nat option \<Rightarrow> schedule \<Rightarrow> schedule res" where
  "uthread_push q s = (case q of None \<Rightarrow> Inr s | Some p \<Rightarrow>
     (case uthreads_head s of
        None \<Rightarrow>
          rbind (get_thread p s) (\<lambda>u.
          Inr ((set_thread p (u\<lparr>unext := None, uprev := None\<rparr>) s)\<lparr>uthreads_head := Some p, uthreads_tail := Some p\<rparr>))
      | Some h \<Rightarrow>
          rbind (deref (uthreads_tail s)) (\<lambda>t.
          rbind (get_thread t s) (\<lambda>ut.
          let s1 = set_thread t (ut\<lparr>unext := Some p\<rparr>) s in
          rbind (get_thread p s1) (\<lambda>u.
          Inr ((set_thread p (u\<lparr>uprev := Some t, unext := None\<rparr>) s1)\<lparr>uthreads_tail := Some p\<rparr>))))))"

definition uthread_pop :: "schedule \<Rightarrow> (nat option \<times> schedule) res" where
  "uthread_pop s = (case uthreads_tail s of None \<Rightarrow> Inr (None, s) | Some tail \<Rightarrow>
     rbind (get_thread tail s) (\<lambda>ut.
     if uprev ut = Some tail then Inr (Some tail, s\<lparr>uthreads_head := None, uthreads_tail := None\<rparr>)
     else
       rbind (deref (uprev ut)) (\<lambda>p.
       rbind (get_thread p s) (\<lambda>up.
       let s1 = set_thread p (up\<lparr>unext := unext ut\<rparr>) s in
       rbind (get_thread tail s1) (\<lambda>ut1.
       rbind (deref (unext ut1)) (\<lambda>n.
       rbind (get_thread n s1) (\<lambda>un.
       let s2 = set_thread n (un\<lparr>uprev := uprev ut1\<rparr>) s1 in
       rbind (get_thread tail s2) (\<lambda>ut2.
       Inr (Some tail, s2\<lparr>uthreads_tail := uprev ut2\<rparr>)))))))))"

text \<open>
  The loop of \<open>uthread_del\<close> does not move on from the head: the step to the next thread stands behind
  it. \<open>None\<close> is a loop that does not return.
\<close>

partial_function (option) del_loop :: "nat \<Rightarrow> nat \<Rightarrow> schedule \<Rightarrow> schedule res option" where
  "del_loop p head s =
     (if head = p then
        Some (rbind (get_thread head s) (\<lambda>uh.
              if uthreads_head s = unext uh then rbind (uthread_pop s) (\<lambda>(_, s'). Inr s')
              else rbind (uthread_pop (s\<lparr>uthreads_tail := Some p\<rparr>)) (\<lambda>(_, s').
                   Inr (s'\<lparr>uthreads_tail := uthreads_tail s\<rparr>))))
      else del_loop p head s)"

declare del_loop.simps [code]

definition uthread_del :: "nat option \<Rightarrow> schedule \<Rightarrow> schedule res" where
  "uthread_del q s = (case (q, uthreads_head s) of
       (Some p, Some head) \<Rightarrow> returned (del_loop p head s)
     | _ \<Rightarrow> Inr s)"

text \<open>
  \<open>uthread_create\<close>: the two booleans say whether the two calls of \<open>malloc\<close> succeed. The thread's
  function is the number of times it yields before it returns.
\<close>

definition uthread_create :: "bool \<Rightarrow> bool \<Rightarrow> nat \<Rightarrow> schedule \<Rightarrow> (nat option \<times> schedule) res" where
  "uthread_create m1 m2 func s =
     (if \<not> m1 \<or> \<not> m2 then Inr (None, s)
      else
        (let u = next_addr s;
             s1 = (set_thread u \<lparr>ustate = READY, yields_left = func, unext = None, uprev = None\<rparr> s)\<lparr>next_addr := u + 1\<rparr> in
         rbind (uthread_push (Some u) s1) (\<lambda>s2. Inr (Some u, s2))))"

text \<open>The loop over the threads; the first argument bounds its rounds.\<close>

fun finished_loop :: "nat \<Rightarrow> nat option \<Rightarrow> schedule \<Rightarrow> bool res" where
  "finished_loop k None s = Inr True"
| "finished_loop 0 (Some p) s = Inl NoReturn"
| "finished_loop (Suc k) (Some p) s =
     rbind (get_thread p s) (\<lambda>u. if ustate u \<noteq> FREE then Inr False else finished_loop k (unext u) s)"

definition schedule_finished :: "nat \<Rightarrow> schedule \<Rightarrow> bool res" where
  "schedule_finished k s =
     (if running_uthread s \<noteq> None then Inr False else finished_loop k (uthreads_head s) s)"

section \<open>Switching\<close>

text \<open>
  \<open>uthread_resume\<close> up to \<open>swapcontext\<close>, which hands control to the thread; \<open>uthread_yield\<close> up to the
  switch back; and the end of \<open>uthread_body\<close> after the thread's function has returned. Control is
  with the thread \<open>running_uthread\<close>, or with the main program if there is none.
\<close>

definition uthread_resume :: "nat option \<Rightarrow> schedule \<Rightarrow> schedule res" where
  "uthread_resume q s = (case q of None \<Rightarrow> Inr s | Some p \<Rightarrow>
     rbind (get_thread p s) (\<lambda>u.
     case ustate u of
       READY \<Rightarrow> Inr ((set_thread p (u\<lparr>ustate := RUNNING\<rparr>) s)\<lparr>running_uthread := Some p\<rparr>)
     | SUSPEND \<Rightarrow> Inr ((set_thread p (u\<lparr>ustate := RUNNING\<rparr>) s)\<lparr>running_uthread := Some p\<rparr>)
     | _ \<Rightarrow> Inr s))"

definition uthread_yield :: "schedule \<Rightarrow> schedule res" where
  "uthread_yield s = (case running_uthread s of None \<Rightarrow> Inr s | Some p \<Rightarrow>
     rbind (get_thread p s) (\<lambda>u.
     Inr ((set_thread p (u\<lparr>ustate := SUSPEND\<rparr>) s)\<lparr>running_uthread := None\<rparr>)))"

definition uthread_body_end :: "schedule \<Rightarrow> schedule res" where
  "uthread_body_end s = (case running_uthread s of None \<Rightarrow> Inr s | Some p \<Rightarrow>
     rbind (get_thread p s) (\<lambda>u.
     Inr ((set_thread p (u\<lparr>ustate := FREE\<rparr>) s)\<lparr>running_uthread := None\<rparr>)))"

text \<open>What the running thread does until control is back in the main program.\<close>

definition thread_slice :: "schedule \<Rightarrow> schedule res" where
  "thread_slice s = (case running_uthread s of None \<Rightarrow> Inr s | Some p \<Rightarrow>
     rbind (get_thread p s) (\<lambda>u.
     if yields_left u = 0 then uthread_body_end s
     else uthread_yield (set_thread p (u\<lparr>yields_left := yields_left u - 1\<rparr>) s)))"

fun resume_all :: "nat list \<Rightarrow> schedule \<Rightarrow> schedule res" where
  "resume_all [] s = Inr s"
| "resume_all (p # ps) s =
     rbind (uthread_resume (Some p) s) (\<lambda>s1. rbind (thread_slice s1) (resume_all ps))"

text \<open>The loop of \<open>schedule_test\<close> on the threads it has created.\<close>

fun schedule_loop :: "nat \<Rightarrow> nat \<Rightarrow> nat list \<Rightarrow> schedule \<Rightarrow> schedule res" where
  "schedule_loop 0 k us s = Inl NoReturn"
| "schedule_loop (Suc n) k us s =
     rbind (schedule_finished k s) (\<lambda>b.
     if b then Inr s else rbind (resume_all us s) (schedule_loop n k us))"

section \<open>Steps\<close>

datatype uevent = Create bool bool nat | Resume "nat option" | Slice

inductive ustep :: "uevent \<Rightarrow> schedule \<Rightarrow> schedule \<Rightarrow> bool" where
  create: "uthread_create m1 m2 f s = Inr (q, s') \<Longrightarrow> ustep (Create m1 m2 f) s s'"
| resume: "uthread_resume q s = Inr s' \<Longrightarrow> ustep (Resume q) s s'"
| slice: "running_uthread s = Some p \<Longrightarrow> thread_slice s = Inr s' \<Longrightarrow> ustep Slice s s'"

text \<open>The main program has control when no thread runs; it is the only one to resume threads.\<close>

fun from_main :: "uevent \<Rightarrow> schedule \<Rightarrow> bool" where
  "from_main (Resume q) s \<longleftrightarrow> running_uthread s = None"
| "from_main _ s \<longleftrightarrow> True"

inductive main_reachable :: "schedule \<Rightarrow> schedule \<Rightarrow> bool" where
  init: "main_reachable s0 s0"
| step: "main_reachable s0 s \<Longrightarrow> ustep e s s' \<Longrightarrow> from_main e s \<Longrightarrow> main_reachable s0 s'"

inductive_cases ustepE: "ustep e s s'"

text \<open>A schedule without threads whose pointers are null.\<close>

definition null_schedule :: "schedule \<Rightarrow> bool" where
  "null_schedule s \<longleftrightarrow> running_uthread s = None \<and> uthreads_head s = None \<and> uthreads_tail s = None \<and> dom (threads s) = {}"

definition linked :: "nat list \<Rightarrow> schedule \<Rightarrow> bool" where
  "linked us s \<longleftrightarrow> distinct us \<and>
     uthreads_head s = (if us = [] then None else Some (hd us)) \<and>
     uthreads_tail s = (if us = [] then None else Some (last us)) \<and>
     (\<forall>i < length us. \<exists>u. threads s (us ! i) = Some u \<and>
        unext u = (if Suc i < length us then Some (us ! Suc i) else None) \<and>
        uprev u = (if i = 0 then None else Some (us ! (i - 1))))"

definition sched_inv :: "nat list \<Rightarrow> schedule \<Rightarrow> bool" where
  "sched_inv us s \<longleftrightarrow> linked us s \<and> dom (threads s) = set us \<and> (\<forall>p \<in> set us. p < next_addr s) \<and>
     (\<forall>p u. threads s p = Some u \<longrightarrow> (ustate u = RUNNING \<longleftrightarrow> running_uthread s = Some p)) \<and>
     (\<forall>p. running_uthread s = Some p \<longrightarrow> p \<in> set us)"

lemma set_thread_simps [simp]:
  "threads (set_thread p u s) = (threads s)(p := Some u)"
  "next_addr (set_thread p u s) = next_addr s"
  "running_uthread (set_thread p u s) = running_uthread s"
  "uthreads_head (set_thread p u s) = uthreads_head s"
  "uthreads_tail (set_thread p u s) = uthreads_tail s"
  by (simp_all add: set_thread_def)

lemma get_thread_Some [simp]: "threads s p = Some u \<Longrightarrow> get_thread p s = Inr u"
  by (simp add: get_thread_def)

lemma linkedD:
  assumes "linked us s" "i < length us"
  obtains u where "threads s (us ! i) = Some u"
    "unext u = (if Suc i < length us then Some (us ! Suc i) else None)"
    "uprev u = (if i = 0 then None else Some (us ! (i - 1)))"
  using assms unfolding linked_def by blast

text \<open>Updates that leave the links alone.\<close>

lemma linked_frame:
  assumes "linked us s"
    and "\<And>p u. threads s p = Some u \<Longrightarrow> \<exists>u'. threads s' p = Some u' \<and> unext u' = unext u \<and> uprev u' = uprev u"
    and "uthreads_head s' = uthreads_head s" "uthreads_tail s' = uthreads_tail s"
  shows "linked us s'"
  unfolding linked_def
proof (intro conjI allI impI)
  fix i assume "i < length us"
  from linkedD [OF assms(1) this] obtain u where u: "threads s (us ! i) = Some u"
    "unext u = (if Suc i < length us then Some (us ! Suc i) else None)"
    "uprev u = (if i = 0 then None else Some (us ! (i - 1)))" by blast
  from assms(2) [OF u(1)] u(2,3)
  show "\<exists>u. threads s' (us ! i) = Some u \<and> unext u = (if Suc i < length us then Some (us ! Suc i) else None) \<and>
      uprev u = (if i = 0 then None else Some (us ! (i - 1)))" by auto
qed (use assms in \<open>auto simp: linked_def\<close>)

lemma push_linked:
  assumes link: "linked us s" and p: "p \<notin> set us" "threads s p = Some u"
  shows "\<exists>s'. uthread_push (Some p) s = Inr s' \<and> linked (us @ [p]) s' \<and> dom (threads s') = dom (threads s) \<and>
    next_addr s' = next_addr s \<and> running_uthread s' = running_uthread s \<and>
    (\<forall>q. map_option ustate (threads s' q) = map_option ustate (threads s q))"
proof (cases us rule: rev_cases)
  case Nil
  then show ?thesis using link p
    by (auto simp: uthread_push_def linked_def)
next
  case (snoc vs t)
  then obtain ut where ut: "threads s t = Some ut" "unext ut = None"
    using linkedD [OF link, of "length vs"] by auto
  have tp: "t \<noteq> p" using p snoc by auto
  let ?s = "(set_thread p (u\<lparr>uprev := Some t, unext := None\<rparr>) (set_thread t (ut\<lparr>unext := Some p\<rparr>) s))\<lparr>uthreads_tail := Some p\<rparr>"
  have "uthread_push (Some p) s = Inr ?s"
    using link snoc ut p tp by (simp add: uthread_push_def linked_def Let_def)
  moreover have "linked (us @ [p]) ?s"
    unfolding linked_def
  proof (intro conjI allI impI)
    fix i assume i: "i < length (us @ [p])"
    consider "i = length us" | "i = length vs" | "i < length vs" using i snoc by fastforce
    then show "\<exists>w. threads ?s ((us @ [p]) ! i) = Some w \<and>
        unext w = (if Suc i < length (us @ [p]) then Some ((us @ [p]) ! Suc i) else None) \<and>
        uprev w = (if i = 0 then None else Some ((us @ [p]) ! (i - 1)))"
    proof cases
      case 1
      then show ?thesis using snoc by (simp add: nth_append)
    next
      case 2
      from linkedD [OF link, of i] 2 snoc ut obtain "uprev ut = (if i = 0 then None else Some (us ! (i - 1)))"
        by (metis length_append_singleton lessI nth_append_length option.inject)
      then show ?thesis using 2 snoc tp by (auto simp: nth_append)
    next
      case 3
      from linkedD [OF link, of i] 3 snoc obtain w where w: "threads s (us ! i) = Some w"
        "unext w = Some (us ! Suc i)" "uprev w = (if i = 0 then None else Some (us ! (i - 1)))" by auto
      have "us ! i \<noteq> t" "us ! i \<noteq> p"
        using 3 snoc link p by (auto simp: linked_def nth_append in_set_conv_nth)
      then show ?thesis using w 3 snoc by (auto simp: nth_append)
    qed
  qed (use link snoc p in \<open>auto simp: linked_def hd_append\<close>)
  ultimately show ?thesis using ut p by auto
qed

lemma sched_inv_set:
  assumes inv: "sched_inv us s" and p: "threads s p = Some u" and u': "unext u' = unext u" "uprev u' = uprev u"
    and run: "r = (if ustate u' = RUNNING then Some p else None)"
      "running_uthread s = None \<or> running_uthread s = Some p"
  shows "sched_inv us ((set_thread p u' s)\<lparr>running_uthread := r\<rparr>)"
proof -
  have "linked us ((set_thread p u' s)\<lparr>running_uthread := r\<rparr>)"
    by (rule linked_frame [of us s]) (use inv p u' in \<open>auto simp: sched_inv_def\<close>)
  moreover have "p \<in> set us" using inv p by (auto simp: sched_inv_def)
  ultimately show ?thesis using inv p run unfolding sched_inv_def by auto
qed

lemma ustep_inv:
  assumes "ustep e s s'" and main: "from_main e s" and inv: "sched_inv us s"
  shows "\<exists>us'. sched_inv us' s'"
  using assms(1)
proof cases
  case (create m1 m2 f q)
  show ?thesis
  proof (cases "m1 \<and> m2")
    case False
    then show ?thesis using create inv by (auto simp: uthread_create_def)
  next
    case True
    let ?p = "next_addr s" and ?u = "\<lparr>ustate = READY, yields_left = f, unext = None, uprev = None\<rparr>"
    let ?s1 = "(set_thread ?p ?u s)\<lparr>next_addr := ?p + 1\<rparr>"
    have new: "?p \<notin> set us" "threads s ?p = None" using inv by (auto simp: sched_inv_def)
    have "linked us ?s1"
      by (rule linked_frame [of us s]) (use inv new in \<open>auto simp: sched_inv_def\<close>)
    from push_linked [OF this new(1), of ?u] obtain s2 where
      s2: "uthread_push (Some ?p) ?s1 = Inr s2" "linked (us @ [?p]) s2" "dom (threads s2) = dom (threads ?s1)"
        "next_addr s2 = ?p + 1" "running_uthread s2 = running_uthread s"
        "\<forall>q. map_option ustate (threads s2 q) = map_option ustate (threads ?s1 q)" by auto
    have "s' = s2" using create True s2(1) by (simp add: uthread_create_def Let_def)
    moreover have "sched_inv (us @ [?p]) s2"
      unfolding sched_inv_def
    proof (intro conjI allI impI)
      show "dom (threads s2) = set (us @ [?p])" using s2(3) inv by (auto simp: sched_inv_def)
      show "\<forall>p \<in> set (us @ [?p]). p < next_addr s2" using s2(4) inv by (auto simp: sched_inv_def)
      fix p u assume u: "threads s2 p = Some u"
      then have st: "map_option ustate (threads ?s1 p) = Some (ustate u)" using s2(6) by (metis option.simps(9))
      show "(ustate u = RUNNING) = (running_uthread s2 = Some p)"
      proof (cases "p = ?p")
        case True
        then have "ustate u = READY" using st by simp
        moreover have "running_uthread s \<noteq> Some ?p" using inv new by (auto simp: sched_inv_def)
        ultimately show ?thesis using True s2(5) by simp
      next
        case False
        then obtain u0 where "threads s p = Some u0" "ustate u0 = ustate u" using st by auto
        then show ?thesis using inv s2(5) unfolding sched_inv_def by metis
      qed
    next
      fix p assume "running_uthread s2 = Some p"
      then show "p \<in> set (us @ [?p])" using s2(5) inv by (auto simp: sched_inv_def)
    qed (rule s2(2))
    ultimately show ?thesis by blast
  qed
next
  case (resume q)
  show ?thesis
  proof (cases q)
    case None
    then show ?thesis using resume inv by (auto simp: uthread_resume_def)
  next
    case (Some p)
    with resume obtain u where u: "threads s p = Some u"
      by (auto simp: uthread_resume_def get_thread_def split: option.splits)
    have "s' = (set_thread p (u\<lparr>ustate := RUNNING\<rparr>) s)\<lparr>running_uthread := Some p\<rparr> \<or> s' = s"
      using resume Some u by (auto simp: uthread_resume_def split: uthread_state.splits)
    moreover have "sched_inv us ((set_thread p (u\<lparr>ustate := RUNNING\<rparr>) s)\<lparr>running_uthread := Some p\<rparr>)"
      using resume(1) main by (intro sched_inv_set [OF inv u]) auto
    ultimately show ?thesis using inv by blast
  qed
next
  case (slice p)
  from slice inv obtain u where u: "threads s p = Some u"
    by (auto simp: thread_slice_def get_thread_def split: option.splits)
  have "s' = (set_thread p (if yields_left u = 0 then u\<lparr>ustate := FREE\<rparr>
      else u\<lparr>yields_left := yields_left u - 1, ustate := SUSPEND\<rparr>) s)\<lparr>running_uthread := None\<rparr>"
    using slice u by (auto simp: thread_slice_def uthread_body_end_def uthread_yield_def set_thread_def)
  moreover have "sched_inv us \<dots>"
    using slice by (intro sched_inv_set [OF inv u]) auto
  ultimately show ?thesis by blast
qed

lemma null_schedule_inv: "null_schedule s \<Longrightarrow> sched_inv [] s"
  by (simp add: null_schedule_def sched_inv_def linked_def)

lemma main_reachable_inv:
  "main_reachable s0 s \<Longrightarrow> null_schedule s0 \<Longrightarrow> \<exists>us. sched_inv us s"
proof (induction rule: main_reachable.induct)
  case (init s0)
  then show ?case using null_schedule_inv by blast
next
  case (step s0 s e s')
  then show ?case using ustep_inv by blast
qed

section \<open>Running to completion\<close>

definition thread_free :: "schedule \<Rightarrow> nat \<Rightarrow> bool" where
  "thread_free s p \<longleftrightarrow> map_option ustate (threads s p) = Some FREE"

lemma finished_loop_linked:
  assumes link: "linked us s" and k: "length us - i \<le> k"
  shows "finished_loop k (if i < length us then Some (us ! i) else None) s =
    Inr (\<forall>j. i \<le> j \<longrightarrow> j < length us \<longrightarrow> thread_free s (us ! j))"
  using k
proof (induction k arbitrary: i)
  case (Suc k)
  show ?case
  proof (cases "i < length us")
    case True
    from linkedD [OF link True] obtain u where u: "threads s (us ! i) = Some u"
      "unext u = (if Suc i < length us then Some (us ! Suc i) else None)" by blast
    have split: "(\<forall>j. i \<le> j \<longrightarrow> j < length us \<longrightarrow> P j) \<longleftrightarrow> P i \<and> (\<forall>j. Suc i \<le> j \<longrightarrow> j < length us \<longrightarrow> P j)" for P
      using True by (metis Suc_leD Suc_leI le_neq_implies_less order_refl)
    show ?thesis
      using Suc.IH [of "Suc i"] Suc.prems True u
      by (simp add: split [of "\<lambda>j. thread_free s (us ! j)"]) (simp add: thread_free_def)
  qed simp
qed simp

lemma schedule_finished_iff:
  assumes "linked us s" "running_uthread s = None" "length us \<le> k"
  shows "schedule_finished k s = Inr (\<forall>p \<in> set us. thread_free s p)"
proof -
  have "uthreads_head s = (if 0 < length us then Some (us ! 0) else None)"
    using assms(1) by (cases us) (auto simp: linked_def)
  with finished_loop_linked [OF assms(1), of 0 k] assms(2,3) show ?thesis
    by (simp add: schedule_finished_def all_set_conv_all_nth)
qed

text \<open>What one turn of \<open>uthread_resume\<close> does to a thread that is not running.\<close>

definition after_slice :: "uthread \<Rightarrow> uthread" where
  "after_slice u =
     (if ustate u = FREE then u
      else if yields_left u = 0 then u\<lparr>ustate := FREE\<rparr>
      else u\<lparr>yields_left := yields_left u - 1, ustate := SUSPEND\<rparr>)"

lemma resume_slice:
  assumes "running_uthread s = None" "threads s p = Some u" "ustate u \<noteq> RUNNING"
  shows "rbind (uthread_resume (Some p) s) thread_slice = Inr (set_thread p (after_slice u) s)"
proof (cases "ustate u = FREE")
  case True
  then show ?thesis using assms
    by (simp add: uthread_resume_def thread_slice_def after_slice_def set_thread_def fun_upd_idem)
next
  case False
  then have "uthread_resume (Some p) s = Inr ((set_thread p (u\<lparr>ustate := RUNNING\<rparr>) s)\<lparr>running_uthread := Some p\<rparr>)"
    using assms by (cases "ustate u") (auto simp: uthread_resume_def)
  then show ?thesis using assms False
    by (cases s) (simp add: thread_slice_def uthread_body_end_def uthread_yield_def after_slice_def set_thread_def)
qed

lemma resume_all_ok:
  assumes "distinct ps" "running_uthread s = None"
    "\<And>p. p \<in> set ps \<Longrightarrow> \<exists>u. threads s p = Some u \<and> ustate u \<noteq> RUNNING"
  shows "resume_all ps s = Inr (s\<lparr>threads := \<lambda>p. if p \<in> set ps then map_option after_slice (threads s p) else threads s p\<rparr>)"
  using assms
proof (induction ps arbitrary: s)
  case (Cons p ps)
  from Cons.prems(3) [of p] obtain u where u: "threads s p = Some u" "ustate u \<noteq> RUNNING" by auto
  let ?s = "set_thread p (after_slice u) s"
  have "resume_all (p # ps) s = resume_all ps ?s"
    using resume_slice [OF Cons.prems(2) u] by (auto simp: rbind_def split: sum.splits)
  also have "\<dots> = Inr (?s\<lparr>threads := \<lambda>q. if q \<in> set ps then map_option after_slice (threads ?s q) else threads ?s q\<rparr>)"
    using Cons.prems by (intro Cons.IH) auto
  also have "\<dots> = Inr (s\<lparr>threads := \<lambda>q. if q \<in> set (p # ps) then map_option after_slice (threads s q) else threads s q\<rparr>)"
    using Cons.prems(1) u by (auto simp: set_thread_def fun_eq_iff)
  finally show ?case .
qed simp

definition busy_below :: "nat \<Rightarrow> uthread \<Rightarrow> bool" where
  "busy_below m u \<longleftrightarrow> ustate u = FREE \<or> (ustate u \<noteq> RUNNING \<and> yields_left u < m)"

lemma after_slice_below: "busy_below (Suc m) u \<Longrightarrow> busy_below m (after_slice u)"
  by (auto simp: busy_below_def after_slice_def)

lemma schedule_loop_ends:
  assumes "linked us s" "running_uthread s = None" "length us \<le> k" "m < n"
    and "\<And>p. p \<in> set us \<Longrightarrow> pred_option (busy_below m) (threads s p)"
  shows "\<exists>s'. schedule_loop n k us s = Inr s' \<and> (\<forall>p \<in> set us. thread_free s' p)"
  using assms
proof (induction n arbitrary: s m)
  case (Suc n)
  have thr: "\<exists>u. threads s p = Some u" if "p \<in> set us" for p
    using that linkedD [OF Suc.prems(1)] by (metis in_set_conv_nth)
  note fin = schedule_finished_iff [OF Suc.prems(1-3)]
  show ?case
  proof (cases "\<forall>p \<in> set us. thread_free s p")
    case True
    then show ?thesis using fin by simp
  next
    case False
    then obtain p u where "p \<in> set us" "threads s p = Some u" "ustate u \<noteq> FREE"
      using thr by (fastforce simp: thread_free_def)
    with Suc.prems(5) [of p] have "m \<noteq> 0" by (auto simp: busy_below_def)
    then obtain m' where m: "m = Suc m'" by (cases m) auto
    let ?s = "s\<lparr>threads := \<lambda>p. if p \<in> set us then map_option after_slice (threads s p) else threads s p\<rparr>"
    have "resume_all us s = Inr ?s"
    proof (rule resume_all_ok)
      show "distinct us" using Suc.prems(1) by (simp add: linked_def)
      fix p assume "p \<in> set us"
      with thr Suc.prems(5) show "\<exists>u. threads s p = Some u \<and> ustate u \<noteq> RUNNING"
        by (fastforce simp: busy_below_def)
    qed (rule Suc.prems(2))
    moreover have "\<exists>s'. schedule_loop n k us ?s = Inr s' \<and> (\<forall>p \<in> set us. thread_free s' p)"
    proof (rule Suc.IH)
      show "linked us ?s"
        by (rule linked_frame [OF Suc.prems(1)]) (auto simp: after_slice_def)
      show "m' < n" using Suc.prems(4) m by simp
      fix p assume p: "p \<in> set us"
      show "pred_option (busy_below m') (threads ?s p)"
        using Suc.prems(5) [OF p] p m by (cases "threads s p") (auto simp: after_slice_below)
    qed (use Suc.prems in auto)
    ultimately show ?thesis using False fin by simp
  qed
qed simp

section \<open>Properties\<close>

text \<open>
  C11. Start from a schedule without threads whose pointers are null, and let threads be created, run
  and yield in any order, where only the main program calls \<open>uthread_resume\<close> (no thread is running
  then). In every state that is reached, the created threads form a well-linked list, each exactly
  once, and a thread is \<open>RUNNING\<close> if and only if it is \<open>running_uthread\<close>.
\<close>

theorem uthread_one_running:
  assumes "null_schedule s0" and "main_reachable s0 s"
  shows "\<exists>us. linked us s \<and> dom (threads s) = set us \<and>
    (\<forall>p u. threads s p = Some u \<longrightarrow> (ustate u = RUNNING \<longleftrightarrow> running_uthread s = Some p))"
  using main_reachable_inv [OF assms(2,1)] by (auto simp: sched_inv_def)

definition two_threads :: schedule where
  "two_threads = \<lparr>threads = (\<lambda>p. if p = 0 then Some \<lparr>ustate = READY, yields_left = 2, unext = Some 1, uprev = None\<rparr>
     else if p = 1 then Some \<lparr>ustate = READY, yields_left = 5, unext = None, uprev = Some 0\<rparr> else None),
     next_addr = 2, running_uthread = None, uthreads_head = Some 0, uthreads_tail = Some 1\<rparr>"

lemma two_threads_linked: "linked [0, 1] two_threads"
  by (auto simp: linked_def two_threads_def less_Suc_eq)

definition zeroed :: schedule where
  "zeroed = \<lparr>threads = \<lambda>p. None, next_addr = 0, running_uthread = None, uthreads_head = None, uthreads_tail = None\<rparr>"

text \<open>The first thread yields, the second one runs.\<close>

definition second_runs :: schedule where
  "second_runs = \<lparr>threads = (\<lambda>p. if p = 0 then Some \<lparr>ustate = SUSPEND, yields_left = 1, unext = Some 1, uprev = None\<rparr>
     else if p = 1 then Some \<lparr>ustate = RUNNING, yields_left = 5, unext = None, uprev = Some 0\<rparr> else None),
     next_addr = 2, running_uthread = Some 1, uthreads_head = Some 0, uthreads_tail = Some 1\<rparr>"

lemma two_threads_created:
  "rbind (uthread_create True True 2 zeroed) (\<lambda>(_, s). uthread_create True True 5 s) = Inr (Some 1, two_threads)"
  by (simp add: zeroed_def two_threads_def uthread_create_def uthread_push_def set_thread_def get_thread_def fun_eq_iff)

lemma second_runs_reachable: "main_reachable zeroed second_runs"
proof -
  from two_threads_created obtain q s1 where c: "uthread_create True True 2 zeroed = Inr (q, s1)"
    "uthread_create True True 5 s1 = Inr (Some 1, two_threads)" by (auto simp: rbind_eq_Inr)
  have two: "main_reachable zeroed two_threads"
    using main_reachable.init ustep.create [OF c(1)] ustep.create [OF c(2)]
    by (meson from_main.simps(2) main_reachable.step)
  let ?s2 = "set_thread 0 \<lparr>ustate = RUNNING, yields_left = 2, unext = Some 1, uprev = None\<rparr> two_threads\<lparr>running_uthread := Some 0\<rparr>"
  let ?s3 = "set_thread 0 \<lparr>ustate = SUSPEND, yields_left = 1, unext = Some 1, uprev = None\<rparr> two_threads"
  have "ustep (Resume (Some 0)) two_threads ?s2"
    by (rule ustep.resume) (simp add: uthread_resume_def two_threads_def set_thread_def get_thread_def)
  then have s2: "main_reachable zeroed ?s2"
    by (rule main_reachable.step [OF two]) (simp add: two_threads_def)
  have "ustep Slice ?s2 ?s3"
    by (rule ustep.slice [of _ 0])
      (simp_all add: thread_slice_def uthread_yield_def two_threads_def set_thread_def get_thread_def fun_eq_iff)
  then have s3: "main_reachable zeroed ?s3"
    by (rule main_reachable.step [OF s2]) simp
  have "ustep (Resume (Some 1)) ?s3 second_runs"
    by (rule ustep.resume)
      (simp add: uthread_resume_def second_runs_def two_threads_def set_thread_def get_thread_def fun_eq_iff)
  then show ?thesis
    by (rule main_reachable.step [OF s3]) (simp add: two_threads_def set_thread_def)
qed

theorem uthread_one_running_witness:
  "\<exists>us. linked us second_runs \<and> dom (threads second_runs) = set us \<and> running_uthread second_runs = Some 1"
proof -
  have "null_schedule zeroed" by (simp add: null_schedule_def zeroed_def)
  from uthread_one_running [OF this second_runs_reachable] show ?thesis by (auto simp: second_runs_def)
qed

text \<open>
  The condition is needed: when thread 1 resumes the suspended thread 0, nothing stops it, and both
  are \<open>RUNNING\<close>.
\<close>

lemma nested_resume_two_running:
  "\<exists>s u v. ustep (Resume (Some 0)) second_runs s \<and> threads s 0 = Some u \<and> threads s 1 = Some v \<and>
     ustate u = RUNNING \<and> ustate v = RUNNING \<and> running_uthread s = Some 0"
proof -
  have "\<exists>s. uthread_resume (Some 0) second_runs = Inr s \<and> (\<exists>u v. threads s 0 = Some u \<and> threads s 1 = Some v \<and>
      ustate u = RUNNING \<and> ustate v = RUNNING) \<and> running_uthread s = Some 0"
    by (simp add: uthread_resume_def second_runs_def set_thread_def get_thread_def)
  then show ?thesis using ustep.resume by blast
qed

text \<open>
  \<open>schedule_test\<close> does not set the pointers of its schedule. If what is there is not null and does not
  point to a thread, the first \<open>uthread_create\<close> writes through it.
\<close>

lemma create_uninitialised:
  assumes "uthreads_head s = Some h" and "uthreads_tail s = Some t" and "threads s t = None" and "t \<noteq> next_addr s"
  shows "uthread_create True True f s = Inl WildDeref"
  using assms by (simp add: uthread_create_def uthread_push_def get_thread_def Let_def)

text \<open>
  C12. The loop of \<open>schedule_test\<close>, which resumes the threads in turn until \<open>schedule_finished\<close>, ends
  with all threads finished, after at most one round more than the largest number of yields.
\<close>

theorem uthread_schedule_ends:
  assumes "linked us s" and "running_uthread s = None" and "length us \<le> k"
    and "list_all (\<lambda>p. pred_option (\<lambda>u. ustate u \<noteq> RUNNING \<and> yields_left u < m) (threads s p)) us" and "m < n"
  shows "\<exists>s'. schedule_loop n k us s = Inr s' \<and> (\<forall>p \<in> set us. thread_free s' p)"
  using assms(1-3,5)
proof (rule schedule_loop_ends)
  fix p assume "p \<in> set us"
  then show "pred_option (busy_below m) (threads s p)"
    using assms(4) by (cases "threads s p") (auto simp: list_all_iff busy_below_def)
qed

theorem uthread_schedule_ends_witness:
  "\<exists>s'. schedule_loop 7 2 [0, 1] two_threads = Inr s' \<and> thread_free s' 1"
  using uthread_schedule_ends [OF two_threads_linked, of 2 6 7] by (auto simp: two_threads_def)

lemma del_loop_stays:
  assumes "head \<noteq> p"
  shows "del_loop p head s = None"
proof -
  have "head = p" if "del_loop p head s = Some r" for r
  proof (rule del_loop.raw_induct [where P = "\<lambda>p head s r. head = p", OF _ that])
    fix f p head s r
    assume IH: "\<And>p head s r. f p head s = Some r \<Longrightarrow> head = p"
      and eq: "(if head = p then Some (rbind (get_thread head s) (\<lambda>uh.
              if uthreads_head s = unext uh then rbind (uthread_pop s) (\<lambda>(_, s'). Inr s')
              else rbind (uthread_pop (s\<lparr>uthreads_tail := Some p\<rparr>)) (\<lambda>(_, s').
                   Inr (s'\<lparr>uthreads_tail := uthreads_tail s\<rparr>))))
      else f p head s) = Some r"
    show "head = p" using eq IH [of p head s r] by (auto split: if_splits)
  qed
  with assms show ?thesis by (cases "del_loop p head s") auto
qed

text \<open>
  \<open>uthread_pop\<close> dereferences null on every list with a thread, since the links at its ends are
  null; \<open>uthread_del\<close> does so for the first thread and never returns for any other.
\<close>

theorem uthread_pop_del_fault:
  assumes "linked us s" and "us \<noteq> []"
  shows "uthread_pop s = Inl NullDeref \<and>
    uthread_del (Some p) s = Inl (if p = hd us then NullDeref else NoReturn)"
proof -
  have ends: "uthreads_tail s = Some (last us)" "uthreads_head s = Some (hd us)" "distinct us"
    using assms by (auto simp: linked_def)
  have n: "length us - 1 < length us" "Suc (length us - 1) = length us" "length us - 1 - 1 = length us - 2"
    "length us - 1 = 0 \<longleftrightarrow> length us = 1" using assms(2) by (cases us; simp)+
  from linkedD [OF assms(1) n(1)] obtain ut where
    ut: "threads s (last us) = Some ut" "unext ut = None"
      "uprev ut = (if length us = 1 then None else Some (us ! (length us - 2)))"
    unfolding n(2-4) last_conv_nth [OF assms(2), symmetric] by (metis less_irrefl)
  have pop: "uthread_pop s = Inl NullDeref"
  proof (cases "length us = 1")
    case True
    then show ?thesis using ends ut by (simp add: uthread_pop_def)
  next
    case False
    then have len: "length us - 2 < length us - 1" "length us - 1 < length us" using assms(2) by (cases us; auto)+
    then have neq: "us ! (length us - 2) \<noteq> last us"
      using ends(3) assms(2) nth_eq_iff_index_eq [of us "length us - 2" "length us - 1"] by (simp add: last_conv_nth)
    from linkedD [OF assms(1), of "length us - 2"] len obtain up where
      "threads s (us ! (length us - 2)) = Some up" by auto
    then show ?thesis using ends ut False neq by (simp add: uthread_pop_def Let_def)
  qed
  from linkedD [OF assms(1), of 0] assms(2) obtain uh where
    uh: "threads s (hd us) = Some uh" "uprev uh = None"
      "unext uh = (if Suc 0 < length us then Some (us ! Suc 0) else None)"
    by (auto simp: hd_conv_nth)
  have "unext uh \<noteq> Some (hd us)"
    using uh ends(3) assms(2) nth_eq_iff_index_eq [of us "Suc 0" 0] by (auto simp: hd_conv_nth)
  then have "uthread_del (Some p) s = Inl (if p = hd us then NullDeref else NoReturn)"
    using ends uh del_loop_stays [of "hd us" p s]
    by (auto simp: uthread_del_def uthread_pop_def del_loop.simps [of "hd us" "hd us"])
  with pop show ?thesis by simp
qed

theorem uthread_pop_del_fault_witness:
  "uthread_pop two_threads = Inl NullDeref \<and> uthread_del (Some 1) two_threads = Inl NoReturn"
  using uthread_pop_del_fault [OF two_threads_linked, of 1] by simp

end
