(* ===== verification/C_Strings.thy ===== *)
theory C_Strings
  imports Prelude
begin

text \<open>
  Strings of C as the parsers of the repository use them: blocks of memory in which a string ends
  before the first zero byte, \<open>strsep\<close>, which cuts a string up in place, and \<open>strdup\<close>.
\<close>

section \<open>C strings in memory\<close>

text \<open>The offset of the first byte that is zero or one of \<open>ds\<close>; running off the block is a fault.\<close>

fun scan :: "byte list \<Rightarrow> byte list \<Rightarrow> nat res" where
  "scan ds [] = Inl OutOfBounds"
| "scan ds (c # cs) = (if c = 0 \<or> c \<in> set ds then Inr 0 else rbind (scan ds cs) (\<lambda>k. Inr (Suc k)))"

text \<open>
  \<open>strsep\<close> at offset \<open>off\<close>: the token starts there; the separator behind it is overwritten by zero and
  the offset after it returned, or \<open>None\<close> (the null pointer) at the end of the string.
\<close>

definition strsep :: "byte list \<Rightarrow> byte list \<Rightarrow> nat \<Rightarrow> (byte list \<times> nat option) res" where
  "strsep ds m off =
     rbind (scan ds (drop off m)) (\<lambda>k.
     if m ! (off + k) = 0 then Inr (m, None) else Inr (m[off + k := 0], Some (off + k + 1)))"

text \<open>\<open>strdup\<close>: the string at an offset.\<close>

definition cstr :: "byte list \<Rightarrow> nat \<Rightarrow> byte list res" where
  "cstr m off = rbind (scan [] (drop off m)) (\<lambda>k. Inr (take k (drop off m)))"

lemma scan_less: "scan ds cs = Inr k \<Longrightarrow> k < length cs"
  by (induction cs arbitrary: k) (auto simp: rbind_eq_Inr split: if_splits)

lemma strsep_next:
  assumes "strsep ds m off = Inr (m', Some n)"
  shows "length m' = length m \<and> off < n \<and> n \<le> length m"
  using assms scan_less [of ds "drop off m"]
  by (fastforce simp: strsep_def rbind_eq_Inr split: if_splits)

lemma strsep_length: "strsep ds m off = Inr (m', n) \<Longrightarrow> length m' = length m"
  by (auto simp: strsep_def rbind_eq_Inr split: if_splits)

text \<open>\<open>plain ds s\<close>: the bytes of \<open>s\<close> are neither zero nor in \<open>ds\<close>.\<close>

definition plain :: "byte list \<Rightarrow> byte list \<Rightarrow> bool" where
  "plain ds s \<longleftrightarrow> list_all (\<lambda>c. c \<noteq> 0 \<and> c \<notin> set ds) s"

lemma plain_simps [simp]:
  "plain ds []"
  "plain ds (c # s) \<longleftrightarrow> c \<noteq> 0 \<and> c \<notin> set ds \<and> plain ds s"
  "plain ds (s @ t) \<longleftrightarrow> plain ds s \<and> plain ds t"
  by (auto simp: plain_def)

lemma plain_mono: "plain ds s \<Longrightarrow> set ds' \<subseteq> set ds \<Longrightarrow> plain ds' s"
  by (auto simp: plain_def list_all_iff)

lemma scan_plain: "plain ds s \<Longrightarrow> d = 0 \<or> d \<in> set ds \<Longrightarrow> scan ds (s @ d # r) = Inr (length s)"
  by (induction s) auto

lemma strsep_sep:
  assumes "plain ds s" "d \<in> set ds" "d \<noteq> 0" "length p = off"
  shows "strsep ds (p @ s @ d # r) off = Inr (p @ s @ 0 # r, Some (off + length s + 1))"
  using assms by (simp add: strsep_def scan_plain nth_append list_update_append)

lemma strsep_end:
  assumes "plain ds s" "length p = off"
  shows "strsep ds (p @ s @ 0 # r) off = Inr (p @ s @ 0 # r, None)"
  using assms by (simp add: strsep_def scan_plain nth_append)

lemma cstr_plain:
  assumes "plain [] s" "length p = off"
  shows "cstr (p @ s @ 0 # r) off = Inr s"
  using assms by (simp add: cstr_def scan_plain)


end
