(* ===== verification/Split.thy ===== *)
theory Split
  imports C_Strings
begin

text \<open>
  Model of \<open>splitter/ysplit.c\<close> and of its copy in \<open>liby/src/base.c\<close>: a string is cut up with \<open>strsep\<close>
  into a vector of strings that grows. Printing and freeing the vector are not modelled.
\<close>

section \<open>Splitting\<close>

text \<open>
  The loop of \<open>ysplit1\<close>: \<open>n\<close> is the size of the vector \<open>ret\<close> and its strings so far are the last
  argument; the write behind each string and that of the final null are checked against \<open>n\<close>. The
  pointer skips as many bytes behind a separator as the separator string is longer than one. \<open>n\<close> is
  an \<open>int\<close>: doubling \<open>2 ^ 30\<close> overflows, and the vector is then no longer one of \<open>n\<close> strings.
\<close>

function split_loop :: "byte list \<Rightarrow> nat \<Rightarrow> byte list \<Rightarrow> nat option \<Rightarrow> byte list list \<Rightarrow> byte list list res" where
  "split_loop sp n m None ret = rbind (guard (length ret < n) OutOfBounds) (\<lambda>_. Inr ret)"
| "split_loop sp n m (Some off) ret =
     rbind (strsep sp m off) (\<lambda>(m', s1).
     let s1' = map_option (\<lambda>q. q + (length sp - 1)) s1;
         n' = (if length ret = n - 2 then n * 2 else n) in
     rbind (guard (int n' < 2 ^ 31) OutOfBounds) (\<lambda>_.
     rbind (cstr m' off) (\<lambda>temp.
     rbind (guard (length ret < n') OutOfBounds) (\<lambda>_.
     split_loop sp n' m' s1' (ret @ [temp])))))"
  by pat_completeness auto
termination
proof (relation "measure (\<lambda>(sp, n, m, off, ret). case off of None \<Rightarrow> 0 | Some q \<Rightarrow> Suc (Suc (length m) - q))", goal_cases)
  case 1
  then show ?case by simp
next
  case (2 sp n m off ret x m' s1 s1' n' v temp u)
  show ?case
  proof (cases s1)
    case (Some q)
    then have "length m' = length m \<and> off < q \<and> q \<le> length m" using 2 strsep_next [of sp m off m' q] by auto
    then show ?thesis using 2 Some by auto
  qed (use 2 in auto)
qed

definition ysplit1 :: "byte list \<Rightarrow> byte list \<Rightarrow> byte list list res" where
  "ysplit1 src sp = split_loop sp 8 (src @ [0]) (Some 0) []"

definition ysplit :: "byte list \<Rightarrow> byte list \<Rightarrow> byte list list res" where
  "ysplit src sp = ysplit1 src sp"

text \<open>The copy of this code in the C version of liby.\<close>

definition liby_split1 :: "byte list \<Rightarrow> byte list \<Rightarrow> byte list list res" where
  "liby_split1 src sp = split_loop sp 8 (src @ [0]) (Some 0) []"

definition liby_split :: "byte list \<Rightarrow> byte list \<Rightarrow> byte list list res" where
  "liby_split src sp = liby_split1 src sp"

text \<open>Joining with the separator.\<close>

fun join :: "byte list \<Rightarrow> byte list list \<Rightarrow> byte list" where
  "join sp [] = []"
| "join sp [x] = x"
| "join sp (x # y # xs) = x @ sp @ join sp (y # xs)"

lemma split_loop_join:
  assumes "sp \<noteq> []" "0 \<notin> set sp" "xs \<noteq> []" "\<And>x. x \<in> set xs \<Longrightarrow> plain sp x"
    and "length p = off" "length ret + 1 < n" "4 \<le> n" "n < 2 ^ 31" "length ret + length xs + 1 < 2 ^ 30"
  shows "split_loop sp n (p @ join sp xs @ [0]) (Some off) ret = Inr (ret @ xs)"
  using assms(3-)
proof (induction xs arbitrary: p off ret n rule: induct_list012)
  case (2 x)
  have x: "plain sp x" "plain [] x" using 2(2) plain_mono [of sp x "[]"] by auto
  have "n < 2 ^ 30" if "length ret = n - 2" using that 2(4,5,7) by simp
  then show ?case
    using x 2(3-) strsep_end [OF x(1) 2(3), of "[]"] cstr_plain [OF x(2) 2(3), of "[]"] by (simp add: Let_def)
next
  case (3 x y xs)
  obtain d ds where sp: "sp = d # ds" using assms(1) by (cases sp) auto
  have d: "d \<in> set sp" "d \<noteq> 0" using sp assms(2) by auto
  have x: "plain sp x" "plain [] x" using 3(4) plain_mono [of sp x "[]"] by auto
  let ?r = "ds @ join sp (y # xs) @ [0]"
  let ?p = "p @ x @ 0 # ds" and ?n = "if length ret = n - 2 then n * 2 else n"
  have m: "p @ join sp (x # y # xs) @ [0] = p @ x @ d # ?r" by (simp add: sp)
  have nb: "n < 2 ^ 30" if "length ret = n - 2" using that 3(6,7,9) by simp
  have "split_loop sp n (p @ join sp (x # y # xs) @ [0]) (Some off) ret =
      split_loop sp ?n (?p @ join sp (y # xs) @ [0]) (Some (off + length x + 1 + length ds)) (ret @ [x])"
    unfolding m
    using strsep_sep [OF x(1) d 3(5), of ?r] cstr_plain [OF x(2) 3(5), of ?r] 3(6-8) nb by (simp add: sp Let_def)
  also have "\<dots> = Inr ((ret @ [x]) @ y # xs)"
    using 3 nb by (intro 3(2)) auto
  finally show ?case by simp
qed simp

section \<open>Property\<close>

text \<open>
  C35. Take a separator that is not empty, and fewer than \<open>2 ^ 30 - 1\<close> pieces, at least one, none of
  which contains any character of the separator or a zero byte. Splitting the pieces joined by the
  separator returns the pieces: no string or final null is written outside the vector, which doubles
  in time.
\<close>

theorem ysplit_join:
  assumes "sp \<noteq> []" and "0 \<notin> set sp" and "xs \<noteq> []" and "list_all (plain sp) xs"
    and "length xs + 1 < 2 ^ 30"
  shows "ysplit (join sp xs) sp = Inr xs \<and> liby_split (join sp xs) sp = Inr xs"
  using split_loop_join [OF assms(1-3), of "[]" 0 "[]" 8] assms(4,5)
  by (simp add: ysplit_def ysplit1_def liby_split_def liby_split1_def list_all_iff)

theorem ysplit_join_witness: "ysplit (join [50, 50] [[104], [101], []]) [50, 50] = Inr [[104], [101], []]"
  using ysplit_join [of "[50, 50]" "[[104], [101], []]"] by simp

end
