(* ===== verification/Http_Parser.thy ===== *)
theory Http_Parser
  imports C_Strings
begin

text \<open>
  Model of \<open>http_parser/http_parser.c\<close> (and of its identical copy in \<open>liby/src\<close>): a request is copied
  and cut up in place with \<open>strsep\<close>. The model keeps the block of memory and offsets into it, because
  the code overwrites the block while it reads it and steps over bytes without looking at them. The
  strings of the result are copies; \<open>malloc\<close> succeeds. The list of header lines is a list.
\<close>

section \<open>State\<close>

record request_t =
  method_string :: "byte list option"
  path_string :: "byte list option"
  query_string :: "byte list option"
  version_string :: "byte list option"
  head_lines :: "(byte list \<times> byte list) list"
  req_data :: "byte list option"

definition http_request_init :: request_t where
  "http_request_init = \<lparr>method_string = None, path_string = None, query_string = None,
     version_string = None, head_lines = [], req_data = None\<rparr>"

section \<open>Query strings\<close>

text \<open>A hexadecimal digit; any other character gives whatever the subtraction gives.\<close>

definition hex_digit :: "byte \<Rightarrow> byte" where
  "hex_digit c = (if 48 \<le> c \<and> c \<le> 57 then c - 48 else (c OR 32) - 97 + 10)"

definition parse_hex :: "byte list \<Rightarrow> nat \<Rightarrow> byte res" where
  "parse_hex m off =
     rbind (aread m off) (\<lambda>a.
     rbind (aread m (off + 1)) (\<lambda>b.
     Inr (hex_digit a * 16 + hex_digit b)))"

function convert_loop :: "byte list \<Rightarrow> nat \<Rightarrow> nat \<Rightarrow> nat \<Rightarrow> byte list res" where
  "convert_loop m src n i =
     (if i < n then
        rbind (aread m (src + i)) (\<lambda>c.
        if c = 37 then
          rbind (parse_hex m (src + i + 1)) (\<lambda>b.
          rbind (convert_loop m src n (i + 3)) (\<lambda>bs. Inr (b # bs)))
        else rbind (convert_loop m src n (i + 1)) (\<lambda>bs. Inr (c # bs)))
      else Inr [])"
  by pat_completeness auto
termination by (relation "measure (\<lambda>(m, src, n, i). n - i)") auto

declare convert_loop.simps [simp del]

definition convert_query_string :: "byte list \<Rightarrow> nat \<Rightarrow> byte list res" where
  "convert_query_string m src = rbind (scan [] (drop src m)) (\<lambda>n. convert_loop m src n 0)"

section \<open>The request line\<close>

text \<open>
  The second word: \<open>index\<close> finds the question mark, which is overwritten; so is the first byte of the
  word, and the path is what follows it.
\<close>

definition parse_uri :: "byte list \<Rightarrow> nat \<Rightarrow> request_t \<Rightarrow> (byte list \<times> request_t) res" where
  "parse_uri m off r =
     rbind (scan [63] (drop off m)) (\<lambda>k.
     rbind (if m ! (off + k) = 63
            then (let m1 = m[off + k := 0] in
                  rbind (convert_query_string m1 (off + k + 1)) (\<lambda>q. Inr (m1, r\<lparr>query_string := Some q\<rparr>)))
            else Inr (m, r\<lparr>query_string := None\<rparr>)) (\<lambda>(m1, r1).
     rbind (awrite m1 off 0) (\<lambda>m2.
     rbind (cstr m2 (off + 1)) (\<lambda>p. Inr (m2, r1\<lparr>path_string := Some p\<rparr>)))))"

definition request_word :: "nat \<Rightarrow> byte list \<Rightarrow> nat \<Rightarrow> request_t \<Rightarrow> (byte list \<times> request_t) res" where
  "request_word i m temp r =
     (if i = 0 then rbind (cstr m temp) (\<lambda>t. Inr (m, r\<lparr>method_string := Some t\<rparr>))
      else if i = 1 then parse_uri m temp r
      else if i = 2 then rbind (cstr m temp) (\<lambda>t. Inr (m, r\<lparr>version_string := Some t\<rparr>))
      else Inr (m, r))"

lemma request_word_length: "request_word i m temp r = Inr (m', r') \<Longrightarrow> length m' = length m"
  by (auto simp: request_word_def parse_uri_def rbind_eq_Inr awrite_def Let_def split: if_splits)

function request_line_loop :: "nat \<Rightarrow> byte list \<Rightarrow> nat option \<Rightarrow> request_t \<Rightarrow> (byte list \<times> request_t) res" where
  "request_line_loop i m None r = Inr (m, r)"
| "request_line_loop i m (Some temp) r =
     rbind (strsep [32] m temp) (\<lambda>(m1, line).
     rbind (request_word i m1 temp r) (\<lambda>(m2, r').
     request_line_loop (i + 1) m2 line r'))"
  by pat_completeness auto
termination
proof (relation "measure (\<lambda>(i, m, line, r). case line of None \<Rightarrow> 0 | Some q \<Rightarrow> Suc (Suc (length m) - q))", goal_cases)
  case 1
  then show ?case by simp
next
  case (2 i m temp r x m1 line y m2 r')
  show ?case
  proof (cases line)
    case (Some q)
    then have "length m1 = length m \<and> temp < q \<and> q \<le> length m" using 2 strsep_next [of "[32]" m temp m1 q] by auto
    moreover have "length m2 = length m1" using 2 request_word_length by auto
    ultimately show ?thesis using Some by auto
  qed simp
qed

lemma request_line_step:
  assumes "request_line_loop i m (Some temp) r = Inr z"
  obtains m1 l m2 r2 where "strsep [32] m temp = Inr (m1, l)" "request_word i m1 temp r = Inr (m2, r2)"
    "request_line_loop (i + 1) m2 l r2 = Inr z"
  using assms by (auto simp: rbind_eq_Inr)

declare request_line_loop.simps [simp del]

definition parse_request_line :: "byte list \<Rightarrow> nat \<Rightarrow> request_t \<Rightarrow> (byte list \<times> request_t) res" where
  "parse_request_line m line r = request_line_loop 0 m (Some line) r"

section \<open>Header lines and data\<close>

definition http_request_head_push :: "byte list \<Rightarrow> byte list \<Rightarrow> request_t \<Rightarrow> request_t" where
  "http_request_head_push k v r = r\<lparr>head_lines := head_lines r @ [(k, v)]\<rparr>"

definition parse_head_line :: "byte list \<Rightarrow> nat \<Rightarrow> request_t \<Rightarrow> (byte list \<times> request_t) res" where
  "parse_head_line m line r =
     rbind (strsep [58] m line) (\<lambda>(m1, nx).
     case nx of None \<Rightarrow> Inr (m1, r)
     | Some v \<Rightarrow>
         rbind (cstr m1 line) (\<lambda>key.
         rbind (cstr m1 v) (\<lambda>val. Inr (m1, http_request_head_push key val r))))"

definition parse_data :: "byte list \<Rightarrow> nat \<Rightarrow> request_t \<Rightarrow> (byte list \<times> request_t) res" where
  "parse_data m d r =
     rbind (aread m d) (\<lambda>c.
     if c \<noteq> 0 then rbind (cstr m d) (\<lambda>t. Inr (m, r\<lparr>req_data := Some t\<rparr>)) else Inr (m, r))"

text \<open>One round of the loop of \<open>http_request_parse\<close> on the line at \<open>temp\<close>; \<open>str\<close> is the next line.\<close>

definition request_part :: "nat \<Rightarrow> byte list \<Rightarrow> nat \<Rightarrow> nat option \<Rightarrow> request_t \<Rightarrow> (byte list \<times> request_t) res" where
  "request_part i m temp str r =
     (if i = 0 then parse_request_line m temp r
      else if str = None then parse_data m temp r
      else parse_head_line m temp r)"

definition skip_newline :: "byte list \<Rightarrow> nat option \<Rightarrow> (byte list \<times> nat option) res" where
  "skip_newline m str = (case str of None \<Rightarrow> Inr (m, None)
     | Some q \<Rightarrow> rbind (awrite m q 0) (\<lambda>m'. Inr (m', Some (q + 1))))"

lemma request_line_length: "request_line_loop i m line r = Inr (m', r') \<Longrightarrow> length m' = length m"
proof (induction i m line r rule: request_line_loop.induct)
  case (2 i m temp r)
  from request_line_step [OF 2(2)] obtain m1 l m2 r2 where
    *: "strsep [32] m temp = Inr (m1, l)" "request_word i m1 temp r = Inr (m2, r2)"
      "request_line_loop (i + 1) m2 l r2 = Inr (m', r')" .
  show ?case using 2(1) [OF *(1) refl *(2) refl *(3)] request_word_length [OF *(2)] strsep_length [OF *(1)] by simp
qed (simp add: request_line_loop.simps)

lemma parse_head_line_length: "parse_head_line m temp r = Inr (m', r') \<Longrightarrow> length m' = length m"
  by (auto simp: parse_head_line_def rbind_eq_Inr split: option.splits dest: strsep_length)

lemma request_part_length: "request_part i m temp str r = Inr (m', r') \<Longrightarrow> length m' = length m"
  unfolding request_part_def parse_request_line_def
  by (auto simp: parse_data_def rbind_eq_Inr split: if_splits dest: request_line_length parse_head_line_length)

function parse_lines :: "nat \<Rightarrow> byte list \<Rightarrow> nat option \<Rightarrow> request_t \<Rightarrow> request_t res" where
  "parse_lines i m None r = Inr r"
| "parse_lines i m (Some temp) r =
     rbind (strsep [13, 10] m temp) (\<lambda>(m1, nx).
     rbind (skip_newline m1 nx) (\<lambda>(m2, str).
     rbind (request_part i m2 temp str r) (\<lambda>(m3, r').
     parse_lines (i + 1) m3 str r')))"
  by pat_completeness auto
termination
proof (relation "measure (\<lambda>(i, m, str, r). case str of None \<Rightarrow> 0 | Some q \<Rightarrow> Suc (Suc (length m) - q))", goal_cases)
  case 1
  then show ?case by simp
next
  case (2 i m temp r x m1 nx y m2 str z m3 r')
  have l3: "length m3 = length m2" using 2 request_part_length by auto
  show ?case
  proof (cases nx)
    case None
    then show ?thesis using 2 by (auto simp: skip_newline_def)
  next
    case (Some q)
    then have "length m1 = length m \<and> temp < q \<and> q \<le> length m" using 2 strsep_next [of "[13, 10]" m temp m1 q] by auto
    moreover have "length m2 = length m1 \<and> str = Some (q + 1)"
      using 2 Some by (auto simp: skip_newline_def rbind_eq_Inr awrite_def split: if_splits)
    ultimately show ?thesis using l3 by auto
  qed
qed

declare parse_lines.simps [simp del]

definition http_request_parse :: "byte list \<Rightarrow> request_t res" where
  "http_request_parse src = parse_lines 0 (src @ [0]) (Some 0) http_request_init"

section \<open>Printing requests\<close>

abbreviation crlf :: "byte list" where
  "crlf \<equiv> [13, 10]"

definition render_query :: "byte list option \<Rightarrow> byte list" where
  "render_query q = (case q of None \<Rightarrow> [] | Some s \<Rightarrow> 63 # s)"

fun render_heads :: "(byte list \<times> byte list) list \<Rightarrow> byte list" where
  "render_heads [] = []"
| "render_heads ((k, v) # hs) = k @ 58 # v @ crlf @ render_heads hs"

definition request_line :: "byte list \<Rightarrow> byte list \<Rightarrow> byte list option \<Rightarrow> byte list \<Rightarrow> byte list" where
  "request_line me pa q ve = me @ 32 # 47 # pa @ render_query q @ 32 # ve"

definition render_request ::
    "byte list \<Rightarrow> byte list \<Rightarrow> byte list option \<Rightarrow> byte list \<Rightarrow> (byte list \<times> byte list) list \<Rightarrow> byte list \<Rightarrow> byte list" where
  "render_request me pa q ve hs d = request_line me pa q ve @ crlf @ render_heads hs @ crlf @ d"

text \<open>The parts of a request that can be read back.\<close>

definition good_request ::
    "byte list \<Rightarrow> byte list \<Rightarrow> byte list option \<Rightarrow> byte list \<Rightarrow> (byte list \<times> byte list) list \<Rightarrow> byte list \<Rightarrow> bool" where
  "good_request me pa q ve hs d \<longleftrightarrow> plain [32, 13, 10] me \<and> plain [32, 63, 13, 10] pa \<and>
     pred_option (plain [32, 37, 13, 10]) q \<and> plain [32, 13, 10] ve \<and>
     list_all (\<lambda>(k, v). plain [58, 13, 10] k \<and> plain [13, 10] v) hs \<and> plain [13, 10] d"

section \<open>Header lines\<close>

lemma parse_head_ok:
  assumes "plain [58] k" "plain [] k" "plain [] v" "length p = off"
  shows "parse_head_line (p @ k @ 58 # v @ 0 # r) off q =
    Inr (p @ k @ 0 # v @ 0 # r, http_request_head_push k v q)"
proof -
  have "strsep [58] (p @ k @ 58 # v @ 0 # r) off = Inr (p @ k @ 0 # v @ 0 # r, Some (off + length k + 1))"
    using strsep_sep [OF assms(1), of 58 p off "v @ 0 # r"] assms(4) by simp
  moreover have "cstr (p @ k @ 0 # v @ 0 # r) off = Inr k" using cstr_plain [OF assms(2,4), of "v @ 0 # r"] by simp
  moreover have "cstr (p @ k @ 0 # v @ 0 # r) (off + length k + 1) = Inr v"
    using cstr_plain [OF assms(3), of "p @ k @ [0]" "off + length k + 1" r] assms(4) by simp
  ultimately show ?thesis by (simp add: parse_head_line_def)
qed

text \<open>One line ended by CR LF.\<close>

lemma parse_line_step:
  assumes "plain [13, 10] l" "length p = off"
  shows "parse_lines i (p @ l @ 13 # 10 # r) (Some off) q =
    rbind (request_part i (p @ l @ 0 # 0 # r) off (Some (off + length l + 2)) q) (\<lambda>(m, q').
    parse_lines (i + 1) m (Some (off + length l + 2)) q')"
proof -
  have "strsep [13, 10] (p @ l @ 13 # 10 # r) off = Inr (p @ l @ 0 # 10 # r, Some (off + length l + 1))"
    using strsep_sep [OF assms(1), of 13 p off "10 # r"] assms(2) by simp
  moreover have "skip_newline (p @ l @ 0 # 10 # r) (Some (off + length l + 1)) =
      Inr (p @ l @ 0 # 0 # r, Some (off + length l + 2))"
    using assms(2) by (simp add: skip_newline_def list_update_append)
  ultimately show ?thesis by (subst parse_lines.simps(2)) simp
qed

lemma parse_tail:
  assumes "plain [13, 10] d" "length p = off"
  shows "parse_lines (Suc i) (p @ crlf @ d @ [0]) (Some off) q =
    Inr (if d = [] then q else q\<lparr>req_data := Some d\<rparr>)"
proof -
  let ?m = "(p @ [0, 0]) @ d @ [0]"
  have "strsep [58] (p @ [] @ 0 # 0 # d @ [0]) off = Inr (p @ [] @ 0 # 0 # d @ [0], None)"
    using strsep_end [of "[58]" "[]" p off "0 # d @ [0]"] assms(2) by simp
  then have "request_part (Suc i) (p @ [] @ 0 # 0 # d @ [0]) off (Some (off + 2)) q = Inr (?m, q)"
    by (simp add: request_part_def parse_head_line_def)
  then have "parse_lines (Suc i) (p @ crlf @ d @ [0]) (Some off) q = parse_lines (Suc (Suc i)) ?m (Some (off + 2)) q"
    using parse_line_step [of "[]" p off "Suc i" "d @ [0]" q] assms(2) by simp
  also have "\<dots> = Inr (if d = [] then q else q\<lparr>req_data := Some d\<rparr>)"
  proof -
    have s: "strsep [13, 10] ?m (off + 2) = Inr (?m, None)"
      using strsep_end [OF assms(1), of "p @ [0, 0]" "off + 2" "[]"] assms(2) by simp
    have c: "cstr ?m (off + 2) = Inr d"
      using cstr_plain [of d "p @ [0, 0]" "off + 2" "[]"] plain_mono [OF assms(1), of "[]"] assms(2) by simp
    have "aread ?m (off + 2) = Inr (if d = [] then 0 else hd d)"
      using assms(2) by (cases d) (auto simp: aread_def nth_append)
    moreover have "d \<noteq> [] \<Longrightarrow> hd d \<noteq> 0" using assms(1) by (cases d) auto
    ultimately show ?thesis
      using s c by (simp add: parse_lines.simps skip_newline_def request_part_def parse_data_def)
  qed
  finally show ?thesis .
qed

lemma parse_heads:
  assumes "list_all (\<lambda>(k, v). plain [58, 13, 10] k \<and> plain [13, 10] v) hs" "plain [13, 10] d" "length p = off"
  shows "parse_lines (Suc i) (p @ render_heads hs @ crlf @ d @ [0]) (Some off) q =
    Inr (let q' = q\<lparr>head_lines := head_lines q @ hs\<rparr> in if d = [] then q' else q'\<lparr>req_data := Some d\<rparr>)"
  using assms(1,3)
proof (induction hs arbitrary: p off i q)
  case Nil
  then show ?case using parse_tail [OF assms(2) Nil(2)] by (simp add: Let_def)
next
  case (Cons h hs)
  obtain k v where h: "h = (k, v)" by (cases h)
  with Cons.prems have kv: "plain [58, 13, 10] k" "plain [13, 10] v" by auto
  have kv': "plain [58] k" "plain [] k" "plain [] v" "plain [13, 10] (k @ 58 # v)"
    using plain_mono [OF kv(1)] plain_mono [OF kv(2)] kv(2) by auto
  let ?r = "render_heads hs @ crlf @ d @ [0]"
  let ?p = "p @ k @ 0 # v @ [0, 0]"
  have "request_part (Suc i) (p @ (k @ 58 # v) @ 0 # 0 # ?r) off (Some (off + length (k @ 58 # v) + 2)) q =
      Inr (?p @ ?r, http_request_head_push k v q)"
    using parse_head_ok [OF kv'(1-3) Cons.prems(2), of "0 # ?r"] by (simp add: request_part_def)
  then have "parse_lines (Suc i) (p @ render_heads (h # hs) @ crlf @ d @ [0]) (Some off) q =
      parse_lines (Suc (Suc i)) (?p @ ?r) (Some (off + length (k @ 58 # v) + 2)) (http_request_head_push k v q)"
    using parse_line_step [OF kv'(4) Cons.prems(2), of "Suc i" ?r q] by (simp add: h)
  also have "\<dots> = Inr (let q' = (http_request_head_push k v q)\<lparr>head_lines := head_lines (http_request_head_push k v q) @ hs\<rparr>
      in if d = [] then q' else q'\<lparr>req_data := Some d\<rparr>)"
    using Cons.prems by (intro Cons.IH) auto
  finally show ?case by (simp add: http_request_head_push_def h)
qed

section \<open>The request line\<close>

lemma convert_plain:
  assumes "plain [37] s" "length p = src"
  shows "i \<le> length s \<Longrightarrow> convert_loop (p @ s @ 0 # r) src (length s) i = Inr (drop i s)"
proof (induction "length s - i" arbitrary: i)
  case 0
  then show ?case by (subst convert_loop.simps) simp
next
  case (Suc n)
  then have i: "i < length s" by simp
  have a: "aread (p @ s @ 0 # r) (src + i) = Inr (s ! i)" using i assms(2) by (simp add: aread_def nth_append)
  have "s ! i \<noteq> 37" using assms(1) i by (auto simp: plain_def list_all_length)
  then show ?case
    using Suc(1) [of "Suc i"] Suc(2) i a by (subst convert_loop.simps) (simp add: Cons_nth_drop_Suc)
qed

lemma convert_query_plain:
  assumes "plain [37] s" "length p = src"
  shows "convert_query_string (p @ s @ 0 # r) src = Inr s"
  using convert_plain [OF assms, of 0 r] scan_plain [of "[]" s 0 r] plain_mono [OF assms(1), of "[]"] assms(2)
  by (simp add: convert_query_string_def)

lemma parse_uri_ok:
  assumes pa: "plain [63] pa" and q: "pred_option (plain [37]) q" and p: "length p = off"
  shows "\<exists>m. parse_uri (p @ (47 # pa @ render_query q) @ 0 # r) off x =
      Inr (p @ m @ 0 # r, x\<lparr>query_string := q, path_string := Some pa\<rparr>) \<and> length m = 1 + length pa + length (render_query q)"
proof -
  have pa': "plain [] pa" using plain_mono [OF pa, of "[]"] by simp
  show ?thesis
  proof (cases q)
    case None
    let ?m = "p @ (47 # pa) @ 0 # r"
    have "scan [63] (drop off ?m) = Inr (1 + length pa)"
      using scan_plain [of "[63]" "47 # pa" 0 r] pa p by simp
    moreover have "?m ! (off + (1 + length pa)) = 0" using p by (simp add: nth_append)
    moreover have "awrite ?m off 0 = Inr (p @ (0 # pa) @ 0 # r)" using p by (simp add: list_update_append)
    moreover have "cstr (p @ (0 # pa) @ 0 # r) (off + 1) = Inr pa"
      using cstr_plain [OF pa', of "p @ [0]" "off + 1" r] p by simp
    ultimately show ?thesis using None
      by (intro exI [of _ "0 # pa"]) (simp add: parse_uri_def render_query_def)
  next
    case (Some s)
    let ?m = "p @ (47 # pa) @ 63 # s @ 0 # r" and ?m1 = "p @ (47 # pa) @ 0 # s @ 0 # r"
    have s: "plain [37] s" using q Some by simp
    have "scan [63] (drop off ?m) = Inr (1 + length pa)"
      using scan_plain [of "[63]" "47 # pa" 63 "s @ 0 # r"] pa p by simp
    moreover have "?m ! (off + (1 + length pa)) = 63" using p by (simp add: nth_append)
    moreover have "?m[off + (1 + length pa) := 0] = ?m1" using p by (simp add: list_update_append)
    moreover have "convert_query_string ?m1 (off + (1 + length pa) + 1) = Inr s"
      using convert_query_plain [OF s, of "p @ (47 # pa) @ [0]" "off + (1 + length pa) + 1" r] p by simp
    moreover have "awrite ?m1 off 0 = Inr (p @ (0 # pa) @ 0 # s @ 0 # r)" using p by (simp add: list_update_append)
    moreover have "cstr (p @ (0 # pa) @ 0 # s @ 0 # r) (off + 1) = Inr pa"
      using cstr_plain [OF pa', of "p @ [0]" "off + 1" "s @ 0 # r"] p by simp
    ultimately show ?thesis using Some
      by (intro exI [of _ "(0 # pa) @ 0 # s"]) (simp add: parse_uri_def render_query_def Let_def)
  qed
qed

lemma request_line_ok:
  assumes me: "plain [32] me" and pa: "plain [32, 63] pa" and q: "pred_option (plain [32, 37]) q" and ve: "plain [32] ve"
  shows "\<exists>m. parse_request_line (request_line me pa q ve @ 0 # r) 0 x =
      Inr (m @ 0 # r, x\<lparr>method_string := Some me, query_string := q, path_string := Some pa, version_string := Some ve\<rparr>) \<and>
    length m = length (request_line me pa q ve)"
proof -
  let ?u = "47 # pa @ render_query q"
  let ?n1 = "length me + 1" and ?n2 = "length me + 1 + length ?u + 1"
  have u: "plain [32] ?u" using pa q plain_mono [OF pa, of "[32]"]
    by (auto simp: render_query_def plain_mono split: option.splits)
  have s1: "strsep [32] (request_line me pa q ve @ 0 # r) 0 = Inr (me @ 0 # ?u @ 32 # ve @ 0 # r, Some ?n1)"
    using strsep_sep [OF me, of 32 "[]" 0 "?u @ 32 # ve @ 0 # r"] by (simp add: request_line_def)
  have c1: "cstr (me @ 0 # ?u @ 32 # ve @ 0 # r) 0 = Inr me"
    using cstr_plain [OF plain_mono [OF me], of "[]" 0] by simp
  have s2: "strsep [32] (me @ 0 # ?u @ 32 # ve @ 0 # r) ?n1 = Inr ((me @ [0]) @ ?u @ 0 # ve @ 0 # r, Some ?n2)"
    using strsep_sep [OF u, of 32 "me @ [0]" ?n1 "ve @ 0 # r"] by simp
  let ?x1 = "x\<lparr>method_string := Some me\<rparr>"
  have "plain [63] pa" "pred_option (plain [37]) q"
    using plain_mono [OF pa, of "[63]"] q by (auto simp: plain_mono pred_option_def)
  from parse_uri_ok [OF this, of "me @ [0]" ?n1 "ve @ 0 # r" ?x1] obtain w where
    w: "parse_uri ((me @ [0]) @ ?u @ 0 # ve @ 0 # r) ?n1 ?x1 =
      Inr ((me @ [0]) @ w @ 0 # ve @ 0 # r, ?x1\<lparr>query_string := q, path_string := Some pa\<rparr>)" "length w = length ?u"
    by auto
  let ?p = "(me @ [0]) @ w @ [0]"
  have p: "length ?p = ?n2" using w(2) by simp
  have s3: "strsep [32] (?p @ ve @ 0 # r) ?n2 = Inr (?p @ ve @ 0 # r, None)" using strsep_end [OF ve p] by simp
  have c3: "cstr (?p @ ve @ 0 # r) ?n2 = Inr ve" using cstr_plain [OF plain_mono [OF ve] p] by simp
  have "parse_request_line (request_line me pa q ve @ 0 # r) 0 x = request_line_loop 1 (me @ 0 # ?u @ 32 # ve @ 0 # r) (Some ?n1) ?x1"
    using s1 c1 by (simp add: parse_request_line_def request_line_loop.simps(2) [of 0] request_word_def)
  also have "\<dots> = request_line_loop 2 (?p @ ve @ 0 # r) (Some ?n2) (?x1\<lparr>query_string := q, path_string := Some pa\<rparr>)"
    using s2 w(1) by (subst request_line_loop.simps(2)) (simp add: request_word_def numeral_2_eq_2)
  also have "\<dots> = Inr ((?p @ ve) @ 0 # r, ?x1\<lparr>query_string := q, path_string := Some pa, version_string := Some ve\<rparr>)"
    using s3 c3 by (subst request_line_loop.simps(2)) (simp add: request_word_def request_line_loop.simps(1))
  finally show ?thesis
    using w(2) by (intro exI [of _ "?p @ ve"]) (simp add: request_line_def)
qed

section \<open>Properties\<close>

text \<open>
  C9. A request printed in the format of HTTP is read back, the method, the path, the query, the
  version, the header lines in their order and the data, if its parts are without the characters that
  delimit them: no part has a carriage return, a line feed or a NUL (so the data is a single line), the
  method, the path, the query and the version have no space, the path has no \<open>?\<close>, the query no \<open>%\<close>
  (so nothing of it is decoded), and a header name no \<open>:\<close>.
\<close>

theorem http_request_roundtrip:
  assumes "good_request me pa q ve hs d"
  shows "http_request_parse (render_request me pa q ve hs d) =
    Inr \<lparr>method_string = Some me, path_string = Some pa, query_string = q, version_string = Some ve,
      head_lines = hs, req_data = (if d = [] then None else Some d)\<rparr>"
proof -
  let ?l = "request_line me pa q ve" and ?r = "render_heads hs @ crlf @ d @ [0]"
  have g: "plain [32, 13, 10] me" "plain [32, 63, 13, 10] pa" "pred_option (plain [32, 37, 13, 10]) q"
    "plain [32, 13, 10] ve" "list_all (\<lambda>(k, v). plain [58, 13, 10] k \<and> plain [13, 10] v) hs" "plain [13, 10] d"
    using assms by (auto simp: good_request_def)
  have l: "plain [13, 10] ?l"
    using plain_mono [OF g(1), of crlf] plain_mono [OF g(2), of crlf] g(3) plain_mono [OF g(4), of crlf]
    by (auto simp: request_line_def render_query_def plain_mono split: option.splits)
  have w: "plain [32] me" "plain [32, 63] pa" "pred_option (plain [32, 37]) q" "plain [32] ve"
    using plain_mono [OF g(1)] plain_mono [OF g(2)] g(3) plain_mono [OF g(4)] by (auto simp: pred_option_def plain_mono)
  let ?x = "http_request_init\<lparr>method_string := Some me, query_string := q, path_string := Some pa, version_string := Some ve\<rparr>"
  from request_line_ok [OF w, of "0 # ?r" http_request_init] obtain m where
    m: "parse_request_line (?l @ 0 # 0 # ?r) 0 http_request_init = Inr (m @ 0 # 0 # ?r, ?x)" "length m = length ?l" by blast
  have "http_request_parse (render_request me pa q ve hs d) =
      rbind (request_part 0 (?l @ 0 # 0 # ?r) 0 (Some (length ?l + 2)) http_request_init) (\<lambda>(m, q').
      parse_lines 1 m (Some (length ?l + 2)) q')"
    using parse_line_step [OF l, of "[]" 0 0 ?r http_request_init] by (simp add: http_request_parse_def render_request_def)
  also have "\<dots> = parse_lines (Suc 0) ((m @ [0, 0]) @ ?r) (Some (length ?l + 2)) ?x"
    using m(1) by (simp add: request_part_def)
  also have "\<dots> = Inr (let q' = ?x\<lparr>head_lines := head_lines ?x @ hs\<rparr> in if d = [] then q' else q'\<lparr>req_data := Some d\<rparr>)"
    using m(2) by (intro parse_heads [OF g(5,6)]) simp
  also have "\<dots> = Inr \<lparr>method_string = Some me, path_string = Some pa, query_string = q, version_string = Some ve,
      head_lines = hs, req_data = (if d = [] then None else Some d)\<rparr>"
    by (simp add: http_request_init_def)
  finally show ?thesis .
qed

text \<open>\<open>GET /a?b HTTP\<close> with the header line \<open>K:v\<close> and the data \<open>x\<close>.\<close>

theorem http_request_roundtrip_witness:
  "http_request_parse (render_request [71, 69, 84] [97] (Some [98]) [72, 84, 84, 80] [([75], [118])] [120]) =
    Inr \<lparr>method_string = Some [71, 69, 84], path_string = Some [97], query_string = Some [98],
      version_string = Some [72, 84, 84, 80], head_lines = [([75], [118])], req_data = Some [120]\<rparr>"
  using http_request_roundtrip [of "[71, 69, 84]" "[97]" "Some [98]" "[72, 84, 84, 80]" "[([75], [118])]" "[120]"]
  by (simp add: good_request_def)

definition hex_char :: "bool \<Rightarrow> nat \<Rightarrow> byte" where
  "hex_char upper n = of_nat (if n < 10 then 48 + n else if upper then 55 + n else 87 + n)"

definition percent_encode :: "bool \<Rightarrow> byte list \<Rightarrow> byte list" where
  "percent_encode upper bs = concat (map (\<lambda>b. [37, hex_char upper (unat b div 16), hex_char upper (unat b mod 16)]) bs)"

lemma hex_digit_char: "n < 16 \<Longrightarrow> hex_digit (hex_char upper n) = of_nat n"
proof -
  assume "n < 16"
  then have "n \<in> set [0..<16]" by simp
  moreover have "list_all (\<lambda>n. hex_digit (hex_char True n) = of_nat n \<and> hex_digit (hex_char False n) = of_nat n) [0..<16]"
    by code_simp
  ultimately show ?thesis by (cases upper) (auto simp: list_all_iff)
qed

lemma hex_char_nonzero: "n < 16 \<Longrightarrow> hex_char upper n \<noteq> 0"
proof -
  assume "n < 16"
  then have "n \<in> set [0..<16]" by simp
  moreover have "list_all (\<lambda>n. hex_char True n \<noteq> 0 \<and> hex_char False n \<noteq> 0) [0..<16]" by code_simp
  ultimately show ?thesis by (cases upper) (auto simp: list_all_iff)
qed

lemma percent_encode_Cons: "percent_encode upper (b # bs) =
    37 # hex_char upper (unat b div 16) # hex_char upper (unat b mod 16) # percent_encode upper bs"
  by (simp add: percent_encode_def)

lemma length_percent_encode: "length (percent_encode upper bs) = 3 * length bs"
  by (induction bs) (simp_all add: percent_encode_Cons, simp add: percent_encode_def)

lemma nibbles: "unat (b :: byte) div 16 < 16" "unat b mod 16 < 16"
proof -
  have "unat b < 16 * 16" using unat_byte_lt [of b] by simp
  then show "unat b div 16 < 16" by (rule less_mult_imp_div_less)
qed simp

lemma plain_percent_encode: "plain [] (percent_encode upper bs)"
proof (induction bs)
  case (Cons b bs)
  then show ?case using hex_char_nonzero nibbles by (simp add: percent_encode_Cons)
qed (simp add: percent_encode_def)

lemma byte_nibbles: "(of_nat (unat b div 16) :: byte) * 16 + of_nat (unat b mod 16) = b"
proof -
  have "(of_nat (unat b div 16) :: byte) * 16 + of_nat (unat b mod 16) = of_nat (unat b div 16 * 16 + unat b mod 16)"
    by (simp only: of_nat_add of_nat_mult of_nat_numeral)
  also have "\<dots> = b" by (simp only: div_mult_mod_eq) simp
  finally show ?thesis .
qed

lemma convert_encoded:
  "length p = src + i \<Longrightarrow> n = i + 3 * length bs \<Longrightarrow>
   convert_loop (p @ percent_encode upper bs @ 0 # r) src n i = Inr bs"
proof (induction bs arbitrary: p i)
  case Nil
  then show ?case by (subst convert_loop.simps) simp
next
  case (Cons b bs)
  let ?h = "hex_char upper (unat b div 16)" and ?l = "hex_char upper (unat b mod 16)"
  let ?m = "p @ percent_encode upper (b # bs) @ 0 # r"
  have m: "?m = (p @ [37, ?h, ?l]) @ percent_encode upper bs @ 0 # r" by (simp add: percent_encode_Cons)
  have "aread ?m (src + i) = Inr 37" "aread ?m (src + i + 1) = Inr ?h" "aread ?m (src + i + 1 + 1) = Inr ?l"
    using Cons.prems(1) unfolding m by (simp_all add: aread_def nth_append)
  moreover have "hex_digit ?h * 16 + hex_digit ?l = b"
    by (simp only: hex_digit_char nibbles byte_nibbles)
  moreover have "convert_loop ?m src n (i + 3) = Inr bs"
    unfolding m using Cons.prems by (intro Cons.IH) auto
  ultimately show ?case using Cons.prems(2) by (subst convert_loop.simps) (simp add: parse_hex_def)
qed

text \<open>
  Percent decoding inverts percent encoding, for all bytes and for hexadecimal digits in upper
  and lower case.
\<close>

theorem percent_decode_encode:
  assumes "length p = src"
  shows "convert_query_string (p @ percent_encode upper bs @ 0 # r) src = Inr bs"
  using convert_encoded [of p src 0 "3 * length bs" bs upper r] assms
    scan_plain [OF plain_percent_encode, of 0 upper bs r]
  by (simp add: convert_query_string_def length_percent_encode)

theorem percent_decode_encode_witness: "convert_query_string ([63] @ percent_encode True [32, 255] @ [0]) 1 = Inr [32, 255]"
  by (rule percent_decode_encode) simp

text \<open>
  A request whose last line ends with a single newline makes the parser read behind its copy of
  the request: the byte after the line end is skipped even if it is the terminating zero. Lines
  ended by a single newline lose the first byte of the next line.
\<close>

theorem http_lone_newline:
  "http_request_parse (map of_char ''GET / HTTP/1.1'' @ [10]) = Inl OutOfBounds \<and>
   (\<exists>r. http_request_parse (map of_char ''GET / H'' @ [10] @ map of_char ''AB:c'' @ [13, 10, 13, 10]) = Inr r \<and>
      head_lines r = [(map of_char ''B'', map of_char ''c'')])"
proof
  show "http_request_parse (map of_char ''GET / HTTP/1.1'' @ [10]) = Inl OutOfBounds" by code_simp
  have "http_request_parse (map of_char ''GET / H'' @ [10] @ map of_char ''AB:c'' @ [13, 10, 13, 10]) =
    Inr \<lparr>method_string = Some (map of_char ''GET''), path_string = Some [], query_string = None,
      version_string = Some (map of_char ''H''), head_lines = [(map of_char ''B'', map of_char ''c'')], req_data = None\<rparr>"
    by code_simp
  then show "\<exists>r. http_request_parse (map of_char ''GET / H'' @ [10] @ map of_char ''AB:c'' @ [13, 10, 13, 10]) = Inr r \<and>
      head_lines r = [(map of_char ''B'', map of_char ''c'')]" by simp
qed

end
