(* ===== verification/Http_Server.thy ===== *)
theory Http_Server
  imports Http_Parser
begin

text \<open>
  The HTTP server of \<open>liby_cpp/http\<close>: the request parser (\<open>Request.h\<close>, \<open>Request.cpp\<close>), the replies
  (\<open>Reply.h\<close>, \<open>Reply.cpp\<close>) and the callbacks of the server (\<open>HttpServer.cpp\<close>).

  The parser is given the bytes received on the connection and the offset where it starts; the fields
  of the class are a record. A read outside of the bytes received is \<open>OutOfBounds\<close>, an exception that
  leaves a \<open>noexcept\<close> function is \<open>Terminate\<close>. The file system, the clock and the iteration order of the hash
  maps are arguments.
\<close>

section \<open>Requests\<close>

definition bytes :: "string \<Rightarrow> byte list" where
  "bytes s = map of_char s"

datatype status =
    ParsingMethod | ParsingURI | ParsingVersion | ParsingHeaders | Good
  | InvalidMethod | InvalidURI | InvalidVersion | InvalidHeader

datatype http_method = INVALID_METHOD | GET | POST | PUT | OPTIONS

text \<open>
  \<open>rbytes\<close> (the field \<open>bytes_\<close>, an \<open>int\<close>) counts the bytes of one request; it is a natural number here, which
  is exact for requests of less than $2^{31}$ bytes.
\<close>

record request =
  rstatus :: status
  rbytes :: nat
  rmethod :: http_method
  uri :: "byte list"
  query :: "byte list"
  version_major :: nat
  version_minor :: nat
  headers :: "(byte list \<times> byte list) list"

definition request_new :: request where
  "request_new = \<lparr>rstatus = ParsingMethod, rbytes = 0, rmethod = INVALID_METHOD, uri = [], query = [],
     version_major = 0, version_minor = 0, headers = []\<rparr>"

definition request_clear :: "request \<Rightarrow> request" where
  "request_clear r = r\<lparr>rstatus := ParsingMethod, rbytes := 0, rmethod := INVALID_METHOD, uri := [], query := [],
     version_major := 0, version_minor := 0, headers := []\<rparr>"

text \<open>\<open>headers[k] = v\<close> on a hash map, kept as an association list.\<close>

fun put_header :: "byte list \<Rightarrow> byte list \<Rightarrow> (byte list \<times> byte list) list \<Rightarrow> (byte list \<times> byte list) list" where
  "put_header k v [] = [(k, v)]"
| "put_header k v ((k', v') # hs) = (if k' = k then (k, v) # hs else (k', v') # put_header k v hs)"

lemma map_of_put_header: "map_of (put_header k v hs) = (map_of hs)(k \<mapsto> v)"
  by (induction k v hs rule: put_header.induct) (auto simp: fun_eq_iff)

definition isError :: "request \<Rightarrow> bool" where
  "isError r \<longleftrightarrow> rstatus r \<in> {InvalidURI, InvalidHeader, InvalidVersion, InvalidMethod}"

definition isGood :: "request \<Rightarrow> bool" where
  "isGood r \<longleftrightarrow> rstatus r = Good"

definition methods :: "byte list \<rightharpoonup> http_method" where
  "methods = map_of [(bytes ''GET'', GET), (bytes ''POST'', POST), (bytes ''PUT'', PUT), (bytes ''OPTIONS'', OPTIONS)]"

text \<open>The file has its own copy of \<open>parse_hex\<close>.\<close>

definition request_parse_hex :: "byte list \<Rightarrow> nat \<Rightarrow> byte res" where
  "request_parse_hex m off = parse_hex m off"

text \<open>\<open>findFirstOf\<close> between two offsets of the bytes received.\<close>

fun index_of :: "byte \<Rightarrow> byte list \<Rightarrow> nat option" where
  "index_of c [] = None"
| "index_of c (x # xs) = (if x = c then Some 0 else map_option Suc (index_of c xs))"

definition findFirstOf :: "byte list \<Rightarrow> nat \<Rightarrow> nat \<Rightarrow> byte \<Rightarrow> nat option" where
  "findFirstOf m b e c = map_option (\<lambda>k. b + k) (index_of c (take (e - b) (drop b m)))"

definition ParseMethod :: "byte list \<Rightarrow> nat \<Rightarrow> nat \<Rightarrow> request \<Rightarrow> bool \<times> request" where
  "ParseMethod m b e r = (case methods (take (e - b) (drop b m)) of
       None \<Rightarrow> (False, r\<lparr>rstatus := InvalidMethod\<rparr>)
     | Some me \<Rightarrow> (True, r\<lparr>rmethod := me, rstatus := ParsingURI\<rparr>))"

definition ParseHttpVersion :: "byte list \<Rightarrow> nat \<Rightarrow> nat \<Rightarrow> request \<Rightarrow> (bool \<times> request) res" where
  "ParseHttpVersion m b e r =
     rbind (guard (b \<le> e) AssertFail) (\<lambda>_.
     Inr (if e - b \<noteq> 8 then (False, r\<lparr>rstatus := InvalidVersion\<rparr>)
          else if take 8 (drop b m) = bytes ''HTTP/1.1''
          then (True, r\<lparr>version_major := 1, version_minor := 1, rstatus := ParsingHeaders\<rparr>)
          else if take 8 (drop b m) = bytes ''HTTP/1.0''
          then (True, r\<lparr>version_major := 1, version_minor := 0, rstatus := ParsingHeaders\<rparr>)
          else (False, r\<lparr>rstatus := InvalidVersion\<rparr>)))"

definition isspace :: "byte \<Rightarrow> bool" where
  "isspace c \<longleftrightarrow> c = 32 \<or> (9 \<le> c \<and> c \<le> 13)"

text \<open>
  The loops over the blanks around the colon are not bounded by the line; running off the received
  bytes is a fault, and the bytes in front of the line are those received before. \<open>back_space m k\<close> is one more than the offset of the last byte before \<open>k\<close> that is
  no blank.
\<close>

fun back_space :: "byte list \<Rightarrow> nat \<Rightarrow> nat res" where
  "back_space m 0 = Inl OutOfBounds"
| "back_space m (Suc k) =
     rbind (aread m k) (\<lambda>c. if isspace c then back_space m k else Inr (Suc k))"

fun skip_space :: "byte list \<Rightarrow> nat res" where
  "skip_space [] = Inl OutOfBounds"
| "skip_space (c # cs) = (if isspace c then rbind (skip_space cs) (\<lambda>k. Inr (Suc k)) else Inr 0)"

text \<open>Constructing a string from a reversed range throws, which ends the program in a \<open>noexcept\<close> function.\<close>

definition make_string :: "byte list \<Rightarrow> nat \<Rightarrow> nat \<Rightarrow> byte list res" where
  "make_string m b e = (if b \<le> e then Inr (take (e - b) (drop b m)) else Inl Terminate)"

definition ParseHeader :: "byte list \<Rightarrow> nat \<Rightarrow> nat \<Rightarrow> request \<Rightarrow> (bool \<times> request) res" where
  "ParseHeader m b e r =
     rbind (guard (b \<le> e) AssertFail) (\<lambda>_.
     case findFirstOf m b e 58 of
       None \<Rightarrow> Inr (False, r\<lparr>rstatus := InvalidHeader\<rparr>)
     | Some mid \<Rightarrow>
         rbind (back_space m mid) (\<lambda>left.
         rbind (skip_space (drop (mid + 1) m)) (\<lambda>k.
         rbind (make_string m b left) (\<lambda>key.
         rbind (make_string m (mid + 1 + k) e) (\<lambda>val.
         Inr (True, r\<lparr>headers := put_header key val (headers r)\<rparr>))))))"

text \<open>
  The loop of \<open>ParseURI\<close> over the bytes of the URI: percent decoding, and every question mark becomes
  a zero byte; the last one starts the query. The strings end at the first zero byte.
\<close>

function uri_loop :: "byte list \<Rightarrow> nat \<Rightarrow> nat \<Rightarrow> nat \<Rightarrow> byte list \<Rightarrow> nat option \<Rightarrow> (byte list \<times> nat option) res" where
  "uri_loop m src n i temp q =
     (if i < n then
        rbind (aread m (src + i)) (\<lambda>c.
        rbind (if c = 37 then request_parse_hex m (src + i + 1) else Inr c) (\<lambda>x.
        let i' = (if c = 37 then i + 3 else i + 1) in
        if x = 63 then uri_loop m src n i' (temp @ [0]) (Some (length temp))
        else uri_loop m src n i' (temp @ [x]) q))
      else Inr (temp, q))"
  by pat_completeness auto
termination by (relation "measure (\<lambda>(m, src, n, i, temp, q). n - i)") auto

declare uri_loop.simps [simp del]

definition ParseURI :: "byte list \<Rightarrow> nat \<Rightarrow> nat \<Rightarrow> request \<Rightarrow> (bool \<times> request) res" where
  "ParseURI m b e r =
     rbind (uri_loop m b (e - b) 0 [] None) (\<lambda>(temp, q).
     let r1 = (case q of None \<Rightarrow> r | Some j \<Rightarrow> r\<lparr>query := takeWhile (\<lambda>c. c \<noteq> 0) (drop (j + 1) temp)\<rparr>) in
     Inr (True, r1\<lparr>uri := takeWhile (\<lambda>c. c \<noteq> 0) temp, rstatus := ParsingVersion\<rparr>))"

text \<open>\<open>bytes_ += ++finish - begin\<close>\<close>

definition advance :: "nat \<Rightarrow> nat \<Rightarrow> request \<Rightarrow> request" where
  "advance b f r = r\<lparr>rbytes := rbytes r + (f + 1 - b)\<rparr>"

text \<open>The end of the line: the byte before the newline is looked at even if the line is empty.\<close>

definition line_end :: "byte list \<Rightarrow> nat \<Rightarrow> nat res" where
  "line_end m f = (if f = 0 then Inl OutOfBounds else Inr (if m ! (f - 1) = 13 then f - 1 else f))"

lemma index_of_less: "index_of c xs = Some k \<Longrightarrow> k < length xs"
  by (induction xs arbitrary: k) (auto split: if_splits)

lemma findFirstOf_less: "findFirstOf m b e c = Some f \<Longrightarrow> b \<le> f \<and> f < e \<and> f < length m"
  using index_of_less [of c "take (e - b) (drop b m)"] by (fastforce simp: findFirstOf_def)

function header_loop :: "byte list \<Rightarrow> nat \<Rightarrow> request \<Rightarrow> request res" where
  "header_loop m b r = (case findFirstOf m b (length m) 10 of None \<Rightarrow> Inr r
     | Some f \<Rightarrow>
         if b = f \<or> b + 1 = f then Inr (advance b f (r\<lparr>rstatus := Good\<rparr>))
         else
           rbind (line_end m f) (\<lambda>e.
           rbind (ParseHeader m b e r) (\<lambda>(flag, r1).
           if flag then header_loop m (f + 1) (advance b f r1) else Inr r1)))"
  by pat_completeness auto

termination
  by (relation "measure (\<lambda>(m, b, r). length m - b)") (auto dest!: findFirstOf_less)

declare header_loop.simps [simp del]

definition version_step :: "byte list \<Rightarrow> nat \<Rightarrow> request \<Rightarrow> request res" where
  "version_step m b r = (case findFirstOf m b (length m) 10 of None \<Rightarrow> Inr r
     | Some f \<Rightarrow>
         rbind (line_end m f) (\<lambda>e.
         rbind (ParseHttpVersion m b e r) (\<lambda>(flag, r1).
         if flag then header_loop m (f + 1) (advance b f r1) else Inr r1)))"

definition uri_step :: "byte list \<Rightarrow> nat \<Rightarrow> request \<Rightarrow> request res" where
  "uri_step m b r = (case findFirstOf m b (length m) 32 of None \<Rightarrow> Inr r
     | Some f \<Rightarrow>
         rbind (ParseURI m b f r) (\<lambda>(flag, r1).
         if flag then version_step m (f + 1) (advance b f r1) else Inr r1))"

definition method_step :: "byte list \<Rightarrow> nat \<Rightarrow> request \<Rightarrow> request res" where
  "method_step m b r = (case findFirstOf m b (length m) 32 of None \<Rightarrow> Inr r
     | Some f \<Rightarrow>
         (let (flag, r1) = ParseMethod m b f r in
          if flag then uri_step m (f + 1) (advance b f r1) else Inr r1))"

text \<open>The cases of the switch fall through.\<close>

definition parse :: "byte list \<Rightarrow> nat \<Rightarrow> request \<Rightarrow> request res" where
  "parse m b r = (case rstatus r of
       ParsingMethod \<Rightarrow> method_step m b r
     | ParsingURI \<Rightarrow> uri_step m b r
     | ParsingVersion \<Rightarrow> version_step m b r
     | ParsingHeaders \<Rightarrow> header_loop m b r
     | _ \<Rightarrow> Inr r)"

section \<open>More bytes arrive\<close>

lemma index_of_append: "index_of c xs = Some k \<Longrightarrow> index_of c (xs @ ys) = Some k"
  by (induction xs arbitrary: k) (auto split: if_splits)

lemma findFirstOf_more:
  assumes "findFirstOf m b (length m) c = Some f"
  shows "findFirstOf (m @ m') b (length (m @ m')) c = Some f"
proof -
  have "b \<le> length m" using findFirstOf_less [OF assms] by linarith
  with assms index_of_append [of c "drop b m" _ m'] show ?thesis by (auto simp: findFirstOf_def)
qed

lemma slice_more: "e \<le> length m \<Longrightarrow> take (e - b) (drop b (m @ m')) = take (e - b) (drop b m)"
  by (cases "b \<le> length m") auto

lemma findFirstOf_same: "e \<le> length m \<Longrightarrow> findFirstOf (m @ m') b e c = findFirstOf m b e c"
  by (simp add: findFirstOf_def slice_more)

lemma ParseMethod_more: "e \<le> length m \<Longrightarrow> ParseMethod (m @ m') b e r = ParseMethod m b e r"
  by (simp add: ParseMethod_def slice_more)

lemma ParseHttpVersion_more: "e \<le> length m \<Longrightarrow> ParseHttpVersion (m @ m') b e r = ParseHttpVersion m b e r"
  using slice_more [of e m b m'] by (auto simp: ParseHttpVersion_def guard_def)

lemma aread_more: "aread m i = Inr x \<Longrightarrow> aread (m @ m') i = Inr x"
  by (auto simp: aread_def nth_append split: if_splits)

lemma line_end_more: "f < length m \<Longrightarrow> line_end (m @ m') f = line_end m f"
  by (auto simp: line_end_def nth_append)

lemma back_space_more: "k \<le> length m \<Longrightarrow> back_space (m @ m') k = back_space m k"
  by (induction k) (simp_all add: aread_def nth_append)

lemma skip_space_more: "skip_space xs = Inr k \<Longrightarrow> skip_space (xs @ ys) = Inr k"
  by (induction xs arbitrary: k) (auto simp: rbind_eq_Inr split: if_splits)

lemma make_string_more: "e \<le> length m \<Longrightarrow> make_string (m @ m') b e = make_string m b e"
  by (simp add: make_string_def slice_more)

lemma back_space_le: "back_space m k = Inr j \<Longrightarrow> j \<le> k"
  by (induction k) (auto simp: rbind_eq_Inr split: if_splits)

lemma ParseHeader_more:
  assumes "ParseHeader m b e r = Inr x" "e \<le> length m"
  shows "ParseHeader (m @ m') b e r = Inr x"
proof (cases "findFirstOf m b e 58")
  case None
  then show ?thesis using assms by (simp add: ParseHeader_def findFirstOf_same)
next
  case (Some mid)
  have mid: "b \<le> mid" "mid < e" "mid + 1 \<le> length m" using findFirstOf_less [OF Some] assms(2) by auto
  then have be: "b \<le> e" by linarith
  from assms(1) Some be obtain left k key val where
    h: "back_space m mid = Inr left" "skip_space (drop (mid + 1) m) = Inr k" "make_string m b left = Inr key"
      "make_string m (mid + 1 + k) e = Inr val" "x = (True, r\<lparr>headers := put_header key val (headers r)\<rparr>)"
    by (auto simp: ParseHeader_def rbind_eq_Inr)
  have "skip_space (drop (mid + 1) (m @ m')) = Inr k" using skip_space_more [OF h(2), of m'] mid by simp
  moreover have "left \<le> length m" using back_space_le [OF h(1)] mid by linarith
  ultimately show ?thesis
    using h Some be mid assms(2) by (simp add: ParseHeader_def findFirstOf_same back_space_more make_string_more)
qed

lemma parse_hex_more: "request_parse_hex m i = Inr x \<Longrightarrow> request_parse_hex (m @ m') i = Inr x"
  unfolding request_parse_hex_def parse_hex_def rbind_eq_Inr by (blast intro: aread_more)

lemma uri_loop_more: "uri_loop m src n i temp q = Inr z \<Longrightarrow> uri_loop (m @ m') src n i temp q = Inr z"
proof (induction m src n i temp q rule: uri_loop.induct)
  case (1 m src n i temp q)
  show ?case
  proof (cases "i < n")
    case False
    then show ?thesis using 1(3) by (simp add: uri_loop.simps [of _ _ n i])
  next
    case True
    let ?i = "\<lambda>c :: byte. if c = 37 then i + 3 else i + 1"
    from 1(3) True obtain c x where
      c: "aread m (src + i) = Inr c" "(if c = 37 then request_parse_hex m (src + i + 1) else Inr c) = Inr x"
        "(if x = 63 then uri_loop m src n (?i c) (temp @ [0]) (Some (length temp)) else uri_loop m src n (?i c) (temp @ [x]) q) = Inr z"
      by (subst (asm) uri_loop.simps) (auto simp: rbind_eq_Inr Let_def)
    have x': "(if c = 37 then request_parse_hex (m @ m') (src + i + 1) else Inr c) = Inr x"
      using c(2) parse_hex_more by (auto split: if_splits)
    have eq: "uri_loop (m @ m') src n i temp q =
        (if x = 63 then uri_loop (m @ m') src n (?i c) (temp @ [0]) (Some (length temp)) else uri_loop (m @ m') src n (?i c) (temp @ [x]) q)"
      by (subst uri_loop.simps) (simp only: True if_True aread_more [OF c(1)] rbind_simps x' Let_def)
    show ?thesis
    proof (cases "x = 63")
      case x: True
      with 1(1) [OF True c(1) c(2) refl x] c(3) eq show ?thesis by simp
    next
      case x: False
      with 1(2) [OF True c(1) c(2) refl x] c(3) eq show ?thesis by simp
    qed
  qed
qed

lemma ParseURI_more: "ParseURI m b e r = Inr x \<Longrightarrow> ParseURI (m @ m') b e r = Inr x"
  unfolding ParseURI_def rbind_eq_Inr by (blast intro: uri_loop_more)

section \<open>Incremental parsing\<close>

text \<open>
  \<open>resumed r b res r1\<close>: from state \<open>r1\<close>, reached from \<open>r\<close> at offset \<open>b\<close> on the first bytes, parsing at
  the offset the byte count gives leads to the result \<open>res\<close> on all bytes.
\<close>

definition resumed :: "byte list \<Rightarrow> nat \<Rightarrow> request \<Rightarrow> request \<Rightarrow> request res \<Rightarrow> bool" where
  "resumed m b r r1 res \<longleftrightarrow> rbytes r \<le> rbytes r1 \<and> parse m (b + (rbytes r1 - rbytes r)) r1 = res"

lemma resumed_advance:
  assumes "resumed m (f + 1) (advance b f r2) r1 res" "rbytes r2 = rbytes r" "b \<le> f"
  shows "resumed m b r r1 res"
proof -
  have "f + 1 + (rbytes r1 - rbytes (advance b f r2)) = b + (rbytes r1 - rbytes r)" "rbytes r \<le> rbytes r1"
    using assms by (auto simp: resumed_def advance_def)
  with assms(1) show ?thesis by (simp only: resumed_def)
qed

lemma advance_status [simp]: "rstatus (advance b f r) = rstatus r"
  by (simp add: advance_def)

lemma ParseHeader_keeps:
  "ParseHeader m b e r = Inr (flag, r1) \<Longrightarrow> rbytes r1 = rbytes r \<and> rstatus r1 = (if flag then rstatus r else InvalidHeader)"
  by (auto simp: ParseHeader_def rbind_eq_Inr split: option.splits)

lemma header_loop_resume:
  "header_loop m b r = Inr r1 \<Longrightarrow> rstatus r = ParsingHeaders \<Longrightarrow>
   resumed (m @ m') b r r1 (header_loop (m @ m') b r)"
proof (induction m b r rule: header_loop.induct)
  case (1 m b r)
  show ?case
  proof (cases "findFirstOf m b (length m) 10")
    case None
    then have "r1 = r" using 1(2) by (simp add: header_loop.simps [of m b r])
    then show ?thesis using 1(3) by (simp add: resumed_def parse_def)
  next
    case (Some f)
    have f: "b \<le> f" "f < length m" using findFirstOf_less [OF Some] by auto
    note more = findFirstOf_more [OF Some, of m']
    show ?thesis
    proof (cases "b = f \<or> b + 1 = f")
      case True
      then have "r1 = advance b f (r\<lparr>rstatus := Good\<rparr>)" using 1(2) Some by (simp add: header_loop.simps [of m b r])
      then show ?thesis using True more by (simp add: resumed_def parse_def header_loop.simps [of "m @ m'" b r]) (simp add: advance_def)
    next
      case False
      from 1(2) Some False obtain e flag r2 where
        h: "line_end m f = Inr e" "ParseHeader m b e r = Inr (flag, r2)"
          "(if flag then header_loop m (f + 1) (advance b f r2) else Inr r2) = Inr r1"
        by (subst (asm) header_loop.simps) (auto simp: rbind_eq_Inr)
      have e: "e \<le> length m" using h(1) f by (auto simp: line_end_def split: if_splits)
      have eq: "header_loop (m @ m') b r = (if flag then header_loop (m @ m') (f + 1) (advance b f r2) else Inr r2)"
        using more False line_end_more [OF f(2), of m'] h(1) ParseHeader_more [OF h(2) e, of m']
        by (subst header_loop.simps) simp
      note k = ParseHeader_keeps [OF h(2)]
      show ?thesis
      proof (cases flag)
        case True
        have "resumed (m @ m') (f + 1) (advance b f r2) r1 (header_loop (m @ m') (f + 1) (advance b f r2))"
          using 1(1) [OF Some False h(1) h(2) refl True] h(3) True k 1(3) by simp
        then show ?thesis using resumed_advance [of "m @ m'" f b r2 r1 _ r] k f(1) eq True by simp
      next
        case False
        then show ?thesis using h(3) eq k by (simp add: resumed_def parse_def)
      qed
    qed
  qed
qed

lemma version_step_resume:
  assumes "version_step m b r = Inr r1" "rstatus r = ParsingVersion"
  shows "resumed (m @ m') b r r1 (version_step (m @ m') b r)"
proof (cases "findFirstOf m b (length m) 10")
  case None
  then show ?thesis using assms by (simp add: version_step_def resumed_def parse_def)
next
  case (Some f)
  have f: "b \<le> f" "f < length m" using findFirstOf_less [OF Some] by auto
  from assms(1) Some obtain e flag r2 where
    h: "line_end m f = Inr e" "ParseHttpVersion m b e r = Inr (flag, r2)"
      "(if flag then header_loop m (f + 1) (advance b f r2) else Inr r2) = Inr r1"
    by (auto simp: version_step_def rbind_eq_Inr)
  have e: "e \<le> length m" using h(1) f by (auto simp: line_end_def split: if_splits)
  have eq: "version_step (m @ m') b r = (if flag then header_loop (m @ m') (f + 1) (advance b f r2) else Inr r2)"
    using findFirstOf_more [OF Some, of m'] line_end_more [OF f(2), of m'] h(1,2) ParseHttpVersion_more [OF e, of m' b r]
    by (simp add: version_step_def)
  have k: "rbytes r2 = rbytes r" "rstatus r2 = (if flag then ParsingHeaders else InvalidVersion)"
    using h(2) by (auto simp: ParseHttpVersion_def rbind_eq_Inr split: if_splits)
  show ?thesis
  proof (cases flag)
    case True
    then have "resumed (m @ m') (f + 1) (advance b f r2) r1 (header_loop (m @ m') (f + 1) (advance b f r2))"
      using header_loop_resume h(3) k(2) by simp
    then show ?thesis using resumed_advance [of "m @ m'" f b r2 r1 _ r] k(1) f(1) eq True by simp
  next
    case False
    then show ?thesis using h(3) eq k by (simp add: resumed_def parse_def)
  qed
qed

lemma uri_step_resume:
  assumes "uri_step m b r = Inr r1" "rstatus r = ParsingURI"
  shows "resumed (m @ m') b r r1 (uri_step (m @ m') b r)"
proof (cases "findFirstOf m b (length m) 32")
  case None
  then show ?thesis using assms by (simp add: uri_step_def resumed_def parse_def)
next
  case (Some f)
  have f: "b \<le> f" "f < length m" using findFirstOf_less [OF Some] by auto
  from assms(1) Some obtain flag r2 where
    h: "ParseURI m b f r = Inr (flag, r2)"
      "(if flag then version_step m (f + 1) (advance b f r2) else Inr r2) = Inr r1"
    by (auto simp: uri_step_def rbind_eq_Inr)
  have k: "rbytes r2 = rbytes r" "rstatus r2 = ParsingVersion" "flag"
    using h(1) by (auto simp: ParseURI_def rbind_eq_Inr Let_def split: option.splits)
  have "uri_step (m @ m') b r = version_step (m @ m') (f + 1) (advance b f r2)"
    using findFirstOf_more [OF Some, of m'] ParseURI_more [OF h(1), of m'] k(3) by (simp add: uri_step_def)
  moreover have "resumed (m @ m') (f + 1) (advance b f r2) r1 (version_step (m @ m') (f + 1) (advance b f r2))"
    using version_step_resume h(2) k by simp
  ultimately show ?thesis using resumed_advance [of "m @ m'" f b r2 r1 _ r] k(1) f(1) by simp
qed

lemma method_step_resume:
  assumes "method_step m b r = Inr r1" "rstatus r = ParsingMethod"
  shows "resumed (m @ m') b r r1 (method_step (m @ m') b r)"
proof (cases "findFirstOf m b (length m) 32")
  case None
  then show ?thesis using assms by (simp add: method_step_def resumed_def parse_def)
next
  case (Some f)
  have f: "b \<le> f" "f < length m" using findFirstOf_less [OF Some] by auto
  obtain flag r2 where h: "ParseMethod m b f r = (flag, r2)" by (cases "ParseMethod m b f r")
  have r1: "(if flag then uri_step m (f + 1) (advance b f r2) else Inr r2) = Inr r1"
    using assms(1) Some h by (simp add: method_step_def)
  have k: "rbytes r2 = rbytes r" "rstatus r2 = (if flag then ParsingURI else InvalidMethod)"
    using h by (auto simp: ParseMethod_def split: option.splits)
  have eq: "method_step (m @ m') b r = (if flag then uri_step (m @ m') (f + 1) (advance b f r2) else Inr r2)"
    using findFirstOf_more [OF Some, of m'] ParseMethod_more [of f m m' b r] f(2) h by (simp add: method_step_def)
  show ?thesis
  proof (cases flag)
    case True
    then have "resumed (m @ m') (f + 1) (advance b f r2) r1 (uri_step (m @ m') (f + 1) (advance b f r2))"
      using uri_step_resume r1 k(2) by simp
    then show ?thesis using resumed_advance [of "m @ m'" f b r2 r1 _ r] k(1) f(1) eq True by simp
  next
    case False
    then show ?thesis using r1 eq k by (simp add: resumed_def parse_def)
  qed
qed

lemma parse_resume:
  assumes "parse m b r = Inr r1"
  shows "resumed (m @ m') b r r1 (parse (m @ m') b r)"
proof (cases "rstatus r")
  case ParsingMethod
  then show ?thesis using method_step_resume [of m b r r1 m'] assms by (simp add: parse_def)
next
  case ParsingURI
  then show ?thesis using uri_step_resume [of m b r r1 m'] assms by (simp add: parse_def)
next
  case ParsingVersion
  then show ?thesis using version_step_resume [of m b r r1 m'] assms by (simp add: parse_def)
next
  case ParsingHeaders
  then show ?thesis using header_loop_resume [of m b r r1 m'] assms by (simp add: parse_def)
qed (use assms in \<open>simp_all add: parse_def resumed_def\<close>)

section \<open>Replies\<close>

abbreviation OK :: nat where "OK \<equiv> 200"

abbreviation BAD_REQUEST :: nat where "BAD_REQUEST \<equiv> 400"

abbreviation NOT_FOUND :: nat where "NOT_FOUND \<equiv> 404"

definition status_string :: "nat \<rightharpoonup> byte list" where
  "status_string = map_of (map (\<lambda>(n, s). (n, bytes s))
     [(200, ''Ok''), (201, ''Created''), (202, ''Accepted''), (204, ''No Content''),
      (300, ''Multiple Choices''), (301, ''Moved Permanently''), (302, ''Moved Temporarily''), (304, ''Not Modified''),
      (400, ''Bad Request''), (401, ''Unauthorized''), (403, ''Forbidden''), (404, ''Not Found''),
      (500, ''Internal Server Error''), (501, ''Not Implemented''), (502, ''Bad Gateway''), (503, ''Service Unavailable'')])"

definition status_number :: "nat \<rightharpoonup> byte list" where
  "status_number = map_of (map (\<lambda>(n, s). (n, bytes s))
     [(200, ''200''), (201, ''201''), (202, ''202''), (204, ''204''),
      (300, ''300''), (301, ''301''), (302, ''302''), (304, ''304''),
      (400, ''400''), (401, ''401''), (403, ''403''), (404, ''404''),
      (500, ''500''), (501, ''501''), (502, ''502''), (503, ''503'')])"

definition file_mime :: "byte list \<rightharpoonup> byte list" where
  "file_mime = map_of (map (\<lambda>(k, v). (bytes k, bytes v))
     [(''.html'', ''text/html''), (''.xml'', ''text/xml''), (''.xhtml'', ''application/xhtml+xml''),
      (''.txt'', ''text/plain''), (''.rtf'', ''application/rtf''), (''.pdf'', ''application/pdf''),
      (''.word'', ''application/msword''), (''.png'', ''image/png''), (''.gif'', ''image/gif''),
      (''.jpg'', ''image/jpeg''), (''.jpeg'', ''image/jpeg''), (''.au'', ''audio/basic''),
      (''.mpeg'', ''video/mpeg''), (''.mpg'', ''video/mpeg''), (''.avi'', ''video/x-msvideo''),
      (''.gz'', ''application/x-gzip''), (''.tar'', ''application/x-tar''), (''.css'', ''text/css''),
      (''.cgi'', ''text/html''), ('''', ''text/plain'')])"

record reply =
  filefd :: "int option"
  filesize :: int
  rep_status :: nat
  rep_headers :: "(byte list \<times> byte list) list"
  filepath :: "byte list"
  content :: "byte list"

definition reply_new :: reply where
  "reply_new = \<lparr>filefd = None, filesize = -1, rep_status = 0, rep_headers = [], filepath = [], content = []\<rparr>"

text \<open>\<open>std::to_string\<close>.\<close>

fun decimal :: "nat \<Rightarrow> byte list" where
  "decimal n = (if n < 10 then [of_nat (48 + n)] else decimal (n div 10) @ [of_nat (48 + n mod 10)])"

declare decimal.simps [simp del]

text \<open>The order in which \<open>std::unordered_map\<close> hands out its elements is the argument \<open>iter\<close>.\<close>

definition reply_toString ::
    "((byte list \<times> byte list) list \<Rightarrow> (byte list \<times> byte list) list) \<Rightarrow> reply \<Rightarrow> byte list" where
  "reply_toString iter r =
     (let hs = (if content r \<noteq> [] then put_header (bytes ''Content-Length'') (decimal (length (content r))) (rep_headers r)
                else rep_headers r);
          look = (\<lambda>t n. case t n of None \<Rightarrow> [] | Some s \<Rightarrow> s) in
      bytes ''HTTP/1.1 '' @ look status_number (rep_status r) @ bytes '' '' @ look status_string (rep_status r) @ [13, 10] @
      concat (map (\<lambda>(k, v). k @ bytes '': '' @ v @ [13, 10]) (iter hs)) @ [13, 10] @ content r)"

fun rfind :: "byte \<Rightarrow> byte list \<Rightarrow> nat option" where
  "rfind c [] = None"
| "rfind c (x # xs) = (case rfind c xs of Some k \<Rightarrow> Some (Suc k) | None \<Rightarrow> if x = c then Some 0 else None)"

definition getMimeType :: "reply \<Rightarrow> byte list" where
  "getMimeType r = (case rfind 46 (filepath r) of None \<Rightarrow> bytes ''text/plain''
     | Some ops \<Rightarrow> (case file_mime (drop ops (filepath r)) of None \<Rightarrow> bytes ''text/plain'' | Some t \<Rightarrow> t))"

section \<open>The server\<close>

text \<open>
  A connection: the bytes received, how many of them have been retrieved from the read buffer, the
  context of the server, and what has been queued for sending. The file system is given by the
  results of \<open>stat\<close> and \<open>open\<close>.
\<close>

datatype out = SendBytes "byte list" | SendFile int nat int

record http_conn =
  received :: "byte list"
  taken :: nat
  keep_alive :: bool
  req :: request
  sent :: "out list"
  closed :: bool

definition onAccept :: "byte list \<Rightarrow> http_conn" where
  "onAccept bs = \<lparr>received = bs, taken = 0, keep_alive = True, req = request_new, sent = [], closed = False\<rparr>"

definition getFileSize :: "(byte list \<Rightarrow> int) \<Rightarrow> byte list \<Rightarrow> int" where
  "getFileSize stat p = (if p = [] then -1 else stat p)"

definition openFile :: "(byte list \<Rightarrow> int) \<Rightarrow> byte list \<Rightarrow> int" where
  "openFile open p = (if p = [] then -1 else open p)"

definition good_reply :: "(byte list \<Rightarrow> int) \<Rightarrow> (byte list \<Rightarrow> int) \<Rightarrow> byte list \<Rightarrow> request \<Rightarrow> reply" where
  "good_reply stat open root r =
     (let rep = reply_new\<lparr>filepath := root @ uri r\<rparr>;
          size = getFileSize stat (filepath rep); fd = openFile open (filepath rep) in
      if size = -1 \<or> fd < 0 then rep\<lparr>rep_status := NOT_FOUND\<rparr>
      else rep\<lparr>filefd := Some fd, filesize := size, rep_status := OK,
             rep_headers := put_header (bytes ''Content-Type'') (getMimeType rep)
               (put_header (bytes ''Content-Length'') (decimal (nat size)) (rep_headers rep))\<rparr>)"

text \<open>\<open>headers_[k]\<close> makes an empty entry if there is none.\<close>

definition header_entry :: "byte list \<Rightarrow> (byte list \<times> byte list) list \<Rightarrow> (byte list \<times> byte list) list" where
  "header_entry k hs = (case map_of hs k of None \<Rightarrow> put_header k [] hs | Some _ \<Rightarrow> hs)"

fun read_event_loop ::
    "nat \<Rightarrow> ((byte list \<times> byte list) list \<Rightarrow> (byte list \<times> byte list) list) \<Rightarrow> (byte list \<Rightarrow> int) \<Rightarrow> (byte list \<Rightarrow> int) \<Rightarrow>
     byte list \<Rightarrow> byte list \<Rightarrow> http_conn \<Rightarrow> http_conn res" where
  "read_event_loop 0 iter stat open date root c = Inl NoReturn"
| "read_event_loop (Suc k) iter stat open date root c =
     (if length (received c) \<le> taken c then Inr c
      else
        rbind (parse (received c) (taken c) (req c)) (\<lambda>r.
        let c1 = c\<lparr>taken := taken c + (rbytes r - rbytes (req c)), req := r\<rparr> in
        if isError r then
          Inr (c1\<lparr>keep_alive := False, sent := sent c1 @ [SendBytes (reply_toString iter
            (reply_new\<lparr>rep_status := BAD_REQUEST, rep_headers := put_header (bytes ''Date'') date []\<rparr>))]\<rparr>)
        else if isGood r then
          (let rep = good_reply stat open root r;
               outs = SendBytes (reply_toString iter rep) #
                 (case filefd rep of None \<Rightarrow> [] | Some fd \<Rightarrow> [SendFile fd 0 (filesize rep)]);
               r' = request_clear r;
               c2 = c1\<lparr>req := r'\<lparr>headers := header_entry (bytes ''Connection'') (headers r')\<rparr>, sent := sent c1 @ outs\<rparr> in
           if getFileSize stat (filepath rep) < 0 \<or> openFile open (filepath rep) < 0 \<or>
              map_of (headers (req c2)) (bytes ''Connection'') \<noteq> Some (bytes ''keep-alive'')
           then Inr (c2\<lparr>keep_alive := False\<rparr>)
           else read_event_loop k iter stat open date root c2)
        else Inr c1))"

text \<open>All queued data has been written.\<close>

definition onWriteAll :: "http_conn \<Rightarrow> http_conn" where
  "onWriteAll c = (if \<not> keep_alive c then c\<lparr>closed := True\<rparr> else c)"

lemma reply_ok: "rep_status r = 200 \<Longrightarrow> \<exists>bs. reply_toString iter r = bytes ''HTTP/1.1 200 Ok'' @ bs"
  by (simp add: reply_toString_def Let_def status_number_def status_string_def bytes_def)

section \<open>Properties\<close>

text \<open>
  C8. The request parser is incremental: if the parser gets through the first part of the input without a
  fault, then continuing behind the bytes it has counted gives, with whatever input follows, the same
  result as parsing all bytes at once. The hypothesis is needed: a part that ends behind the \<open>%\<close> of an
  escape, as in \<open>GET /% \<close>, makes the parser read out of bounds, and the whole input may parse.
\<close>

theorem http_parse_incremental:
  assumes "parse m b r = Inr r1"
  shows "rbytes r \<le> rbytes r1 \<and> parse (m @ m') (b + (rbytes r1 - rbytes r)) r1 = parse (m @ m') b r"
  using parse_resume [OF assms, of m'] by (simp only: resumed_def)

theorem http_parse_incremental_witness:
  "parse (bytes ''GET /a'' @ bytes '' HTTP/1.1'') (0 + (4 - 0)) (request_new\<lparr>rmethod := GET, rstatus := ParsingURI, rbytes := 4\<rparr>) =
     parse (bytes ''GET /a'' @ bytes '' HTTP/1.1'') 0 request_new"
proof -
  have "parse (bytes ''GET /a'') 0 request_new = Inr (request_new\<lparr>rmethod := GET, rstatus := ParsingURI, rbytes := 4\<rparr>)"
    by code_simp
  from http_parse_incremental [OF this, of "bytes '' HTTP/1.1''"] show ?thesis by (simp add: request_new_def)
qed

text \<open>
  A header line without a value, or one that starts with a colon, ends the server: the loops over
  the blanks around the colon leave the line, and a string with its end before its start is built.
\<close>

theorem http_header_kills_server:
  "parse (bytes ''GET / HTTP/1.1'' @ [13, 10] @ bytes ''A:'' @ [13, 10] @ bytes ''B: c'' @ [13, 10, 13, 10]) 0 request_new = Inl Terminate \<and>
   parse (bytes ''GET / HTTP/1.1'' @ [13, 10] @ bytes '':x'' @ [13, 10, 13, 10]) 0 request_new = Inl Terminate"
proof
  show "parse (bytes ''GET / HTTP/1.1'' @ [13, 10] @ bytes ''A:'' @ [13, 10] @ bytes ''B: c'' @ [13, 10, 13, 10]) 0 request_new = Inl Terminate"
    by code_simp
  show "parse (bytes ''GET / HTTP/1.1'' @ [13, 10] @ bytes '':x'' @ [13, 10, 13, 10]) 0 request_new = Inl Terminate"
    by code_simp
qed

text \<open>
  The server answers a complete request for a file with the reply 200 and the whole file, and one
  for a missing file with 404; the path is the root followed by the decoded URI, unchecked. In both
  cases the connection is closed once the answer is written, whatever the client asked for: the header
  \<open>Connection\<close> is looked up after the request was cleared.
\<close>

theorem http_server_answers:
  assumes "taken c < length (received c)" and "parse (received c) (taken c) (req c) = Inr r" and "isGood r"
  shows "\<exists>c'. read_event_loop (Suc k) iter stat open date root c = Inr c' \<and> closed (onWriteAll c') \<and>
    taken c' = taken c + (rbytes r - rbytes (req c)) \<and>
    (let path = root @ uri r in
     if getFileSize stat path = -1 \<or> openFile open path < 0
     then sent c' = sent c @ [SendBytes (reply_toString iter (reply_new\<lparr>filepath := path, rep_status := NOT_FOUND\<rparr>))]
     else \<exists>bs. sent c' = sent c @ [SendBytes (bytes ''HTTP/1.1 200 Ok'' @ bs), SendFile (openFile open path) 0 (getFileSize stat path)])"
proof -
  let ?rep = "good_reply stat open root r"
  let ?outs = "SendBytes (reply_toString iter ?rep) # (case filefd ?rep of None \<Rightarrow> [] | Some fd \<Rightarrow> [SendFile fd 0 (filesize ?rep)])"
  let ?req = "(request_clear r)\<lparr>headers := [(bytes ''Connection'', [])]\<rparr>"
  let ?c = "c\<lparr>taken := taken c + (rbytes r - rbytes (req c)), req := ?req, sent := sent c @ ?outs, keep_alive := False\<rparr>"
  have "\<not> isError r" using assms(3) by (simp add: isError_def isGood_def)
  then have "read_event_loop (Suc k) iter stat open date root c = Inr ?c"
    using assms by (simp add: Let_def request_clear_def header_entry_def bytes_def)
  moreover have "closed (onWriteAll ?c)" by (simp add: onWriteAll_def)
  moreover have "if getFileSize stat (root @ uri r) = -1 \<or> openFile open (root @ uri r) < 0
     then ?outs = [SendBytes (reply_toString iter (reply_new\<lparr>filepath := root @ uri r, rep_status := NOT_FOUND\<rparr>))]
     else \<exists>bs. ?outs = [SendBytes (bytes ''HTTP/1.1 200 Ok'' @ bs), SendFile (openFile open (root @ uri r)) 0 (getFileSize stat (root @ uri r))]"
    by (auto simp: good_reply_def Let_def reply_new_def reply_ok)
  ultimately show ?thesis by (auto simp: Let_def)
qed

theorem http_server_answers_witness:
  "\<exists>c'. read_event_loop 1 (\<lambda>hs. hs) (\<lambda>p. if p = bytes ''/www/a'' then 7 else -1) (\<lambda>p. if p = bytes ''/www/a'' then 3 else -1) [] (bytes ''/www'')
     (onAccept (bytes ''GET /a HTTP/1.1'' @ [10, 10])) = Inr c' \<and> closed (onWriteAll c') \<and> taken c' = 17 \<and>
     (\<exists>bs. sent c' = [SendBytes (bytes ''HTTP/1.1 200 Ok'' @ bs), SendFile 3 0 7])"
proof -
  let ?c = "onAccept (bytes ''GET /a HTTP/1.1'' @ [10, 10])"
  let ?r = "request_new\<lparr>rstatus := Good, rbytes := 17, rmethod := GET, uri := bytes ''/a'', version_major := 1, version_minor := 1\<rparr>"
  have "taken ?c < length (received ?c)" by code_simp
  moreover have "parse (received ?c) (taken ?c) (req ?c) = Inr ?r" by code_simp
  moreover have "isGood ?r" by code_simp
  ultimately show ?thesis
    using http_server_answers [of ?c ?r 0 "\<lambda>hs. hs" "\<lambda>p. if p = bytes ''/www/a'' then 7 else -1"
        "\<lambda>p. if p = bytes ''/www/a'' then 3 else -1" "[]" "bytes ''/www''"]
    by (simp add: getFileSize_def openFile_def bytes_def onAccept_def request_new_def)
qed

end
