(* ===== verification/Http_Shift.thy ===== *)
theory Http_Shift
  imports Http_Server
begin

text \<open>
  Facts about the request parser of \<open>liby_cpp/http/Request.cpp\<close> for its use on the read buffer of a
  connection: it never counts more bytes than there are, and what it makes of the data does not depend
  on the bytes in front of them, although its loops may look there.
\<close>

section \<open>Where the parser stands\<close>

lemma index_of_nth: "index_of c xs = Some k \<Longrightarrow> xs ! k = c"
  by (induction xs arbitrary: k) (auto split: if_splits)

lemma findFirstOf_nth:
  assumes "findFirstOf m b e c = Some f"
  shows "m ! f = c"
proof -
  from assms obtain k where k: "index_of c (take (e - b) (drop b m)) = Some k" "f = b + k" by (auto simp: findFirstOf_def)
  have "b \<le> length m" using index_of_less [OF k(1)] by auto
  with k(2) index_of_less [OF k(1)] index_of_nth [OF k(1)] show ?thesis by simp
qed

text \<open>While header lines are parsed, the byte in front of the parser is the end of a line.\<close>

definition at_line :: "byte list \<Rightarrow> nat \<Rightarrow> request \<Rightarrow> bool" where
  "at_line m k r \<longleftrightarrow> (rstatus r = ParsingHeaders \<longrightarrow> 0 < k \<and> m ! (k - 1) = 10)"

definition progress :: "byte list \<Rightarrow> nat \<Rightarrow> request \<Rightarrow> request \<Rightarrow> bool" where
  "progress m b r r1 \<longleftrightarrow> rbytes r \<le> rbytes r1 \<and> b + (rbytes r1 - rbytes r) \<le> length m \<and> at_line m (b + (rbytes r1 - rbytes r)) r1"

lemma progress_stop: "b \<le> length m \<Longrightarrow> rbytes r1 = rbytes r \<Longrightarrow> at_line m b r1 \<Longrightarrow> progress m b r r1"
  by (simp add: progress_def)

lemma progress_advance:
  assumes "progress m (f + 1) (advance b f r2) r1" "rbytes r2 = rbytes r" "b \<le> f"
  shows "progress m b r r1"
proof -
  have "f + 1 + (rbytes r1 - rbytes (advance b f r2)) = b + (rbytes r1 - rbytes r)" "rbytes r \<le> rbytes r1"
    using assms by (auto simp: progress_def advance_def)
  with assms(1) show ?thesis by (simp only: progress_def)
qed

lemma progress_next:
  assumes "findFirstOf m b (length m) c = Some f" and "rbytes r2 = rbytes r" and "rstatus r2 = ParsingHeaders \<longrightarrow> c = 10"
    and "at_line m (f + 1) (advance b f r2) \<Longrightarrow> f + 1 \<le> length m \<Longrightarrow> progress m (f + 1) (advance b f r2) r1"
  shows "progress m b r r1"
proof (rule progress_advance [OF _ assms(2)])
  show "b \<le> f" using findFirstOf_less [OF assms(1)] by blast
  show "progress m (f + 1) (advance b f r2) r1"
    using assms(3,4) findFirstOf_nth [OF assms(1)] findFirstOf_less [OF assms(1)] by (auto simp: at_line_def)
qed

lemma header_loop_progress:
  "header_loop m b r = Inr r1 \<Longrightarrow> b \<le> length m \<Longrightarrow> at_line m b r \<Longrightarrow> rstatus r = ParsingHeaders \<Longrightarrow> progress m b r r1"
proof (induction m b r rule: header_loop.induct)
  case (1 m b r)
  show ?case
  proof (cases "findFirstOf m b (length m) 10")
    case None
    then show ?thesis using 1 by (simp add: header_loop.simps [of m b r] progress_stop)
  next
    case (Some f)
    show ?thesis
    proof (cases "b = f \<or> b + 1 = f")
      case True
      then have "r1 = advance b f (r\<lparr>rstatus := Good\<rparr>)" using 1(2) Some by (simp add: header_loop.simps [of m b r])
      then show ?thesis using findFirstOf_less [OF Some]
        by (intro progress_next [OF Some, of "r\<lparr>rstatus := Good\<rparr>"]) (simp_all add: progress_stop)
    next
      case False
      from 1(2) Some False obtain e flag r2 where
        h: "line_end m f = Inr e" "ParseHeader m b e r = Inr (flag, r2)"
          "(if flag then header_loop m (f + 1) (advance b f r2) else Inr r2) = Inr r1"
        by (subst (asm) header_loop.simps) (auto simp: rbind_eq_Inr)
      note k = ParseHeader_keeps [OF h(2)]
      show ?thesis
      proof (cases flag)
        case True
        then show ?thesis using k h(3) 1(5) 1(1) [OF Some False h(1) h(2) refl True]
          by (intro progress_next [OF Some, of r2]) simp_all
      next
        case False
        then show ?thesis using k h(3) 1(3) by (intro progress_stop) (auto simp: at_line_def)
      qed
    qed
  qed
qed

lemma version_step_progress:
  assumes "version_step m b r = Inr r1" "b \<le> length m" "rstatus r = ParsingVersion"
  shows "progress m b r r1"
proof (cases "findFirstOf m b (length m) 10")
  case None
  then show ?thesis using assms by (simp add: version_step_def progress_stop at_line_def)
next
  case (Some f)
  from assms(1) Some obtain e flag r2 where
    h: "line_end m f = Inr e" "ParseHttpVersion m b e r = Inr (flag, r2)"
      "(if flag then header_loop m (f + 1) (advance b f r2) else Inr r2) = Inr r1"
    by (auto simp: version_step_def rbind_eq_Inr)
  have k: "rbytes r2 = rbytes r" "rstatus r2 = (if flag then ParsingHeaders else InvalidVersion)"
    using h(2) by (auto simp: ParseHttpVersion_def rbind_eq_Inr split: if_splits)
  show ?thesis
  proof (cases flag)
    case True
    then show ?thesis using k h(3) by (intro progress_next [OF Some, of r2]) (simp_all add: header_loop_progress)
  next
    case False
    then show ?thesis using k h(3) assms(2) by (intro progress_stop) (auto simp: at_line_def)
  qed
qed

lemma uri_step_progress:
  assumes "uri_step m b r = Inr r1" "b \<le> length m" "rstatus r = ParsingURI"
  shows "progress m b r r1"
proof (cases "findFirstOf m b (length m) 32")
  case None
  then show ?thesis using assms by (simp add: uri_step_def progress_stop at_line_def)
next
  case (Some f)
  from assms(1) Some obtain flag r2 where
    h: "ParseURI m b f r = Inr (flag, r2)" "(if flag then version_step m (f + 1) (advance b f r2) else Inr r2) = Inr r1"
    by (auto simp: uri_step_def rbind_eq_Inr)
  have k: "rbytes r2 = rbytes r" "rstatus r2 = ParsingVersion" "flag"
    using h(1) by (auto simp: ParseURI_def rbind_eq_Inr Let_def split: option.splits)
  then show ?thesis using h(2) by (intro progress_next [OF Some, of r2]) (simp_all add: version_step_progress)
qed

lemma method_step_progress:
  assumes "method_step m b r = Inr r1" "b \<le> length m" "rstatus r = ParsingMethod"
  shows "progress m b r r1"
proof (cases "findFirstOf m b (length m) 32")
  case None
  then show ?thesis using assms by (simp add: method_step_def progress_stop at_line_def)
next
  case (Some f)
  obtain flag r2 where h: "ParseMethod m b f r = (flag, r2)" by (cases "ParseMethod m b f r")
  have r1: "(if flag then uri_step m (f + 1) (advance b f r2) else Inr r2) = Inr r1"
    using assms(1) Some h by (simp add: method_step_def)
  have k: "rbytes r2 = rbytes r" "rstatus r2 = (if flag then ParsingURI else InvalidMethod)"
    using h by (auto simp: ParseMethod_def split: option.splits)
  show ?thesis
  proof (cases flag)
    case True
    then show ?thesis using k r1 by (intro progress_next [OF Some, of r2]) (simp_all add: uri_step_progress)
  next
    case False
    then show ?thesis using k r1 assms(2) by (intro progress_stop) (auto simp: at_line_def)
  qed
qed

lemma parse_progress:
  assumes "parse m b r = Inr r1" and "b \<le> length m" and "at_line m b r"
  shows "progress m b r r1"
  using assms header_loop_progress [of m b r r1] version_step_progress [of m b r r1] uri_step_progress [of m b r r1]
    method_step_progress [of m b r r1]
  by (auto simp: parse_def intro!: progress_stop split: status.splits)

section \<open>Bytes in front of the data\<close>

lemma findFirstOf_shift:
  "findFirstOf (xs @ m) (length xs + b) (length xs + e) c = map_option ((+) (length xs)) (findFirstOf m b e c)"
  by (simp add: findFirstOf_def option.map_comp o_def add.assoc)

lemma findFirstOf_all [simp]:
  "findFirstOf (xs @ m) (length xs + b) (length (xs @ m)) c = map_option ((+) (length xs)) (findFirstOf m b (length m) c)"
  by (simp only: length_append findFirstOf_shift)

lemma aread_shift [simp]: "aread (xs @ m) (length xs + i) = aread m i"
  by (simp add: aread_def nth_append)

lemma ParseMethod_shift [simp]: "ParseMethod (xs @ m) (length xs + b) (length xs + e) r = ParseMethod m b e r"
  by (simp add: ParseMethod_def)

lemma ParseHttpVersion_shift [simp]: "ParseHttpVersion (xs @ m) (length xs + b) (length xs + e) r = ParseHttpVersion m b e r"
  by (simp add: ParseHttpVersion_def)

lemma parse_hex_shift [simp]: "request_parse_hex (xs @ m) (length xs + i) = request_parse_hex m i"
  by (simp only: request_parse_hex_def parse_hex_def add.assoc aread_shift)

lemma uri_loop_shift: "uri_loop (xs @ m) (length xs + src) n i temp q = uri_loop m src n i temp q"
proof (induction m src n i temp q rule: uri_loop.induct)
  case (1 m src n i temp q)
  have "aread (xs @ m) (length xs + src + i) = aread m (src + i)" "request_parse_hex (xs @ m) (length xs + src + i + 1) = request_parse_hex m (src + i + 1)"
    by (simp_all only: add.assoc aread_shift parse_hex_shift)
  then show ?case using 1
    by (subst (1 2) uri_loop.simps) (auto simp: Let_def intro!: rbind_cong)
qed

lemma ParseURI_shift [simp]: "ParseURI (xs @ m) (length xs + b) (length xs + e) r = ParseURI m b e r"
  by (simp add: ParseURI_def uri_loop_shift)

lemma make_string_shift [simp]: "make_string (xs @ m) (length xs + b) (length xs + e) = make_string m b e"
  by (simp add: make_string_def)

lemma advance_shift [simp]: "advance (length xs + b) (length xs + f) r = advance b f r"
  by (simp add: advance_def)

lemma line_end_shift: "0 < f \<Longrightarrow> line_end (xs @ m) (length xs + f) = rbind (line_end m f) (\<lambda>e. Inr (length xs + e))"
  by (auto simp: line_end_def nth_append)

lemma back_space_shift: "back_space m k = Inr j \<Longrightarrow> back_space (xs @ m) (length xs + k) = Inr (length xs + j)"
  by (induction k) (auto simp: rbind_eq_Inr split: if_splits)

lemma back_space_drop: "back_space (xs @ m) (length xs + k) = Inr j \<Longrightarrow> length xs < j \<Longrightarrow> back_space m k = Inr (j - length xs)"
  by (induction k) (auto simp: rbind_eq_Inr split: if_splits dest: back_space_le)

lemma back_space_stop: "back_space m k = Inr j \<Longrightarrow> 0 < j \<and> \<not> isspace (m ! (j - 1))"
  by (induction k) (auto simp: rbind_eq_Inr aread_def split: if_splits)

lemma ParseHeader_shift:
  assumes "ParseHeader m b e r = Inr x"
  shows "ParseHeader (xs @ m) (length xs + b) (length xs + e) r = Inr x"
proof (cases "findFirstOf m b e 58")
  case None
  then show ?thesis using assms by (simp add: ParseHeader_def findFirstOf_shift)
next
  case (Some mid)
  have be: "b \<le> e" using findFirstOf_less [OF Some] by linarith
  from assms Some be obtain left k key val where
    h: "back_space m mid = Inr left" "skip_space (drop (mid + 1) m) = Inr k" "make_string m b left = Inr key"
      "make_string m (mid + 1 + k) e = Inr val" "x = (True, r\<lparr>headers := put_header key val (headers r)\<rparr>)"
    by (auto simp: ParseHeader_def rbind_eq_Inr)
  have "make_string (xs @ m) (length xs + mid + 1 + k) (length xs + e) = Inr val"
    using h(4) by (metis add.assoc make_string_shift)
  then show ?thesis using h(1-3,5) Some be back_space_shift [OF h(1), of xs] by (simp add: ParseHeader_def findFirstOf_shift)
qed

lemma ParseHeader_drop:
  assumes "ParseHeader (xs @ m) (length xs + b) (length xs + e) r = Inr (True, r1)"
    and "length xs + b = 0 \<or> (xs @ m) ! (length xs + b - 1) = 10"
  shows "ParseHeader m b e r = Inr (True, r1)"
proof -
  from assms(1) have be: "b \<le> e" by (auto simp: ParseHeader_def rbind_eq_Inr guard_def split: if_splits)
  from assms(1) obtain mid where mid: "findFirstOf m b e 58 = Some mid"
    by (auto simp: ParseHeader_def rbind_eq_Inr findFirstOf_shift split: option.splits)
  from assms(1) mid obtain left k key val where
    h: "back_space (xs @ m) (length xs + mid) = Inr left" "skip_space (drop (mid + 1) m) = Inr k"
      "make_string (xs @ m) (length xs + b) left = Inr key"
      "make_string (xs @ m) (length xs + mid + 1 + k) (length xs + e) = Inr val" "r1 = r\<lparr>headers := put_header key val (headers r)\<rparr>"
    by (auto simp: ParseHeader_def rbind_eq_Inr findFirstOf_shift)
  have ge: "length xs + b \<le> left" using h(3) by (auto simp: make_string_def split: if_splits)
  have "left \<noteq> length xs + b"
  proof
    assume eq: "left = length xs + b"
    then show False using back_space_stop [OF h(1)] assms(2) by (auto simp: isspace_def)
  qed
  with ge have lt: "length xs < left" by linarith
  have "make_string m b (left - length xs) = Inr key" using h(3) lt make_string_shift [of xs m b "left - length xs"] by simp
  moreover have "make_string m (mid + 1 + k) e = Inr val" using h(4) by (metis add.assoc make_string_shift)
  ultimately show ?thesis using mid be h(2,5) back_space_drop [OF h(1) lt] by (simp add: ParseHeader_def)
qed

lemma header_loop_shift: "header_loop m b r = Inr r1 \<Longrightarrow> header_loop (xs @ m) (length xs + b) r = Inr r1"
proof (induction m b r rule: header_loop.induct)
  case (1 m b r)
  show ?case
  proof (cases "findFirstOf m b (length m) 10")
    case None
    then show ?thesis using 1(2) by (simp add: header_loop.simps [of m b r] header_loop.simps [of "xs @ m"] del: length_append)
  next
    case (Some f)
    show ?thesis
    proof (cases "b = f \<or> b + 1 = f")
      case True
      then show ?thesis using 1(2) Some
        by (auto simp: header_loop.simps [of m b r] header_loop.simps [of "xs @ m"] advance_shift [of xs b, symmetric] simp del: length_append advance_shift)
    next
      case False
      from 1(2) Some False obtain e flag r2 where
        h: "line_end m f = Inr e" "ParseHeader m b e r = Inr (flag, r2)"
          "(if flag then header_loop m (f + 1) (advance b f r2) else Inr r2) = Inr r1"
        by (subst (asm) header_loop.simps) (auto simp: rbind_eq_Inr)
      have "line_end (xs @ m) (length xs + f) = Inr (length xs + e)"
        using line_end_shift [of f xs m] h(1) by (cases "f = 0") (auto simp: line_end_def)
      then have "header_loop (xs @ m) (length xs + b) r = (if flag then header_loop (xs @ m) (length xs + (f + 1)) (advance b f r2) else Inr r2)"
        using Some False ParseHeader_shift [OF h(2), of xs] by (subst header_loop.simps) (simp del: length_append)
      then show ?thesis using h(3) 1(1) [OF Some False h(1) h(2) refl] by (cases flag) simp_all
    qed
  qed
qed

lemma header_loop_drop:
  "header_loop (xs @ m) (length xs + b) r = Inr r1 \<Longrightarrow> \<not> isError r1 \<Longrightarrow>
   length xs + b = 0 \<or> (xs @ m) ! (length xs + b - 1) = 10 \<Longrightarrow> header_loop m b r = Inr r1"
proof (induction m b r rule: header_loop.induct)
  case (1 m b r)
  show ?case
  proof (cases "findFirstOf m b (length m) 10")
    case None
    then have "r1 = r" using 1(2) by (subst (asm) header_loop.simps) (simp del: length_append)
    then show ?thesis using None by (subst header_loop.simps) simp
  next
    case (Some f)
    show ?thesis
    proof (cases "b = f \<or> b + 1 = f")
      case True
      then show ?thesis using 1(2) Some
        by (auto simp: header_loop.simps [of m b r] header_loop.simps [of "xs @ m"] advance_shift [of xs b, symmetric] simp del: length_append advance_shift)
    next
      case False
      have f: "b \<le> f" "f < length m" "m ! f = 10" using findFirstOf_less [OF Some] findFirstOf_nth [OF Some] by auto
      then have "0 < f" using False by simp
      then obtain e where e: "line_end m f = Inr e" by (simp add: line_end_def)
      then have e': "line_end (xs @ m) (length xs + f) = Inr (length xs + e)" using line_end_shift [OF \<open>0 < f\<close>, of xs m] by simp
      have "header_loop (xs @ m) (length xs + b) r = rbind (ParseHeader (xs @ m) (length xs + b) (length xs + e) r)
          (\<lambda>(flag, r2). if flag then header_loop (xs @ m) (length xs + (f + 1)) (advance b f r2) else Inr r2)"
        using Some False e' by (subst header_loop.simps) (simp add: add.assoc del: length_append cong: if_cong)
      with 1(2) obtain flag r2 where
        h: "ParseHeader (xs @ m) (length xs + b) (length xs + e) r = Inr (flag, r2)"
          "(if flag then header_loop (xs @ m) (length xs + (f + 1)) (advance b f r2) else Inr r2) = Inr r1"
        by (auto simp: rbind_eq_Inr)
      have flag using h(2) 1(3) ParseHeader_keeps [OF h(1)] by (cases flag) (auto simp: isError_def)
      with h(1) 1(4) have p: "ParseHeader m b e r = Inr (flag, r2)" using ParseHeader_drop [of xs m b e r r2] by simp
      have "(xs @ m) ! (length xs + (f + 1) - 1) = 10" using f by (simp add: nth_append)
      then have "header_loop m (f + 1) (advance b f r2) = Inr r1"
        using 1(1) [OF Some False e p refl \<open>flag\<close>] h(2) \<open>flag\<close> 1(3) by simp
      then show ?thesis using Some False e p \<open>flag\<close> by (subst header_loop.simps) simp
    qed
  qed
qed

lemma version_step_shift:
  assumes "version_step m b r = Inr r1"
  shows "version_step (xs @ m) (length xs + b) r = Inr r1"
proof (cases "findFirstOf m b (length m) 10")
  case None
  then show ?thesis using assms by (simp add: version_step_def del: length_append)
next
  case (Some f)
  from assms Some obtain e flag r2 where
    h: "line_end m f = Inr e" "ParseHttpVersion m b e r = Inr (flag, r2)"
      "(if flag then header_loop m (f + 1) (advance b f r2) else Inr r2) = Inr r1"
    by (auto simp: version_step_def rbind_eq_Inr)
  have "line_end (xs @ m) (length xs + f) = Inr (length xs + e)"
    using line_end_shift [of f xs m] h(1) by (cases "f = 0") (auto simp: line_end_def)
  then show ?thesis using Some h(2,3) header_loop_shift [of m "f + 1" "advance b f r2" r1 xs]
    by (cases flag) (simp_all add: version_step_def del: length_append)
qed

lemma version_step_drop:
  assumes "version_step (xs @ m) (length xs + b) r = Inr r1" and "\<not> isError r1"
  shows "version_step m b r = Inr r1"
proof (cases "findFirstOf m b (length m) 10")
  case None
  then show ?thesis using assms by (simp add: version_step_def del: length_append)
next
  case (Some f)
  have f: "b \<le> f" "f < length m" "m ! f = 10" using findFirstOf_less [OF Some] findFirstOf_nth [OF Some] by auto
  from assms(1) Some obtain e' flag r2 where
    h: "line_end (xs @ m) (length xs + f) = Inr e'" "ParseHttpVersion (xs @ m) (length xs + b) e' r = Inr (flag, r2)"
      "(if flag then header_loop (xs @ m) (length xs + (f + 1)) (advance b f r2) else Inr r2) = Inr r1"
    by (auto simp: version_step_def rbind_eq_Inr add.assoc simp del: length_append cong: if_cong)
  have flag using h(2,3) assms(2) by (cases flag) (auto simp: ParseHttpVersion_def rbind_eq_Inr isError_def split: if_splits)
  then have "e' = length xs + b + 8" using h(2) by (auto simp: ParseHttpVersion_def rbind_eq_Inr guard_def split: if_splits)
  then have "0 < f" using h(1) by (auto simp: line_end_def split: if_splits)
  then obtain e where e: "line_end m f = Inr e" "e' = length xs + e" using h(1) line_end_shift [of f xs m] by (auto simp: line_end_def)
  have "(xs @ m) ! (length xs + (f + 1) - 1) = 10" using f by (simp add: nth_append)
  then have "header_loop m (f + 1) (advance b f r2) = Inr r1" using header_loop_drop [of xs m "f + 1"] h(3) \<open>flag\<close> assms(2) by simp
  then show ?thesis using Some e h(2) \<open>flag\<close> by (simp add: version_step_def)
qed

lemma uri_step_shift: "uri_step m b r = Inr r1 \<Longrightarrow> uri_step (xs @ m) (length xs + b) r = Inr r1"
  using version_step_shift [of m "_ + 1" _ r1 xs]
  by (auto simp: uri_step_def rbind_eq_Inr simp del: length_append split: option.splits if_splits)

lemma uri_step_drop: "uri_step (xs @ m) (length xs + b) r = Inr r1 \<Longrightarrow> \<not> isError r1 \<Longrightarrow> uri_step m b r = Inr r1"
  using version_step_drop [of xs m "_ + 1" _ r1]
  by (auto simp: uri_step_def rbind_eq_Inr simp del: length_append split: option.splits if_splits)

lemma method_step_shift: "method_step m b r = Inr r1 \<Longrightarrow> method_step (xs @ m) (length xs + b) r = Inr r1"
  using uri_step_shift [of m "_ + 1" _ r1 xs]
  by (auto simp: method_step_def simp del: length_append split: option.splits if_splits prod.splits)

lemma method_step_drop: "method_step (xs @ m) (length xs + b) r = Inr r1 \<Longrightarrow> \<not> isError r1 \<Longrightarrow> method_step m b r = Inr r1"
  using uri_step_drop [of xs m "_ + 1" _ r1]
  by (auto simp: method_step_def simp del: length_append split: option.splits if_splits prod.splits)

text \<open>What the parser makes of the data does not depend on the bytes in front of them.\<close>

lemma parse_shift: "parse m 0 r = Inr r1 \<Longrightarrow> parse (xs @ m) (length xs) r = Inr r1"
  using method_step_shift [of m 0 r r1 xs] uri_step_shift [of m 0 r r1 xs] version_step_shift [of m 0 r r1 xs]
    header_loop_shift [of m 0 r r1 xs]
  by (auto simp: parse_def split: status.splits)

lemma parse_drop:
  "parse (xs @ m) (length xs) r = Inr r1 \<Longrightarrow> \<not> isError r1 \<Longrightarrow> at_line (xs @ m) (length xs) r \<Longrightarrow> parse m 0 r = Inr r1"
  using method_step_drop [of xs m 0 r r1] uri_step_drop [of xs m 0 r r1] version_step_drop [of xs m 0 r r1]
    header_loop_drop [of xs m 0 r r1]
  by (auto simp: parse_def at_line_def split: status.splits)

end
