(* ===== verification/Pollers.thy ===== *)
theory Pollers
  imports Prelude
begin

text \<open>
  The channels (\<open>liby_cpp/Channel.h\<close>, \<open>Channel.cpp\<close>) and the pollers for epoll, select and poll
  (\<open>Poller.h\<close>, \<open>Poller.cpp\<close>) on Linux.

  A state holds the table of channels by descriptor that all pollers have, the channels in memory by
  address (a deleted channel is no longer there, and touching it is \<open>WildDeref\<close>), the state of the
  application and what the poller asks the kernel for. The interface of the pollers is a locale,
  which the three pollers interpret; that they behave alike is proved once, in the locale, against a
  specification that knows the table and the channels only.
\<close>

section \<open>Channels\<close>

text \<open>
  A channel: its descriptor, the events its user wants, those last passed to the poller, those the
  poller has reported, and which callbacks are set.
\<close>

abbreviation kRead :: u32 where "kRead \<equiv> 0x1"
abbreviation kWrit :: u32 where "kWrit \<equiv> 0x2"
abbreviation kErro :: u32 where "kErro \<equiv> 0x4"

record channel =
  cfd :: nat
  events :: u32
  savedEvents :: u32
  revents :: u32
  on_read :: bool
  on_writ :: bool
  on_erro :: bool

definition channel_new :: "nat \<Rightarrow> channel" where
  "channel_new fd = \<lparr>cfd = fd, events = 0, savedEvents = 0, revents = 0, on_read = False, on_writ = False, on_erro = False\<rparr>"

definition updateRevents :: "u32 \<Rightarrow> channel \<Rightarrow> channel" where
  "updateRevents r c = c\<lparr>revents := r\<rparr>"

definition enable :: "u32 \<Rightarrow> bool \<Rightarrow> u32 \<Rightarrow> u32" where
  "enable k flag e = (if flag then e OR k else e AND NOT k)"

definition enableRead :: "bool \<Rightarrow> channel \<Rightarrow> channel" where
  "enableRead flag c = c\<lparr>events := enable kRead flag (events c)\<rparr>"

definition enableWrit :: "bool \<Rightarrow> channel \<Rightarrow> channel" where
  "enableWrit flag c = c\<lparr>events := enable kWrit flag (events c)\<rparr>"

definition enableErro :: "bool \<Rightarrow> channel \<Rightarrow> channel" where
  "enableErro flag c = c\<lparr>events := enable kErro flag (events c)\<rparr>"

definition isEventsChanged :: "channel \<Rightarrow> bool" where
  "isEventsChanged c \<longleftrightarrow> events c \<noteq> savedEvents c"

definition canRead :: "channel \<Rightarrow> bool" where
  "canRead c \<longleftrightarrow> events c AND kRead \<noteq> 0"

definition canWrit :: "channel \<Rightarrow> bool" where
  "canWrit c \<longleftrightarrow> events c AND kWrit \<noteq> 0"

definition chan_isError :: "channel \<Rightarrow> bool" where
  "chan_isError c \<longleftrightarrow> revents c AND kErro \<noteq> 0 \<or> events c AND kErro \<noteq> 0"

definition Readable :: "channel \<Rightarrow> bool" where
  "Readable c \<longleftrightarrow> revents c AND kRead \<noteq> 0"

definition Writable :: "channel \<Rightarrow> bool" where
  "Writable c \<longleftrightarrow> revents c AND kWrit \<noteq> 0"

datatype callback = ReadCb | WritCb | ErroCb

text \<open>\<open>handleEvent\<close>: the channel afterwards and the callback it runs, if any.\<close>

definition handleEvent :: "channel \<Rightarrow> channel \<times> callback option" where
  "handleEvent c =
     (let c1 = c\<lparr>savedEvents := events c\<rparr> in
      (c1, if chan_isError c1 then (if on_erro c1 then Some ErroCb else None)
           else if Readable c1 then (if on_read c1 then Some ReadCb else None)
           else if Writable c1 then (if on_writ c1 then Some WritCb else None)
           else None))"

section \<open>Pollers\<close>

text \<open>
  What the pollers share: the table of channel addresses by descriptor; here it comes with the
  channels in memory by address and the state of the application. The last field is the poller's own.
\<close>

record ('k, 'w) poller =
  channels :: "nat option list"
  store :: "nat \<Rightarrow> channel option"
  app :: 'w
  kern :: 'k

definition Poller_new :: "nat \<Rightarrow> 'w \<Rightarrow> 'k \<Rightarrow> ('k, 'w) poller" where
  "Poller_new n w k = \<lparr>channels = replicate n None, store = (\<lambda>_. None), app = w, kern = k\<rparr>"

definition getChannel :: "nat \<Rightarrow> ('k, 'w) poller \<Rightarrow> nat option res" where
  "getChannel fd p = aread (channels p) fd"

definition setChannel :: "nat \<Rightarrow> nat option \<Rightarrow> ('k, 'w) poller \<Rightarrow> ('k, 'w) poller res" where
  "setChannel fd ch p = rbind (awrite (channels p) fd ch) (\<lambda>cs. Inr (p\<lparr>channels := cs\<rparr>))"

definition chan_at :: "nat \<Rightarrow> ('k, 'w) poller \<Rightarrow> channel res" where
  "chan_at a p = (case store p a of None \<Rightarrow> Inl WildDeref | Some c \<Rightarrow> Inr c)"

definition put_chan :: "nat \<Rightarrow> channel \<Rightarrow> ('k, 'w) poller \<Rightarrow> ('k, 'w) poller" where
  "put_chan a c p = p\<lparr>store := (store p)(a \<mapsto> c)\<rparr>"

text \<open>The callbacks are an argument. A channel's callback is run on behalf of the poller:\<close>

type_synonym ('k, 'w) callbacks = "nat \<Rightarrow> callback \<Rightarrow> ('k, 'w) poller \<Rightarrow> ('k, 'w) poller res"

definition deliver :: "('k, 'w) callbacks \<Rightarrow> nat \<Rightarrow> u32 \<Rightarrow> ('k, 'w) poller \<Rightarrow> ('k, 'w) poller res" where
  "deliver cb a re p =
     rbind (chan_at a p) (\<lambda>c.
     let (c1, call) = handleEvent (updateRevents re c); p1 = put_chan a c1 p in
     case call of None \<Rightarrow> Inr p1 | Some k \<Rightarrow> cb a k p1)"

subsection \<open>epoll\<close>

abbreviation EPOLLIN :: u32 where "EPOLLIN \<equiv> 0x001"
abbreviation EPOLLOUT :: u32 where "EPOLLOUT \<equiv> 0x004"
abbreviation EPOLLERR :: u32 where "EPOLLERR \<equiv> 0x008"
abbreviation EPOLLHUP :: u32 where "EPOLLHUP \<equiv> 0x010"
abbreviation EPOLLRDHUP :: u32 where "EPOLLRDHUP \<equiv> 0x2000"

record epoll =
  watched :: "nat \<Rightarrow> u32 option"
  eventsSize :: nat
  events_size :: nat

definition defaultEpollSize :: nat where
  "defaultEpollSize = 48"

definition PollerEpoll_new :: epoll where
  "PollerEpoll_new = \<lparr>watched = (\<lambda>_. None), eventsSize = 0, events_size = defaultEpollSize\<rparr>"

text \<open>
  \<open>epoll_ctl\<close> fails if the descriptor is already watched (for ADD) or not (for MOD and DEL). The
  exception that is thrown then is caught nowhere.
\<close>

definition ctl_add :: "nat \<Rightarrow> u32 \<Rightarrow> epoll \<Rightarrow> epoll res" where
  "ctl_add fd ev k = (if watched k fd = None then Inr (k\<lparr>watched := (watched k)(fd \<mapsto> ev)\<rparr>) else Inl Terminate)"

definition ctl_mod :: "nat \<Rightarrow> u32 \<Rightarrow> epoll \<Rightarrow> epoll res" where
  "ctl_mod fd ev k = (if watched k fd \<noteq> None then Inr (k\<lparr>watched := (watched k)(fd \<mapsto> ev)\<rparr>) else Inl Terminate)"

definition ctl_del :: "nat \<Rightarrow> epoll \<Rightarrow> epoll res" where
  "ctl_del fd k = (if watched k fd \<noteq> None then Inr (k\<lparr>watched := (watched k)(fd := None)\<rparr>) else Inl Terminate)"

definition translateEvents :: "channel \<Rightarrow> u32" where
  "translateEvents c =
     (let e1 = EPOLLHUP; e2 = (if events c AND kWrit \<noteq> 0 then e1 OR EPOLLOUT else e1) in
      if events c AND kRead \<noteq> 0 then e2 OR EPOLLIN else e2)"

definition epoll_addChanel :: "nat \<Rightarrow> (epoll, 'w) poller \<Rightarrow> (epoll, 'w) poller res" where
  "epoll_addChanel a p =
     rbind (chan_at a p) (\<lambda>c.
     rbind (setChannel (cfd c) (Some a) p) (\<lambda>p1.
     rbind (ctl_add (cfd c) (translateEvents c) (kern p1)) (\<lambda>k.
     Inr (p1\<lparr>kern := k\<lparr>eventsSize := eventsSize k + 1\<rparr>\<rparr>))))"

definition epoll_removeChanel :: "nat \<Rightarrow> (epoll, 'w) poller \<Rightarrow> (epoll, 'w) poller res" where
  "epoll_removeChanel a p =
     rbind (chan_at a p) (\<lambda>c.
     rbind (setChannel (cfd c) None p) (\<lambda>p1.
     let k1 = (case ctl_mod (cfd c) 0 (kern p1) of Inl _ \<Rightarrow> kern p1 | Inr k \<Rightarrow> k) in
     rbind (ctl_del (cfd c) k1) (\<lambda>k.
     Inr (p1\<lparr>kern := k\<lparr>eventsSize := eventsSize k - 1\<rparr>\<rparr>))))"

definition epoll_updateChanel :: "nat \<Rightarrow> (epoll, 'w) poller \<Rightarrow> (epoll, 'w) poller res" where
  "epoll_updateChanel a p =
     rbind (chan_at a p) (\<lambda>c.
     if \<not> isEventsChanged c then Inr p
     else rbind (ctl_mod (cfd c) (translateEvents c) (kern p)) (\<lambda>k. Inr (p\<lparr>kern := k\<rparr>)))"

definition epoll_revent :: "u32 \<Rightarrow> u32" where
  "epoll_revent e =
     (if e AND EPOLLIN \<noteq> 0 then kRead else 0) OR (if e AND EPOLLOUT \<noteq> 0 then kWrit else 0) OR
     (if e AND (EPOLLRDHUP OR EPOLLERR) \<noteq> 0 then kErro else 0)"

text \<open>The events \<open>epoll_wait\<close> returned are handled one after the other.\<close>

fun epoll_events :: "(epoll, 'w) callbacks \<Rightarrow> (nat \<times> u32) list \<Rightarrow> (epoll, 'w) poller \<Rightarrow> (epoll, 'w) poller res" where
  "epoll_events cb [] p = Inr p"
| "epoll_events cb ((fd, e) # es) p =
     rbind (getChannel fd p) (\<lambda>ch. case ch of None \<Rightarrow> epoll_events cb es p
       | Some a \<Rightarrow> rbind (deliver cb a (epoll_revent e) p) (epoll_events cb es))"

definition epoll_loop_once :: "(epoll, 'w) callbacks \<Rightarrow> (nat \<times> u32) list \<Rightarrow> (epoll, 'w) poller \<Rightarrow> (epoll, 'w) poller res" where
  "epoll_loop_once cb es p =
     rbind (epoll_events cb (take (events_size (kern p)) es) p) (\<lambda>p1.
     Inr (if events_size (kern p1) < eventsSize (kern p1)
          then p1\<lparr>kern := (kern p1)\<lparr>events_size := eventsSize (kern p1) * 2\<rparr>\<rparr> else p1))"

subsection \<open>select\<close>

record sel =
  rset :: "nat set"
  wset :: "nat set"
  maxfd :: int

abbreviation FD_SETSIZE :: nat where "FD_SETSIZE \<equiv> 1024"

definition PollerSelect_new :: sel where
  "PollerSelect_new = \<lparr>rset = {}, wset = {}, maxfd = -1\<rparr>"

definition select_addChanel :: "nat \<Rightarrow> (sel, 'w) poller \<Rightarrow> (sel, 'w) poller res" where
  "select_addChanel a p =
     rbind (chan_at a p) (\<lambda>c.
     rbind (guard (cfd c < FD_SETSIZE) Terminate) (\<lambda>_.
     let k = kern p; k1 = (if int (cfd c) \<ge> maxfd k then k\<lparr>maxfd := int (cfd c) + 1\<rparr> else k) in
     rbind (setChannel (cfd c) (Some a) (p\<lparr>kern := k1\<rparr>)) (\<lambda>p1.
     let k2 = (if events c AND kRead \<noteq> 0 then k1\<lparr>rset := insert (cfd c) (rset k1)\<rparr> else k1);
         k3 = (if events c AND kWrit \<noteq> 0 then k2\<lparr>wset := insert (cfd c) (wset k2)\<rparr> else k2) in
     Inr (p1\<lparr>kern := k3\<rparr>))))"

definition select_updateChanel :: "nat \<Rightarrow> (sel, 'w) poller \<Rightarrow> (sel, 'w) poller res" where
  "select_updateChanel a p =
     rbind (chan_at a p) (\<lambda>c.
     if \<not> isEventsChanged c then Inr p
     else
       let fd = cfd c; e = events c; k = kern p;
           k1 = (if e AND kRead \<noteq> 0 \<and> fd \<notin> rset k then k\<lparr>rset := insert fd (rset k)\<rparr> else k);
           k2 = (if e AND kRead = 0 \<and> fd \<in> rset k1 then k1\<lparr>rset := rset k1 - {fd}\<rparr> else k1);
           k3 = (if e AND kWrit \<noteq> 0 \<and> fd \<notin> wset k2 then k2\<lparr>wset := insert fd (wset k2)\<rparr> else k2);
           k4 = (if e AND kWrit = 0 \<and> fd \<in> wset k3 then k3\<lparr>wset := wset k3 - {fd}\<rparr> else k3) in
       Inr (p\<lparr>kern := k4\<rparr>))"

text \<open>\<open>while (--maxfd_)\<close>; a negative descriptor is outside of the sets.\<close>

function lower_maxfd :: "sel \<Rightarrow> int \<Rightarrow> int res" where
  "lower_maxfd k m =
     (if m - 1 = 0 then Inr 0
      else if m - 1 < 0 then Inl OutOfBounds
      else if nat (m - 1) \<in> rset k \<or> nat (m - 1) \<in> wset k then Inr (m - 1)
      else lower_maxfd k (m - 1))"
  by pat_completeness auto
termination by (relation "measure (\<lambda>(k, m). nat m)") auto

declare lower_maxfd.simps [simp del]

definition select_removeChanel :: "nat \<Rightarrow> (sel, 'w) poller \<Rightarrow> (sel, 'w) poller res" where
  "select_removeChanel a p =
     rbind (chan_at a p) (\<lambda>c.
     let k = kern p; k1 = k\<lparr>rset := rset k - {cfd c}, wset := wset k - {cfd c}\<rparr> in
     rbind (if int (cfd c) = maxfd k1 then lower_maxfd k1 (maxfd k1) else Inr (maxfd k1)) (\<lambda>m.
     setChannel (cfd c) None (p\<lparr>kern := k1\<lparr>maxfd := m\<rparr>\<rparr>)))"

definition select_revent :: "nat \<Rightarrow> nat set \<Rightarrow> nat set \<Rightarrow> u32" where
  "select_revent fd r w = (if fd \<in> r then kRead else 0) OR (if fd \<in> w then kWrit else 0)"

text \<open>
  \<open>select\<close> returned the sets \<open>r\<close> and \<open>w\<close> and the number of descriptors in them; callbacks may change
  \<open>maxfd_\<close> while the loop runs.
\<close>

function select_events ::
    "(sel, 'w) callbacks \<Rightarrow> nat set \<Rightarrow> nat set \<Rightarrow> nat \<Rightarrow> nat \<Rightarrow> (sel, 'w) poller \<Rightarrow> (sel, 'w) poller res" where
  "select_events cb r w fd ready p =
     (if int fd < maxfd (kern p) \<and> ready > 0 then
        if fd \<in> r \<or> fd \<in> w then
          rbind (getChannel fd p) (\<lambda>ch. case ch of None \<Rightarrow> select_events cb r w (fd + 1) (ready - 1) p
            | Some a \<Rightarrow> rbind (deliver cb a (select_revent fd r w) p) (\<lambda>p1. select_events cb r w (fd + 1) (ready - 1) p1))
        else select_events cb r w (fd + 1) ready p
      else Inr p)"
  by pat_completeness auto
termination
  by (relation "measures [\<lambda>(cb, r, w, fd, ready, p). ready, \<lambda>(cb, r, w, fd, ready, p). nat (maxfd (kern p) - int fd)]") auto

declare select_events.simps [simp del]

definition select_loop_once :: "(sel, 'w) callbacks \<Rightarrow> nat set \<Rightarrow> nat set \<Rightarrow> nat \<Rightarrow> (sel, 'w) poller \<Rightarrow> (sel, 'w) poller res" where
  "select_loop_once cb r w ready p = select_events cb r w 0 ready p"

subsection \<open>poll\<close>

abbreviation POLLIN :: "16 word" where "POLLIN \<equiv> 0x001"
abbreviation POLLOUT :: "16 word" where "POLLOUT \<equiv> 0x004"
abbreviation POLLERR :: "16 word" where "POLLERR \<equiv> 0x008"
abbreviation POLLRDHUP :: "16 word" where "POLLRDHUP \<equiv> 0x2000"

record pollfd =
  pfd :: int
  pevents :: "16 word"
  prevents :: "16 word"

definition defaultPollSize :: nat where
  "defaultPollSize = 48"

definition pollfd_zero :: pollfd where
  "pollfd_zero = \<lparr>pfd = 0, pevents = 0, prevents = 0\<rparr>"

definition PollerPoll_new :: "pollfd list" where
  "PollerPoll_new = replicate defaultPollSize pollfd_zero"

text \<open>A new entry of the array is zero, so it names descriptor 0 with no events.\<close>

definition grow_pollfds :: "nat \<Rightarrow> pollfd list \<Rightarrow> pollfd list" where
  "grow_pollfds fd k = (if length k \<le> fd then k @ replicate (fd + 1 - length k) pollfd_zero else k)"

text \<open>The field \<open>revents\<close> of the new entry is not initialised by the source; it is 0 here. Nothing reads it before \<open>poll\<close> has set it.\<close>

definition poll_addChanel :: "nat \<Rightarrow> (pollfd list, 'w) poller \<Rightarrow> (pollfd list, 'w) poller res" where
  "poll_addChanel a p =
     rbind (chan_at a p) (\<lambda>c.
     let fd = cfd c; e = events c; e0 = POLLRDHUP OR POLLERR;
         e1 = (if e AND kRead \<noteq> 0 then e0 OR POLLIN else e0);
         e2 = (if e AND kWrit \<noteq> 0 then e1 OR POLLOUT else e1);
         k = grow_pollfds fd (kern p) in
     setChannel fd (Some a) (p\<lparr>kern := k[fd := \<lparr>pfd = int fd, pevents = e2, prevents = 0\<rparr>]\<rparr>))"

definition poll_updateChanel :: "nat \<Rightarrow> (pollfd list, 'w) poller \<Rightarrow> (pollfd list, 'w) poller res" where
  "poll_updateChanel a p =
     rbind (chan_at a p) (\<lambda>c.
     if \<not> isEventsChanged c then Inr p
     else
       rbind (aread (kern p) (cfd c)) (\<lambda>e.
       let x1 = (if events c AND kRead \<noteq> 0 then (if pevents e AND POLLIN = 0 then pevents e OR POLLIN else pevents e)
                 else (if pevents e AND POLLIN \<noteq> 0 then pevents e AND NOT POLLIN else pevents e));
           x2 = (if events c AND kWrit \<noteq> 0 then (if x1 AND POLLOUT = 0 then x1 OR POLLOUT else x1)
                 else (if x1 AND POLLOUT \<noteq> 0 then x1 AND NOT POLLOUT else x1)) in
       Inr (p\<lparr>kern := (kern p)[cfd c := e\<lparr>pevents := x2\<rparr>]\<rparr>)))"

definition poll_removeChanel :: "nat \<Rightarrow> (pollfd list, 'w) poller \<Rightarrow> (pollfd list, 'w) poller res" where
  "poll_removeChanel a p =
     rbind (chan_at a p) (\<lambda>c.
     rbind (guard (kern p \<noteq> []) AssertFail) (\<lambda>_.
     rbind (setChannel (cfd c) None p) (\<lambda>p1.
     rbind (aread (kern p1) (cfd c)) (\<lambda>e.
     Inr (p1\<lparr>kern := (kern p1)[cfd c := e\<lparr>pfd := -1\<rparr>]\<rparr>)))))"

definition poll_event :: "16 word \<Rightarrow> u32" where
  "poll_event r =
     (if r AND POLLRDHUP \<noteq> 0 then kErro else 0) OR (if r AND POLLERR \<noteq> 0 then kErro else 0) OR
     (if r AND POLLIN \<noteq> 0 then kRead else 0) OR (if r AND POLLOUT \<noteq> 0 then kWrit else 0)"

text \<open>A negative descriptor is outside of the table of channels.\<close>

definition getChannel_int :: "int \<Rightarrow> ('k, 'w) poller \<Rightarrow> nat option res" where
  "getChannel_int fd p = (if fd < 0 then Inl OutOfBounds else getChannel (nat fd) p)"

function poll_events ::
    "(pollfd list, 'w) callbacks \<Rightarrow> nat \<Rightarrow> nat \<Rightarrow> (pollfd list, 'w) poller \<Rightarrow> (pollfd list, 'w) poller res" where
  "poll_events cb i ready p =
     (if i < length (kern p) \<and> ready > 0 then
        let fd = pfd (kern p ! i); ev = poll_event (prevents (kern p ! i)) in
        if ev = 0 then poll_events cb (i + 1) ready p
        else rbind (getChannel_int fd p) (\<lambda>ch. case ch of None \<Rightarrow> poll_events cb (i + 1) (ready - 1) p
          | Some a \<Rightarrow> rbind (deliver cb a ev p) (\<lambda>p1. poll_events cb (i + 1) (ready - 1) p1))
      else Inr p)"
  by pat_completeness auto
termination
  by (relation "measures [\<lambda>(cb, i, ready, p). ready, \<lambda>(cb, i, ready, p). length (kern p) - i]") auto

declare poll_events.simps [simp del]

text \<open>\<open>poll\<close> fills in the returned events, none for an entry with a negative descriptor.\<close>

definition poll_result :: "(int \<Rightarrow> 16 word) \<Rightarrow> pollfd list \<Rightarrow> pollfd list" where
  "poll_result f k = map (\<lambda>e. e\<lparr>prevents := (if pfd e < 0 then 0 else f (pfd e))\<rparr>) k"

definition poll_loop_once :: "(pollfd list, 'w) callbacks \<Rightarrow> (int \<Rightarrow> 16 word) \<Rightarrow> (pollfd list, 'w) poller \<Rightarrow> (pollfd list, 'w) poller res" where
  "poll_loop_once cb f p =
     (let k = poll_result f (kern p) in
      poll_events cb 0 (length (filter (\<lambda>e. prevents e \<noteq> 0) k)) (p\<lparr>kern := k\<rparr>))"

section \<open>Channel operations\<close>

text \<open>The operations of a channel call the poller's virtual methods, here arguments.\<close>

definition Channel_add :: "(nat \<Rightarrow> ('k, 'w) poller \<Rightarrow> ('k, 'w) poller res) \<Rightarrow> nat \<Rightarrow> ('k, 'w) poller \<Rightarrow> ('k, 'w) poller res" where
  "Channel_add add a p =
     rbind (add a p) (\<lambda>p1. rbind (chan_at a p1) (\<lambda>c. Inr (put_chan a (c\<lparr>savedEvents := events c\<rparr>) p1)))"

definition Channel_update :: "(nat \<Rightarrow> ('k, 'w) poller \<Rightarrow> ('k, 'w) poller res) \<Rightarrow> nat \<Rightarrow> ('k, 'w) poller \<Rightarrow> ('k, 'w) poller res" where
  "Channel_update update a p =
     rbind (update a p) (\<lambda>p1. rbind (chan_at a p1) (\<lambda>c. Inr (put_chan a (c\<lparr>savedEvents := events c\<rparr>) p1)))"

text \<open>The destructor removes the channel from its poller.\<close>

definition Channel_delete :: "(nat \<Rightarrow> ('k, 'w) poller \<Rightarrow> ('k, 'w) poller res) \<Rightarrow> nat \<Rightarrow> ('k, 'w) poller \<Rightarrow> ('k, 'w) poller res" where
  "Channel_delete remove a p = rbind (remove a p) (\<lambda>p1. Inr (p1\<lparr>store := (store p1)(a := None)\<rparr>))"

section \<open>The interface of the pollers\<close>

text \<open>Reading and writing wanted in an event mask.\<close>

definition wants :: "u32 \<Rightarrow> bool \<times> bool" where
  "wants e = (e AND kRead \<noteq> 0, e AND kWrit \<noteq> 0)"

text \<open>
  What the channels rely on: \<open>watches\<close> tells for which descriptors the kernel is asked to report
  readability and writability. Adding, updating and removing a channel change it for the channel's
  descriptor only.
\<close>

locale poller_interface =
  fixes add :: "nat \<Rightarrow> ('k, 'w) poller \<Rightarrow> ('k, 'w) poller res"
    and update :: "nat \<Rightarrow> ('k, 'w) poller \<Rightarrow> ('k, 'w) poller res"
    and remove :: "nat \<Rightarrow> ('k, 'w) poller \<Rightarrow> ('k, 'w) poller res"
    and watches :: "'k \<Rightarrow> nat \<Rightarrow> bool \<times> bool"
    and kinv :: "nat option list \<Rightarrow> 'k \<Rightarrow> bool"
  assumes add_ok: "kinv (channels p) (kern p) \<Longrightarrow> store p a = Some c \<Longrightarrow> cfd c < length (channels p) \<Longrightarrow>
      cfd c < FD_SETSIZE \<Longrightarrow> channels p ! cfd c = None \<Longrightarrow>
      \<exists>k. add a p = Inr (p\<lparr>channels := (channels p)[cfd c := Some a], kern := k\<rparr>) \<and>
        kinv ((channels p)[cfd c := Some a]) k \<and> watches k = (watches (kern p))(cfd c := wants (events c))"
    and update_ok: "kinv (channels p) (kern p) \<Longrightarrow> store p a = Some c \<Longrightarrow> cfd c < length (channels p) \<Longrightarrow>
      channels p ! cfd c = Some a \<Longrightarrow>
      \<exists>k. update a p = Inr (p\<lparr>kern := k\<rparr>) \<and> kinv (channels p) k \<and>
        watches k = (if isEventsChanged c then (watches (kern p))(cfd c := wants (events c)) else watches (kern p))"
    and remove_ok: "kinv (channels p) (kern p) \<Longrightarrow> store p a = Some c \<Longrightarrow> cfd c < length (channels p) \<Longrightarrow>
      channels p ! cfd c = Some a \<Longrightarrow>
      \<exists>k. remove a p = Inr (p\<lparr>channels := (channels p)[cfd c := None], kern := k\<rparr>) \<and>
        kinv ((channels p)[cfd c := None]) k \<and> watches k = (watches (kern p))(cfd c := (False, False))"

text \<open>Operations on the channels of a poller, in the order an application may run them.\<close>

datatype chan_op = New nat nat | SetCb nat bool bool bool | Want nat u32 bool | Add nat | Update nat | Delete nat | Handle nat u32

fun run_op :: "(nat \<Rightarrow> ('k, 'w) poller \<Rightarrow> ('k, 'w) poller res) \<Rightarrow> (nat \<Rightarrow> ('k, 'w) poller \<Rightarrow> ('k, 'w) poller res) \<Rightarrow>
    (nat \<Rightarrow> ('k, 'w) poller \<Rightarrow> ('k, 'w) poller res) \<Rightarrow> chan_op \<Rightarrow> ('k, 'w) poller \<Rightarrow> ('k, 'w) poller res" where
  "run_op add update remove (New a fd) p = Inr (put_chan a (channel_new fd) p)"
| "run_op add update remove (SetCb a r w e) p =
     rbind (chan_at a p) (\<lambda>c. Inr (put_chan a (c\<lparr>on_read := r, on_writ := w, on_erro := e\<rparr>) p))"
| "run_op add update remove (Want a k flag) p =
     rbind (chan_at a p) (\<lambda>c. Inr (put_chan a (c\<lparr>events := enable k flag (events c)\<rparr>) p))"
| "run_op add update remove (Add a) p = Channel_add add a p"
| "run_op add update remove (Update a) p = Channel_update update a p"
| "run_op add update remove (Delete a) p = Channel_delete remove a p"
| "run_op add update remove (Handle a r) p =
     rbind (chan_at a p) (\<lambda>c. Inr (put_chan a (fst (handleEvent (updateRevents r c))) p))"

fun run_all :: "(nat \<Rightarrow> ('k, 'w) poller \<Rightarrow> ('k, 'w) poller res) \<Rightarrow> (nat \<Rightarrow> ('k, 'w) poller \<Rightarrow> ('k, 'w) poller res) \<Rightarrow>
    (nat \<Rightarrow> ('k, 'w) poller \<Rightarrow> ('k, 'w) poller res) \<Rightarrow> chan_op list \<Rightarrow> ('k, 'w) poller \<Rightarrow> ('k, 'w) poller res" where
  "run_all add update remove [] p = Inr p"
| "run_all add update remove (x # xs) p = rbind (run_op add update remove x p) (run_all add update remove xs)"

section \<open>The specification\<close>

text \<open>
  The specification knows the table and the channels only. An operation is allowed if the channel
  exists, is added once and to a free descriptor, is updated and deleted while it is in the table,
  and if no event is handled while a change of the wanted events has not been passed on.
\<close>

type_synonym table = "(unit, unit) poller"

definition forget :: "('k, 'w) poller \<Rightarrow> table" where
  "forget p = \<lparr>channels = channels p, store = store p, app = (), kern = ()\<rparr>"

definition registered :: "nat \<Rightarrow> ('k, 'w) poller \<Rightarrow> bool" where
  "registered a p = (case store p a of None \<Rightarrow> False
     | Some c \<Rightarrow> cfd c < length (channels p) \<and> channels p ! cfd c = Some a)"

fun op_ok :: "chan_op \<Rightarrow> table \<Rightarrow> bool" where
  "op_ok (New a fd) t = (store t a = None)"
| "op_ok (SetCb a r w e) t = (store t a \<noteq> None)"
| "op_ok (Want a k flag) t = (store t a \<noteq> None)"
| "op_ok (Add a) t = (case store t a of None \<Rightarrow> False
     | Some c \<Rightarrow> cfd c < length (channels t) \<and> cfd c < FD_SETSIZE \<and> channels t ! cfd c = None)"
| "op_ok (Update a) t = registered a t"
| "op_ok (Delete a) t = registered a t"
| "op_ok (Handle a r) t = (registered a t \<and> (case store t a of None \<Rightarrow> False | Some c \<Rightarrow> \<not> isEventsChanged c))"

fun spec_op :: "chan_op \<Rightarrow> table \<Rightarrow> table" where
  "spec_op (New a fd) t = put_chan a (channel_new fd) t"
| "spec_op (SetCb a r w e) t = (case store t a of None \<Rightarrow> t | Some c \<Rightarrow> put_chan a (c\<lparr>on_read := r, on_writ := w, on_erro := e\<rparr>) t)"
| "spec_op (Want a k flag) t = (case store t a of None \<Rightarrow> t | Some c \<Rightarrow> put_chan a (c\<lparr>events := enable k flag (events c)\<rparr>) t)"
| "spec_op (Add a) t = (case store t a of None \<Rightarrow> t
     | Some c \<Rightarrow> put_chan a (c\<lparr>savedEvents := events c\<rparr>) (t\<lparr>channels := (channels t)[cfd c := Some a]\<rparr>))"
| "spec_op (Update a) t = (case store t a of None \<Rightarrow> t | Some c \<Rightarrow> put_chan a (c\<lparr>savedEvents := events c\<rparr>) t)"
| "spec_op (Delete a) t = (case store t a of None \<Rightarrow> t
     | Some c \<Rightarrow> t\<lparr>channels := (channels t)[cfd c := None], store := (store t)(a := None)\<rparr>)"
| "spec_op (Handle a r) t = (case store t a of None \<Rightarrow> t | Some c \<Rightarrow> put_chan a (c\<lparr>revents := r, savedEvents := events c\<rparr>) t)"

fun spec_all :: "chan_op list \<Rightarrow> table \<Rightarrow> table" where
  "spec_all [] t = t"
| "spec_all (x # xs) t = spec_all xs (spec_op x t)"

fun ops_ok :: "chan_op list \<Rightarrow> table \<Rightarrow> bool" where
  "ops_ok [] t = True"
| "ops_ok (x # xs) t = (op_ok x t \<and> ops_ok xs (spec_op x t))"

text \<open>What the kernel is to watch: the events the channel in the table has last passed on.\<close>

definition spec_watch :: "table \<Rightarrow> nat \<Rightarrow> bool \<times> bool" where
  "spec_watch t fd = (if fd < length (channels t) then
     (case channels t ! fd of None \<Rightarrow> (False, False)
      | Some a \<Rightarrow> (case store t a of None \<Rightarrow> (False, False) | Some c \<Rightarrow> wants (savedEvents c))) else (False, False))"

text \<open>Every entry of the table is a channel in memory with that descriptor.\<close>

definition table_ok :: "('k, 'w) poller \<Rightarrow> bool" where
  "table_ok p \<longleftrightarrow> (\<forall>fd a. fd < length (channels p) \<and> channels p ! fd = Some a \<longrightarrow> (\<exists>c. store p a = Some c \<and> cfd c = fd))"

lemma forget_simps [simp]:
  "channels (forget p) = channels p" "store (forget p) = store p"
  by (simp_all add: forget_def)

lemma put_chan_simps [simp]:
  "channels (put_chan a c p) = channels p" "store (put_chan a c p) = (store p)(a \<mapsto> c)" "kern (put_chan a c p) = kern p"
  "app (put_chan a c p) = app p"
  by (simp_all add: put_chan_def)

lemma registeredE:
  assumes "registered a p"
  obtains c where "store p a = Some c" "cfd c < length (channels p)" "channels p ! cfd c = Some a"
  using assms by (auto simp: registered_def split: option.splits)

lemma table_okD:
  "table_ok p \<Longrightarrow> fd < length (channels p) \<Longrightarrow> channels p ! fd = Some a \<Longrightarrow> \<exists>c. store p a = Some c \<and> cfd c = fd"
  by (simp add: table_ok_def)

lemma table_ok_forget [simp]: "table_ok (forget p) = table_ok p"
  by (simp add: table_ok_def)

lemma table_ok_put:
  "table_ok p \<Longrightarrow> (\<And>c0. store p a = Some c0 \<Longrightarrow> cfd c = cfd c0) \<Longrightarrow> table_ok (put_chan a c p)"
  by (fastforce simp: table_ok_def)

lemma table_okI:
  assumes "\<And>fd b. fd < length (channels p) \<Longrightarrow> channels p ! fd = Some b \<Longrightarrow> \<exists>c. store p b = Some c \<and> cfd c = fd"
  shows "table_ok p"
  using assms by (simp add: table_ok_def)

lemma table_ok_add:
  assumes "table_ok t" "store t a = Some c" "cfd c' = cfd c"
  shows "table_ok (put_chan a c' (t\<lparr>channels := (channels t)[cfd c := Some a]\<rparr>))"
proof (rule table_okI, goal_cases)
  case (1 fd b)
  then show ?case using assms table_okD [OF assms(1), of fd b] by (cases "fd = cfd c") (auto split: if_splits)
qed

lemma table_ok_delete:
  assumes "table_ok t" "store t a = Some c"
  shows "table_ok (t\<lparr>channels := (channels t)[cfd c := None], store := (store t)(a := None)\<rparr>)"
proof (rule table_okI, goal_cases)
  case (1 fd b)
  then show ?case using assms table_okD [OF assms(1), of fd b] by (cases "fd = cfd c") auto
qed

lemma spec_op_table_ok: "table_ok t \<Longrightarrow> op_ok x t \<Longrightarrow> table_ok (spec_op x t)"
proof (cases x)
  case (Add a)
  assume "table_ok t" "op_ok x t"
  with Add show ?thesis by (auto intro: table_ok_add split: option.splits)
qed (auto intro!: table_ok_put table_ok_delete split: option.splits)

text \<open>A changed channel only matters for its own descriptor.\<close>

lemma spec_watch_put:
  assumes "table_ok t" and "store t a = Some c" and "cfd c' = cfd c"
  shows "spec_watch (put_chan a c' t) =
    (if registered a t then (spec_watch t)(cfd c := wants (savedEvents c')) else spec_watch t)"
proof
  fix fd
  show "spec_watch (put_chan a c' t) fd = (if registered a t then (spec_watch t)(cfd c := wants (savedEvents c')) else spec_watch t) fd"
    using assms(2,3) table_okD [OF assms(1), of fd a]
    by (cases "fd < length (channels t)"; cases "channels t ! fd = Some a"; cases "fd = cfd c")
      (simp_all add: spec_watch_def registered_def split: option.split)
qed

lemma spec_watch_same:
  "table_ok t \<Longrightarrow> store t a = Some c \<Longrightarrow> cfd c' = cfd c \<Longrightarrow> savedEvents c' = savedEvents c \<Longrightarrow> spec_watch (put_chan a c' t) = spec_watch t"
  by (auto simp: spec_watch_put fun_eq_iff spec_watch_def registered_def)

lemma spec_watch_new:
  "table_ok t \<Longrightarrow> store t a = None \<Longrightarrow> spec_watch (put_chan a c t) = spec_watch t"
  by (fastforce simp: spec_watch_def fun_eq_iff dest: table_okD split: option.split)

lemma spec_watch_add:
  assumes "table_ok t" "store t a = Some c" "cfd c < length (channels t)" "channels t ! cfd c = None"
  shows "spec_watch (spec_op (Add a) t) = (spec_watch t)(cfd c := wants (events c))"
proof
  fix fd
  show "spec_watch (spec_op (Add a) t) fd = ((spec_watch t)(cfd c := wants (events c))) fd"
    using assms(2-) table_okD [OF assms(1), of fd a]
    by (cases "fd < length (channels t)"; cases "channels t ! fd = Some a"; cases "fd = cfd c")
      (simp_all add: spec_watch_def nth_list_update split: option.split)
qed

lemma spec_watch_delete:
  assumes "table_ok t" "store t a = Some c" "cfd c < length (channels t)" "channels t ! cfd c = Some a"
  shows "spec_watch (spec_op (Delete a) t) = (spec_watch t)(cfd c := (False, False))"
proof
  fix fd
  show "spec_watch (spec_op (Delete a) t) fd = ((spec_watch t)(cfd c := (False, False))) fd"
    using assms(2-) table_okD [OF assms(1), of fd a]
    by (cases "fd < length (channels t)"; cases "channels t ! fd = Some a"; cases "fd = cfd c")
      (simp_all add: spec_watch_def nth_list_update split: option.split)
qed

section \<open>Every poller meets the specification\<close>

lemma forget_put [simp]: "forget (put_chan a c p) = put_chan a c (forget p)"
  by (simp add: forget_def put_chan_def)

lemma forget_kern [simp]:
  "forget (p\<lparr>channels := cs, kern := k\<rparr>) = (forget p)\<lparr>channels := cs\<rparr>" "forget (p\<lparr>kern := k\<rparr>) = forget p"
  "forget (p\<lparr>channels := cs, kern := k, store := s\<rparr>) = (forget p)\<lparr>channels := cs, store := s\<rparr>"
  by (simp_all add: forget_def)

lemma chan_at_Some [simp]: "store p a = Some c \<Longrightarrow> chan_at a p = Inr c"
  by (simp add: chan_at_def)

context poller_interface
begin

definition synced :: "('k, 'w) poller \<Rightarrow> bool" where
  "synced p \<longleftrightarrow> kinv (channels p) (kern p) \<and> table_ok p \<and> watches (kern p) = spec_watch (forget p)"

lemma synced_add:
  assumes "synced p" "op_ok (Add a) (forget p)"
  shows "\<exists>q. Channel_add add a p = Inr q \<and> forget q = spec_op (Add a) (forget p) \<and> synced q"
proof -
  from assms(2) obtain c where c: "store p a = Some c" "cfd c < length (channels p)" "cfd c < FD_SETSIZE" "channels p ! cfd c = None"
    by (auto split: option.splits)
  have p: "kinv (channels p) (kern p)" "table_ok p" "watches (kern p) = spec_watch (forget p)"
    using assms(1) by (auto simp: synced_def)
  from add_ok [OF p(1) c] obtain k where
    k: "add a p = Inr (p\<lparr>channels := (channels p)[cfd c := Some a], kern := k\<rparr>)"
      "kinv ((channels p)[cfd c := Some a]) k" "watches k = (watches (kern p))(cfd c := wants (events c))" by blast
  let ?q = "put_chan a (c\<lparr>savedEvents := events c\<rparr>) (p\<lparr>channels := (channels p)[cfd c := Some a], kern := k\<rparr>)"
  have q: "forget ?q = spec_op (Add a) (forget p)" using c by simp
  moreover have "table_ok ?q" using spec_op_table_ok [of "forget p" "Add a"] assms(2) p(2) q by (metis table_ok_forget)
  moreover have "watches k = spec_watch (forget ?q)"
    unfolding q using spec_watch_add [of "forget p" a c] p c k(3) by simp
  ultimately show ?thesis using k c by (auto simp: Channel_add_def synced_def)
qed

lemma synced_update:
  assumes "synced p" "op_ok (Update a) (forget p)"
  shows "\<exists>q. Channel_update update a p = Inr q \<and> forget q = spec_op (Update a) (forget p) \<and> synced q"
proof -
  from assms(2) obtain c where c: "store p a = Some c" "cfd c < length (channels p)" "channels p ! cfd c = Some a"
    by (auto elim: registeredE)
  have p: "kinv (channels p) (kern p)" "table_ok p" "watches (kern p) = spec_watch (forget p)"
    using assms(1) by (auto simp: synced_def)
  from update_ok [OF p(1) c] obtain k where
    k: "update a p = Inr (p\<lparr>kern := k\<rparr>)" "kinv (channels p) k"
      "watches k = (if isEventsChanged c then (watches (kern p))(cfd c := wants (events c)) else watches (kern p))" by blast
  let ?q = "put_chan a (c\<lparr>savedEvents := events c\<rparr>) (p\<lparr>kern := k\<rparr>)"
  have q: "forget ?q = spec_op (Update a) (forget p)" using c by simp
  moreover have "table_ok ?q" using spec_op_table_ok [of "forget p" "Update a"] assms(2) p(2) q by (metis table_ok_forget)
  moreover have "watches k = spec_watch (forget ?q)"
    unfolding q using spec_watch_put [of "forget p" a c "c\<lparr>savedEvents := events c\<rparr>"] p c k(3)
    by (auto simp: registered_def isEventsChanged_def spec_watch_def fun_eq_iff)
  ultimately show ?thesis using k c by (auto simp: Channel_update_def synced_def)
qed

lemma synced_delete:
  assumes "synced p" "op_ok (Delete a) (forget p)"
  shows "\<exists>q. Channel_delete remove a p = Inr q \<and> forget q = spec_op (Delete a) (forget p) \<and> synced q"
proof -
  from assms(2) obtain c where c: "store p a = Some c" "cfd c < length (channels p)" "channels p ! cfd c = Some a"
    by (auto elim: registeredE)
  have p: "kinv (channels p) (kern p)" "table_ok p" "watches (kern p) = spec_watch (forget p)"
    using assms(1) by (auto simp: synced_def)
  from remove_ok [OF p(1) c] obtain k where
    k: "remove a p = Inr (p\<lparr>channels := (channels p)[cfd c := None], kern := k\<rparr>)"
      "kinv ((channels p)[cfd c := None]) k" "watches k = (watches (kern p))(cfd c := (False, False))" by blast
  let ?q = "p\<lparr>channels := (channels p)[cfd c := None], kern := k, store := (store p)(a := None)\<rparr>"
  have q: "forget ?q = spec_op (Delete a) (forget p)" using c by simp
  moreover have "table_ok ?q" using spec_op_table_ok [of "forget p" "Delete a"] assms(2) p(2) q by (metis table_ok_forget)
  moreover have "watches k = spec_watch (forget ?q)"
    unfolding q using spec_watch_delete [of "forget p" a c] p c k(3) by simp
  ultimately show ?thesis using k c by (auto simp: Channel_delete_def synced_def)
qed

lemma synced_put:
  assumes "synced p" "store p a = Some c" "cfd c' = cfd c" "savedEvents c' = savedEvents c"
  shows "synced (put_chan a c' p)"
  using assms spec_watch_same [of "forget p" a c c'] by (auto simp: synced_def intro!: table_ok_put)

lemma synced_op:
  assumes "synced p" "op_ok x (forget p)"
  shows "\<exists>q. run_op add update remove x p = Inr q \<and> forget q = spec_op x (forget p) \<and> synced q"
proof (cases x)
  case (New a fd)
  then show ?thesis
    using assms spec_watch_new [of "forget p" a "channel_new fd"] by (auto simp: synced_def intro!: table_ok_put)
next
  case (SetCb a r w e)
  then obtain c where c: "store p a = Some c" using assms by auto
  then show ?thesis using SetCb synced_put [OF assms(1) c] by simp
next
  case (Want a k flag)
  then obtain c where c: "store p a = Some c" using assms by auto
  then show ?thesis using Want synced_put [OF assms(1) c] by simp
next
  case (Handle a r)
  then obtain c where c: "store p a = Some c" "events c = savedEvents c"
    using assms(2) by (auto simp: isEventsChanged_def split: option.splits)
  then show ?thesis
    using Handle synced_put [OF assms(1) c(1), of "c\<lparr>revents := r, savedEvents := events c\<rparr>"]
    by (simp add: handleEvent_def updateRevents_def Let_def)
qed (use assms synced_add synced_update synced_delete in auto)

lemma synced_all:
  "synced p \<Longrightarrow> ops_ok xs (forget p) \<Longrightarrow>
   \<exists>q. run_all add update remove xs p = Inr q \<and> forget q = spec_all xs (forget p) \<and> synced q"
proof (induction xs arbitrary: p)
  case Nil
  then show ?case by simp
next
  case (Cons x xs)
  from synced_op [OF Cons.prems(1), of x] Cons.prems(2) obtain q where
    q: "run_op add update remove x p = Inr q" "forget q = spec_op x (forget p)" "synced q" by auto
  then show ?case using Cons.IH [of q] Cons.prems(2) by simp
qed

text \<open>
  Without a claim about what the kernel watches: the table is consistent and the kernel's state
  belongs to it. This is kept also when an event is handled before a change is passed on.
\<close>

definition sound :: "('k, 'w) poller \<Rightarrow> bool" where
  "sound p \<longleftrightarrow> kinv (channels p) (kern p) \<and> table_ok p"

lemma sound_op:
  assumes "sound p" "op_ok x (forget p)"
  shows "\<exists>q. run_op add update remove x p = Inr q \<and> forget q = spec_op x (forget p) \<and> sound q"
proof -
  have p: "kinv (channels p) (kern p)" "table_ok p" using assms(1) by (auto simp: sound_def)
  have "\<exists>q. run_op add update remove x p = Inr q \<and> forget q = spec_op x (forget p) \<and> kinv (channels q) (kern q)"
  proof (cases x)
    case (Add a)
    with assms(2) obtain c where c: "store p a = Some c" "cfd c < length (channels p)" "cfd c < FD_SETSIZE" "channels p ! cfd c = None"
      by (auto split: option.splits)
    from add_ok [OF p(1) c] c show ?thesis by (auto simp: Add Channel_add_def)
  next
    case (Update a)
    with assms(2) obtain c where c: "store p a = Some c" "cfd c < length (channels p)" "channels p ! cfd c = Some a"
      by (auto elim: registeredE)
    from update_ok [OF p(1) c] c show ?thesis by (auto simp: Update Channel_update_def)
  next
    case (Delete a)
    with assms(2) obtain c where c: "store p a = Some c" "cfd c < length (channels p)" "channels p ! cfd c = Some a"
      by (auto elim: registeredE)
    from remove_ok [OF p(1) c] c show ?thesis by (auto simp: Delete Channel_delete_def)
  next
    case (Handle a r)
    then show ?thesis using assms(2) p(1)
      by (auto simp: registered_def handleEvent_def updateRevents_def Let_def split: option.splits)
  qed (use assms(2) p(1) in auto)
  then show ?thesis using spec_op_table_ok [of "forget p" x] assms(2) p(2) by (metis sound_def table_ok_forget)
qed

lemma sound_all:
  "sound p \<Longrightarrow> ops_ok xs (forget p) \<Longrightarrow>
   \<exists>q. run_all add update remove xs p = Inr q \<and> forget q = spec_all xs (forget p) \<and> sound q"
proof (induction xs arbitrary: p)
  case (Cons x xs)
  from sound_op [OF Cons.prems(1), of x] Cons.prems(2) obtain q where
    q: "run_op add update remove x p = Inr q" "forget q = spec_op x (forget p)" "sound q" by auto
  then show ?case using Cons.IH [of q] Cons.prems(2) by simp
qed simp

lemma sound_handled:
  "sound p \<Longrightarrow> store p a = Some c \<Longrightarrow> sound (put_chan a (fst (handleEvent (updateRevents r c))) p)"
  by (auto simp: sound_def handleEvent_def updateRevents_def Let_def intro!: table_ok_put)

lemma synced_sound: "synced p \<Longrightarrow> sound p"
  by (simp add: synced_def sound_def)

text \<open>An event handled before a change is passed on makes the poller keep watching for the old events.\<close>

lemma lost_update:
  assumes "synced p" "store p a = Some c" "registered a p"
  shows "\<exists>q. run_all add update remove [Handle a r, Update a] p = Inr q \<and> watches (kern q) (cfd c) = wants (savedEvents c) \<and>
    (\<exists>c'. store q a = Some c' \<and> savedEvents c' = events c \<and> events c' = events c)"
proof -
  let ?c = "c\<lparr>revents := r, savedEvents := events c\<rparr>"
  let ?p = "put_chan a ?c p"
  have r: "cfd c < length (channels p)" "channels p ! cfd c = Some a" using assms by (auto simp: registered_def)
  have "kinv (channels ?p) (kern ?p)" "store ?p a = Some ?c" "cfd ?c < length (channels ?p)" "channels ?p ! cfd ?c = Some a"
    using assms r by (auto simp: synced_def)
  from update_ok [OF this] obtain k where k: "update a ?p = Inr (?p\<lparr>kern := k\<rparr>)" "watches k = watches (kern p)"
    by (auto simp: isEventsChanged_def)
  have "watches (kern p) (cfd c) = wants (savedEvents c)"
    using assms r by (simp add: synced_def spec_watch_def)
  then show ?thesis
    using assms(2) k by (simp add: Channel_update_def handleEvent_def updateRevents_def Let_def chan_at_def)
qed

end

section \<open>The three pollers\<close>

lemma setChannel_ok [simp]: "fd < length (channels p) \<Longrightarrow> setChannel fd ch p = Inr (p\<lparr>channels := (channels p)[fd := ch]\<rparr>)"
  by (simp add: setChannel_def)

subsection \<open>epoll\<close>

definition epoll_watches :: "epoll \<Rightarrow> nat \<Rightarrow> bool \<times> bool" where
  "epoll_watches k fd = (case watched k fd of None \<Rightarrow> (False, False) | Some e \<Rightarrow> (e AND EPOLLIN \<noteq> 0, e AND EPOLLOUT \<noteq> 0))"

definition epoll_inv :: "nat option list \<Rightarrow> epoll \<Rightarrow> bool" where
  "epoll_inv cs k \<longleftrightarrow> (\<forall>fd. watched k fd \<noteq> None \<longleftrightarrow> fd < length cs \<and> cs ! fd \<noteq> None)"

lemma translateEvents_wants:
  "(translateEvents c AND EPOLLIN \<noteq> 0, translateEvents c AND EPOLLOUT \<noteq> 0) = wants (events c)"
  by (simp add: translateEvents_def wants_def Let_def)

lemma epoll_inv_set: "epoll_inv cs k \<Longrightarrow> fd < length cs \<Longrightarrow> (e = None \<longleftrightarrow> ch = None) \<Longrightarrow> epoll_inv (cs[fd := ch]) (k\<lparr>watched := (watched k)(fd := e)\<rparr>)"
  by (auto simp: epoll_inv_def nth_list_update)

lemma epoll_invD: "epoll_inv cs k \<Longrightarrow> fd < length cs \<Longrightarrow> watched k fd = None \<longleftrightarrow> cs ! fd = None"
  unfolding epoll_inv_def by blast

interpretation epoll: poller_interface epoll_addChanel epoll_updateChanel epoll_removeChanel epoll_watches epoll_inv
proof (unfold_locales, goal_cases)
  case (1 p a c)
  let ?k = "(kern p)\<lparr>watched := (watched (kern p))(cfd c \<mapsto> translateEvents c), eventsSize := eventsSize (kern p) + 1\<rparr>"
  have n: "watched (kern p) (cfd c) = None" using 1 epoll_invD [OF 1(1,3)] by simp
  have i: "epoll_inv ((channels p)[cfd c := Some a]) ((kern p)\<lparr>watched := (watched (kern p))(cfd c \<mapsto> translateEvents c)\<rparr>)"
    using epoll_inv_set [OF 1(1,3), of "Some (translateEvents c)" "Some a"] by simp
  show ?case
    using 1 n i translateEvents_wants [of c]
    by (intro exI [of _ ?k]) (auto simp: epoll_addChanel_def ctl_add_def epoll_inv_def epoll_watches_def fun_eq_iff)
next
  case (2 p a c)
  have n: "watched (kern p) (cfd c) \<noteq> None" using 2 epoll_invD [OF 2(1,3)] by simp
  show ?case
  proof (cases "isEventsChanged c")
    case True
    let ?k = "(kern p)\<lparr>watched := (watched (kern p))(cfd c \<mapsto> translateEvents c)\<rparr>"
    have "epoll_inv (channels p) ?k"
      using epoll_inv_set [OF 2(1,3), of "Some (translateEvents c)" "Some a"] 2(4) by (metis list_update_id option.distinct(1))
    then show ?thesis
      using True 2 n translateEvents_wants [of c]
      by (intro exI [of _ ?k]) (auto simp: epoll_updateChanel_def ctl_mod_def epoll_watches_def fun_eq_iff)
  next
    case False
    then show ?thesis using 2 by (intro exI [of _ "kern p"]) (simp add: epoll_updateChanel_def)
  qed
next
  case (3 p a c)
  let ?k = "(kern p)\<lparr>watched := (watched (kern p))(cfd c := None), eventsSize := eventsSize (kern p) - 1\<rparr>"
  have n: "watched (kern p) (cfd c) \<noteq> None" using 3 epoll_invD [OF 3(1,3)] by simp
  have i: "epoll_inv ((channels p)[cfd c := None]) ((kern p)\<lparr>watched := (watched (kern p))(cfd c := None)\<rparr>)"
    using epoll_inv_set [OF 3(1,3), of None None] by simp
  show ?case
    using 3 n i
    by (intro exI [of _ ?k]) (auto simp: epoll_removeChanel_def ctl_mod_def ctl_del_def epoll_inv_def epoll_watches_def fun_eq_iff)
qed

subsection \<open>select\<close>

definition select_watches :: "sel \<Rightarrow> nat \<Rightarrow> bool \<times> bool" where
  "select_watches k fd = (fd \<in> rset k \<and> int fd < maxfd k, fd \<in> wset k \<and> int fd < maxfd k)"

definition select_inv :: "nat option list \<Rightarrow> sel \<Rightarrow> bool" where
  "select_inv cs k \<longleftrightarrow> (\<forall>fd. (fd < length cs \<and> cs ! fd \<noteq> None \<longrightarrow> int fd < maxfd k) \<and>
     (fd \<in> rset k \<or> fd \<in> wset k \<longrightarrow> fd < length cs \<and> cs ! fd \<noteq> None))"

lemma select_invD:
  "select_inv cs k \<Longrightarrow> fd < length cs \<Longrightarrow> cs ! fd \<noteq> None \<Longrightarrow> int fd < maxfd k"
  "select_inv cs k \<Longrightarrow> fd < length cs \<Longrightarrow> cs ! fd = None \<Longrightarrow> fd \<notin> rset k \<and> fd \<notin> wset k"
  "select_inv cs k \<Longrightarrow> fd \<in> rset k \<or> fd \<in> wset k \<Longrightarrow> int fd < maxfd k"
  unfolding select_inv_def by blast+

interpretation select: poller_interface select_addChanel select_updateChanel select_removeChanel select_watches select_inv
proof (unfold_locales, goal_cases)
  case (1 p a c)
  let ?fd = "cfd c"
  let ?k = "\<lparr>rset = if events c AND kRead \<noteq> 0 then insert ?fd (rset (kern p)) else rset (kern p),
    wset = if events c AND kWrit \<noteq> 0 then insert ?fd (wset (kern p)) else wset (kern p),
    maxfd = max (maxfd (kern p)) (int ?fd + 1)\<rparr>"
  have "select_addChanel a p = Inr (p\<lparr>channels := (channels p)[?fd := Some a], kern := ?k\<rparr>)"
    using 1 by (cases "kern p") (simp add: select_addChanel_def Let_def max_def)
  moreover have "select_inv ((channels p)[?fd := Some a]) ?k"
    using 1(1,3) by (auto simp: select_inv_def nth_list_update max_def)
  moreover have "select_watches ?k = (select_watches (kern p))(?fd := wants (events c))"
    using select_invD(2) [OF 1(1,3,5)] select_invD(3) [OF 1(1)] by (auto simp: fun_eq_iff select_watches_def wants_def less_max_iff_disj)
  ultimately show ?case by blast
next
  case (2 p a c)
  show ?case
  proof (cases "isEventsChanged c")
    case True
    let ?fd = "cfd c"
    let ?k = "\<lparr>rset = if events c AND kRead \<noteq> 0 then insert ?fd (rset (kern p)) else rset (kern p) - {?fd},
      wset = if events c AND kWrit \<noteq> 0 then insert ?fd (wset (kern p)) else wset (kern p) - {?fd}, maxfd = maxfd (kern p)\<rparr>"
    have "select_updateChanel a p = Inr (p\<lparr>kern := ?k\<rparr>)"
      using 2 True by (cases "kern p") (simp add: select_updateChanel_def Let_def insert_absorb)
    moreover have "select_inv (channels p) ?k"
      using 2(1,3,4) by (auto simp: select_inv_def)
    moreover have "select_watches ?k = (select_watches (kern p))(?fd := wants (events c))"
      using select_invD(1) [OF 2(1,3)] 2(4) by (auto simp: fun_eq_iff select_watches_def wants_def)
    ultimately show ?thesis using True by auto
  next
    case False
    then show ?thesis using 2 by (intro exI [of _ "kern p"]) (simp add: select_updateChanel_def)
  qed
next
  case (3 p a c)
  let ?k = "(kern p)\<lparr>rset := rset (kern p) - {cfd c}, wset := wset (kern p) - {cfd c}\<rparr>"
  have "int (cfd c) < maxfd (kern p)" using select_invD(1) [OF 3(1,3)] 3(4) by simp
  then have "select_removeChanel a p = Inr (p\<lparr>channels := (channels p)[cfd c := None], kern := ?k\<rparr>)"
    using 3 by (cases "kern p") (simp add: select_removeChanel_def Let_def)
  moreover have "select_inv ((channels p)[cfd c := None]) ?k"
    using 3(1,3) by (auto simp: select_inv_def nth_list_update)
  moreover have "select_watches ?k = (select_watches (kern p))(cfd c := (False, False))"
    by (auto simp: fun_eq_iff select_watches_def)
  ultimately show ?case by blast
qed

subsection \<open>poll\<close>

text \<open>The kernel looks at every entry of the array.\<close>

definition poll_watches :: "pollfd list \<Rightarrow> nat \<Rightarrow> bool \<times> bool" where
  "poll_watches k fd = (list_ex (\<lambda>e. pfd e = int fd \<and> pevents e AND POLLIN \<noteq> 0) k, list_ex (\<lambda>e. pfd e = int fd \<and> pevents e AND POLLOUT \<noteq> 0) k)"

definition poll_inv :: "nat option list \<Rightarrow> pollfd list \<Rightarrow> bool" where
  "poll_inv cs k \<longleftrightarrow>
     (\<forall>i < length k. pfd (k ! i) = int i \<or> pfd (k ! i) < 0 \<or> (pfd (k ! i) = 0 \<and> pevents (k ! i) = 0)) \<and>
     (\<forall>fd < length cs. cs ! fd \<noteq> None \<longrightarrow> fd < length k \<and> pfd (k ! fd) = int fd)"

definition poll_bits :: "16 word \<Rightarrow> bool \<times> bool" where
  "poll_bits e = (e AND POLLIN \<noteq> 0, e AND POLLOUT \<noteq> 0)"

lemma poll_watches_entry:
  assumes "poll_inv cs k"
  shows "poll_watches k fd = (if fd < length k \<and> pfd (k ! fd) = int fd then poll_bits (pevents (k ! fd)) else (False, False))"
proof -
  have *: "list_ex (\<lambda>e. pfd e = int fd \<and> pevents e AND m \<noteq> 0) k \<longleftrightarrow> fd < length k \<and> pfd (k ! fd) = int fd \<and> pevents (k ! fd) AND m \<noteq> 0" for m
  proof
    assume "list_ex (\<lambda>e. pfd e = int fd \<and> pevents e AND m \<noteq> 0) k"
    then obtain i where i: "i < length k" "pfd (k ! i) = int fd" "pevents (k ! i) AND m \<noteq> 0"
      by (auto simp: list_ex_iff in_set_conv_nth)
    moreover have "i = fd" using assms i by (fastforce simp: poll_inv_def)
    ultimately show "fd < length k \<and> pfd (k ! fd) = int fd \<and> pevents (k ! fd) AND m \<noteq> 0" by simp
  next
    assume "fd < length k \<and> pfd (k ! fd) = int fd \<and> pevents (k ! fd) AND m \<noteq> 0"
    then show "list_ex (\<lambda>e. pfd e = int fd \<and> pevents e AND m \<noteq> 0) k"
      unfolding list_ex_iff by (intro bexI [of _ "k ! fd"]) auto
  qed
  show ?thesis by (auto simp: poll_watches_def * poll_bits_def)
qed

lemma poll_inv_set:
  assumes "poll_inv cs k" "fd < length k" "pfd e = int fd \<or> (pfd e < 0 \<and> ch = None)"
  shows "poll_inv (cs[fd := ch]) (k[fd := e])"
  using assms by (auto simp: poll_inv_def nth_list_update)

lemma poll_watches_set:
  assumes "poll_inv cs k" "poll_inv cs' (k[fd := e])" "fd < length k"
  shows "poll_watches (k[fd := e]) = (poll_watches k)(fd := if pfd e = int fd then poll_bits (pevents e) else (False, False))"
  using assms(3) by (auto simp: fun_eq_iff poll_watches_entry [OF assms(1)] poll_watches_entry [OF assms(2)] nth_list_update)

lemma grow_inv: "poll_inv cs k \<Longrightarrow> poll_inv cs (grow_pollfds fd k) \<and> fd < length (grow_pollfds fd k)"
  by (auto simp: poll_inv_def grow_pollfds_def nth_append pollfd_zero_def)

lemma grow_watches:
  assumes "poll_inv cs k"
  shows "poll_watches (grow_pollfds fd k) = poll_watches k"
  by (auto simp: poll_watches_def grow_pollfds_def pollfd_zero_def fun_eq_iff list_ex_iff)

lemma poll_bits_add:
  "poll_bits (let e1 = (if r then (POLLRDHUP OR POLLERR) OR POLLIN else POLLRDHUP OR POLLERR) in if w then e1 OR POLLOUT else e1) = (r, w)"
  by (simp add: poll_bits_def Let_def)

lemma bit_4: "bit (4 :: 16 word) n \<longleftrightarrow> n = 2"
  using bit_exp_iff [where ?'a = "16 word", of 2 n] by (auto simp: numeral_2_eq_2 intro: ccontr)

lemma poll_bits_update:
  fixes x :: "16 word"
  shows "poll_bits
    (let x1 = (if r then (if x AND POLLIN = 0 then x OR POLLIN else x) else (if x AND POLLIN \<noteq> 0 then x AND NOT POLLIN else x)) in
     if w then (if x1 AND POLLOUT = 0 then x1 OR POLLOUT else x1) else (if x1 AND POLLOUT \<noteq> 0 then x1 AND NOT POLLOUT else x1)) = (r, w)"
  by (simp add: poll_bits_def Let_def and_bit bit_or_iff bit_and_iff bit_not_iff bit_4 bit_1_iff)

interpretation poll: poller_interface poll_addChanel poll_updateChanel poll_removeChanel poll_watches poll_inv
proof (unfold_locales, goal_cases)
  case (1 p a c)
  let ?fd = "cfd c" and ?g = "grow_pollfds (cfd c) (kern p)"
  let ?e = "\<lparr>pfd = int ?fd, pevents = (let e1 = (if events c AND kRead \<noteq> 0 then (POLLRDHUP OR POLLERR) OR POLLIN else POLLRDHUP OR POLLERR) in
    if events c AND kWrit \<noteq> 0 then e1 OR POLLOUT else e1), prevents = 0\<rparr>"
  have g: "poll_inv (channels p) ?g" "?fd < length ?g" using grow_inv [OF 1(1)] by auto
  have i: "poll_inv ((channels p)[?fd := Some a]) (?g[?fd := ?e])" using poll_inv_set [OF g, of ?e "Some a"] by simp
  have "poll_addChanel a p = Inr (p\<lparr>channels := (channels p)[?fd := Some a], kern := ?g[?fd := ?e]\<rparr>)"
    using 1(2,3) by (simp add: poll_addChanel_def Let_def)
  moreover have "poll_watches (?g[?fd := ?e]) = (poll_watches (kern p))(?fd := wants (events c))"
    unfolding poll_watches_set [OF g(1) i g(2)] grow_watches [OF 1(1)] pollfd.simps poll_bits_add wants_def by simp
  ultimately show ?case using i by blast
next
  case (2 p a c)
  have fd: "cfd c < length (kern p)" "pfd (kern p ! cfd c) = int (cfd c)" using 2 by (auto simp: poll_inv_def)
  show ?case
  proof (cases "isEventsChanged c")
    case True
    let ?fd = "cfd c" and ?x = "pevents (kern p ! cfd c)" and ?r = "events c AND kRead \<noteq> 0" and ?w = "events c AND kWrit \<noteq> 0"
    let ?e = "(kern p ! cfd c)\<lparr>pevents :=
      (let x1 = (if ?r then (if ?x AND POLLIN = 0 then ?x OR POLLIN else ?x) else (if ?x AND POLLIN \<noteq> 0 then ?x AND NOT POLLIN else ?x)) in
       if ?w then (if x1 AND POLLOUT = 0 then x1 OR POLLOUT else x1) else (if x1 AND POLLOUT \<noteq> 0 then x1 AND NOT POLLOUT else x1))\<rparr>"
    have i: "poll_inv (channels p) ((kern p)[?fd := ?e])"
      using poll_inv_set [OF 2(1) fd(1), of ?e "Some a"] fd(2) 2(4) list_update_id [of "channels p" ?fd] by simp
    have "poll_updateChanel a p = Inr (p\<lparr>kern := (kern p)[?fd := ?e]\<rparr>)"
      unfolding poll_updateChanel_def chan_at_Some [OF 2(2)] rbind_simps aread_ok [OF fd(1)] Let_def using True by simp
    moreover have "poll_watches ((kern p)[?fd := ?e]) = (poll_watches (kern p))(?fd := wants (events c))"
      unfolding poll_watches_set [OF 2(1) i fd(1)] wants_def using fd(2) poll_bits_update [of ?r ?x ?w] by simp
    ultimately show ?thesis using True i by auto
  next
    case False
    then show ?thesis using 2 by (intro exI [of _ "kern p"]) (simp add: poll_updateChanel_def)
  qed
next
  case (3 p a c)
  let ?k = "(kern p)[cfd c := (kern p ! cfd c)\<lparr>pfd := -1\<rparr>]"
  have fd: "cfd c < length (kern p)" using 3 by (auto simp: poll_inv_def)
  have i: "poll_inv ((channels p)[cfd c := None]) ?k" using poll_inv_set [OF 3(1) fd] by simp
  have "kern p \<noteq> []" using fd by auto
  then have "poll_removeChanel a p = Inr (p\<lparr>channels := (channels p)[cfd c := None], kern := ?k\<rparr>)"
    using 3 fd by (simp add: poll_removeChanel_def)
  moreover have "poll_watches ?k = (poll_watches (kern p))(cfd c := (False, False))"
    using poll_watches_set [OF 3(1) i fd] by simp
  ultimately show ?case using i by blast
qed

section \<open>The initial states\<close>

lemma epoll_start: "epoll.synced (Poller_new n w PollerEpoll_new)"
  by (auto simp: epoll.synced_def epoll_inv_def table_ok_def Poller_new_def PollerEpoll_new_def epoll_watches_def spec_watch_def fun_eq_iff forget_def)

lemma select_start: "select.synced (Poller_new n w PollerSelect_new)"
  by (auto simp: select.synced_def select_inv_def table_ok_def Poller_new_def PollerSelect_new_def select_watches_def spec_watch_def fun_eq_iff forget_def)

lemma poll_start: "poll.synced (Poller_new n w PollerPoll_new)"
  by (auto simp: poll.synced_def poll_inv_def table_ok_def Poller_new_def PollerPoll_new_def pollfd_zero_def poll_watches_def spec_watch_def
      fun_eq_iff forget_def list_ex_iff)

section \<open>A round of the event loop\<close>

text \<open>
  What the event loop asks of the callbacks: there is an invariant of the poller and the application
  under which the table is consistent, which does not depend on the reported events and the saved
  ones, and which every callback keeps and returns under when it is called for a channel in the table.
  Callbacks may add and delete channels, also the one whose callback runs.
\<close>

definition well_behaved :: "(('k, 'w) poller \<Rightarrow> bool) \<Rightarrow> ('k, 'w) callbacks \<Rightarrow> bool" where
  "well_behaved I cb \<longleftrightarrow> (\<forall>p. I p \<longrightarrow> table_ok p) \<and>
     (\<forall>p a c r. I p \<longrightarrow> store p a = Some c \<longrightarrow> I (put_chan a (fst (handleEvent (updateRevents r c))) p)) \<and>
     (\<forall>a x p. I p \<longrightarrow> registered a p \<longrightarrow> (\<exists>q. cb a x p = Inr q \<and> I q \<and> length (channels q) = length (channels p)))"

text \<open>Callbacks that run allowed operations on channels, chosen by the channel, the event and the state.\<close>

definition op_callbacks ::
    "(nat \<Rightarrow> ('k, 'w) poller \<Rightarrow> ('k, 'w) poller res) \<Rightarrow> (nat \<Rightarrow> ('k, 'w) poller \<Rightarrow> ('k, 'w) poller res) \<Rightarrow>
     (nat \<Rightarrow> ('k, 'w) poller \<Rightarrow> ('k, 'w) poller res) \<Rightarrow>
     (nat \<Rightarrow> callback \<Rightarrow> 'w \<Rightarrow> table \<Rightarrow> chan_op list \<times> 'w) \<Rightarrow> ('k, 'w) callbacks" where
  "op_callbacks add update remove prog a x p =
     (let (xs, w) = prog a x (app p) (forget p) in
      rbind (run_all add update remove xs p) (\<lambda>q. Inr (q\<lparr>app := w\<rparr>)))"

definition allowed :: "(nat \<Rightarrow> callback \<Rightarrow> 'w \<Rightarrow> table \<Rightarrow> chan_op list \<times> 'w) \<Rightarrow> bool" where
  "allowed prog \<longleftrightarrow> (\<forall>a x w t. table_ok t \<longrightarrow> registered a t \<longrightarrow> ops_ok (fst (prog a x w t)) t)"

lemma spec_op_length: "length (channels (spec_op x t)) = length (channels t)"
  by (cases x) (auto split: option.splits)

lemma spec_all_length: "length (channels (spec_all xs t)) = length (channels t)"
  by (induction xs arbitrary: t) (simp_all add: spec_op_length)

lemma registered_forget [simp]: "registered a (forget p) = registered a p"
  by (simp add: registered_def split: option.split)

context poller_interface
begin

lemma op_callbacks_well_behaved:
  assumes "allowed prog"
  shows "well_behaved sound (op_callbacks add update remove prog)"
  unfolding well_behaved_def
proof (intro conjI allI impI)
  fix a x and p :: "('k, 'w) poller"
  assume p: "sound p" "registered a p"
  obtain xs w where xs: "prog a x (app p) (forget p) = (xs, w)" by fastforce
  have "ops_ok xs (forget p)"
    using assms p xs unfolding allowed_def by (metis fst_conv registered_forget sound_def table_ok_forget)
  from sound_all [OF p(1) this] obtain q where
    q: "run_all add update remove xs p = Inr q" "forget q = spec_all xs (forget p)" "sound q" by blast
  have "length (channels q) = length (channels p)"
    using arg_cong [OF q(2), of "\<lambda>t. length (channels t)"] by (simp add: spec_all_length)
  moreover have "sound (q\<lparr>app := w\<rparr>)" using q(3) by (simp add: sound_def table_ok_def)
  ultimately show "\<exists>q. op_callbacks add update remove prog a x p = Inr q \<and> sound q \<and> length (channels q) = length (channels p)"
    using q(1) xs by (intro exI [of _ "q\<lparr>app := w\<rparr>"]) (simp add: op_callbacks_def)
qed (use sound_handled in \<open>auto simp: sound_def\<close>)
end

lemma deliver_ok:
  assumes wb: "well_behaved I cb" and "I p" "fd < length (channels p)" "channels p ! fd = Some a"
  shows "\<exists>q. deliver cb a re p = Inr q \<and> I q \<and> length (channels q) = length (channels p)"
proof -
  have "table_ok p" using wb \<open>I p\<close> by (simp add: well_behaved_def)
  from table_okD [OF this assms(3,4)] obtain c where c: "store p a = Some c" "cfd c = fd" by blast
  let ?p = "put_chan a (fst (handleEvent (updateRevents re c))) p"
  have p: "I ?p" "registered a ?p" "length (channels ?p) = length (channels p)"
    using wb \<open>I p\<close> c assms(3,4)
    by (auto simp: well_behaved_def registered_def handleEvent_def updateRevents_def Let_def)
  have "deliver cb a re p = (case snd (handleEvent (updateRevents re c)) of None \<Rightarrow> Inr ?p | Some k \<Rightarrow> cb a k ?p)"
    using c by (simp add: deliver_def split_beta Let_def)
  moreover have "\<exists>q. cb a k ?p = Inr q \<and> I q \<and> length (channels q) = length (channels p)" for k
    using wb p unfolding well_behaved_def by metis
  ultimately show ?thesis using p by (cases "snd (handleEvent (updateRevents re c))") auto
qed

lemma epoll_events_ok:
  "well_behaved I cb \<Longrightarrow> I p \<Longrightarrow> list_all (\<lambda>(fd, e). fd < length (channels p)) es \<Longrightarrow>
   \<exists>q. epoll_events cb es p = Inr q \<and> I q \<and> length (channels q) = length (channels p)"
proof (induction es arbitrary: p)
  case Nil
  then show ?case by simp
next
  case (Cons x es)
  obtain fd e where x: "x = (fd, e)" by (cases x)
  have fd: "fd < length (channels p)" using Cons.prems(3) x by auto
  show ?case
  proof (cases "channels p ! fd")
    case None
    then show ?thesis using Cons.IH [OF Cons.prems(1,2)] Cons.prems(3) x fd by (simp add: getChannel_def)
  next
    case (Some a)
    from deliver_ok [OF Cons.prems(1,2) fd Some] obtain q where
      q: "deliver cb a (epoll_revent e) p = Inr q" "I q" "length (channels q) = length (channels p)" by blast
    from Cons.IH [OF Cons.prems(1) q(2)] Cons.prems(3) show ?thesis using q x fd Some by (auto simp: getChannel_def)
  qed
qed

lemma select_events_ok:
  "well_behaved I cb \<Longrightarrow> I p \<Longrightarrow> (\<And>fd. fd \<in> r \<union> w \<Longrightarrow> fd < length (channels p)) \<Longrightarrow>
   \<exists>q. select_events cb r w fd ready p = Inr q \<and> I q \<and> length (channels q) = length (channels p)"
proof (induction cb r w fd ready p rule: select_events.induct)
  case (1 cb r w fd ready p)
  show ?case
  proof (cases "int fd < maxfd (kern p) \<and> ready > 0")
    case False
    then show ?thesis using 1(5) by (subst select_events.simps) auto
  next
    case go: True
    show ?thesis
    proof (cases "fd \<in> r \<or> fd \<in> w")
      case False
      then show ?thesis using 1(3) [OF go False] 1(4-6) go by (subst select_events.simps) auto
    next
      case flag: True
      then have fd: "fd < length (channels p)" using 1(6) by auto
      show ?thesis
      proof (cases "channels p ! fd")
        case None
        then show ?thesis using 1(1) [OF go flag, of None] 1(4-6) go flag fd
          by (subst select_events.simps) (simp add: getChannel_def)
      next
        case (Some a)
        from deliver_ok [OF 1(4,5) fd Some] obtain q where
          q: "deliver cb a (select_revent fd r w) p = Inr q" "I q" "length (channels q) = length (channels p)" by blast
        have "\<exists>q'. select_events cb r w (fd + 1) (ready - 1) q = Inr q' \<and> I q' \<and> length (channels q') = length (channels q)"
          using 1(2) [OF go flag _ Some q(1) 1(4) q(2)] fd 1(6) q(3) by (simp add: getChannel_def Some)
        then show ?thesis using go flag fd Some q by (subst select_events.simps) (simp add: getChannel_def)
      qed
    qed
  qed
qed

lemma poll_skip:
  assumes "i \<le> n" "n \<le> length (kern p)" "\<And>m. i \<le> m \<Longrightarrow> m < n \<Longrightarrow> prevents (kern p ! m) = 0"
  shows "poll_events cb i ready p = poll_events cb n ready p"
  using assms
proof (induction "n - i" arbitrary: i)
  case 0
  then show ?case by simp
next
  case (Suc d)
  then have i: "i < n" "prevents (kern p ! i) = 0" by auto
  show ?case
  proof (cases "ready > 0")
    case True
    have "poll_events cb i ready p = poll_events cb (i + 1) ready p"
      using i Suc.prems True by (subst poll_events.simps) (simp add: poll_event_def)
    then show ?thesis using Suc.hyps(1) [of "i + 1"] Suc.hyps(2) Suc.prems i by simp
  next
    case False
    then show ?thesis by (simp add: poll_events.simps [of cb i] poll_events.simps [of cb n])
  qed
qed

lemma forget_new [simp]: "forget (Poller_new n w k) = Poller_new n () ()"
  by (simp add: forget_def Poller_new_def)

section \<open>Properties\<close>

text \<open>
  C6. The pollers for epoll, select and poll are interchangeable. Whatever sequence of allowed channel
  operations is run from the start, each of them succeeds, keeps the same table and channels as the
  specification, and asks the kernel for exactly the events the channels have passed on.
\<close>

theorem pollers_equivalent:
  assumes "ops_ok xs (Poller_new n () ())"
  shows "\<exists>pe ps pp.
    run_all epoll_addChanel epoll_updateChanel epoll_removeChanel xs (Poller_new n w PollerEpoll_new) = Inr pe \<and>
    run_all select_addChanel select_updateChanel select_removeChanel xs (Poller_new n w PollerSelect_new) = Inr ps \<and>
    run_all poll_addChanel poll_updateChanel poll_removeChanel xs (Poller_new n w PollerPoll_new) = Inr pp \<and>
    forget pe = spec_all xs (Poller_new n () ()) \<and> forget ps = forget pe \<and> forget pp = forget pe \<and>
    epoll_watches (kern pe) = spec_watch (forget pe) \<and> select_watches (kern ps) = spec_watch (forget pe) \<and>
    poll_watches (kern pp) = spec_watch (forget pe)"
proof -
  obtain pe where "run_all epoll_addChanel epoll_updateChanel epoll_removeChanel xs (Poller_new n w PollerEpoll_new) = Inr pe"
    "forget pe = spec_all xs (Poller_new n () ())" "epoll.synced pe"
    using epoll.synced_all [OF epoll_start, of xs n w] assms by auto
  moreover obtain ps where "run_all select_addChanel select_updateChanel select_removeChanel xs (Poller_new n w PollerSelect_new) = Inr ps"
    "forget ps = spec_all xs (Poller_new n () ())" "select.synced ps"
    using select.synced_all [OF select_start, of xs n w] assms by auto
  moreover obtain pp where "run_all poll_addChanel poll_updateChanel poll_removeChanel xs (Poller_new n w PollerPoll_new) = Inr pp"
    "forget pp = spec_all xs (Poller_new n () ())" "poll.synced pp"
    using poll.synced_all [OF poll_start, of xs n w] assms by auto
  ultimately show ?thesis unfolding epoll.synced_def select.synced_def poll.synced_def by metis
qed

definition demo_ops :: "chan_op list" where
  "demo_ops = [New 7 3, Want 7 kRead True, Add 7, Want 7 kWrit True, Update 7, Handle 7 kRead, New 8 4, Want 8 kRead True, Add 8, Delete 7]"

lemma demo_ok: "ops_ok demo_ops (Poller_new 5 () ())"
  by (simp add: demo_ops_def Poller_new_def channel_new_def put_chan_def registered_def enable_def isEventsChanged_def)

theorem pollers_equivalent_witness:
  "\<exists>pe ps pp.
    run_all epoll_addChanel epoll_updateChanel epoll_removeChanel demo_ops (Poller_new 5 () PollerEpoll_new) = Inr pe \<and>
    run_all select_addChanel select_updateChanel select_removeChanel demo_ops (Poller_new 5 () PollerSelect_new) = Inr ps \<and>
    run_all poll_addChanel poll_updateChanel poll_removeChanel demo_ops (Poller_new 5 () PollerPoll_new) = Inr pp \<and>
    epoll_watches (kern pe) 4 = (True, False) \<and> select_watches (kern ps) 4 = (True, False) \<and> poll_watches (kern pp) 4 = (True, False) \<and>
    epoll_watches (kern pe) 3 = (False, False)"
proof -
  have "spec_watch (spec_all demo_ops (Poller_new 5 () ())) 4 = (True, False)"
    "spec_watch (spec_all demo_ops (Poller_new 5 () ())) 3 = (False, False)"
    by (simp_all add: demo_ops_def Poller_new_def channel_new_def put_chan_def enable_def spec_watch_def wants_def)
  then show ?thesis using pollers_equivalent [OF demo_ok, of "()"] by metis
qed

text \<open>
  C14. A round of the event loop of the pollers for epoll and select returns and never touches a
  deleted channel, for all reported events on descriptors in the range of the table, although
  callbacks may delete channels whose events are still to be handled. The callbacks may do anything
  to the poller and the application that keeps an invariant under which the table names live channels
  only, such as any sequence of allowed channel operations (\<open>op_callbacks_well_behaved\<close>).
\<close>

theorem loop_once_safe:
  assumes "well_behaved I cb" and "I p" and "list_all (\<lambda>(fd, e). fd < length (channels p)) es"
    and "\<And>q k. I q \<Longrightarrow> I (q\<lparr>kern := (kern q)\<lparr>events_size := k\<rparr>\<rparr>)"
    and "well_behaved I' cb'" and "I' p'" and "r \<union> w \<subseteq> {..< length (channels p')}"
  shows "(\<exists>q. epoll_loop_once cb es p = Inr q \<and> I q \<and> table_ok q) \<and>
    (\<exists>q'. select_loop_once cb' r w ready p' = Inr q' \<and> I' q' \<and> table_ok q')"
proof
  have t: "table_ok q" if "I q" for q using assms(1) that by (simp add: well_behaved_def)
  have t': "table_ok q" if "I' q" for q using assms(5) that by (simp add: well_behaved_def)
  have "list_all (\<lambda>(fd, e). fd < length (channels p)) (take (events_size (kern p)) es)"
    using assms(3) by (meson in_set_takeD list_all_iff)
  from epoll_events_ok [OF assms(1,2) this] obtain q where
    "epoll_events cb (take (events_size (kern p)) es) p = Inr q" "I q" by blast
  then show "\<exists>q. epoll_loop_once cb es p = Inr q \<and> I q \<and> table_ok q"
    using assms(4) t by (auto simp: epoll_loop_once_def)
  show "\<exists>q'. select_loop_once cb' r w ready p' = Inr q' \<and> I' q' \<and> table_ok q'"
    using select_events_ok [OF assms(5,6), of r w 0 ready] assms(7) t' by (auto simp: select_loop_once_def)
qed

text \<open>
  A callback that deletes the channel it is called for and then every other one of the channels 7 and 8
  that is still in the table, counting the calls; and two channels that are ready.
\<close>

definition delete_both :: "nat \<Rightarrow> callback \<Rightarrow> nat \<Rightarrow> table \<Rightarrow> chan_op list \<times> nat" where
  "delete_both a x w t = (Delete a # map Delete (filter (\<lambda>b. b \<noteq> a \<and> registered b t) [7, 8]), w + 1)"

definition two_ops :: "chan_op list" where
  "two_ops = [New 7 1, SetCb 7 True False False, Want 7 kRead True, Add 7, New 8 2, SetCb 8 True False False, Want 8 kRead True, Add 8]"

lemma delete_registered:
  assumes "table_ok t" "registered a t" "registered b t" "a \<noteq> b"
  shows "registered b (spec_op (Delete a) t)"
proof -
  from assms(2,3) obtain c d where c: "store t a = Some c" "channels t ! cfd c = Some a"
    and d: "store t b = Some d" "cfd d < length (channels t)" "channels t ! cfd d = Some b"
    by (auto elim!: registeredE)
  then have "cfd c \<noteq> cfd d" using assms(4) by auto
  then show ?thesis using c d assms(4) by (simp add: registered_def)
qed

lemma delete_both_allowed: "allowed delete_both"
  unfolding allowed_def delete_both_def
proof (intro allI impI)
  fix a :: nat and x :: callback and w :: nat and t :: table
  assume t: "table_ok t" "registered a t"
  let ?t = "spec_op (Delete a) t"
  have t': "table_ok ?t" by (rule spec_op_table_ok) (use t in auto)
  have reg: "registered b ?t" if "b \<noteq> a" "registered b t" for b
    using delete_registered [OF t that(2)] that(1) by simp
  have "registered 8 (spec_op (Delete 7) ?t)" if "8 \<noteq> a" "registered 8 t" "7 \<noteq> a" "registered 7 t"
    using delete_registered [OF t' reg reg, of 7 8] that by simp
  then show "ops_ok (fst (Delete a # map Delete (filter (\<lambda>b. b \<noteq> a \<and> registered b t) [7, 8]), w + 1)) t"
    using t(2) reg [of 7] reg [of 8] by (cases "a = 7") (simp_all del: spec_op.simps)
qed

lemma two_ops_ok: "ops_ok two_ops (Poller_new 3 () ())"
  by (simp add: two_ops_def Poller_new_def channel_new_def put_chan_def enable_def)

theorem loop_once_safe_witness:
  "\<exists>p p'. run_all epoll_addChanel epoll_updateChanel epoll_removeChanel two_ops (Poller_new 3 (0 :: nat) PollerEpoll_new) = Inr p \<and>
     run_all select_addChanel select_updateChanel select_removeChanel two_ops (Poller_new 3 (0 :: nat) PollerSelect_new) = Inr p' \<and>
     (\<exists>q. epoll_loop_once (op_callbacks epoll_addChanel epoll_updateChanel epoll_removeChanel delete_both)
        [(1, EPOLLIN), (2, EPOLLIN)] p = Inr q \<and> table_ok q) \<and>
     (\<exists>q'. select_loop_once (op_callbacks select_addChanel select_updateChanel select_removeChanel delete_both)
        {1, 2} {} 2 p' = Inr q' \<and> table_ok q')"
proof -
  obtain p where p: "run_all epoll_addChanel epoll_updateChanel epoll_removeChanel two_ops (Poller_new 3 (0 :: nat) PollerEpoll_new) = Inr p"
    "forget p = spec_all two_ops (Poller_new 3 () ())" "epoll.synced p"
    using epoll.synced_all [OF epoll_start, of two_ops 3 "0 :: nat"] two_ops_ok by auto
  obtain p' where p': "run_all select_addChanel select_updateChanel select_removeChanel two_ops (Poller_new 3 (0 :: nat) PollerSelect_new) = Inr p'"
    "forget p' = spec_all two_ops (Poller_new 3 () ())" "select.synced p'"
    using select.synced_all [OF select_start, of two_ops 3 "0 :: nat"] two_ops_ok by auto
  have len: "length (channels p) = 3" "length (channels p') = 3"
    using arg_cong [OF p(2), of "\<lambda>t. length (channels t)"] arg_cong [OF p'(2), of "\<lambda>t. length (channels t)"]
    by (simp_all add: spec_all_length Poller_new_def)
  have keep: "epoll.sound (q\<lparr>kern := (kern q)\<lparr>events_size := k\<rparr>\<rparr>)" if "epoll.sound q" for q :: "(epoll, nat) poller" and k
    using that by (simp add: epoll.sound_def epoll_inv_def table_ok_def)
  have r: "list_all (\<lambda>(fd, e). fd < length (channels p)) [(1, EPOLLIN), (2, EPOLLIN)]" "{1, 2} \<union> {} \<subseteq> {..< length (channels p')}"
    by (simp_all add: len)
  from loop_once_safe [OF epoll.op_callbacks_well_behaved [OF delete_both_allowed] epoll.synced_sound [OF p(3)] r(1) keep
      select.op_callbacks_well_behaved [OF delete_both_allowed] select.synced_sound [OF p'(3)] r(2), of 2]
  show ?thesis using p(1) p'(1) by blast
qed

lemma poll_result_event:
  "m < length k \<Longrightarrow> prevents (poll_result f k ! m) = (if pfd (k ! m) < 0 then 0 else f (pfd (k ! m)))"
  by (simp add: poll_result_def)

lemma poll_quiet:
  assumes "poll_inv cs k" "m < length k" "f (int m) = 0" "f 0 = 0"
  shows "prevents (poll_result f k ! m) = 0"
proof -
  have "pfd (k ! m) = int m \<or> pfd (k ! m) < 0 \<or> pfd (k ! m) = 0" using assms(1,2) by (auto simp: poll_inv_def)
  then show ?thesis using assms(2-) by (auto simp: poll_result_event)
qed

lemma two_ready:
  assumes "i < j" "j < length k" "prevents (k ! i) \<noteq> 0" "prevents (k ! j) \<noteq> 0"
  shows "2 \<le> length (filter (\<lambda>e. prevents e \<noteq> 0) k)"
proof -
  have "card {i, j} \<le> card {m. m < length k \<and> prevents (k ! m) \<noteq> 0}" using assms by (intro card_mono) auto
  then show ?thesis using assms(1) by (simp add: length_filter_conv_card)
qed

text \<open>
  C38. The poller for poll is not safe when channels are deleted: if the read callback of a ready channel deletes another
  channel, with a higher descriptor, and only these two are ready in the round, the entry of the deleted
  channel has descriptor -1 when its turn comes, and the table is read at that index.
\<close>

theorem poll_loop_removed:
  assumes reach: "ops_ok xs (Poller_new n () ())"
      "run_all poll_addChanel poll_updateChanel poll_removeChanel xs (Poller_new n w PollerPoll_new) = Inr p"
    and a: "store p a = Some ca" "registered a p" "cfd ca = i" "on_read ca" "events ca AND kErro = 0"
    and b: "store p b = Some cb" "registered b p" "cfd cb = j" "0 < i" "i < j"
    and f: "f (int i) = POLLIN" "f (int j) = POLLIN" "\<And>m. m \<noteq> int i \<Longrightarrow> m \<noteq> int j \<Longrightarrow> f m = 0"
    and call: "\<And>q. call a ReadCb q = Channel_delete poll_removeChanel b q"
  shows "poll_loop_once call f p = Inl OutOfBounds"
proof -
  have s: "poll.synced p" using poll.synced_all [OF poll_start, of xs n w] reach by auto
  let ?k = "poll_result f (kern p)"
  let ?p = "p\<lparr>kern := ?k\<rparr>"
  have len: "length ?k = length (kern p)" by (simp add: poll_result_def)
  have ch: "i < length (channels p)" "channels p ! i = Some a" "j < length (channels p)" "channels p ! j = Some b"
    using a b by (auto simp: registered_def)
  have k: "i < length (kern p)" "pfd (kern p ! i) = int i" "j < length (kern p)" "pfd (kern p ! j) = int j"
    using s ch by (auto simp: poll.synced_def poll_inv_def)
  have other: "prevents (?k ! m) = 0" if "m < length (kern p)" "m \<noteq> i" "m \<noteq> j" for m
    using poll_quiet [of "channels p" "kern p" m f] s that f(3) b(4,5) by (simp add: poll.synced_def)
  have ij: "prevents (?k ! i) = POLLIN" "prevents (?k ! j) = POLLIN" "pfd (?k ! i) = int i" "pfd (?k ! j) = int j"
    using k f by (simp_all add: poll_result_event poll_result_def)
  have count: "2 \<le> length (filter (\<lambda>e. prevents e \<noteq> 0) ?k)" using two_ready [OF b(5), of ?k] k len ij by simp
  define ready where "ready = length (filter (\<lambda>e. prevents e \<noteq> 0) ?k) - 2"
  with count have r: "length (filter (\<lambda>e. prevents e \<noteq> 0) ?k) = Suc (Suc ready)" by linarith
  let ?c = "ca\<lparr>revents := kRead, savedEvents := events ca\<rparr>"
  let ?e = "(?k ! j)\<lparr>pfd := -1\<rparr>"
  let ?q = "(put_chan a ?c ?p)\<lparr>channels := (channels p)[j := None], kern := ?k[j := ?e], store := (store p)(a \<mapsto> ?c, b := None)\<rparr>"
  have ab: "a \<noteq> b" using a b by auto
  have ne: "?k \<noteq> []" using k(1) by (auto simp: poll_result_def)
  have del: "deliver call a kRead ?p = Inr ?q"
    using a b k len ab ch ne
    by (auto simp: deliver_def chan_at_def handleEvent_def updateRevents_def Let_def chan_isError_def Readable_def call Channel_delete_def
        poll_removeChanel_def put_chan_def)
  have "poll_loop_once call f p = poll_events call i (Suc (Suc ready)) ?p"
    unfolding poll_loop_once_def Let_def r using other b(5) k len by (intro poll_skip) auto
  also have "\<dots> = poll_events call (i + 1) (Suc ready) ?q"
    using k ij ch del by (subst poll_events.simps) (simp add: len poll_event_def getChannel_int_def getChannel_def)
  also have "\<dots> = poll_events call j (Suc ready) ?q"
    using b(5) k len other by (intro poll_skip) auto
  also have "\<dots> = Inl OutOfBounds"
    using k ij len by (subst poll_events.simps) (simp add: poll_event_def getChannel_int_def)
  finally show ?thesis .
qed

definition ready_ops :: "chan_op list" where
  "ready_ops = [New 7 1, SetCb 7 True False False, Want 7 kRead True, Add 7, New 8 2, Want 8 kRead True, Add 8]"

theorem poll_loop_removed_witness:
  "\<exists>p. run_all poll_addChanel poll_updateChanel poll_removeChanel ready_ops (Poller_new 5 () PollerPoll_new) = Inr p \<and>
     poll_loop_once (\<lambda>a k. Channel_delete poll_removeChanel 8) (\<lambda>m. if m = 1 \<or> m = 2 then POLLIN else 0) p = Inl OutOfBounds"
proof -
  let ?t = "spec_all ready_ops (Poller_new 5 () ())"
  have ok: "ops_ok ready_ops (Poller_new 5 () ())"
    by (simp add: ready_ops_def Poller_new_def channel_new_def put_chan_def registered_def enable_def)
  then obtain p where p: "run_all poll_addChanel poll_updateChanel poll_removeChanel ready_ops (Poller_new 5 () PollerPoll_new) = Inr p"
    "forget p = ?t"
    using poll.synced_all [OF poll_start, of ready_ops 5 "()"] by auto
  have t: "store p = store ?t" "channels p = channels ?t" using p(2) forget_simps by metis+
  let ?c = "(channel_new 1)\<lparr>on_read := True, events := kRead, savedEvents := kRead\<rparr>"
  let ?d = "(channel_new 2)\<lparr>events := kRead, savedEvents := kRead\<rparr>"
  have c: "store p 7 = Some ?c" "registered 7 p" "store p 8 = Some ?d" "registered 8 p"
    by (simp_all add: t ready_ops_def Poller_new_def channel_new_def put_chan_def registered_def enable_def)
  have "poll_loop_once (\<lambda>a k. Channel_delete poll_removeChanel 8) (\<lambda>m. if m = 1 \<or> m = 2 then POLLIN else 0) p = Inl OutOfBounds"
    by (rule poll_loop_removed [where i = 1 and j = 2, OF ok p(1) c(1,2) _ _ _ c(3,4)]) (simp_all add: channel_new_def)
  with p(1) show ?thesis by blast
qed

text \<open>
  An update is lost if an event is handled between a change of the wanted events and the call that
  passes it on: \<open>handleEvent\<close> already notes the new events as passed on, so the update finds nothing
  changed and the kernel keeps watching for the old ones.
\<close>

theorem epoll_lost_update:
  assumes "ops_ok xs (Poller_new n () ())"
    and "run_all epoll_addChanel epoll_updateChanel epoll_removeChanel xs (Poller_new n w PollerEpoll_new) = Inr p"
    and "store p a = Some c" and "registered a p"
  shows "\<exists>q c'. run_all epoll_addChanel epoll_updateChanel epoll_removeChanel [Want a k flag, Handle a r, Update a] p = Inr q \<and>
    store q a = Some c' \<and> events c' = enable k flag (events c) \<and> savedEvents c' = events c' \<and>
    epoll_watches (kern q) (cfd c) = wants (savedEvents c)"
proof -
  have s: "epoll.synced p" using epoll.synced_all [OF epoll_start, of xs n w] assms(1,2) by auto
  let ?c = "c\<lparr>events := enable k flag (events c)\<rparr>"
  have "epoll.synced (put_chan a ?c p)" using epoll.synced_put [OF s assms(3), of ?c] by simp
  moreover have "store (put_chan a ?c p) a = Some ?c" "registered a (put_chan a ?c p)"
    using assms(3,4) by (simp_all add: registered_def)
  ultimately obtain q c' where "run_all epoll_addChanel epoll_updateChanel epoll_removeChanel [Handle a r, Update a] (put_chan a ?c p) = Inr q"
    "epoll_watches (kern q) (cfd ?c) = wants (savedEvents ?c)" "store q a = Some c'" "savedEvents c' = events ?c" "events c' = events ?c"
    using epoll.lost_update by blast
  then show ?thesis using assms(3) by simp
qed

theorem epoll_lost_update_witness:
  "\<exists>p q. run_all epoll_addChanel epoll_updateChanel epoll_removeChanel [New 7 3, Want 7 kWrit True, Add 7] (Poller_new 5 () PollerEpoll_new) = Inr p \<and>
     run_all epoll_addChanel epoll_updateChanel epoll_removeChanel [Want 7 kWrit False, Handle 7 kWrit, Update 7] p = Inr q \<and>
     epoll_watches (kern q) 3 = (False, True)"
proof -
  let ?xs = "[New 7 3, Want 7 kWrit True, Add 7]"
  let ?c = "(channel_new 3)\<lparr>events := kWrit, savedEvents := kWrit\<rparr>"
  have ok: "ops_ok ?xs (Poller_new 5 () ())"
    by (simp add: Poller_new_def channel_new_def put_chan_def registered_def enable_def)
  then obtain p where p: "run_all epoll_addChanel epoll_updateChanel epoll_removeChanel ?xs (Poller_new 5 () PollerEpoll_new) = Inr p"
    "forget p = spec_all ?xs (Poller_new 5 () ())"
    using epoll.synced_all [OF epoll_start, of ?xs 5 "()"] by auto
  have t: "store p = store (spec_all ?xs (Poller_new 5 () ()))" "channels p = channels (spec_all ?xs (Poller_new 5 () ()))"
    using p(2) forget_simps by metis+
  have c: "store p 7 = Some ?c" "registered 7 p"
    by (simp_all add: t Poller_new_def channel_new_def put_chan_def registered_def enable_def)
  show ?thesis
    using epoll_lost_update [OF ok p(1) c, of kWrit False kWrit] p(1) by (auto simp: channel_new_def wants_def)
qed

end
