(* ===== verification/Connection.thy ===== *)
theory Connection
  imports Pollers Buffer
begin

text \<open>
  Connections (\<open>liby_cpp/Connection.h\<close>, \<open>Connection.cpp\<close>): sending of bytes, buffers and files through a
  queue of write tasks, reading into the buffer, and the handlers of the events of their channel. The
  results of the system calls and the callbacks of the application are arguments; of the poller only
  the events last passed on to it matter.
\<close>

section \<open>State\<close>

text \<open>
  A write task sends the contents of a buffer, or a part of a file, which is given by its bytes.
\<close>

record conn_task =
  fp :: "cell list option"
  toffset :: nat
  tlen :: nat
  tbuffer :: "buffer option"

definition conn_task_new :: conn_task where
  "conn_task_new = \<lparr>fp = None, toffset = 0, tlen = 0, tbuffer = None\<rparr>"

text \<open>
  A connection: its channel and read buffer (gone once it is destroyed), the tasks, and which
  callbacks are set. \<open>polled\<close> are the events last passed on to the poller, \<open>sent\<close> the bytes the kernel
  has taken from the connection, \<open>errno\<close> the value system calls left behind, \<open>udata\<close> the pointer the
  application keeps with the connection. In the program \<open>errno\<close> belongs to the thread; here each connection
  has its own; the properties that depend on its value name it.
\<close>

record 'u conn =
  chan :: "channel option"
  readBuf :: "buffer option"
  writTasks :: "conn_task list"
  writBytes :: int
  writableLimit :: int
  cb_read :: bool
  cb_writ :: bool
  cb_erro :: bool
  cb_limit :: bool
  polled :: u32
  sent :: "cell list"
  errno :: int
  udata :: "'u option"

abbreviation EAGAIN :: int where "EAGAIN \<equiv> 11"

text \<open>The callbacks of the application work on the connection.\<close>

record 'u conn_callbacks =
  readEvent :: "'u conn \<Rightarrow> 'u conn res"
  writeAll :: "'u conn \<Rightarrow> 'u conn res"
  erroEvent :: "'u conn \<Rightarrow> 'u conn res"
  limitEvent :: "'u conn \<Rightarrow> 'u conn res"

definition Connection_new :: "nat \<Rightarrow> 'u conn" where
  "Connection_new fd = \<lparr>chan = Some (channel_new fd), readBuf = Some (Buffer_length 4096), writTasks = [], writBytes = 0,
     writableLimit = 16 * 4096, cb_read = False, cb_writ = False, cb_erro = False, cb_limit = False, polled = 0, sent = [], errno = 0, udata = None\<rparr>"

definition on_chan :: "(channel \<Rightarrow> channel) \<Rightarrow> 'u conn \<Rightarrow> 'u conn res" where
  "on_chan f c = rbind (deref (chan c)) (\<lambda>ch. Inr (c\<lparr>chan := Some (f ch)\<rparr>))"

text \<open>The poller keeps its contract: a change is passed on, and the channel notes it.\<close>

definition updateChanel :: "'u conn \<Rightarrow> 'u conn res" where
  "updateChanel c = rbind (deref (chan c)) (\<lambda>ch.
     Inr (c\<lparr>polled := (if isEventsChanged ch then events ch else polled c), chan := Some (ch\<lparr>savedEvents := events ch\<rparr>)\<rparr>))"

definition Connection_init :: "'u conn \<Rightarrow> 'u conn res" where
  "Connection_init c = rbind (deref (chan c)) (\<lambda>ch.
     let ch1 = enableRead True (ch\<lparr>on_read := True, on_writ := True, on_erro := True\<rparr>) in
     Inr (c\<lparr>polled := events ch1, chan := Some (ch1\<lparr>savedEvents := events ch1\<rparr>)\<rparr>))"

definition conn_destroy :: "'u conn \<Rightarrow> 'u conn" where
  "conn_destroy c = c\<lparr>chan := None, readBuf := None, writTasks := [], cb_writ := False, cb_erro := False, cb_read := False, polled := 0\<rparr>"

definition handleErroEvent :: "'u conn_callbacks \<Rightarrow> 'u conn \<Rightarrow> 'u conn res" where
  "handleErroEvent cb c = rbind (if cb_erro c then erroEvent cb c else Inr c) (\<lambda>c1. Inr (conn_destroy c1))"

section \<open>Sending\<close>

definition push_task :: "conn_task \<Rightarrow> 'u conn \<Rightarrow> 'u conn res" where
  "push_task t c =
     rbind (on_chan (enableWrit True) (c\<lparr>writTasks := writTasks c @ [t]\<rparr>)) updateChanel"

definition conn_send :: "byte list \<Rightarrow> 'u conn \<Rightarrow> 'u conn res" where
  "conn_send bs c =
     (if readBuf c = None then Inr c
      else rbind (push_task (conn_task_new\<lparr>tbuffer := Some (Buffer_bytes bs)\<rparr>) c) (\<lambda>c1.
           Inr (c1\<lparr>writBytes := writBytes c1 + int (length bs)\<rparr>)))"

text \<open>The buffer handed over is exchanged for an empty one of its capacity.\<close>

definition conn_send_buffer :: "buffer \<Rightarrow> 'u conn \<Rightarrow> (buffer \<times> 'u conn) res" where
  "conn_send_buffer b c =
     (if readBuf c = None then Inr (b, c)
      else rbind (bsize b) (\<lambda>n.
           rbind (capacity b) (\<lambda>k.
           let (tb, b') = swap_buffers (Buffer_length k) b in
           rbind (push_task (conn_task_new\<lparr>tbuffer := Some tb\<rparr>) (c\<lparr>writBytes := writBytes c + int n\<rparr>)) (\<lambda>c1. Inr (b', c1)))))"

definition conn_send_move :: "buffer \<Rightarrow> 'u conn \<Rightarrow> (buffer \<times> 'u conn) res" where
  "conn_send_move b c =
     (if readBuf c = None then Inr (b, c)
      else rbind (bsize b) (\<lambda>n.
           let (tb, b') = swap_buffers Buffer_default b in
           rbind (push_task (conn_task_new\<lparr>tbuffer := Some tb\<rparr>) (c\<lparr>writBytes := writBytes c + int n\<rparr>)) (\<lambda>c1. Inr (b', c1))))"

definition conn_sendFile :: "cell list \<Rightarrow> nat \<Rightarrow> nat \<Rightarrow> 'u conn \<Rightarrow> 'u conn res" where
  "conn_sendFile file off len c = push_task (conn_task_new\<lparr>fp := Some file, toffset := off, tlen := len\<rparr>) c"

definition suspendRead :: "bool \<Rightarrow> 'u conn \<Rightarrow> 'u conn res" where
  "suspendRead flag c = rbind (on_chan (enableRead (\<not> flag)) c) updateChanel"

definition suspendWrit :: "bool \<Rightarrow> 'u conn \<Rightarrow> 'u conn res" where
  "suspendWrit flag c = rbind (on_chan (enableWrit (\<not> flag)) c) updateChanel"

definition setErro :: "'u conn \<Rightarrow> 'u conn res" where
  "setErro c = (if chan c = None then Inr c else rbind (conn_send [32] c) (on_chan (enableErro True)))"

section \<open>Reading\<close>

datatype readv_result = Got "cell list" | ReadFailed int

abbreviation extraBuffer_size :: nat where "extraBuffer_size \<equiv> 163840"

text \<open>
  \<open>readv\<close> fills the free part of the buffer and then the extra buffer; the bytes it cannot place stay
  in the kernel.
\<close>

definition tryRead :: "readv_result \<Rightarrow> 'u conn \<Rightarrow> (int \<times> 'u conn) res" where
  "tryRead r c =
     rbind (deref (readBuf c)) (\<lambda>b.
     rbind (wdata b) (\<lambda>(m, off).
     rbind (availbleSize b) (\<lambda>n.
     case r of ReadFailed e \<Rightarrow> Inr (-1, c\<lparr>errno := e\<rparr>)
     | Got bs0 \<Rightarrow>
         (let bs = take (n + extraBuffer_size) bs0 in
          rbind (write_block m off (take n bs)) (\<lambda>m'.
          let b1 = b\<lparr>mem := Some m'\<rparr> in
          rbind (if bs = [] then Inr b1
                 else if length bs > n then rbind (append_count (int n) b1) (append_bytes (drop n bs))
                 else append_count (int (length bs)) b1) (\<lambda>b2.
          Inr (int (length bs), c\<lparr>readBuf := Some b2\<rparr>)))))))"

definition handleReadEvent :: "'u conn_callbacks \<Rightarrow> readv_result \<Rightarrow> 'u conn \<Rightarrow> 'u conn res" where
  "handleReadEvent cb r c =
     rbind (tryRead r c) (\<lambda>(ret, c).
     if ret > 0 then
       if \<not> cb_read c then Inr c
       else
         rbind (readEvent cb c) (\<lambda>c.
         if readBuf c = None then Inr c
         else
           rbind (if writBytes c \<ge> writableLimit c
                  then if cb_limit c then limitEvent cb c else on_chan (enableRead False) c
                  else Inr c) (\<lambda>c.
           if chan c = None then Inr c else updateChanel c))
     else if ret \<noteq> 0 \<and> errno c = EAGAIN then Inr c
     else handleErroEvent cb c)"

section \<open>Writing\<close>

text \<open>A system call that writes takes some of the bytes or fails.\<close>

datatype writ_result = Wrote nat | WriteFailed int

definition task_size :: "conn_task \<Rightarrow> nat res" where
  "task_size t = rbind (deref (tbuffer t)) bsize"

text \<open>The vector for \<open>writev\<close>: the buffers up to the first file.\<close>

fun gather :: "conn_task list \<Rightarrow> cell list res" where
  "gather [] = Inr []"
| "gather (t # ts) =
     (if fp t \<noteq> None then Inr []
      else case tbuffer t of None \<Rightarrow> Inr []
        | Some b \<Rightarrow>
            rbind (data b) (\<lambda>(m, off). rbind (bsize b) (\<lambda>n. rbind (read_block m off n) (\<lambda>bs.
            rbind (gather ts) (\<lambda>rest. Inr (bs @ rest))))))"

text \<open>The bytes written are taken from the first tasks; \<open>True\<close> if one is left partly written.\<close>

fun pop_written :: "nat \<Rightarrow> conn_task list \<Rightarrow> (bool \<times> conn_task list) res" where
  "pop_written n [] = (if n = 0 then Inr (False, []) else Inl NullDeref)"
| "pop_written n (t # ts) =
     (if n = 0 then Inr (False, t # ts)
      else rbind (deref (tbuffer t)) (\<lambda>b.
           rbind (bsize b) (\<lambda>s.
           if s \<le> n then pop_written (n - s) ts
           else rbind (retrieve (int n) b) (\<lambda>b'. Inr (True, t\<lparr>tbuffer := Some b'\<rparr> # ts)))))"

lemma pop_written_length: "pop_written n ts = Inr (False, ts') \<Longrightarrow> length ts' \<le> length ts \<and> (n > 0 \<longrightarrow> length ts' < length ts)"
  by (induction n ts rule: pop_written.induct) (fastforce simp: rbind_eq_Inr split: if_splits)+

lemma pop_written_less: "pop_written n ts = Inr (False, ts') \<Longrightarrow> 0 < n \<Longrightarrow> length ts' < length ts"
  using pop_written_length by blast

text \<open>The results of the system calls are a list; when it is used up the socket is full.\<close>

fun next_result :: "writ_result list \<Rightarrow> writ_result \<times> writ_result list" where
  "next_result [] = (WriteFailed EAGAIN, [])"
| "next_result (r # rs) = (r, rs)"

function writ_loop :: "writ_result list \<Rightarrow> nat \<Rightarrow> 'u conn \<Rightarrow> (int \<times> 'u conn) res" where
  "writ_loop rs written c = (case writTasks c of [] \<Rightarrow> Inr (int written, c)
     | t # ts \<Rightarrow>
         (case fp t of
            Some file \<Rightarrow>
              (case next_result rs of
                 (WriteFailed e, rs') \<Rightarrow> Inr (-1, c\<lparr>errno := e\<rparr>)
               | (Wrote n0, rs') \<Rightarrow>
                   (let bs = take n0 (take (tlen t) (drop (toffset t) file)); n = length bs; c1 = c\<lparr>sent := sent c @ bs\<rparr> in
                    if n = tlen t then writ_loop rs' written (c1\<lparr>writTasks := ts\<rparr>)
                    else Inr (-1, c1\<lparr>writTasks := t\<lparr>tlen := tlen t - n, toffset := toffset t + n\<rparr> # ts\<rparr>)))
          | None \<Rightarrow>
              rbind (gather (t # ts)) (\<lambda>all.
              case next_result rs of
                 (WriteFailed e, rs') \<Rightarrow> Inr (-1, c\<lparr>errno := e\<rparr>)
               | (Wrote n0, rs') \<Rightarrow>
                   (let n = min n0 (length all); c1 = c\<lparr>sent := sent c @ take n all\<rparr> in
                    if n = 0 then Inr (0, c1)
                    else rbind (pop_written n (t # ts)) (\<lambda>(part, ts').
                         if part then Inr (-1, c1\<lparr>writTasks := ts'\<rparr>)
                         else writ_loop rs' (written + n) (c1\<lparr>writTasks := ts'\<rparr>))))))"
  by pat_completeness auto
termination
  by (relation "measure (\<lambda>(rs, written, c). length (writTasks c))") (auto simp del: pop_written.simps gather.simps dest!: pop_written_less)

declare writ_loop.simps [simp del]

definition tryWrit :: "writ_result list \<Rightarrow> 'u conn \<Rightarrow> (int \<times> 'u conn) res" where
  "tryWrit rs c = writ_loop rs 0 c"

definition handleWritEvent :: "'u conn_callbacks \<Rightarrow> writ_result list \<Rightarrow> 'u conn \<Rightarrow> 'u conn res" where
  "handleWritEvent cb rs c =
     (if writTasks c = [] then on_chan (enableWrit False) c
      else
        rbind (tryWrit rs c) (\<lambda>(ret, c).
        if ret > 0 then
          let c = c\<lparr>writBytes := writBytes c - ret\<rparr> in
          if writTasks c = [] then
            rbind (on_chan (\<lambda>ch. enableWrit False (enableRead True ch)) c) (\<lambda>c.
            rbind (if cb_writ c then writeAll cb c else Inr c) (\<lambda>c1.
            if cb_writ c \<and> chan c1 = None then Inr c1 else updateChanel c1))
          else Inr c
        else if ret \<noteq> 0 \<and> errno c = EAGAIN then Inr c
        else handleErroEvent cb c))"

section \<open>The bytes of the tasks\<close>

definition task_ok :: "conn_task \<Rightarrow> bool" where
  "task_ok t = (fp t \<noteq> None \<or> (case tbuffer t of None \<Rightarrow> False | Some b \<Rightarrow> wf_buffer b \<and> mem b \<noteq> None))"

definition task_bytes :: "conn_task \<Rightarrow> cell list" where
  "task_bytes t = (case fp t of Some f \<Rightarrow> take (tlen t) (drop (toffset t) f)
     | None \<Rightarrow> (case tbuffer t of None \<Rightarrow> [] | Some b \<Rightarrow> contents b))"

definition tasks_bytes :: "conn_task list \<Rightarrow> cell list" where
  "tasks_bytes ts = concat (map task_bytes ts)"

lemma tasks_bytes_simps [simp]:
  "tasks_bytes [] = []" "tasks_bytes (t # ts) = task_bytes t @ tasks_bytes ts" "tasks_bytes (ts @ us) = tasks_bytes ts @ tasks_bytes us"
  by (simp_all add: tasks_bytes_def)

lemma task_bufferE:
  assumes "task_ok t" "fp t = None"
  obtains b where "tbuffer t = Some b" "wf_buffer b" "mem b \<noteq> None" "task_bytes t = contents b"
  using assms by (auto simp: task_ok_def task_bytes_def split: option.splits)

lemma gather_ok:
  "list_all task_ok ts \<Longrightarrow> gather ts = Inr (tasks_bytes (takeWhile (\<lambda>t. fp t = None) ts))"
proof (induction ts)
  case (Cons t ts)
  show ?case
  proof (cases "fp t")
    case None
    with Cons.prems obtain b where b: "tbuffer t = Some b" "wf_buffer b" "mem b \<noteq> None" "task_bytes t = contents b"
      by (auto elim: task_bufferE)
    then obtain m where m: "mem b = Some m" "block b = m" by (auto simp: block_def)
    have "data b = Inr (m, leftIndex b)" using b(2) m by (simp add: data_def wf_buffer_def)
    moreover have "read_block m (leftIndex b) (rightIndex b - leftIndex b) = Inr (contents b)"
      using read_contents [OF b(2), of "rightIndex b - leftIndex b"] m length_contents [OF b(2)] by simp
    ultimately show ?thesis using None Cons b by simp
  qed simp
qed simp

lemma pop_written_ok:
  "list_all task_ok ts \<Longrightarrow> n \<le> length (tasks_bytes (takeWhile (\<lambda>t. fp t = None) ts)) \<Longrightarrow>
   \<exists>part ts'. pop_written n ts = Inr (part, ts') \<and> list_all task_ok ts' \<and> tasks_bytes ts' = drop n (tasks_bytes ts) \<and> (part \<longrightarrow> ts' \<noteq> [])"
proof (induction ts arbitrary: n)
  case (Cons t ts)
  show ?case
  proof (cases "n = 0")
    case False
    then have "fp t = None" using Cons.prems(2) by (auto split: if_splits)
    with Cons.prems obtain b where b: "tbuffer t = Some b" "wf_buffer b" "mem b \<noteq> None" "task_bytes t = contents b"
      by (auto elim: task_bufferE)
    have s: "bsize b = Inr (length (contents b))" using b(2) by simp
    show ?thesis
    proof (cases "length (contents b) \<le> n")
      case True
      have "\<exists>part ts'. pop_written (n - length (contents b)) ts = Inr (part, ts') \<and> list_all task_ok ts' \<and>
          tasks_bytes ts' = drop (n - length (contents b)) (tasks_bytes ts) \<and> (part \<longrightarrow> ts' \<noteq> [])"
        using Cons.IH [of "n - length (contents b)"] Cons.prems \<open>fp t = None\<close> b(4) by simp
      then show ?thesis using False True b(1,4) s by simp
    next
      case part: False
      then obtain b' where b': "retrieve (int n) b = Inr b'" "wf_buffer b'" "contents b' = drop n (contents b)" "cap b' = cap b"
        using retrieve_ok [OF b(2), of n] by auto
      have "cap b' > 0" using part b(2) b'(4) length_contents [OF b(2)] by (auto simp: wf_buffer_def)
      then have "mem b' \<noteq> None" using b'(2) by (auto simp: wf_buffer_def split: option.splits)
      then have "task_ok (t\<lparr>tbuffer := Some b'\<rparr>)" "task_bytes (t\<lparr>tbuffer := Some b'\<rparr>) = drop n (contents b)"
        using b' \<open>fp t = None\<close> by (simp_all add: task_ok_def task_bytes_def)
      then show ?thesis using False part b(1,4) b'(1) s Cons.prems(1) by auto
    qed
  qed (use Cons.prems in \<open>auto intro: exI [of _ False]\<close>)
qed auto

section \<open>Writing keeps the order of the bytes\<close>

text \<open>\<open>conserves c res\<close>: whatever has been written, the bytes sent and those still in the tasks are the same in the same order.\<close>

definition conserves :: "'u conn \<Rightarrow> (int \<times> 'u conn) res \<Rightarrow> bool" where
  "conserves c res \<longleftrightarrow> (\<exists>ret ts out e. res = Inr (ret, c\<lparr>writTasks := ts, sent := out, errno := e\<rparr>) \<and> list_all task_ok ts \<and>
     out @ tasks_bytes ts = sent c @ tasks_bytes (writTasks c) \<and> (ret > 0 \<longrightarrow> ts = []))"

lemma conservesI:
  "res = Inr (ret, c\<lparr>writTasks := ts, sent := out, errno := e\<rparr>) \<Longrightarrow> list_all task_ok ts \<Longrightarrow>
   out @ tasks_bytes ts = sent c @ tasks_bytes (writTasks c) \<Longrightarrow> (ret > 0 \<Longrightarrow> ts = []) \<Longrightarrow> conserves c res"
  unfolding conserves_def by blast

lemma conserves_step:
  assumes "conserves (c\<lparr>sent := out, writTasks := ts\<rparr>) res" "out @ tasks_bytes ts = sent c @ tasks_bytes (writTasks c)"
  shows "conserves c res"
  using assms unfolding conserves_def by fastforce

text \<open>One round of the loop ends it or goes on with fewer tasks.\<close>

definition goes_on :: "'u conn \<Rightarrow> (int \<times> 'u conn) res \<Rightarrow> bool" where
  "goes_on c res \<longleftrightarrow> (\<exists>rs w out ts. res = writ_loop rs w (c\<lparr>sent := out, writTasks := ts\<rparr>) \<and> length ts < length (writTasks c) \<and>
     list_all task_ok ts \<and> out @ tasks_bytes ts = sent c @ tasks_bytes (writTasks c))"

lemma failed_conserves: "list_all task_ok (writTasks c) \<Longrightarrow> conserves c (Inr (-1, c\<lparr>errno := e\<rparr>))"
  by (intro conservesI [of _ "-1" e "sent c" "writTasks c" c]) simp_all

lemma writ_file:
  assumes c: "writTasks c = t # ts" "fp t = Some f" and ok: "list_all task_ok ts"
  shows "conserves c (writ_loop rs w c) \<or> goes_on c (writ_loop rs w c)"
proof -
  obtain r rs' where r: "next_result rs = (r, rs')" by (cases "next_result rs")
  have tok: "task_ok t" using c(2) by (simp add: task_ok_def)
  show ?thesis
  proof (cases r)
    case (WriteFailed e)
    then have "writ_loop rs w c = Inr (-1, c\<lparr>errno := e\<rparr>)" using c r by (subst writ_loop.simps) simp
    then show ?thesis using failed_conserves [of c e] c ok tok by simp
  next
    case (Wrote n0)
    define bs where "bs = take n0 (take (tlen t) (drop (toffset t) f))"
    let ?c = "c\<lparr>sent := sent c @ bs\<rparr>"
    have tb: "task_bytes t = bs @ drop n0 (take (tlen t) (drop (toffset t) f))"
      unfolding bs_def task_bytes_def c(2) by (simp only: option.case append_take_drop_id)
    show ?thesis
    proof (cases "length bs = tlen t")
      case True
      then have "task_bytes t = bs" using tb by (auto simp: bs_def task_bytes_def c(2))
      moreover have "writ_loop rs w c = writ_loop rs' w (?c\<lparr>writTasks := ts\<rparr>)"
        using c r Wrote True by (subst writ_loop.simps) (simp add: bs_def Let_def)
      ultimately have "goes_on c (writ_loop rs w c)" using c ok unfolding goes_on_def by fastforce
      then show ?thesis ..
    next
      case False
      let ?t = "t\<lparr>tlen := tlen t - length bs, toffset := toffset t + length bs\<rparr>"
      have "writ_loop rs w c = Inr (-1, ?c\<lparr>writTasks := ?t # ts\<rparr>)"
        using c r Wrote False by (subst writ_loop.simps) (simp add: bs_def Let_def)
      moreover have "task_bytes ?t = drop (length bs) (task_bytes t)"
        by (simp add: task_bytes_def c(2) drop_take add.commute)
      then have "bs @ task_bytes ?t = task_bytes t" using tb by simp
      moreover have "task_ok ?t" using c(2) by (simp add: task_ok_def)
      ultimately have "conserves c (writ_loop rs w c)" using ok c
        by (intro conservesI [of _ "-1" "errno c" "sent c @ bs" "?t # ts" c]) simp_all
      then show ?thesis ..
    qed
  qed
qed

lemma writ_buffers:
  assumes c: "writTasks c = t # ts" "fp t = None" and ok: "list_all task_ok (t # ts)"
  shows "conserves c (writ_loop rs w c) \<or> goes_on c (writ_loop rs w c)"
proof -
  obtain r rs' where r: "next_result rs = (r, rs')" by (cases "next_result rs")
  define all where "all = tasks_bytes (takeWhile (\<lambda>t. fp t = None) (t # ts))"
  have g: "gather (t # ts) = Inr all" unfolding all_def by (rule gather_ok [OF ok])
  have "takeWhile (\<lambda>t. fp t = None) (t # ts) @ dropWhile (\<lambda>t. fp t = None) (t # ts) = t # ts" by (rule takeWhile_dropWhile_id)
  then obtain rest where rest: "tasks_bytes (t # ts) = all @ rest" unfolding all_def using tasks_bytes_simps(3) by metis
  show ?thesis
  proof (cases r)
    case (WriteFailed e)
    then have "writ_loop rs w c = Inr (-1, c\<lparr>errno := e\<rparr>)" using c r g by (subst writ_loop.simps) (simp del: gather.simps)
    then show ?thesis using failed_conserves [of c e] c ok by simp
  next
    case (Wrote n0)
    define n where "n = min n0 (length all)"
    let ?c = "c\<lparr>sent := sent c @ take n all\<rparr>"
    show ?thesis
    proof (cases "n = 0")
      case True
      have "writ_loop rs w c = Inr (0, ?c)"
        using c r g Wrote True by (subst writ_loop.simps) (simp del: gather.simps pop_written.simps add: n_def [symmetric] Let_def)
      then have "conserves c (writ_loop rs w c)" using True ok c by (intro conservesI [of _ 0 "errno c" "sent c" "writTasks c" c]) simp_all
      then show ?thesis ..
    next
      case False
      obtain part ts' where p: "pop_written n (t # ts) = Inr (part, ts')" "list_all task_ok ts'" "tasks_bytes ts' = drop n (tasks_bytes (t # ts))"
        using pop_written_ok [of "t # ts" n] ok by (auto simp: n_def all_def simp del: pop_written.simps tasks_bytes_simps)
      have eq: "take n all @ tasks_bytes ts' = tasks_bytes (writTasks c)" unfolding p(3) rest c by (simp add: n_def)
      have step: "writ_loop rs w c = (if part then Inr (-1, ?c\<lparr>writTasks := ts'\<rparr>) else writ_loop rs' (w + n) (?c\<lparr>writTasks := ts'\<rparr>))"
        using c r g Wrote False p(1)
        by (subst writ_loop.simps) (simp del: gather.simps pop_written.simps add: n_def [symmetric] Let_def)
      show ?thesis
      proof (cases part)
        case True
        then have "conserves c (writ_loop rs w c)"
          using step p(2) eq by (intro conservesI [of _ "-1" "errno c" "sent c @ take n all" ts' c]) simp_all
        then show ?thesis ..
      next
        case no: False
        have "length ts' < length (writTasks c)" using pop_written_less [of n "t # ts" ts'] p(1) no False c(1) by simp
        then have "goes_on c (writ_loop rs w c)" using step no p(2) eq unfolding goes_on_def by fastforce
        then show ?thesis ..
      qed
    qed
  qed
qed

lemma writ_loop_ok: "list_all task_ok (writTasks c) \<Longrightarrow> conserves c (writ_loop rs w c)"
proof (induction "length (writTasks c)" arbitrary: rs w c rule: less_induct)
  case less
  show ?case
  proof (cases "writTasks c")
    case Nil
    then have "writ_loop rs w c = Inr (int w, c)" by (simp add: writ_loop.simps)
    then show ?thesis using Nil by (intro conservesI [of _ "int w" "errno c" "sent c" "[]" c]) simp_all
  next
    case (Cons t ts)
    have "conserves c (writ_loop rs w c) \<or> goes_on c (writ_loop rs w c)"
      using writ_file [OF Cons] writ_buffers [OF Cons] less.prems Cons by (cases "fp t") auto
    then show ?thesis
    proof
      assume "goes_on c (writ_loop rs w c)"
      then obtain rs' w' out ts' where g: "writ_loop rs w c = writ_loop rs' w' (c\<lparr>sent := out, writTasks := ts'\<rparr>)"
        "length ts' < length (writTasks c)" "list_all task_ok ts'" "out @ tasks_bytes ts' = sent c @ tasks_bytes (writTasks c)"
        unfolding goes_on_def by blast
      have "conserves (c\<lparr>sent := out, writTasks := ts'\<rparr>) (writ_loop rs' w' (c\<lparr>sent := out, writTasks := ts'\<rparr>))"
        by (rule less.hyps) (use g(2,3) in simp_all)
      then show ?thesis unfolding g(1) using conserves_step g(4) by blast
    qed
  qed
qed

section \<open>Events of a connection\<close>

text \<open>The poller has reported \<open>re\<close>: the channel of the connection picks the handler.\<close>

definition conn_event :: "'u conn_callbacks \<Rightarrow> u32 \<Rightarrow> readv_result \<Rightarrow> writ_result list \<Rightarrow> 'u conn \<Rightarrow> 'u conn res" where
  "conn_event cb re rr rs c =
     rbind (deref (chan c)) (\<lambda>ch.
     let (ch1, call) = handleEvent (updateRevents re ch); c1 = c\<lparr>chan := Some ch1\<rparr> in
     case call of None \<Rightarrow> Inr c1
     | Some ReadCb \<Rightarrow> handleReadEvent cb rr c1
     | Some WritCb \<Rightarrow> handleWritEvent cb rs c1
     | Some ErroCb \<Rightarrow> handleErroEvent cb c1)"

text \<open>What an application does with a connection that it writes to. A destroyed one gets no more events.\<close>

datatype conn_op = Send "byte list" | SendFile "cell list" nat nat | WritEvent "writ_result list"

fun conn_step :: "'u conn_callbacks \<Rightarrow> conn_op \<Rightarrow> 'u conn \<Rightarrow> 'u conn res" where
  "conn_step cb (Send bs) c = conn_send bs c"
| "conn_step cb (SendFile f off len) c = (if chan c = None then Inr c else conn_sendFile f off len c)"
| "conn_step cb (WritEvent rs) c = (if chan c = None then Inr c else conn_event cb kWrit (Got []) rs c)"

fun conn_run :: "'u conn_callbacks \<Rightarrow> conn_op list \<Rightarrow> 'u conn \<Rightarrow> 'u conn res" where
  "conn_run cb [] c = Inr c"
| "conn_run cb (x # xs) c = rbind (conn_step cb x c) (conn_run cb xs)"

fun handed :: "conn_op \<Rightarrow> cell list" where
  "handed (Send bs) = map Some bs"
| "handed (SendFile f off len) = take len (drop off f)"
| "handed (WritEvent rs) = []"

section \<open>Invariant\<close>

text \<open>
  While there are tasks the connection wants to write, and what it wants is watched by the poller: it
  is woken up to write them.
\<close>

definition conn_ok :: "'u conn \<Rightarrow> bool" where
  "conn_ok c = (case chan c of None \<Rightarrow> writTasks c = [] \<and> readBuf c = None
     | Some ch \<Rightarrow> readBuf c \<noteq> None \<and> list_all task_ok (writTasks c) \<and>
         (events ch AND kWrit \<noteq> 0 \<longrightarrow> polled c AND kWrit \<noteq> 0) \<and> (savedEvents ch AND kWrit \<noteq> 0 \<longrightarrow> polled c AND kWrit \<noteq> 0) \<and>
         (writTasks c \<noteq> [] \<longrightarrow> events ch AND kWrit \<noteq> 0))"

lemma enable_bits [simp]:
  "enable kWrit True e AND kWrit \<noteq> 0" "enable kWrit False e AND kWrit = 0" "enable kRead b e AND kWrit = e AND kWrit"
proof -
  have b: "bit (2 :: u32) n \<longleftrightarrow> n = 1" for n using bit_exp_iff [where ?'a = "32 word", of 1 n] by (auto intro: ccontr)
  have z: "x AND kWrit = 0 \<longleftrightarrow> \<not> bit x 1" for x :: u32 using and_exp_eq_0_iff_not_bit [of x 1] by simp
  show "enable kWrit True e AND kWrit \<noteq> 0" "enable kWrit False e AND kWrit = 0"
    unfolding z by (simp_all add: enable_def bit_or_iff bit_and_iff bit_not_iff b)
  show "enable kRead b e AND kWrit = e AND kWrit"
    by (simp add: enable_def bit.conj_disj_distrib2 and.assoc)
qed

lemma savedEvents_enable [simp]: "savedEvents (enableWrit b ch) = savedEvents ch"
  by (simp add: enableWrit_def)

lemma Buffer_bytes_ok: "task_ok (conn_task_new\<lparr>tbuffer := Some (Buffer_bytes bs)\<rparr>)"
  "task_bytes (conn_task_new\<lparr>tbuffer := Some (Buffer_bytes bs)\<rparr>) = map Some bs"
  by (simp_all add: task_ok_def task_bytes_def conn_task_new_def Buffer_bytes_def wf_buffer_def contents_def block_def)

lemma conn_push_ok:
  assumes "conn_ok c" "chan c \<noteq> None" "task_ok t"
  shows "\<exists>ch p. push_task t c = Inr (c\<lparr>writTasks := writTasks c @ [t], chan := Some ch, polled := p\<rparr>) \<and>
    conn_ok (c\<lparr>writTasks := writTasks c @ [t], chan := Some ch, polled := p\<rparr>)"
proof -
  obtain ch where ch: "chan c = Some ch" using assms(2) by auto
  let ?ch = "enableWrit True ch"
  let ?p = "if isEventsChanged ?ch then events ?ch else polled c"
  have push: "push_task t c = Inr (c\<lparr>writTasks := writTasks c @ [t], chan := Some (?ch\<lparr>savedEvents := events ?ch\<rparr>), polled := ?p\<rparr>)"
    using ch by (simp add: push_task_def on_chan_def updateChanel_def)
  have w: "events ?ch AND kWrit \<noteq> 0" by (simp add: enableWrit_def)
  have "?p AND kWrit \<noteq> 0"
    using assms(1) ch w by (auto simp: conn_ok_def isEventsChanged_def)
  then have "conn_ok (c\<lparr>writTasks := writTasks c @ [t], chan := Some (?ch\<lparr>savedEvents := events ?ch\<rparr>), polled := ?p\<rparr>)"
    using assms(1,3) ch w by (simp add: conn_ok_def)
  with push show ?thesis by blast
qed

lemma destroy_ok: "conn_ok (conn_destroy c)" "chan (conn_destroy c) = None" "sent (conn_destroy c) = sent c"
  "writTasks (conn_destroy c) = []" "\<not> cb_erro (conn_destroy c)" "\<not> cb_writ (conn_destroy c)"
  by (simp_all add: conn_destroy_def conn_ok_def)

text \<open>\<open>delivers c c'\<close>: what the connection sent and still holds; a destroyed one may have sent only a part.\<close>

definition delivers :: "cell list \<Rightarrow> 'u conn \<Rightarrow> bool" where
  "delivers all c \<longleftrightarrow> conn_ok c \<and> \<not> cb_erro c \<and> \<not> cb_writ c \<and>
     (if chan c = None then \<exists>rest. sent c @ rest = all else sent c @ tasks_bytes (writTasks c) = all)"

lemma erro_delivers:
  assumes "\<not> cb_erro c" "sent c @ rest = all"
  shows "\<exists>c'. handleErroEvent cb c = Inr c' \<and> delivers all c'"
  using assms by (auto simp: handleErroEvent_def delivers_def destroy_ok)

lemma writ_delivers:
  assumes "delivers all c" "chan c = Some ch"
  shows "\<exists>c'. handleWritEvent cb rs c = Inr c' \<and> delivers all c'"
proof (cases "writTasks c = []")
  case True
  then show ?thesis using assms by (simp add: handleWritEvent_def on_chan_def delivers_def conn_ok_def enableWrit_def)
next
  case False
  have c: "conn_ok c" "\<not> cb_erro c" "\<not> cb_writ c" "sent c @ tasks_bytes (writTasks c) = all" using assms by (auto simp: delivers_def)
  have "conserves c (tryWrit rs c)" unfolding tryWrit_def using c(1) assms(2) by (intro writ_loop_ok) (simp add: conn_ok_def)
  then obtain ret ts out e where w: "tryWrit rs c = Inr (ret, c\<lparr>writTasks := ts, sent := out, errno := e\<rparr>)" "list_all task_ok ts"
    "out @ tasks_bytes ts = all" "ret > 0 \<longrightarrow> ts = []" unfolding conserves_def c(4) by blast
  let ?c = "c\<lparr>writTasks := ts, sent := out, errno := e\<rparr>"
  show ?thesis
  proof (cases "ret > 0")
    case True
    let ?ch = "enableWrit False (enableRead True ch)"
    have no: "events ?ch AND kWrit = 0" by (simp add: enableWrit_def)
    have "handleWritEvent cb rs c = updateChanel (?c\<lparr>writBytes := writBytes c - ret, chan := Some ?ch\<rparr>)"
      using False w True assms(2) c by (simp add: handleWritEvent_def on_chan_def Let_def)
    then show ?thesis using w True c no assms(2) by (auto simp: updateChanel_def delivers_def conn_ok_def)
  next
    case no: False
    show ?thesis
    proof (cases "ret \<noteq> 0 \<and> e = EAGAIN")
      case True
      then have "handleWritEvent cb rs c = Inr ?c" using False w no by (simp add: handleWritEvent_def)
      moreover have "conn_ok ?c" using c(1) assms(2) False w(2) by (auto simp: conn_ok_def)
      ultimately show ?thesis using w c assms(2) by (simp add: delivers_def)
    next
      case err: False
      then have "handleWritEvent cb rs c = handleErroEvent cb ?c" using False w no by (auto simp: handleWritEvent_def)
      then show ?thesis using erro_delivers [of ?c "tasks_bytes ts"] w(3) c(2) by simp
    qed
  qed
qed

lemma event_delivers:
  assumes "delivers all c" "chan c = Some ch"
  shows "\<exists>c'. conn_event cb kWrit rr rs c = Inr c' \<and> delivers all c'"
proof -
  let ?ch = "(updateRevents kWrit ch)\<lparr>savedEvents := events ch\<rparr>"
  let ?c = "c\<lparr>chan := Some ?ch\<rparr>"
  have d: "delivers all ?c" using assms by (auto simp: delivers_def conn_ok_def updateRevents_def)
  have e: "sent ?c @ tasks_bytes (writTasks c) = all" "\<not> cb_erro ?c" using assms by (auto simp: delivers_def)
  have "conn_event cb kWrit rr rs c = Inr ?c \<or> conn_event cb kWrit rr rs c = handleWritEvent cb rs ?c \<or> conn_event cb kWrit rr rs c = handleErroEvent cb ?c"
    using assms(2) by (simp add: conn_event_def handleEvent_def Let_def Readable_def updateRevents_def)
  then show ?thesis using d writ_delivers [OF d, of ?ch] erro_delivers [OF e(2,1)] by auto
qed

lemma step_delivers:
  assumes "delivers all c"
  shows "\<exists>c'. conn_step cb x c = Inr c' \<and> delivers (all @ handed x) c'"
proof (cases "chan c")
  case None
  then have "conn_step cb x c = Inr c" using assms by (cases x) (simp_all add: delivers_def conn_ok_def conn_send_def)
  then show ?thesis using assms None by (auto simp: delivers_def)
next
  case (Some ch)
  have c: "conn_ok c" "\<not> cb_erro c" "\<not> cb_writ c" "sent c @ tasks_bytes (writTasks c) = all" "chan c \<noteq> None" "readBuf c \<noteq> None"
    using assms Some by (auto simp: delivers_def conn_ok_def)
  show ?thesis
  proof (cases x)
    case (Send bs)
    from conn_push_ok [OF c(1,5) Buffer_bytes_ok(1) [of bs]] obtain ch' p where
      p: "push_task (conn_task_new\<lparr>tbuffer := Some (Buffer_bytes bs)\<rparr>) c =
          Inr (c\<lparr>writTasks := writTasks c @ [conn_task_new\<lparr>tbuffer := Some (Buffer_bytes bs)\<rparr>], chan := Some ch', polled := p\<rparr>)"
        "conn_ok (c\<lparr>writTasks := writTasks c @ [conn_task_new\<lparr>tbuffer := Some (Buffer_bytes bs)\<rparr>], chan := Some ch', polled := p\<rparr>)" by blast
    show ?thesis using p c Send Some by (auto simp: conn_send_def delivers_def Buffer_bytes_ok conn_ok_def)
  next
    case (SendFile f off len)
    let ?t = "conn_task_new\<lparr>fp := Some f, toffset := off, tlen := len\<rparr>"
    have t: "task_ok ?t" "task_bytes ?t = take len (drop off f)" by (simp_all add: task_ok_def task_bytes_def)
    from conn_push_ok [OF c(1,5) t(1)] obtain ch' p where
      p: "push_task ?t c = Inr (c\<lparr>writTasks := writTasks c @ [?t], chan := Some ch', polled := p\<rparr>)"
        "conn_ok (c\<lparr>writTasks := writTasks c @ [?t], chan := Some ch', polled := p\<rparr>)" by blast
    show ?thesis using p c SendFile Some t(2) by (simp add: conn_sendFile_def delivers_def)
  next
    case (WritEvent rs)
    then show ?thesis using event_delivers [OF assms Some] Some by simp
  qed
qed

lemma run_delivers:
  "delivers all c \<Longrightarrow> \<exists>c'. conn_run cb xs c = Inr c' \<and> delivers (all @ concat (map handed xs)) c'"
proof (induction xs arbitrary: all c)
  case (Cons x xs)
  from step_delivers [OF Cons.prems] obtain c1 where c1: "conn_step cb x c = Inr c1" "delivers (all @ handed x) c1" by blast
  from Cons.IH [OF c1(2)] c1(1) show ?case by simp
qed simp

section \<open>Reading, with the callback\<close>

text \<open>The end of \<open>handleReadEvent\<close>, after the callback.\<close>

definition after_read :: "'u conn_callbacks \<Rightarrow> 'u conn \<Rightarrow> 'u conn res" where
  "after_read cb c =
     (if readBuf c = None then Inr c
      else rbind (if writBytes c \<ge> writableLimit c
                  then if cb_limit c then limitEvent cb c else on_chan (enableRead False) c
                  else Inr c) (\<lambda>c. if chan c = None then Inr c else updateChanel c))"

lemma handleReadEvent_after:
  "handleReadEvent cb r c = rbind (tryRead r c) (\<lambda>(ret, c).
     if ret > 0 then if \<not> cb_read c then Inr c else rbind (readEvent cb c) (after_read cb)
     else if ret \<noteq> 0 \<and> errno c = EAGAIN then Inr c else handleErroEvent cb c)"
  by (simp only: handleReadEvent_def after_read_def [abs_def])

lemma on_chan_live: "chan c \<noteq> None \<Longrightarrow> \<exists>ch. on_chan f c = Inr (c\<lparr>chan := Some ch\<rparr>)"
  by (auto simp: on_chan_def)

section \<open>Properties\<close>


text \<open>A connection just accepted, and a file sent after a few bytes, in two writes.\<close>

definition demo_conn :: "unit conn" where
  "demo_conn = (Connection_new 5)\<lparr>chan := Some ((channel_new 5)\<lparr>events := kRead, savedEvents := kRead, on_read := True, on_writ := True, on_erro := True\<rparr>), polled := kRead\<rparr>"

definition no_callbacks :: "'u conn_callbacks" where
  "no_callbacks = \<lparr>readEvent = Inr, writeAll = Inr, erroEvent = Inr, limitEvent = Inr\<rparr>"

definition demo_script :: "conn_op list" where
  "demo_script = [Send [1, 2, 3], SendFile [Some 7, Some 8, Some 9] 1 2, WritEvent [Wrote 2], WritEvent [Wrote 1, Wrote 2]]"

lemma demo_conn_init: "Connection_init (Connection_new 5) = Inr demo_conn"
  by (simp add: demo_conn_def Connection_init_def Connection_new_def channel_new_def enableRead_def enable_def Let_def)

lemma demo_conn_ok: "conn_ok demo_conn" "\<not> cb_erro demo_conn" "\<not> cb_writ demo_conn" "chan demo_conn \<noteq> None"
  by (simp_all add: demo_conn_def conn_ok_def Connection_new_def channel_new_def)


text \<open>The kernel has filled the first bytes behind the contents.\<close>

lemma fill_ok:
  assumes "wf_buffer b" "mem b = Some m" "rightIndex b + length bs \<le> cap b"
  shows "\<exists>b'. append_count (int (length bs)) (b\<lparr>mem := Some (memcpy m (rightIndex b) bs)\<rparr>) = Inr b' \<and> wf_buffer b' \<and>
    contents b' = contents b @ bs \<and> cap b' = cap b"
proof (cases "bs = []")
  case True
  then have "b\<lparr>mem := Some (memcpy m (rightIndex b) bs)\<rparr> = b" using assms(2) by (cases b) (simp add: memcpy_def)
  then show ?thesis using True assms by (simp add: append_count_def wf_buffer_def)
next
  case False
  have "length m = cap b" using assms by (simp add: wf_buffer_def)
  then have "append_count (int (length bs)) (b\<lparr>mem := Some (memcpy m (rightIndex b) bs)\<rparr>) = safeAppend bs b"
    using assms by (simp add: append_count_def safeAppend_def write_block_def)
  then show ?thesis using safeAppend_ok [OF assms(1,3) False] by simp
qed

text \<open>
  Bytes that arrive are appended to the read buffer, also those that do not fit in its free part and
  come through the extra buffer.
\<close>

theorem conn_read_appends:
  assumes "readBuf c = Some b" and "wf_buffer b" and "0 < cap b" and "bs = take (cap b - rightIndex b + extraBuffer_size) bs0"
  shows "\<exists>b'. tryRead (Got bs0) c = Inr (int (length bs), c\<lparr>readBuf := Some b'\<rparr>) \<and> wf_buffer b' \<and> contents b' = contents b @ bs"
proof -
  obtain m where m: "mem b = Some m" "length m = cap b" using wf_memE [OF assms(2,3)] by blast
  let ?n = "cap b - rightIndex b"
  have le: "leftIndex b \<le> rightIndex b" "rightIndex b \<le> cap b" using assms(2) by (auto simp: wf_buffer_def)
  let ?b = "b\<lparr>mem := Some (memcpy m (rightIndex b) (take ?n bs))\<rparr>"
  have w: "write_block m (rightIndex b) (take ?n bs) = Inr (memcpy m (rightIndex b) (take ?n bs))"
    using m le by (simp add: write_block_def)
  have read: "tryRead (Got bs0) c = rbind (if bs = [] then Inr ?b else if length bs > ?n then rbind (append_count (int ?n) ?b) (append_bytes (drop ?n bs))
      else append_count (int (length bs)) ?b) (\<lambda>b2. Inr (int (length bs), c\<lparr>readBuf := Some b2\<rparr>))"
    using assms(1,4) m le w by (simp add: tryRead_def wdata_def availbleSize_def Let_def)
  have "rightIndex b + length (take ?n bs) \<le> cap b" using le by simp
  from fill_ok [OF assms(2) m(1) this] obtain b1 where
    b1: "append_count (int (length (take ?n bs))) ?b = Inr b1" "wf_buffer b1" "contents b1 = contents b @ take ?n bs" "cap b1 = cap b" by blast
  show ?thesis
  proof (cases "length bs > ?n")
    case True
    from append_bytes_ok [OF b1(2), of "drop ?n bs"] b1(4) assms(3) True obtain b2 where
      b2: "append_bytes (drop ?n bs) b1 = Inr b2" "wf_buffer b2" "contents b2 = contents b1 @ drop ?n bs" by auto
    have "bs \<noteq> []" "length (take ?n bs) = ?n" using True by auto
    then show ?thesis using read b1 b2 True by auto
  next
    case False
    then have "append_count (int (length bs)) ?b = Inr b1" "take ?n bs = bs" using b1(1) by simp_all
    moreover have "bs = [] \<Longrightarrow> b1 = ?b" using b1(1) le by (cases b) (auto simp: append_count_def)
    ultimately show ?thesis using read b1 False by (cases "bs = []") auto
  qed
qed

theorem conn_read_appends_witness:
  "\<exists>b'. tryRead (Got [Some 1, Some 2]) demo_conn = Inr (int (length (take (4096 - 0 + extraBuffer_size) [Some 1, Some 2 :: cell])), demo_conn\<lparr>readBuf := Some b'\<rparr>) \<and>
     contents b' = [Some 1, Some 2]"
proof -
  have "readBuf demo_conn = Some (Buffer_length 4096)" by (simp add: demo_conn_def Connection_new_def)
  moreover have "wf_buffer (Buffer_length 4096)" "0 < cap (Buffer_length 4096)" by (simp_all add: wf_Buffer_length)
  moreover have "contents (Buffer_length 4096) = []" by (rule wf_Buffer_length)
  moreover have "cap (Buffer_length 4096) = 4096" "rightIndex (Buffer_length 4096) = 0" by (simp_all add: Buffer_length_def)
  ultimately show ?thesis using conn_read_appends [OF _ _ _ refl, of demo_conn "Buffer_length 4096" "[Some 1, Some 2]"] by auto
qed

lemma erro_destroys: "\<not> cb_erro c \<Longrightarrow> handleErroEvent cb c = Inr (conn_destroy c)"
  by (simp add: handleErroEvent_def)

lemma Buffer_bytes_simps [simp]:
  "data (Buffer_bytes bs) = Inr (map Some bs, 0)" "bsize (Buffer_bytes bs) = Inr (length bs)"
  by (simp_all add: data_def bsize_def Buffer_bytes_def)

lemma writ_part:
  assumes "writTasks c = [conn_task_new\<lparr>tbuffer := Some (Buffer_bytes bs)\<rparr>]" "0 < n" "n < length bs"
  shows "\<exists>ts. writ_loop (Wrote n # rs) 0 c = Inr (-1, c\<lparr>sent := sent c @ map Some (take n bs), writTasks := ts\<rparr>)"
proof -
  let ?t = "conn_task_new\<lparr>tbuffer := Some (Buffer_bytes bs)\<rparr>"
  have wf: "wf_buffer (Buffer_bytes bs)" "contents (Buffer_bytes bs) = map Some bs"
    by (simp_all add: wf_buffer_def contents_def block_def Buffer_bytes_def)
  obtain b' where b': "retrieve (int n) (Buffer_bytes bs) = Inr b'" using retrieve_ok [OF wf(1), of n] wf(2) assms(3) by auto
  have g: "gather [?t] = Inr (map Some bs)" by (simp add: conn_task_new_def read_block_def)
  have p: "pop_written n [?t] = Inr (True, [?t\<lparr>tbuffer := Some b'\<rparr>])" using b' assms(2,3) by simp
  have "writ_loop (Wrote n # rs) 0 c = Inr (-1, c\<lparr>sent := sent c @ map Some (take n bs), writTasks := [?t\<lparr>tbuffer := Some b'\<rparr>]\<rparr>)"
    using assms g p by (subst writ_loop.simps) (simp add: conn_task_new_def Let_def take_map del: gather.simps pop_written.simps)
  then show ?thesis by blast
qed

text \<open>
  C37. Three ways a write event destroys a connection with a single pending task, a channel, a read
  buffer and no error callback, though no system call failed. If the task is a message, the write took
  only a part of its bytes and the \<open>errno\<close> left over from before is not \<open>EAGAIN\<close>, \<open>tryWrit\<close> returns -1, and
  the rest of the bytes is lost. If the task is a file, which is then sent completely, or an empty
  message, \<open>tryWrit\<close> returns 0.
\<close>

theorem conn_write_destroys:
  assumes "chan c = Some ch" and "readBuf c \<noteq> None" and "\<not> cb_erro c"
  shows "(writTasks c = [conn_task_new\<lparr>tbuffer := Some (Buffer_bytes bs)\<rparr>] \<and> 0 < n \<and> n < length bs \<and> errno c \<noteq> EAGAIN \<longrightarrow>
      (\<exists>c'. handleWritEvent cb (Wrote n # rs) c = Inr c' \<and> chan c' = None \<and> sent c' = sent c @ map Some (take n bs))) \<and>
    (writTasks c = [conn_task_new\<lparr>fp := Some f, toffset := 0, tlen := length f\<rparr>] \<longrightarrow>
      (\<exists>c'. handleWritEvent cb (Wrote (length f) # rs) c = Inr c' \<and> chan c' = None \<and> sent c' = sent c @ f)) \<and>
    (writTasks c = [] \<longrightarrow>
      (\<exists>c' c''. conn_send [] c = Inr c' \<and> handleWritEvent cb (Wrote n # rs) c' = Inr c'' \<and> chan c'' = None))"
proof (intro conjI impI)
  assume h: "writTasks c = [conn_task_new\<lparr>tbuffer := Some (Buffer_bytes bs)\<rparr>] \<and> 0 < n \<and> n < length bs \<and> errno c \<noteq> EAGAIN"
  with writ_part [of c bs n rs] obtain ts where
    "tryWrit (Wrote n # rs) c = Inr (-1, c\<lparr>sent := sent c @ map Some (take n bs), writTasks := ts\<rparr>)" by (auto simp: tryWrit_def)
  then show "\<exists>c'. handleWritEvent cb (Wrote n # rs) c = Inr c' \<and> chan c' = None \<and> sent c' = sent c @ map Some (take n bs)"
    using h assms by (simp add: handleWritEvent_def erro_destroys destroy_ok)
next
  assume h: "writTasks c = [conn_task_new\<lparr>fp := Some f, toffset := 0, tlen := length f\<rparr>]"
  then have "tryWrit (Wrote (length f) # rs) c = Inr (0, c\<lparr>sent := sent c @ f, writTasks := []\<rparr>)"
    by (simp add: tryWrit_def writ_loop.simps Let_def)
  then show "\<exists>c'. handleWritEvent cb (Wrote (length f) # rs) c = Inr c' \<and> chan c' = None \<and> sent c' = sent c @ f"
    using h assms by (simp add: handleWritEvent_def erro_destroys destroy_ok)
next
  assume h: "writTasks c = []"
  let ?t = "conn_task_new\<lparr>tbuffer := Some (Buffer_bytes [])\<rparr>"
  from assms(1,2) h obtain c' where c': "conn_send [] c = Inr c'" "writTasks c' = [?t]" "cb_erro c' = cb_erro c"
    by (auto simp: conn_send_def push_task_def on_chan_def updateChanel_def)
  have g: "gather [?t] = Inr []" by (simp add: conn_task_new_def read_block_def)
  have "tryWrit (Wrote n # rs) c' = Inr (0, c'\<lparr>sent := sent c'\<rparr>)"
    unfolding tryWrit_def using c'(2) g by (subst writ_loop.simps) (simp add: conn_task_new_def Let_def del: gather.simps)
  then show "\<exists>c' c''. conn_send [] c = Inr c' \<and> handleWritEvent cb (Wrote n # rs) c' = Inr c'' \<and> chan c'' = None"
    using c' assms(3) by (simp add: handleWritEvent_def erro_destroys destroy_ok)
qed

definition demo_part :: "unit conn" where
  "demo_part = demo_conn\<lparr>writTasks := [conn_task_new\<lparr>tbuffer := Some (Buffer_bytes [1, 2, 3])\<rparr>]\<rparr>"

theorem conn_write_destroys_witness:
  "(\<exists>c'. handleWritEvent no_callbacks [Wrote 2] demo_part = Inr c' \<and> chan c' = None \<and> sent c' = [Some 1, Some 2]) \<and>
   (\<exists>c' c''. conn_send [] demo_conn = Inr c' \<and> handleWritEvent no_callbacks [Wrote 0] c' = Inr c'' \<and> chan c'' = None)"
proof
  have p: "chan demo_part \<noteq> None" "readBuf demo_part \<noteq> None" "\<not> cb_erro demo_part" "errno demo_part = 0" "sent demo_part = []"
    "writTasks demo_part = [conn_task_new\<lparr>tbuffer := Some (Buffer_bytes [1, 2, 3])\<rparr>]"
    by (simp_all add: demo_part_def demo_conn_def Connection_new_def)
  then show "\<exists>c'. handleWritEvent no_callbacks [Wrote 2] demo_part = Inr c' \<and> chan c' = None \<and> sent c' = [Some 1, Some 2]"
    using conn_write_destroys [of demo_part _ "[1, 2, 3]" 2 no_callbacks "[]"] by (auto simp: numeral_2_eq_2)
  have d: "chan demo_conn \<noteq> None" "readBuf demo_conn \<noteq> None" "\<not> cb_erro demo_conn" "writTasks demo_conn = []"
    by (simp_all add: demo_conn_def Connection_new_def)
  then show "\<exists>c' c''. conn_send [] demo_conn = Inr c' \<and> handleWritEvent no_callbacks [Wrote 0] c' = Inr c'' \<and> chan c'' = None"
    using conn_write_destroys [of demo_conn _ "[]" 0 no_callbacks "[]"] by auto
qed

end
