(* ===== verification/Conn_Flow.thy ===== *)
theory Conn_Flow
  imports Connection
begin

text \<open>
  What an event does to a connection, for the applications over it (\<open>Connection.cpp\<close>, \<open>Chanel.cpp\<close>): case
  rules for the handlers of readable and writable events and for the dispatch by the channel, whatever
  the callbacks; and, for applications without callbacks for written data, that the bytes handed over
  and the registration at the poller are kept.
\<close>

section \<open>A write that fails leaves a task\<close>

lemma pop_written_part: "pop_written n ts = Inr (True, ts') \<Longrightarrow> ts' \<noteq> []"
  by (induction n ts rule: pop_written.induct) (auto simp: rbind_eq_Inr split: if_splits)

lemma writ_loop_fails: "writ_loop rs w c = Inr (ret, c') \<Longrightarrow> ret < 0 \<Longrightarrow> writTasks c' \<noteq> []"
proof (induction rs w c rule: writ_loop.induct)
  case (1 rs w c)
  show ?case
  proof (cases "writTasks c")
    case Nil
    then show ?thesis using 1(3,4) by (simp add: writ_loop.simps)
  next
    case (Cons t ts)
    obtain r rs' where r: "next_result rs = (r, rs')" by (cases "next_result rs")
    show ?thesis
    proof (cases "fp t")
      case (Some f)
      then show ?thesis using 1(2) [OF Cons Some r [symmetric]] 1(3,4) Cons r
        by (cases r) (auto simp: writ_loop.simps [of rs w c] Let_def split: if_splits)
    next
      case None
      then show ?thesis using 1(1) [OF Cons None _ r [symmetric]] 1(3,4) Cons r
        by (cases r) (auto simp: writ_loop.simps [of rs w c] Let_def rbind_eq_Inr split: if_splits prod.splits dest: pop_written_part
          simp del: gather.simps pop_written.simps, blast)
    qed
  qed
qed

section \<open>What an event can do\<close>

text \<open>All bytes handed to a connection: those the kernel has taken and those that wait.\<close>

definition outgoing :: "'u conn \<Rightarrow> cell list" where
  "outgoing c = sent c @ tasks_bytes (writTasks c)"

text \<open>The bytes \<open>readv\<close> hands over: those that fit the buffer and the extra buffer.\<close>

definition kernel_bytes :: "readv_result \<Rightarrow> buffer \<Rightarrow> cell list" where
  "kernel_bytes rr b = (case rr of Got bs \<Rightarrow> take (cap b - rightIndex b + extraBuffer_size) bs | ReadFailed e \<Rightarrow> [])"

lemma read_event_cases:
  assumes "readBuf c = Some b" "wf_buffer b" "0 < cap b"
  obtains (again) "handleReadEvent cb rr c = Inr (c\<lparr>errno := EAGAIN\<rparr>)" "kernel_bytes rr b = []"
  | (erro) b' e where "handleReadEvent cb rr c = handleErroEvent cb (c\<lparr>readBuf := Some b', errno := e\<rparr>)" "kernel_bytes rr b = []"
  | (got) b' where "wf_buffer b'" "0 < cap b'" "contents b' = contents b @ kernel_bytes rr b" "kernel_bytes rr b \<noteq> []"
      "handleReadEvent cb rr c = (if cb_read c then rbind (readEvent cb (c\<lparr>readBuf := Some b'\<rparr>)) (after_read cb) else Inr (c\<lparr>readBuf := Some b'\<rparr>))"
      "tryRead rr c = Inr (int (length (kernel_bytes rr b)), c\<lparr>readBuf := Some b'\<rparr>)"
proof (cases rr)
  case (ReadFailed e)
  obtain m where "mem b = Some m" using wf_memE [OF assms(2,3)] by blast
  then have t: "tryRead rr c = Inr (-1, c\<lparr>errno := e\<rparr>)"
    using assms ReadFailed by (simp add: tryRead_def wdata_def availbleSize_def wf_buffer_def)
  have same: "c\<lparr>errno := e\<rparr> = c\<lparr>readBuf := Some b, errno := e\<rparr>" using assms(1) by (cases c) simp
  show thesis
  proof (cases "e = EAGAIN")
    case True
    then show thesis using again t ReadFailed by (simp add: handleReadEvent_after kernel_bytes_def)
  next
    case False
    then show thesis using erro [where b' = b and e = e] t ReadFailed same by (simp add: handleReadEvent_after kernel_bytes_def)
  qed
next
  case (Got bs0)
  define bs where "bs = take (cap b - rightIndex b + extraBuffer_size) bs0"
  have k: "kernel_bytes rr b = bs" by (simp add: kernel_bytes_def Got bs_def)
  from conn_read_appends [OF assms bs_def] obtain b' where
    b': "tryRead rr c = Inr (int (length bs), c\<lparr>readBuf := Some b'\<rparr>)" "wf_buffer b'" "contents b' = contents b @ bs" unfolding Got by blast
  show thesis
  proof (cases "bs = []")
    case True
    have same: "c\<lparr>readBuf := Some b'\<rparr> = c\<lparr>readBuf := Some b', errno := errno c\<rparr>" by (cases c) simp
    show thesis using erro [where b' = b' and e = "errno c"] b'(1) True k same by (simp add: handleReadEvent_after)
  next
    case False
    then have "0 < length (contents b')" using b'(3) by simp
    then have "0 < cap b'" using b'(2) length_contents [OF b'(2)] by (auto simp: wf_buffer_def)
    then show thesis using got [where b' = b'] b' False k by (simp add: handleReadEvent_after)
  qed
qed

lemma writ_event_cases:
  assumes "chan c = Some ch" "list_all task_ok (writTasks c)"
  obtains (idle) "writTasks c = []" "handleWritEvent cb rs c = Inr (c\<lparr>chan := Some (enableWrit False ch)\<rparr>)"
  | (all) e n c1 where "c1 = c\<lparr>writTasks := [], sent := outgoing c, errno := e, writBytes := n, chan := Some (enableWrit False (enableRead True ch))\<rparr>"
      "handleWritEvent cb rs c = rbind (if cb_writ c then writeAll cb c1 else Inr c1) (\<lambda>c2. if cb_writ c \<and> chan c2 = None then Inr c2 else updateChanel c2)"
      "writTasks c \<noteq> []"
  | (again) ts out where "ts \<noteq> []" "list_all task_ok ts" "out @ tasks_bytes ts = outgoing c" "writTasks c \<noteq> []"
      "handleWritEvent cb rs c = Inr (c\<lparr>writTasks := ts, sent := out, errno := EAGAIN\<rparr>)"
  | (erro) ts out e where "out @ tasks_bytes ts = outgoing c"
      "handleWritEvent cb rs c = handleErroEvent cb (c\<lparr>writTasks := ts, sent := out, errno := e\<rparr>)" "writTasks c \<noteq> []"
proof (cases "writTasks c = []")
  case True
  then show thesis using idle assms(1) by (simp add: handleWritEvent_def on_chan_def)
next
  case False
  have "conserves c (tryWrit rs c)" unfolding tryWrit_def by (rule writ_loop_ok [OF assms(2)])
  then obtain ret ts out e where w: "tryWrit rs c = Inr (ret, c\<lparr>writTasks := ts, sent := out, errno := e\<rparr>)" "list_all task_ok ts"
    "out @ tasks_bytes ts = outgoing c" "ret > 0 \<longrightarrow> ts = []" unfolding conserves_def outgoing_def by blast
  let ?c = "c\<lparr>writTasks := ts, sent := out, errno := e\<rparr>"
  consider "ret > 0" | "ret < 0" "e = EAGAIN" | "\<not> ret > 0" "\<not> (ret \<noteq> 0 \<and> e = EAGAIN)" by linarith
  then show thesis
  proof cases
    case 1
    then show thesis
      using all [where ?c1.0 = "c\<lparr>writTasks := [], sent := outgoing c, errno := e, writBytes := writBytes c - ret, chan := Some (enableWrit False (enableRead True ch))\<rparr>"]
        w False assms(1) by (simp add: handleWritEvent_def on_chan_def Let_def)
  next
    case 2
    then have "ts \<noteq> []" using writ_loop_fails [of rs 0 c ret ?c] w(1) by (simp add: tryWrit_def)
    then show thesis using again [where ts = ts and out = out] w 2 False by (simp add: handleWritEvent_def)
  next
    case 3
    then show thesis using erro [where ts = ts and out = out and e = e] w False by (auto simp: handleWritEvent_def)
  qed
qed

text \<open>The channel picks a handler for the events the poller has reported, or none.\<close>

definition reads :: "u32 \<Rightarrow> 'u conn \<Rightarrow> bool" where
  "reads re c = (case chan c of None \<Rightarrow> False | Some ch \<Rightarrow> snd (handleEvent (updateRevents re ch)) = Some ReadCb)"

definition bytes_read :: "u32 \<Rightarrow> readv_result \<Rightarrow> 'u conn \<Rightarrow> cell list" where
  "bytes_read re rr c = (if reads re c then case readBuf c of None \<Rightarrow> [] | Some b \<Rightarrow> kernel_bytes rr b else [])"

lemma conn_event_cases:
  assumes "chan c = Some ch"
  obtains (event) ch1 where "events ch1 = events ch" "savedEvents ch1 = events ch" "on_erro ch1 = on_erro ch"
    "conn_event cb re rr rs c = Inr (c\<lparr>chan := Some ch1\<rparr>) \<and> bytes_read re rr c = [] \<or>
     conn_event cb re rr rs c = handleReadEvent cb rr (c\<lparr>chan := Some ch1\<rparr>) \<and>
       bytes_read re rr c = (case readBuf c of None \<Rightarrow> [] | Some b \<Rightarrow> kernel_bytes rr b) \<or>
     conn_event cb re rr rs c = handleWritEvent cb rs (c\<lparr>chan := Some ch1\<rparr>) \<and> bytes_read re rr c = [] \<or>
     conn_event cb re rr rs c = handleErroEvent cb (c\<lparr>chan := Some ch1\<rparr>) \<and> bytes_read re rr c = []"
proof (rule event)
  let ?h = "handleEvent (updateRevents re ch)"
  show "events (fst ?h) = events ch" "savedEvents (fst ?h) = events ch" "on_erro (fst ?h) = on_erro ch"
    by (simp_all add: handleEvent_def updateRevents_def Let_def)
  show "conn_event cb re rr rs c = Inr (c\<lparr>chan := Some (fst ?h)\<rparr>) \<and> bytes_read re rr c = [] \<or>
     conn_event cb re rr rs c = handleReadEvent cb rr (c\<lparr>chan := Some (fst ?h)\<rparr>) \<and>
       bytes_read re rr c = (case readBuf c of None \<Rightarrow> [] | Some b \<Rightarrow> kernel_bytes rr b) \<or>
     conn_event cb re rr rs c = handleWritEvent cb rs (c\<lparr>chan := Some (fst ?h)\<rparr>) \<and> bytes_read re rr c = [] \<or>
     conn_event cb re rr rs c = handleErroEvent cb (c\<lparr>chan := Some (fst ?h)\<rparr>) \<and> bytes_read re rr c = []"
    using assms by (cases ?h) (auto simp: conn_event_def Let_def bytes_read_def reads_def split: option.splits callback.splits)
qed

section \<open>Connections of an application without callbacks for written data\<close>

text \<open>
  A connection whose application reads all there is at a time, and has callbacks for data and for
  errors only.
\<close>

definition conn_live :: "'u conn \<Rightarrow> bool" where
  "conn_live c \<longleftrightarrow> (\<exists>ch b. chan c = Some ch \<and> on_erro ch \<and> readBuf c = Some b \<and> wf_buffer b \<and> 0 < cap b \<and> contents b = []) \<and>
     conn_ok c \<and> cb_read c \<and> cb_erro c \<and> \<not> cb_writ c \<and> \<not> cb_limit c"

text \<open>It is watched for reading, or has something to write before it is again.\<close>

definition passed :: "u32 \<Rightarrow> 'u conn \<Rightarrow> bool" where
  "passed k c = (case chan c of None \<Rightarrow> True
     | Some ch \<Rightarrow> (events ch AND k \<noteq> 0 \<longrightarrow> polled c AND k \<noteq> 0) \<and> (savedEvents ch AND k \<noteq> 0 \<longrightarrow> polled c AND k \<noteq> 0))"

definition attended :: "'u conn \<Rightarrow> bool" where
  "attended c \<longleftrightarrow> passed kRead c \<and> (case chan c of None \<Rightarrow> True | Some ch \<Rightarrow> events ch AND kRead = 0 \<longrightarrow> writTasks c \<noteq> [])"

text \<open>What an event that is not an error keeps.\<close>

definition keeps :: "'u conn \<Rightarrow> 'u conn \<Rightarrow> bool" where
  "keeps c c' \<longleftrightarrow> conn_live c' \<and> outgoing c' = outgoing c \<and> udata c' = udata c \<and> (attended c \<longrightarrow> attended c')"

lemma conn_liveE:
  assumes "conn_live c"
  obtains ch b where "chan c = Some ch" "on_erro ch" "readBuf c = Some b" "wf_buffer b" "0 < cap b" "contents b = []"
    "conn_ok c" "cb_read c" "cb_erro c" "\<not> cb_writ c" "\<not> cb_limit c"
  using assms by (auto simp: conn_live_def)

lemma live_polled: "conn_live c \<Longrightarrow> writTasks c \<noteq> [] \<Longrightarrow> polled c AND kWrit \<noteq> 0"
  by (auto simp: conn_live_def conn_ok_def)

lemma attended_polled: "conn_live c \<Longrightarrow> attended c \<Longrightarrow> polled c AND (if writTasks c = [] then kRead else kWrit) \<noteq> 0"
  by (auto simp: attended_def passed_def live_polled elim: conn_liveE)

lemma read_bits [simp]:
  "enable kRead True e AND kRead \<noteq> 0" "enable kRead False e AND kRead = 0" "enable kWrit b e AND kRead = e AND kRead"
proof -
  have z: "x AND kRead = 0 \<longleftrightarrow> \<not> bit x 0" for x :: u32 using and_exp_eq_0_iff_not_bit [of x 0] by simp
  show "enable kRead True e AND kRead \<noteq> 0" "enable kRead False e AND kRead = 0"
    unfolding z by (simp_all add: enable_def bit_or_iff bit_and_iff bit_not_iff)
  show "enable kWrit b e AND kRead = e AND kRead"
    by (simp add: enable_def bit.conj_disj_distrib2 and.assoc)
qed

lemma enable_fields [simp]:
  "events (enableRead b ch) = enable kRead b (events ch)" "savedEvents (enableRead b ch) = savedEvents ch" "on_erro (enableRead b ch) = on_erro ch"
  "events (enableWrit b ch) = enable kWrit b (events ch)" "on_erro (enableWrit b ch) = on_erro ch"
  by (simp_all add: enableRead_def enableWrit_def)

text \<open>The events of the channel have changed and are passed on.\<close>

lemma update_keeps:
  assumes "conn_live c" "chan c = Some ch" "on_erro ch'" "savedEvents ch' = savedEvents ch" "writTasks c = [] \<or> events ch' AND kWrit \<noteq> 0"
    and "events ch' AND kRead \<noteq> 0 \<or> writTasks c \<noteq> []"
  shows "\<exists>c'. updateChanel (c\<lparr>chan := Some ch'\<rparr>) = Inr c' \<and> conn_live c' \<and> outgoing c' = outgoing c \<and> udata c' = udata c \<and>
    (passed kRead c \<longrightarrow> attended c')"
proof -
  let ?c = "c\<lparr>polled := (if isEventsChanged ch' then events ch' else polled c), chan := Some (ch'\<lparr>savedEvents := events ch'\<rparr>)\<rparr>"
  have u: "updateChanel (c\<lparr>chan := Some ch'\<rparr>) = Inr ?c" by (simp add: updateChanel_def)
  have "conn_ok ?c" using assms(1,2,4,5) by (auto simp: conn_live_def conn_ok_def isEventsChanged_def)
  then have "conn_live ?c" using assms(1,2,3) by (auto simp: conn_live_def)
  moreover have "passed kRead c \<longrightarrow> attended ?c" using assms(2,4,6) by (auto simp: attended_def passed_def isEventsChanged_def)
  ultimately show ?thesis using u by (simp add: outgoing_def)
qed

text \<open>The channel passed on keeps what it had.\<close>

lemma update_same:
  assumes "conn_live c"
  shows "\<exists>c'. updateChanel c = Inr c' \<and> keeps c c'"
proof -
  from assms obtain ch where ch: "chan c = Some ch" "on_erro ch" "conn_ok c" by (elim conn_liveE)
  let ?c = "c\<lparr>polled := (if isEventsChanged ch then events ch else polled c), chan := Some (ch\<lparr>savedEvents := events ch\<rparr>)\<rparr>"
  have u: "updateChanel c = Inr ?c" using ch by (simp add: updateChanel_def)
  have "conn_ok ?c" using ch by (auto simp: conn_ok_def isEventsChanged_def)
  then have "conn_live ?c" using assms ch by (auto simp: conn_live_def)
  moreover have "attended c \<longrightarrow> attended ?c" using ch by (auto simp: attended_def passed_def isEventsChanged_def)
  ultimately show ?thesis using u by (simp add: keeps_def outgoing_def)
qed

lemma after_read_keeps:
  assumes "conn_live c"
  shows "\<exists>c'. after_read cb c = Inr c' \<and> conn_live c' \<and> outgoing c' = outgoing c \<and> udata c' = udata c \<and> (writTasks c \<noteq> [] \<longrightarrow> attended c \<longrightarrow> attended c')"
proof (cases "writBytes c \<ge> writableLimit c")
  case True
  from assms obtain ch where ch: "chan c = Some ch" "on_erro ch" "\<exists>b. readBuf c = Some b" "conn_ok c" "\<not> cb_limit c" by (auto elim: conn_liveE)
  let ?c = "c\<lparr>chan := Some (enableRead False ch)\<rparr>"
  have "after_read cb c = updateChanel ?c" using True ch by (auto simp: after_read_def on_chan_def)
  moreover have "conn_live ?c" "outgoing ?c = outgoing c" "writTasks c \<noteq> [] \<longrightarrow> attended c \<longrightarrow> attended ?c"
    using assms ch by (auto simp: conn_live_def conn_ok_def outgoing_def attended_def passed_def)
  ultimately show ?thesis using update_same [of ?c] by (auto simp: keeps_def)
next
  case False
  then have "after_read cb c = updateChanel c" using assms by (auto simp: after_read_def elim!: conn_liveE)
  then show ?thesis using update_same [OF assms] by (auto simp: keeps_def)
qed

section \<open>Events of such connections\<close>

lemma live_writ:
  assumes "conn_live c"
  obtains (keep) c' where "handleWritEvent cb rs c = Inr c'" "keeps c c'"
  | (erro) c1 rest where "handleWritEvent cb rs c = handleErroEvent cb c1" "cb_erro c1" "udata c1 = udata c" "sent c1 @ rest = outgoing c"
proof -
  from assms obtain ch where ch: "chan c = Some ch" "on_erro ch" "conn_ok c" "cb_erro c" "\<not> cb_writ c" by (elim conn_liveE)
  have t: "list_all task_ok (writTasks c)" using ch by (simp add: conn_ok_def)
  from ch(1) t show thesis
  proof (cases rule: writ_event_cases [where cb = cb and rs = rs])
    case idle
    have "keeps c (c\<lparr>chan := Some (enableWrit False ch)\<rparr>)" using assms idle(1) ch
      by (auto simp: keeps_def conn_live_def conn_ok_def outgoing_def attended_def passed_def)
    with idle(2) show thesis by (rule keep)
  next
    case (all e n c1)
    let ?ch = "enableWrit False (enableRead True ch)"
    let ?c = "c\<lparr>writTasks := [], sent := outgoing c, errno := e, writBytes := n\<rparr>"
    have l: "conn_live ?c" "chan ?c = Some ch" using assms ch by (auto simp: conn_live_def conn_ok_def)
    have "handleWritEvent cb rs c = updateChanel (?c\<lparr>chan := Some ?ch\<rparr>)" using all ch(5) by simp
    moreover from update_keeps [OF l, of ?ch] obtain c' where "updateChanel (?c\<lparr>chan := Some ?ch\<rparr>) = Inr c'" "conn_live c'" "outgoing c' = outgoing ?c" "udata c' = udata ?c"
      "passed kRead ?c \<longrightarrow> attended c'" using ch by auto
    moreover have "outgoing ?c = outgoing c" "passed kRead ?c = passed kRead c" using ch(1) by (simp_all add: outgoing_def passed_def)
    ultimately show thesis using keep [of c'] by (auto simp: keeps_def attended_def)
  next
    case (again ts out)
    then have "keeps c (c\<lparr>writTasks := ts, sent := out, errno := EAGAIN\<rparr>)" using assms ch
      by (auto simp: keeps_def conn_live_def conn_ok_def outgoing_def attended_def passed_def)
    with again(5) show thesis by (rule keep)
  next
    case (erro ts out e)
    show thesis by (rule that(2) [OF erro(2), where rest = "tasks_bytes ts"]) (simp_all add: ch(4) erro(1))
  qed
qed

lemma live_read:
  assumes "conn_live c"
  obtains (keep) b c' where "handleReadEvent cb rr c = Inr c'" "keeps c c'" "readBuf c = Some b" "kernel_bytes rr b = []"
  | (erro) b c1 where "handleReadEvent cb rr c = handleErroEvent cb c1" "cb_erro c1" "udata c1 = udata c" "sent c1 @ tasks_bytes (writTasks c) = outgoing c"
      "readBuf c = Some b" "kernel_bytes rr b = []"
  | (got) b b' where "readBuf c = Some b" "wf_buffer b'" "0 < cap b'" "contents b' = kernel_bytes rr b"
      "handleReadEvent cb rr c = rbind (readEvent cb (c\<lparr>readBuf := Some b'\<rparr>)) (after_read cb)"
proof -
  from assms obtain ch b where c: "chan c = Some ch" "on_erro ch" "readBuf c = Some b" "wf_buffer b" "0 < cap b" "contents b = []"
    "cb_read c" "cb_erro c" by (elim conn_liveE)
  from c(3-5) show thesis
  proof (cases rule: read_event_cases [where cb = cb and rr = rr])
    case again
    moreover have "keeps c (c\<lparr>errno := EAGAIN\<rparr>)" using assms c(1)
      by (auto simp: keeps_def conn_live_def conn_ok_def outgoing_def attended_def passed_def)
    ultimately show thesis using c(3) by (intro keep)
  next
    case (erro b' e)
    show thesis by (rule that(2) [OF erro(1) _ _ _ c(3) erro(2)]) (simp_all add: c(8) outgoing_def)
  next
    case (got b')
    then show thesis using c(3,6,7) by (intro that(3)) auto
  qed
qed

text \<open>A new task is put last, and the connection is watched for writability.\<close>

lemma push_task_passes:
  assumes "chan c = Some ch" "conn_ok c"
  shows "\<exists>ch' p. push_task t c = Inr (c\<lparr>writTasks := writTasks c @ [t], chan := Some ch', polled := p\<rparr>) \<and>
    events ch' AND kWrit \<noteq> 0 \<and> savedEvents ch' = events ch' \<and> on_erro ch' = on_erro ch \<and> p AND kWrit \<noteq> 0 \<and>
    (passed kRead c \<longrightarrow> events ch' AND kRead \<noteq> 0 \<longrightarrow> p AND kRead \<noteq> 0)"
proof -
  let ?ch = "enableWrit True ch"
  let ?p = "if isEventsChanged ?ch then events ?ch else polled c"
  have "push_task t c = Inr (c\<lparr>writTasks := writTasks c @ [t], chan := Some (?ch\<lparr>savedEvents := events ?ch\<rparr>), polled := ?p\<rparr>)"
    using assms(1) by (simp add: push_task_def on_chan_def updateChanel_def)
  moreover have "savedEvents ch AND kWrit \<noteq> 0" if "\<not> isEventsChanged ?ch"
  proof -
    have "savedEvents ch = enable kWrit True (events ch)" using that by (simp add: isEventsChanged_def)
    then show ?thesis by simp
  qed
  then have "?p AND kWrit \<noteq> 0" using assms by (auto simp: conn_ok_def)
  moreover have "passed kRead c \<longrightarrow> events ?ch AND kRead \<noteq> 0 \<longrightarrow> ?p AND kRead \<noteq> 0" using assms(1) by (simp add: passed_def isEventsChanged_def)
  ultimately show ?thesis by (intro exI [of _ "?ch\<lparr>savedEvents := events ?ch\<rparr>"] exI [of _ ?p]) simp
qed

text \<open>A buffer handed over becomes the last task, and is exchanged for an empty one of its size.\<close>

lemma send_buffer_ok:
  assumes "chan c = Some ch" "readBuf c = Some rb" "wf_buffer b" "0 < cap b" "conn_ok c"
  shows "\<exists>ch' p n. conn_send_buffer b c = Inr (Buffer_length (cap b),
      c\<lparr>writTasks := writTasks c @ [conn_task_new\<lparr>tbuffer := Some b\<rparr>], chan := Some ch', polled := p, writBytes := n\<rparr>) \<and>
    events ch' AND kWrit \<noteq> 0 \<and> savedEvents ch' = events ch' \<and> on_erro ch' = on_erro ch \<and> p AND kWrit \<noteq> 0 \<and>
    (passed kRead c \<longrightarrow> events ch' AND kRead \<noteq> 0 \<longrightarrow> p AND kRead \<noteq> 0)"
proof -
  define n where "n = writBytes c + int (rightIndex b - leftIndex b)"
  let ?t = "conn_task_new\<lparr>tbuffer := Some b\<rparr>"
  let ?c = "c\<lparr>writBytes := n\<rparr>"
  have "bsize b = Inr (rightIndex b - leftIndex b)" "capacity b = Inr (cap b)" using assms(3,4) by (auto simp: capacity_def wf_buffer_def)
  then have send: "conn_send_buffer b c = rbind (push_task ?t ?c) (\<lambda>c1. Inr (Buffer_length (cap b), c1))"
    using assms(2) by (simp add: conn_send_buffer_def swap_buffers_def n_def)
  have swap: "?c\<lparr>writTasks := ts, chan := x, polled := p\<rparr> = c\<lparr>writTasks := ts, chan := x, polled := p, writBytes := n\<rparr>" for ts x p
    by (cases c) simp
  have "chan ?c = Some ch" "conn_ok ?c" "passed kRead ?c = passed kRead c" using assms(1,5) by (simp_all add: conn_ok_def passed_def)
  with push_task_passes [of ?c ch ?t] show ?thesis unfolding send by (fastforce simp: swap)
qed

lemma task_of_buffer:
  "wf_buffer b \<Longrightarrow> 0 < cap b \<Longrightarrow> task_ok (conn_task_new\<lparr>tbuffer := Some b\<rparr>)" "task_bytes (conn_task_new\<lparr>tbuffer := Some b\<rparr>) = contents b"
  by (auto simp: task_ok_def task_bytes_def conn_task_new_def wf_buffer_def split: option.splits)

section \<open>Applications\<close>

text \<open>
  What an application promises about its callbacks, for a connection that is \<open>good\<close> after the bytes \<open>r\<close> were
  received: the state behind \<open>udata\<close> and the bytes handed over are all that matters, an error and new
  bytes lead to a state that is \<open>safe\<close>. Then every event does.
\<close>

locale live_app =
  fixes cb :: "'u conn_callbacks" and good :: "cell list \<Rightarrow> 'u conn \<Rightarrow> bool" and safe :: "cell list \<Rightarrow> 'u conn \<Rightarrow> bool"
  assumes good_live: "good r c \<Longrightarrow> conn_live c"
    and good_keeps: "good r c \<Longrightarrow> keeps c c' \<Longrightarrow> good r c'"
    and good_safe: "good r c \<Longrightarrow> safe r c"
    and good_erro: "good r c \<Longrightarrow> cb_erro c1 \<Longrightarrow> udata c1 = udata c \<Longrightarrow> sent c1 @ rest = outgoing c \<Longrightarrow>
      \<exists>c'. handleErroEvent cb c1 = Inr c' \<and> safe r c'"
    and good_read: "good r c \<Longrightarrow> wf_buffer b \<Longrightarrow> 0 < cap b \<Longrightarrow>
      \<exists>c'. rbind (readEvent cb (c\<lparr>readBuf := Some b\<rparr>)) (after_read cb) = Inr c' \<and> safe (r @ contents b) c'"
begin

lemma app_writ:
  assumes "good r c"
  shows "\<exists>c'. handleWritEvent cb rs c = Inr c' \<and> safe r c'"
  using good_live [OF assms]
proof (cases rule: live_writ [where cb = cb and rs = rs])
  case (keep c')
  then show ?thesis using good_keeps [OF assms] good_safe by auto
next
  case (erro c1 rest)
  then show ?thesis using good_erro [OF assms, of c1 rest] by simp
qed

lemma app_read:
  assumes "good r c"
  shows "\<exists>c'. handleReadEvent cb rr c = Inr c' \<and> safe (r @ (case readBuf c of None \<Rightarrow> [] | Some b \<Rightarrow> kernel_bytes rr b)) c'"
  using good_live [OF assms]
proof (cases rule: live_read [where cb = cb and rr = rr])
  case (keep b c')
  then show ?thesis using good_keeps [OF assms] good_safe by auto
next
  case (erro b c1)
  then show ?thesis using good_erro [OF assms, of c1 "tasks_bytes (writTasks c)"] by simp
next
  case (got b b')
  then show ?thesis using good_read [OF assms got(2,3)] by simp
qed

lemma app_event:
  assumes "good r c" "chan c = Some ch"
  shows "\<exists>c'. conn_event cb re rr rs c = Inr c' \<and> safe (r @ bytes_read re rr c) c'"
  using assms(2)
proof (cases rule: conn_event_cases [where cb = cb and re = re and rr = rr and rs = rs])
  case (event ch1)
  let ?c = "c\<lparr>chan := Some ch1\<rparr>"
  have "keeps c ?c" using good_live [OF assms(1)] event(1-3) assms(2)
    by (auto simp: keeps_def conn_live_def conn_ok_def outgoing_def attended_def passed_def)
  with assms(1) have g: "good r ?c" by (rule good_keeps)
  have "cb_erro ?c" "sent ?c @ tasks_bytes (writTasks ?c) = outgoing ?c" using good_live [OF g] by (auto simp: outgoing_def conn_live_def)
  from good_erro [OF g this(1) refl this(2)] app_writ [OF g, of rs] app_read [OF g, of rr] good_safe [OF g] event(4)
  show ?thesis by auto
qed

end

end
