(* ===== verification/Http_Connection.thy ===== *)
theory Http_Connection
  imports Http_Shift Conn_Flow
begin

text \<open>
  The callbacks of the HTTP server (\<open>liby_cpp/http/HttpServer.cpp\<close>) on the connections of the library:
  the request parser works on the read buffer, replies go through the write tasks, and the context
  hangs on \<open>udata_\<close>. The theory shows that the context is never used after it was deleted, that it
  is deleted once, and where a run of the server can stop.
\<close>

section \<open>The callbacks\<close>

text \<open>
  The context of a connection (\<open>HttpContext\<close>) is allocated with \<open>new\<close>. The user data of a connection
  is \<open>None\<close> until then; afterwards it tells the value of the pointer \<open>udata_\<close> (\<open>Points\<close> to the object,
  or \<open>Nulled\<close>) and, whatever that value, the state of the object that was allocated: \<open>Live\<close> with its
  fields, or \<open>Dead\<close>. A context the pointer has lost without deleting it is \<open>Nulled (Live x)\<close>; using
  or deleting a deleted object is \<open>WildDeref\<close>.
\<close>

record http_context =
  ctx_keep_alive :: bool
  ctx_req :: request

datatype http_object = Live http_context | Dead

datatype http_ptr = Points http_object | Nulled http_object

text \<open>
  What the server finds outside: the order of hash maps, the file system, the contents of an open
  file, the date, the root; \<open>env_junk\<close> stands for bytes of a buffer that nobody has written.
\<close>

record http_env =
  env_iter :: "(byte list \<times> byte list) list \<Rightarrow> (byte list \<times> byte list) list"
  env_stat :: "byte list \<Rightarrow> int"
  env_open :: "byte list \<Rightarrow> int"
  env_file :: "int \<Rightarrow> cell list"
  env_date :: "byte list"
  env_root :: "byte list"
  env_junk :: byte

definition get_context :: "http_ptr conn \<Rightarrow> http_context res" where
  "get_context c =
     (case udata c of Some (Points (Live x)) \<Rightarrow> Inr x | Some (Points Dead) \<Rightarrow> Inl WildDeref | _ \<Rightarrow> Inl AssertFail)"

definition set_context :: "http_context \<Rightarrow> http_ptr conn \<Rightarrow> http_ptr conn" where
  "set_context x c = c\<lparr>udata := Some (Points (Live x))\<rparr>"

text \<open>\<open>delete context\<close> on the object \<open>udata_\<close> points to, and \<open>udata_ = nullptr\<close>, which leaves the object as it is.\<close>

definition delete_context :: "http_ptr conn \<Rightarrow> http_ptr conn res" where
  "delete_context c =
     (case udata c of Some (Points (Live x)) \<Rightarrow> Inr (c\<lparr>udata := Some (Points Dead)\<rparr>)
      | Some (Points Dead) \<Rightarrow> Inl WildDeref | _ \<Rightarrow> Inr c)"

definition null_context :: "http_ptr conn \<Rightarrow> http_ptr conn" where
  "null_context c = (case udata c of Some (Points ob) \<Rightarrow> c\<lparr>udata := Some (Nulled ob)\<rparr> | _ \<Rightarrow> c)"

definition has_udata :: "http_ptr conn \<Rightarrow> bool" where
  "has_udata c = (case udata c of Some (Points ob) \<Rightarrow> True | _ \<Rightarrow> False)"

definition http_onAccept :: "bool \<Rightarrow> http_ptr conn \<Rightarrow> http_ptr conn" where
  "http_onAccept alloc c =
     (if alloc then set_context \<lparr>ctx_keep_alive = True, ctx_req = request_new\<rparr> c else conn_destroy c)"

text \<open>The replies: to a request with an error, and to a complete one, with the file behind it.\<close>

definition http_send_error :: "http_env \<Rightarrow> http_context \<Rightarrow> http_ptr conn \<Rightarrow> http_ptr conn res" where
  "http_send_error env x c =
     rbind (conn_send (reply_toString (env_iter env)
         (reply_new\<lparr>rep_status := BAD_REQUEST, rep_headers := put_header (bytes ''Date'') (env_date env) []\<rparr>)) c) (\<lambda>c.
     Inr (set_context (x\<lparr>ctx_keep_alive := False\<rparr>) c))"

definition http_send_reply :: "http_env \<Rightarrow> reply \<Rightarrow> http_ptr conn \<Rightarrow> http_ptr conn res" where
  "http_send_reply env rep c =
     rbind (conn_send (reply_toString (env_iter env) rep) c) (\<lambda>c.
     case filefd rep of None \<Rightarrow> Inr c | Some fd \<Rightarrow> conn_sendFile (env_file env fd) 0 (nat (filesize rep)) c)"

fun http_read_loop :: "nat \<Rightarrow> http_env \<Rightarrow> http_ptr conn \<Rightarrow> http_ptr conn res" where
  "http_read_loop 0 env c = Inl NoReturn"
| "http_read_loop (Suc k) env c =
     rbind (deref (readBuf c)) (\<lambda>b.
     rbind (bsize b) (\<lambda>n.
     if n = 0 then Inr c
     else
       rbind (get_context c) (\<lambda>x.
       rbind (data b) (\<lambda>(m, off).
       rbind (parse (map (cell_byte (env_junk env)) (take (off + n) m)) off (ctx_req x)) (\<lambda>r.
       rbind (retrieve (int (rbytes r) - int (rbytes (ctx_req x))) b) (\<lambda>b'.
       let x1 = x\<lparr>ctx_req := r\<rparr>; c1 = set_context x1 (c\<lparr>readBuf := Some b'\<rparr>) in
       if isError r then http_send_error env x1 c1
       else if isGood r then
         (let rep = good_reply (env_stat env) (env_open env) (env_root env) r; r' = request_clear r;
              r'' = r'\<lparr>headers := header_entry (bytes ''Connection'') (headers r')\<rparr>; x2 = x1\<lparr>ctx_req := r''\<rparr> in
          rbind (http_send_reply env rep c1) (\<lambda>c2.
          if getFileSize (env_stat env) (filepath rep) < 0 \<or> openFile (env_open env) (filepath rep) < 0 \<or>
             map_of (headers r'') (bytes ''Connection'') \<noteq> Some (bytes ''keep-alive'')
          then Inr (set_context (x2\<lparr>ctx_keep_alive := False\<rparr>) c2)
          else http_read_loop k env (set_context x2 c2)))
       else Inr c1))))))"

definition http_onRead :: "nat \<Rightarrow> http_env \<Rightarrow> http_ptr conn \<Rightarrow> http_ptr conn res" where
  "http_onRead k env c = rbind (guard (has_udata c) AssertFail) (\<lambda>_. http_read_loop k env c)"

definition http_onWriteAll :: "http_ptr conn \<Rightarrow> http_ptr conn res" where
  "http_onWriteAll c =
     rbind (guard (has_udata c) AssertFail) (\<lambda>_.
     rbind (get_context c) (\<lambda>x.
     if ctx_keep_alive x then Inr c
     else rbind (delete_context c) (\<lambda>c. Inr (conn_destroy c))))"

definition http_onErro :: "http_ptr conn \<Rightarrow> http_ptr conn res" where
  "http_onErro c =
     (if has_udata c then rbind (delete_context c) (\<lambda>c. Inr (null_context c)) else Inr c)"

text \<open>
  The callbacks of a connection of the server: \<open>TcpServer::handleErroEventOfConn\<close> calls that of the
  server and destroys the connection.
\<close>

definition http_callbacks :: "nat \<Rightarrow> http_env \<Rightarrow> http_ptr conn_callbacks" where
  "http_callbacks k env = \<lparr>readEvent = http_onRead k env, writeAll = http_onWriteAll,
     erroEvent = (\<lambda>c. rbind (http_onErro c) (\<lambda>c. Inr (conn_destroy c))), limitEvent = Inr\<rparr>"

definition http_accept :: "bool \<Rightarrow> nat \<Rightarrow> http_ptr conn res" where
  "http_accept alloc fd =
     rbind (Connection_init ((Connection_new fd)\<lparr>cb_read := True, cb_writ := True, cb_erro := True\<rparr>)) (\<lambda>c.
     Inr (http_onAccept alloc c))"

text \<open>The events the poller reports, with the results of the system calls; a destroyed connection gets none.\<close>

fun http_run :: "http_ptr conn_callbacks \<Rightarrow> (u32 \<times> readv_result \<times> writ_result list) list \<Rightarrow> http_ptr conn \<Rightarrow> http_ptr conn res" where
  "http_run cb [] c = Inr c"
| "http_run cb ((re, rr, rs) # es) c =
     (if chan c = None then Inr c else rbind (conn_event cb re rr rs c) (http_run cb es))"

section \<open>The faults of the parser\<close>

abbreviation parse_faults :: "c_fault set" where
  "parse_faults \<equiv> {OutOfBounds, Terminate, AssertFail}"

lemma aread_fault: "aread m i = Inl e \<Longrightarrow> e \<in> parse_faults"
  by (auto simp: aread_def split: if_splits)

lemma back_space_fault: "back_space m k = Inl e \<Longrightarrow> e \<in> parse_faults"
  by (induction k) (auto simp: rbind_eq_Inl split: if_splits dest: aread_fault)

lemma skip_space_fault: "skip_space xs = Inl e \<Longrightarrow> e \<in> parse_faults"
  by (induction xs) (auto simp: rbind_eq_Inl split: if_splits)

lemma parse_hex_fault: "request_parse_hex m i = Inl e \<Longrightarrow> e \<in> parse_faults"
  by (auto simp: request_parse_hex_def parse_hex_def rbind_eq_Inl dest: aread_fault)

lemma ParseHeader_fault: "ParseHeader m b e r = Inl x \<Longrightarrow> x \<in> parse_faults"
  by (auto simp: ParseHeader_def rbind_eq_Inl make_string_def guard_def split: option.splits if_splits dest: back_space_fault skip_space_fault)

lemma uri_loop_fault: "uri_loop m src n i temp q = Inl e \<Longrightarrow> e \<in> parse_faults"
proof (induction m src n i temp q rule: uri_loop.induct)
  case (1 m src n i temp q)
  from 1(3) show ?case
    by (subst (asm) uri_loop.simps)
      (auto simp: rbind_eq_Inl Let_def split: if_splits dest: aread_fault parse_hex_fault 1(1,2))
qed

lemma header_loop_fault: "header_loop m b r = Inl e \<Longrightarrow> e \<in> parse_faults"
proof (induction m b r rule: header_loop.induct)
  case (1 m b r)
  from 1(2) show ?case
    by (subst (asm) header_loop.simps)
      (auto simp: rbind_eq_Inl line_end_def split: if_splits option.splits dest: ParseHeader_fault 1(1))
qed

lemma parse_fault: "parse m b r = Inl e \<Longrightarrow> e \<in> parse_faults"
  by (auto simp: parse_def method_step_def uri_step_def version_step_def ParseURI_def ParseHttpVersion_def rbind_eq_Inl line_end_def guard_def
      split: status.splits option.splits prod.splits if_splits dest: header_loop_fault uri_loop_fault)

section \<open>The context is used while it lives\<close>

definition chan_set :: "channel \<Rightarrow> bool" where
  "chan_set ch \<longleftrightarrow> on_read ch \<and> on_writ ch \<and> on_erro ch"

definition http_live :: "http_ptr conn \<Rightarrow> bool" where
  "http_live c \<longleftrightarrow> (\<exists>b x. readBuf c = Some b \<and> wf_buffer b \<and> 0 < cap b \<and> udata c = Some (Points (Live x))) \<and>
     list_all task_ok (writTasks c) \<and> cb_read c \<and> cb_writ c \<and> cb_erro c \<and> \<not> cb_limit c"

definition http_deleted :: "http_ptr conn \<Rightarrow> bool" where
  "http_deleted c \<longleftrightarrow> udata c = Some (Points Dead) \<or> udata c = Some (Nulled Dead)"

definition http_ok :: "http_ptr conn \<Rightarrow> bool" where
  "http_ok c = (case chan c of None \<Rightarrow> http_deleted c | Some ch \<Rightarrow> http_live c)"

text \<open>
  The parser stops at a read event: the bytes of the system call have been put into the read buffer,
  and the parser faults on the bytes of the buffer, going on with the request of the context.
\<close>

definition parser_stops :: "http_env \<Rightarrow> readv_result \<Rightarrow> http_ptr conn \<Rightarrow> c_fault \<Rightarrow> bool" where
  "parser_stops env rr c e \<longleftrightarrow> (\<exists>ch n c' b x. tryRead rr (c\<lparr>chan := ch\<rparr>) = Inr (n, c') \<and> readBuf c' = Some b \<and>
     udata c' = Some (Points (Live x)) \<and>
     parse (map (cell_byte (env_junk env)) (take (rightIndex b) (block b))) (leftIndex b) (ctx_req x) = Inl e)"

text \<open>A step is safe if it keeps the invariant, and its faults are those of \<open>F\<close>.\<close>

definition http_safe :: "(c_fault \<Rightarrow> bool) \<Rightarrow> http_ptr conn res \<Rightarrow> bool" where
  "http_safe F res = (case res of Inl e \<Rightarrow> F e | Inr c \<Rightarrow> http_ok c)"

lemma http_safe_simps [simp]: "http_safe F (Inr c) = http_ok c" "http_safe F (Inl e) = F e"
  by (simp_all add: http_safe_def)

lemma http_live_task: "http_live c \<Longrightarrow> task_ok t \<Longrightarrow> http_live (c\<lparr>writTasks := writTasks c @ [t]\<rparr>)"
  by (simp add: http_live_def)

lemma http_live_simps [simp]:
  "http_live (c\<lparr>chan := ch\<rparr>) = http_live c" "http_live (c\<lparr>polled := p\<rparr>) = http_live c" "http_live (c\<lparr>writBytes := n\<rparr>) = http_live c"
  "http_live (c\<lparr>errno := e\<rparr>) = http_live c" "http_live (c\<lparr>sent := out\<rparr>) = http_live c"
  by (simp_all add: http_live_def)

lemma push_task_live:
  assumes "http_live c" "chan c = Some ch" "task_ok t"
  shows "\<exists>ch' p. push_task t c = Inr (c\<lparr>writTasks := writTasks c @ [t], polled := p, chan := Some ch'\<rparr>)"
proof -
  let ?ch = "enableWrit True ch"
  let ?p = "if isEventsChanged ?ch then events ?ch else polled c"
  have "push_task t c = Inr (c\<lparr>writTasks := writTasks c @ [t], polled := ?p, chan := Some (?ch\<lparr>savedEvents := events ?ch\<rparr>)\<rparr>)"
    using assms(2) by (simp add: push_task_def on_chan_def updateChanel_def)
  then show ?thesis by blast
qed

lemma send_live:
  assumes "http_live c" "chan c \<noteq> None"
  shows "\<exists>c'. conn_send bs c = Inr c' \<and> http_live c' \<and> chan c' \<noteq> None"
proof -
  obtain ch where ch: "chan c = Some ch" using assms(2) by auto
  have "readBuf c \<noteq> None" using assms(1) by (auto simp: http_live_def)
  with push_task_live [OF assms(1) ch Buffer_bytes_ok(1), of bs] show ?thesis
    by (auto simp: conn_send_def http_live_task [OF assms(1) Buffer_bytes_ok(1)])
qed

lemma sendFile_live:
  assumes "http_live c" "chan c \<noteq> None"
  shows "\<exists>c'. conn_sendFile f off n c = Inr c' \<and> http_live c' \<and> chan c' \<noteq> None"
proof -
  obtain ch where ch: "chan c = Some ch" using assms(2) by auto
  have t: "task_ok (conn_task_new\<lparr>fp := Some f, toffset := off, tlen := n\<rparr>)" by (simp add: task_ok_def)
  from push_task_live [OF assms(1) ch t] show ?thesis by (auto simp: conn_sendFile_def http_live_task [OF assms(1) t])
qed

lemma set_context_live: "http_live c \<Longrightarrow> http_live (set_context x c)" "chan (set_context x c) = chan c"
  by (auto simp: http_live_def set_context_def)

lemma send_error_live:
  "http_live c \<Longrightarrow> chan c \<noteq> None \<Longrightarrow> \<exists>c'. http_send_error env x c = Inr c' \<and> http_live c' \<and> chan c' \<noteq> None"
  using send_live [of c "reply_toString (env_iter env)
      (reply_new\<lparr>rep_status := BAD_REQUEST, rep_headers := put_header (bytes ''Date'') (env_date env) []\<rparr>)"]
  by (auto simp: http_send_error_def set_context_live simp del: put_header.simps)

lemma send_reply_live:
  assumes "http_live c" "chan c \<noteq> None"
  shows "\<exists>c'. http_send_reply env rep c = Inr c' \<and> http_live c' \<and> chan c' \<noteq> None"
proof -
  from send_live [OF assms] obtain c1 where "conn_send (reply_toString (env_iter env) rep) c = Inr c1" "http_live c1" "chan c1 \<noteq> None" by blast
  with sendFile_live [of c1] show ?thesis by (auto simp: http_send_reply_def split: option.splits)
qed

text \<open>The header \<open>Connection\<close> is looked up in a request that has been cleared.\<close>

lemma never_keep_alive: "map_of (headers ((request_clear r)\<lparr>headers := header_entry k (headers (request_clear r))\<rparr>)) k \<noteq> Some (bytes ''keep-alive'')"
  by (simp add: request_clear_def header_entry_def bytes_def)

lemma retrieve_live:
  assumes "wf_buffer b" "0 < cap b"
  shows "\<exists>b'. retrieve (int k) b = Inr b' \<and> wf_buffer b' \<and> 0 < cap b'"
proof (cases "k \<le> length (contents b)")
  case True
  with retrieve_ok [OF assms(1) True] assms(2) show ?thesis by auto
next
  case False
  then show ?thesis using assms by (auto simp: retrieve_def wf_buffer_def split: option.splits)
qed

text \<open>What the loop does after parsing, with the request \<open>r\<close> in the context \<open>x\<close>; it never goes round again.\<close>

definition http_after :: "http_env \<Rightarrow> request \<Rightarrow> http_context \<Rightarrow> http_ptr conn \<Rightarrow> http_ptr conn res" where
  "http_after env r x c =
     (let r' = (request_clear r)\<lparr>headers := header_entry (bytes ''Connection'') (headers (request_clear r))\<rparr> in
      if isError r then http_send_error env x c
      else if isGood r then
        rbind (http_send_reply env (good_reply (env_stat env) (env_open env) (env_root env) r) c) (\<lambda>c.
        Inr (set_context (x\<lparr>ctx_req := r', ctx_keep_alive := False\<rparr>) c))
      else Inr c)"

lemma read_loop_eq:
  assumes b: "readBuf c = Some b" "wf_buffer b" "0 < cap b" "leftIndex b < rightIndex b" and x: "udata c = Some (Points (Live x))"
  shows "http_read_loop (Suc k) env c =
    rbind (parse (map (cell_byte (env_junk env)) (take (rightIndex b) (block b))) (leftIndex b) (ctx_req x)) (\<lambda>r.
    rbind (retrieve (int (rbytes r) - int (rbytes (ctx_req x))) b) (\<lambda>b'.
    http_after env r (x\<lparr>ctx_req := r\<rparr>) (set_context (x\<lparr>ctx_req := r\<rparr>) (c\<lparr>readBuf := Some b'\<rparr>))))"
proof -
  from wf_memE [OF b(2,3)] obtain m where m: "mem b = Some m" "block b = m" by blast
  have d: "data b = Inr (m, leftIndex b)" using b(2) m by (simp add: data_def wf_buffer_def)
  show ?thesis using b x never_keep_alive [where k = "bytes ''Connection''"]
    by (auto simp: d m get_context_def Let_def http_after_def intro!: rbind_cong)
qed

lemma read_loop_live:
  assumes "http_live c" "chan c \<noteq> None"
  shows "case http_read_loop (Suc k) env c of Inr c' \<Rightarrow> http_live c' \<and> chan c' \<noteq> None
    | Inl e \<Rightarrow> \<exists>b x. readBuf c = Some b \<and> udata c = Some (Points (Live x)) \<and>
        parse (map (cell_byte (env_junk env)) (take (rightIndex b) (block b))) (leftIndex b) (ctx_req x) = Inl e"
proof -
  from assms(1) obtain b x where b: "readBuf c = Some b" "wf_buffer b" "0 < cap b" "udata c = Some (Points (Live x))" by (auto simp: http_live_def)
  show ?thesis
  proof (cases "leftIndex b < rightIndex b")
    case False
    then show ?thesis using assms b by simp
  next
    case True
    note eq = read_loop_eq [OF b(1-3) True b(4), of k env]
    show ?thesis
    proof (cases "parse (map (cell_byte (env_junk env)) (take (rightIndex b) (block b))) (leftIndex b) (ctx_req x)")
      case (Inl e)
      then show ?thesis unfolding eq using b by auto
    next
      case (Inr r)
      have "rbytes (ctx_req x) \<le> rbytes r" using parse_resume [OF Inr, of "[]"] by (simp add: resumed_def)
      moreover obtain b' where b': "retrieve (int (rbytes r - rbytes (ctx_req x))) b = Inr b'" "wf_buffer b'" "0 < cap b'"
        using retrieve_live [OF b(2,3), of "rbytes r - rbytes (ctx_req x)"] by blast
      ultimately have r: "retrieve (int (rbytes r) - int (rbytes (ctx_req x))) b = Inr b'" by (simp add: of_nat_diff)
      define c1 where "c1 = set_context (x\<lparr>ctx_req := r\<rparr>) (c\<lparr>readBuf := Some b'\<rparr>)"
      have c1: "http_live c1" "chan c1 \<noteq> None" using assms b'(2,3) by (auto simp: c1_def set_context_def http_live_def)
      from send_error_live [OF c1, of env "x\<lparr>ctx_req := r\<rparr>"] c1
        send_reply_live [OF c1, of env "good_reply (env_stat env) (env_open env) (env_root env) r"]
      show ?thesis unfolding eq
        by (auto simp: Inr r c1_def [symmetric] http_after_def Let_def set_context_live simp del: of_nat_diff)
    qed
  qed
qed

lemma http_okI: "http_live c \<Longrightarrow> chan c \<noteq> None \<Longrightarrow> http_ok c"
  by (auto simp: http_ok_def)

lemma http_dead: "http_deleted c \<Longrightarrow> http_ok (conn_destroy c)"
  by (simp add: http_ok_def conn_destroy_def http_deleted_def)

lemma live_context [simp]:
  assumes "udata c = Some (Points (Live x))"
  shows "has_udata c" "get_context c = Inr x" "delete_context c = Inr (c\<lparr>udata := Some (Points Dead)\<rparr>)"
  using assms by (simp_all add: has_udata_def get_context_def delete_context_def)

lemma erro_safe:
  assumes "cb_erro c" "udata c = Some (Points (Live x))"
  shows "http_safe F (handleErroEvent (http_callbacks k env) c)"
  using assms by (simp add: handleErroEvent_def http_callbacks_def http_onErro_def null_context_def)
    (simp add: http_ok_def conn_destroy_def http_deleted_def)

lemma update_safe: "http_live c \<Longrightarrow> chan c \<noteq> None \<Longrightarrow> http_safe F (updateChanel c)"
  by (auto simp: updateChanel_def http_ok_def)

lemma http_readEvent: "udata c = Some (Points ob) \<Longrightarrow> readEvent (http_callbacks k env) c = http_read_loop k env c"
  by (simp add: http_callbacks_def http_onRead_def has_udata_def)

lemma read_callback_safe:
  assumes "http_live c" "chan c \<noteq> None"
    and "\<And>e b x. readBuf c = Some b \<Longrightarrow> udata c = Some (Points (Live x)) \<Longrightarrow>
      parse (map (cell_byte (env_junk env)) (take (rightIndex b) (block b))) (leftIndex b) (ctx_req x) = Inl e \<Longrightarrow> F e"
  shows "http_safe F (rbind (readEvent (http_callbacks (Suc k) env) c) (after_read cb))"
proof -
  have u: "readEvent (http_callbacks (Suc k) env) c = http_read_loop (Suc k) env c"
    using assms(1) by (auto simp: http_live_def http_readEvent simp del: http_read_loop.simps)
  show ?thesis
  proof (cases "http_read_loop (Suc k) env c")
    case (Inl e)
    then show ?thesis using read_loop_live [OF assms(1,2), of env k] u assms(3) by (auto simp del: http_read_loop.simps)
  next
    case (Inr c')
    then have c': "http_live c'" "chan c' \<noteq> None" using read_loop_live [OF assms(1,2), of env k] by auto
    then have "\<not> cb_limit c'" "readBuf c' \<noteq> None" by (auto simp: http_live_def)
    with c' on_chan_live [OF c'(2), of "enableRead False"] show ?thesis
      by (auto simp: u Inr after_read_def intro!: update_safe simp del: http_read_loop.simps)
  qed
qed

lemma read_safe:
  assumes "http_live c" "chan c \<noteq> None"
  shows "http_safe (parser_stops env rr c) (handleReadEvent (http_callbacks (Suc k) env) rr c)"
proof -
  from assms(1) obtain b x where b: "readBuf c = Some b" "wf_buffer b" "0 < cap b" "udata c = Some (Points (Live x))" "cb_erro c" "cb_read c"
    by (auto simp: http_live_def)
  from b(1-3) show ?thesis
  proof (cases rule: read_event_cases [where cb = "http_callbacks (Suc k) env" and rr = rr])
    case again
    then show ?thesis using assms by (simp add: http_okI)
  next
    case (erro b' e)
    then show ?thesis using b erro_safe [where c = "c\<lparr>readBuf := Some b', errno := e\<rparr>" and x = x and k = "Suc k" and env = env] by simp
  next
    case (got b')
    let ?c = "c\<lparr>readBuf := Some b'\<rparr>"
    have live: "http_live ?c" "chan ?c \<noteq> None" using assms got by (auto simp: http_live_def)
    have same: "c\<lparr>chan := chan c\<rparr> = c" by (cases c) simp
    have "http_safe (parser_stops env rr c) (rbind (readEvent (http_callbacks (Suc k) env) ?c) (after_read (http_callbacks (Suc k) env)))"
    proof (rule read_callback_safe [OF live])
      fix e b1 x1
      assume "readBuf ?c = Some b1" "udata ?c = Some (Points (Live x1))"
        "parse (map (cell_byte (env_junk env)) (take (rightIndex b1) (block b1))) (leftIndex b1) (ctx_req x1) = Inl e"
      with got(6) same show "parser_stops env rr c e" unfolding parser_stops_def by metis
    qed
    with got(5) b(6) show ?thesis by simp
  qed
qed

lemma writ_safe:
  assumes "http_live c" "chan c \<noteq> None"
  shows "http_safe F (handleWritEvent (http_callbacks k env) rs c)"
proof -
  from assms(1) obtain x where x: "udata c = Some (Points (Live x))" "cb_erro c" "cb_writ c" "list_all task_ok (writTasks c)" by (auto simp: http_live_def)
  from assms(2) obtain ch where ch: "chan c = Some ch" by auto
  from ch x(4) show ?thesis
  proof (cases rule: writ_event_cases [where cb = "http_callbacks k env" and rs = rs])
    case idle
    then show ?thesis using assms(1) by (simp add: http_okI)
  next
    case (all e n c1)
    have "http_live c1" using assms(1) by (simp add: all(1) http_live_def)
    then have "http_safe F (updateChanel c1)" by (intro update_safe) (simp_all add: all(1))
    moreover have "udata c1 = Some (Points (Live x))" using x(1) by (simp add: all(1))
    then have "http_onWriteAll c1 = Inr (if ctx_keep_alive x then c1 else conn_destroy (c1\<lparr>udata := Some (Points Dead)\<rparr>))"
      by (simp add: http_onWriteAll_def)
    ultimately show ?thesis using x all by (simp add: http_callbacks_def destroy_ok(2) http_dead http_deleted_def)
  next
    case (again ts out)
    then have "http_live (c\<lparr>writTasks := ts, sent := out, errno := EAGAIN\<rparr>)" using assms(1) by (simp add: http_live_def)
    then show ?thesis using again(5) ch by (simp add: http_okI)
  next
    case (erro ts out e)
    then show ?thesis using x erro_safe [where c = "c\<lparr>writTasks := ts, sent := out, errno := e\<rparr>" and x = x and k = k and env = env] by simp
  qed
qed

lemma parser_stops_chan: "parser_stops env rr (c\<lparr>chan := ch\<rparr>) e \<Longrightarrow> parser_stops env rr c e"
  by (auto simp: parser_stops_def)

lemma event_safe:
  assumes "http_ok c" "chan c \<noteq> None"
  shows "http_safe (parser_stops env rr c) (conn_event (http_callbacks (Suc k) env) re rr rs c)"
proof -
  from assms obtain ch where ch: "chan c = Some ch" "http_live c" by (auto simp: http_ok_def)
  obtain ch1 call where h: "handleEvent (updateRevents re ch) = (ch1, call)" by (cases "handleEvent (updateRevents re ch)")
  let ?c = "c\<lparr>chan := Some ch1\<rparr>"
  have live: "http_live ?c" "chan ?c \<noteq> None" using ch by simp_all
  then obtain x where "cb_erro ?c" "udata ?c = Some (Points (Live x))" by (auto simp: http_live_def)
  moreover have "http_safe (parser_stops env rr c) (handleReadEvent (http_callbacks (Suc k) env) rr ?c)"
    using read_safe [OF live, of env rr k] by (auto simp: http_safe_def parser_stops_chan split: sum.splits)
  ultimately show ?thesis using live ch(1) h
    by (auto simp: conn_event_def Let_def http_okI erro_safe writ_safe split: option.splits callback.splits)
qed

text \<open>A run stops at one of its events, in the parser.\<close>

definition run_stops :: "nat \<Rightarrow> http_env \<Rightarrow> (u32 \<times> readv_result \<times> writ_result list) list \<Rightarrow> http_ptr conn \<Rightarrow> c_fault \<Rightarrow> bool" where
  "run_stops k env es c e \<longleftrightarrow> (\<exists>es1 re rr rs es2 c1. es = es1 @ (re, rr, rs) # es2 \<and>
     http_run (http_callbacks k env) es1 c = Inr c1 \<and> chan c1 \<noteq> None \<and> parser_stops env rr c1 e)"

lemma run_stopsD:
  assumes "run_stops k env es c e"
  shows "e \<in> parse_faults" "\<exists>es1 re rr rs es2 c1. es = es1 @ (re, rr, rs) # es2 \<and>
    http_run (http_callbacks k env) es1 c = Inr c1 \<and> chan c1 \<noteq> None \<and> parser_stops env rr c1 e"
  using assms by (auto simp: run_stops_def parser_stops_def dest: parse_fault)

lemma run_stops_here: "chan c \<noteq> None \<Longrightarrow> parser_stops env rr c e \<Longrightarrow> run_stops k env ((re, rr, rs) # es) c e"
  unfolding run_stops_def by (metis append_Nil http_run.simps(1))

lemma run_stops_later:
  assumes "chan c \<noteq> None" "conn_event (http_callbacks k env) re rr rs c = Inr c'" "run_stops k env es c' e"
  shows "run_stops k env ((re, rr, rs) # es) c e"
proof -
  from assms(3) obtain es1 re' rr' rs' es2 c1 where "es = es1 @ (re', rr', rs') # es2" "http_run (http_callbacks k env) es1 c' = Inr c1"
    "chan c1 \<noteq> None" "parser_stops env rr' c1 e" unfolding run_stops_def by blast
  moreover from this assms(1,2) have "http_run (http_callbacks k env) ((re, rr, rs) # es1) c = Inr c1" by auto
  ultimately show ?thesis unfolding run_stops_def by (metis append_Cons)
qed

lemma http_run_safe: "http_ok c \<Longrightarrow> http_safe (run_stops (Suc k) env es c) (http_run (http_callbacks (Suc k) env) es c)"
proof (induction es arbitrary: c)
  case (Cons a es)
  obtain re rr rs where a: "a = (re, rr, rs)" by (cases a)
  show ?case
  proof (cases "chan c = None")
    case live: False
    note safe = event_safe [OF Cons.prems live, of env rr k re rs]
    show ?thesis
    proof (cases "conn_event (http_callbacks (Suc k) env) re rr rs c")
      case (Inl e)
      then show ?thesis using safe live run_stops_here [OF live] by (auto simp: a)
    next
      case (Inr c')
      then have "http_safe (run_stops (Suc k) env es c') (http_run (http_callbacks (Suc k) env) es c')" using safe by (intro Cons.IH) simp
      with Inr live run_stops_later [OF live Inr] show ?thesis by (auto simp: a http_safe_def split: sum.splits)
    qed
  qed (use Cons.prems a in simp)
qed simp

lemma http_accept_ok:
  "\<exists>c. http_accept True fd = Inr c \<and> http_ok c" "\<exists>c. http_accept False fd = Inr c \<and> chan c = None \<and> udata c = None"
proof -
  have "wf_buffer (Buffer_length 4096)" "0 < cap (Buffer_length 4096)" by (simp_all add: wf_Buffer_length)
  then show "\<exists>c. http_accept True fd = Inr c \<and> http_ok c" "\<exists>c. http_accept False fd = Inr c \<and> chan c = None \<and> udata c = None"
    by (auto simp: http_accept_def Connection_init_def Connection_new_def http_onAccept_def set_context_def http_ok_def http_live_def conn_destroy_def Let_def)
qed

section \<open>Properties\<close>

text \<open>
  C16. Whatever events and results of system calls a connection of the HTTP server sees, its context is
  used only while it lives and is deleted exactly once. If the context could be allocated, then as long
  as the connection has its channel \<open>udata_\<close> points to the live context, and when the connection has
  been destroyed the context has been deleted (it has not been lost undeleted; a second deletion would
  be a fault); if it could not be allocated, the connection is destroyed at once and has no context. The
  run stops with a fault only at a read event at which the request parser itself faults, on the bytes
  then in the read buffer and the request then in the context, and the fault is a read out of bounds,
  an exception that ends the program or a failed assertion, never a null or dangling pointer.
\<close>

theorem http_context_safe:
  "case rbind (http_accept alloc fd) (http_run (http_callbacks (Suc k) env) es) of
     Inl e \<Rightarrow> e \<in> {OutOfBounds, Terminate, AssertFail} \<and>
       (\<exists>es1 re rr rs es2 c1. es = es1 @ (re, rr, rs) # es2 \<and>
          rbind (http_accept alloc fd) (http_run (http_callbacks (Suc k) env) es1) = Inr c1 \<and> chan c1 \<noteq> None \<and> parser_stops env rr c1 e)
   | Inr c \<Rightarrow>
       if \<not> alloc then chan c = None \<and> udata c = None
       else if chan c = None then udata c = Some (Points Dead) \<or> udata c = Some (Nulled Dead)
       else \<exists>x. udata c = Some (Points (Live x))"
proof (cases alloc)
  case True
  from http_accept_ok(1) obtain c where c: "http_accept True fd = Inr c" "http_ok c" by blast
  note safe = http_run_safe [OF c(2), of k env es]
  show ?thesis
  proof (cases "http_run (http_callbacks (Suc k) env) es c")
    case (Inl e)
    then have "run_stops (Suc k) env es c e" using safe by simp
    from run_stopsD [OF this] show ?thesis by (simp add: True c(1) Inl del: split_paired_Ex not_None_eq)
  next
    case (Inr c')
    then show ?thesis using safe by (auto simp: True c(1) http_ok_def http_live_def http_deleted_def split: option.splits)
  qed
next
  case False
  from http_accept_ok(2) obtain c where c: "http_accept False fd = Inr c" "chan c = None" "udata c = None" by blast
  then have "http_run (http_callbacks (Suc k) env) es c = Inr c" by (cases es) auto
  then show ?thesis using c False by simp
qed

end
