(* ===== verification/Http_Serving.thy ===== *)
theory Http_Serving
  imports Http_Connection
begin

text \<open>
  The HTTP server from the accepted connection to the last byte of the answer: a request that arrives
  in pieces is put together in the read buffer, parsed as it comes, answered through the write tasks,
  and the connection is closed. It joins the theories of the buffer, the connection and the parser.
\<close>

section \<open>A request that arrives in pieces\<close>

text \<open>A request that the parser accepts as a whole and does not stumble over when only its first bytes have come.\<close>

definition complete_request :: "byte list \<Rightarrow> request \<Rightarrow> bool" where
  "complete_request rq r \<longleftrightarrow> parse rq 0 request_new = Inr r \<and> isGood r \<and> rbytes r = length rq \<and>
     list_all (\<lambda>k. case parse (take k rq) 0 request_new of Inl e \<Rightarrow> False | Inr s \<Rightarrow> True) [0..<length rq]"

definition seen :: "byte list \<Rightarrow> nat \<Rightarrow> request \<Rightarrow> bool" where
  "seen rq k s \<longleftrightarrow> k \<le> length rq \<and> parse (take k rq) 0 request_new = Inr s"

lemma request_new_start [simp]: "rbytes request_new = 0" "rstatus request_new = ParsingMethod"
  by (simp_all add: request_new_def)

lemma seen_exists:
  assumes "complete_request rq r" "k \<le> length rq"
  shows "\<exists>s. seen rq k s"
proof (cases "k = length rq")
  case True
  then show ?thesis using assms by (simp add: complete_request_def seen_def)
next
  case False
  then have "case parse (take k rq) 0 request_new of Inl e \<Rightarrow> False | Inr s \<Rightarrow> True"
    using assms by (simp add: complete_request_def list_all_iff)
  then show ?thesis using assms by (simp add: seen_def split: sum.splits)
qed

lemma seen_progress: "seen rq k s \<Longrightarrow> rbytes s \<le> k \<and> at_line (take k rq) (rbytes s) s"
  using parse_progress [of "take k rq" 0 request_new s] by (simp add: seen_def progress_def at_line_def)

lemma seen_resume:
  assumes "seen rq k s" "seen rq k' s'" "k \<le> k'"
  shows "parse (take k' rq) (rbytes s) s = Inr s'"
proof -
  have "take k rq @ drop k (take k' rq) = take k' rq" using assms(3) by (metis append_take_drop_id min.absorb1 take_take)
  with parse_resume [of "take k rq" 0 request_new s "drop k (take k' rq)"] assms show ?thesis
    by (simp add: seen_def resumed_def)
qed

lemma seen_status:
  assumes "complete_request rq r" "seen rq k s"
  shows "\<not> isError s" "isGood s \<Longrightarrow> k = length rq" "k = length rq \<Longrightarrow> s = r"
proof -
  have r: "seen rq (length rq) r" "isGood r" "rbytes r = length rq" using assms(1) by (simp_all add: complete_request_def seen_def)
  have fin: "s = r" if "isError s \<or> isGood s"
    using seen_resume [OF assms(2) r(1)] assms(2) that by (auto simp: seen_def parse_def isError_def isGood_def)
  show "\<not> isError s" using fin r(2) by (auto simp: isError_def isGood_def)
  show "isGood s \<Longrightarrow> k = length rq" using fin r(3) seen_progress [OF assms(2)] assms(2) by (auto simp: seen_def)
  show "k = length rq \<Longrightarrow> s = r" using assms(2) r(1) by (simp add: seen_def)
qed

text \<open>The parser goes on with the bytes it has not consumed, whatever is in front of them.\<close>

lemma seen_next:
  assumes "complete_request rq r" "seen rq k s" "seen rq k' s'" "k \<le> k'"
  shows "parse (drop (rbytes s) (take k' rq)) 0 s = Inr s'" "rbytes s \<le> rbytes s'"
proof -
  let ?xs = "take (rbytes s) (take k' rq)"
  have le: "rbytes s \<le> k" "at_line (take k rq) (rbytes s) s" using seen_progress [OF assms(2)] by auto
  have len: "length ?xs = rbytes s" using le assms(3,4) by (simp add: seen_def)
  have "at_line (take k' rq) (rbytes s) s" using le assms(4) by (auto simp: at_line_def)
  then show "parse (drop (rbytes s) (take k' rq)) 0 s = Inr s'"
    using parse_drop [of ?xs "drop (rbytes s) (take k' rq)" s s'] seen_resume [OF assms(2,3,4)] seen_status(1) [OF assms(1,3)]
    by (simp only: len append_take_drop_id simp_thms)
  show "rbytes s \<le> rbytes s'" using parse_resume [OF seen_resume [OF assms(2-4)], of "[]"] by (simp add: resumed_def)
qed

section \<open>The connection while the request arrives\<close>

definition listening :: "http_ptr conn \<Rightarrow> bool" where
  "listening c \<longleftrightarrow> (\<exists>ch. chan c = Some ch \<and> chan_set ch \<and> events ch = kRead) \<and> writTasks c = [] \<and> conn.sent c = [] \<and>
     writBytes c < writableLimit c \<and> cb_read c \<and> cb_writ c \<and> cb_erro c \<and> \<not> cb_limit c"

definition has_read :: "byte list \<Rightarrow> nat \<Rightarrow> http_ptr conn \<Rightarrow> bool" where
  "has_read rq k c \<longleftrightarrow> (\<exists>b s. seen rq k s \<and> readBuf c = Some b \<and> wf_buffer b \<and> 0 < cap b \<and>
     contents b = map Some (drop (rbytes s) (take k rq)) \<and> udata c = Some (Points (Live \<lparr>ctx_keep_alive = True, ctx_req = s\<rparr>)))"

lemma block_split:
  assumes "wf_buffer b"
  shows "take (rightIndex b) (block b) = take (leftIndex b) (block b) @ contents b"
proof -
  have "leftIndex b \<le> rightIndex b" using assms by (simp add: wf_buffer_def)
  then show ?thesis unfolding contents_def by (metis take_add le_add_diff_inverse)
qed

text \<open>One call of \<open>onReadEventCallback\<close> on new bytes.\<close>

lemma read_loop_step:
  assumes "readBuf c = Some b" "wf_buffer b" "0 < cap b" "contents b = map Some pend" "pend \<noteq> []" "udata c = Some (Points (Live x))"
    and "parse pend 0 (ctx_req x) = Inr r" "rbytes (ctx_req x) \<le> rbytes r" "rbytes r - rbytes (ctx_req x) \<le> length pend"
  shows "\<exists>b'. wf_buffer b' \<and> 0 < cap b' \<and> contents b' = map Some (drop (rbytes r - rbytes (ctx_req x)) pend) \<and>
    http_read_loop (Suc k) env c = http_after env r (x\<lparr>ctx_req := r\<rparr>) (set_context (x\<lparr>ctx_req := r\<rparr>) (c\<lparr>readBuf := Some b'\<rparr>))"
proof -
  let ?xs = "map (cell_byte (env_junk env)) (take (leftIndex b) (block b))"
  have lt: "leftIndex b < rightIndex b" using length_contents [OF assms(2)] assms(4,5) by (cases pend) auto
  have len: "length ?xs = leftIndex b" using assms(2) length_block [OF assms(2)] by (auto simp: wf_buffer_def)
  have "map (cell_byte (env_junk env)) (take (rightIndex b) (block b)) = ?xs @ pend"
    unfolding block_split [OF assms(2)] assms(4) by (simp only: map_append cell_byte_Some)
  then have p: "parse (map (cell_byte (env_junk env)) (take (rightIndex b) (block b))) (leftIndex b) (ctx_req x) = Inr r"
    using parse_shift [OF assms(7), of ?xs] len by simp
  from retrieve_ok [OF assms(2), of "rbytes r - rbytes (ctx_req x)"] assms(3,4,8,9) obtain b' where
    b': "retrieve (int (rbytes r) - int (rbytes (ctx_req x))) b = Inr b'" "wf_buffer b'"
      "contents b' = map Some (drop (rbytes r - rbytes (ctx_req x)) pend)" "cap b' = cap b"
    by (auto simp: of_nat_diff drop_map)
  then show ?thesis using read_loop_eq [OF assms(1-3) lt assms(6), of k env] p assms(3) by auto
qed

lemma event_masks: "kErro AND kRead = 0" "kRead AND kErro = 0" "kRead AND kRead \<noteq> 0" "kWrit AND kErro = 0" "kWrit AND kRead = 0" "kWrit AND kWrit \<noteq> 0"
  by simp_all

lemma http_read_event:
  assumes c: "complete_request rq r" "listening c" "has_read rq k c"
    and p: "p \<noteq> []" "length p \<le> extraBuffer_size" "k + length p \<le> length rq" "take (length p) (drop k rq) = p"
  shows "\<exists>s' b' ch. seen rq (k + length p) s' \<and> wf_buffer b' \<and> 0 < cap b' \<and>
    contents b' = map Some (drop (rbytes s') (take (k + length p) rq)) \<and> chan_set ch \<and> events ch = kRead \<and> savedEvents ch = kRead \<and>
    conn_event (http_callbacks (Suc j) env) kRead (Got (map Some p)) [] c =
      rbind (http_after env s' \<lparr>ctx_keep_alive = True, ctx_req = s'\<rparr>
          (set_context \<lparr>ctx_keep_alive = True, ctx_req = s'\<rparr> (c\<lparr>chan := Some ch, readBuf := Some b'\<rparr>))) (after_read (http_callbacks (Suc j) env))"
proof -
  let ?k = "k + length p"
  from c(2) obtain ch where ch: "chan c = Some ch" "chan_set ch" "events ch = kRead" by (auto simp: listening_def)
  from c(3) obtain b s where b: "seen rq k s" "readBuf c = Some b" "wf_buffer b" "0 < cap b"
    "contents b = map Some (drop (rbytes s) (take k rq))" "udata c = Some (Points (Live \<lparr>ctx_keep_alive = True, ctx_req = s\<rparr>))"
    by (auto simp: has_read_def)
  from seen_exists [OF c(1) p(3)] obtain s' where s': "seen rq ?k s'" by blast
  note n = seen_next [OF c(1) b(1) s' le_add1]
  have sk: "rbytes s \<le> k" "rbytes s' \<le> ?k" using seen_progress [OF b(1)] seen_progress [OF s'] by auto
  define ch1 where "ch1 = (updateRevents kRead ch)\<lparr>savedEvents := kRead\<rparr>"
  have ch1: "chan_set ch1" "events ch1 = kRead" "savedEvents ch1 = kRead" using ch by (simp_all add: ch1_def updateRevents_def chan_set_def)
  let ?c = "c\<lparr>chan := Some ch1\<rparr>"
  define bs where "bs = take (cap b - rightIndex b + extraBuffer_size) (map Some p)"
  have bs: "bs = map Some p" using p(2) by (simp add: bs_def)
  from conn_read_appends [of ?c b bs "map Some p"] b(2-4) bs_def obtain b1 where
    b1: "tryRead (Got (map Some p)) ?c = Inr (int (length p), ?c\<lparr>readBuf := Some b1\<rparr>)" "wf_buffer b1" "contents b1 = contents b @ map Some p"
    unfolding bs by auto
  let ?pend = "drop (rbytes s) (take ?k rq)"
  have "take ?k rq = take k rq @ p" using p(4) take_add [of k "length p" rq] by simp
  then have pend: "contents b1 = map Some ?pend" using b1(3) b(5) sk(1) b(1) by (simp add: seen_def)
  have ne: "?pend \<noteq> []" using p(1,3) sk(1) by (cases p) auto
  have cap1: "0 < cap b1" using ne pend length_contents [OF b1(2)] b1(2) by (cases ?pend) (auto simp: wf_buffer_def)
  have "rbytes s' - rbytes s \<le> length ?pend" using sk p(3) by simp
  from read_loop_step [of "?c\<lparr>readBuf := Some b1\<rparr>" b1 ?pend "\<lparr>ctx_keep_alive = True, ctx_req = s\<rparr>" s' j env, OF _ b1(2) cap1 pend ne _ _ _] b(6) n this
  obtain b2 where b2: "wf_buffer b2" "0 < cap b2" "contents b2 = map Some (drop (rbytes s' - rbytes s) ?pend)"
    "http_read_loop (Suc j) env (?c\<lparr>readBuf := Some b1\<rparr>) = http_after env s' \<lparr>ctx_keep_alive = True, ctx_req = s'\<rparr>
      (set_context \<lparr>ctx_keep_alive = True, ctx_req = s'\<rparr> (?c\<lparr>readBuf := Some b2\<rparr>))" by auto
  have "contents b2 = map Some (drop (rbytes s') (take ?k rq))" using b2(3) n(2) by simp
  moreover have "conn_event (http_callbacks (Suc j) env) kRead (Got (map Some p)) [] c =
      handleReadEvent (http_callbacks (Suc j) env) (Got (map Some p)) ?c"
    using ch by (simp add: conn_event_def handleEvent_def ch1_def chan_set_def chan_isError_def Readable_def updateRevents_def)
  moreover have "handleReadEvent (http_callbacks (Suc j) env) (Got (map Some p)) ?c =
      rbind (http_read_loop (Suc j) env (?c\<lparr>readBuf := Some b1\<rparr>)) (after_read (http_callbacks (Suc j) env))"
    using c(2) p(1) b(6) by (simp add: handleReadEvent_after b1(1) listening_def http_readEvent del: http_read_loop.simps)
  ultimately show ?thesis using s' b2 ch1 by metis
qed

lemma more_to_come:
  assumes c: "complete_request rq r" "listening c" "has_read rq k c"
    and p: "p \<noteq> []" "length p \<le> extraBuffer_size" "k + length p < length rq" "take (length p) (drop k rq) = p"
  shows "\<exists>c'. conn_event (http_callbacks (Suc j) env) kRead (Got (map Some p)) [] c = Inr c' \<and> listening c' \<and> has_read rq (k + length p) c'"
proof -
  from http_read_event [OF c p(1,2) less_imp_le [OF p(3)] p(4), of j env] obtain s b ch where
    s: "seen rq (k + length p) s" "wf_buffer b" "0 < cap b" "contents b = map Some (drop (rbytes s) (take (k + length p) rq))"
      "chan_set ch" "events ch = kRead" "savedEvents ch = kRead" and
    ev: "conn_event (http_callbacks (Suc j) env) kRead (Got (map Some p)) [] c =
      rbind (http_after env s \<lparr>ctx_keep_alive = True, ctx_req = s\<rparr>
          (set_context \<lparr>ctx_keep_alive = True, ctx_req = s\<rparr> (c\<lparr>chan := Some ch, readBuf := Some b\<rparr>))) (after_read (http_callbacks (Suc j) env))"
    by blast
  let ?c = "set_context \<lparr>ctx_keep_alive = True, ctx_req = s\<rparr> (c\<lparr>chan := Some ch, readBuf := Some b\<rparr>)"
  have "\<not> isError s" "\<not> isGood s" using seen_status(1,2) [OF c(1) s(1)] p(3) by auto
  then have "conn_event (http_callbacks (Suc j) env) kRead (Got (map Some p)) [] c = updateChanel ?c"
    using c(2) by (simp add: ev http_after_def after_read_def set_context_def listening_def)
  moreover have "updateChanel ?c = Inr (?c\<lparr>chan := Some (ch\<lparr>savedEvents := kRead\<rparr>)\<rparr>)"
    using s(6,7) by (simp add: updateChanel_def set_context_def isEventsChanged_def)
  moreover have "listening (?c\<lparr>chan := Some (ch\<lparr>savedEvents := kRead\<rparr>)\<rparr>)"
    using c(2) s(5,6) by (simp add: listening_def set_context_def chan_set_def)
  moreover have "has_read rq (k + length p) (?c\<lparr>chan := Some (ch\<lparr>savedEvents := kRead\<rparr>)\<rparr>)"
    using s by (auto simp: has_read_def set_context_def)
  ultimately show ?thesis by simp
qed

section \<open>The answer\<close>

definition reply_tasks :: "http_env \<Rightarrow> reply \<Rightarrow> conn_task list" where
  "reply_tasks env rep = conn_task_new\<lparr>tbuffer := Some (Buffer_bytes (reply_toString (env_iter env) rep))\<rparr> #
     (case filefd rep of None \<Rightarrow> [] | Some fd \<Rightarrow> [conn_task_new\<lparr>fp := Some (env_file env fd), toffset := 0, tlen := nat (filesize rep)\<rparr>])"

definition answering :: "http_env \<Rightarrow> reply \<Rightarrow> http_ptr conn \<Rightarrow> bool" where
  "answering env rep c \<longleftrightarrow> (\<exists>ch. chan c = Some ch \<and> chan_set ch \<and> events ch AND kErro = 0) \<and> polled c AND kWrit \<noteq> 0 \<and>
     writTasks c = reply_tasks env rep \<and> conn.sent c = [] \<and> cb_writ c \<and> (\<exists>x. udata c = Some (Points (Live x)) \<and> \<not> ctx_keep_alive x)"

lemma push_writes:
  assumes "chan c = Some ch" "chan_set ch" "events ch \<in> {kRead, 3}" "savedEvents ch = events ch" "events ch = 3 \<longrightarrow> polled c = 3"
  shows "\<exists>ch'. push_task t c = Inr (c\<lparr>writTasks := writTasks c @ [t], polled := 3, chan := Some ch'\<rparr>) \<and> chan_set ch' \<and> events ch' = 3 \<and> savedEvents ch' = 3"
proof -
  let ?ch = "(enableWrit True ch)\<lparr>savedEvents := 3\<rparr>"
  have "polled c = 3 \<Longrightarrow> c\<lparr>writTasks := ts, chan := x\<rparr> = c\<lparr>writTasks := ts, polled := 3, chan := x\<rparr>" for ts x by (cases c) simp
  with assms have "push_task t c = Inr (c\<lparr>writTasks := writTasks c @ [t], polled := 3, chan := Some ?ch\<rparr>)"
    by (auto simp: push_task_def on_chan_def updateChanel_def enableWrit_def enable_def isEventsChanged_def)
  moreover have "chan_set ?ch" "events ?ch = 3" "savedEvents ?ch = 3" using assms(2,3) by (auto simp: chan_set_def enableWrit_def enable_def)
  ultimately show ?thesis by blast
qed

lemma send_reply_tasks:
  assumes "chan c = Some ch" "chan_set ch" "events ch = kRead" "savedEvents ch = kRead" "readBuf c \<noteq> None" "writTasks c = []"
  shows "\<exists>ch' n. http_send_reply env rep c = Inr (c\<lparr>writTasks := reply_tasks env rep, polled := 3, chan := Some ch', writBytes := n\<rparr>) \<and>
    chan_set ch' \<and> events ch' = 3 \<and> savedEvents ch' = 3"
proof -
  let ?t = "conn_task_new\<lparr>tbuffer := Some (Buffer_bytes (reply_toString (env_iter env) rep))\<rparr>"
  from push_writes [of c ch ?t] assms obtain ch1 where
    c1: "push_task ?t c = Inr (c\<lparr>writTasks := [?t], polled := 3, chan := Some ch1\<rparr>)" "chan_set ch1" "events ch1 = 3" "savedEvents ch1 = 3" by auto
  then obtain n where s: "conn_send (reply_toString (env_iter env) rep) c = Inr (c\<lparr>writTasks := [?t], polled := 3, chan := Some ch1, writBytes := n\<rparr>)"
    using assms(5) by (auto simp: conn_send_def)
  show ?thesis
  proof (cases "filefd rep")
    case None
    then show ?thesis using s c1 by (auto simp: http_send_reply_def reply_tasks_def)
  next
    case (Some fd)
    let ?f = "conn_task_new\<lparr>fp := Some (env_file env fd), toffset := 0, tlen := nat (filesize rep)\<rparr>"
    have swap: "c\<lparr>writBytes := n, writTasks := ts, polled := 3, chan := x\<rparr> = c\<lparr>writTasks := ts, polled := 3, chan := x, writBytes := n\<rparr>" for ts x
      by (cases c) simp
    from push_writes [of "c\<lparr>writTasks := [?t], polled := 3, chan := Some ch1, writBytes := n\<rparr>" ch1 ?f] c1 swap obtain ch2 where
      "push_task ?f (c\<lparr>writTasks := [?t], polled := 3, chan := Some ch1, writBytes := n\<rparr>) =
        Inr (c\<lparr>writTasks := [?t, ?f], polled := 3, chan := Some ch2, writBytes := n\<rparr>)" "chan_set ch2" "events ch2 = 3" "savedEvents ch2 = 3" by auto
    then show ?thesis using s Some by (auto simp: http_send_reply_def reply_tasks_def conn_sendFile_def)
  qed
qed

lemma request_complete:
  assumes c: "complete_request rq r" "listening c" "has_read rq k c"
    and p: "p \<noteq> []" "length p \<le> extraBuffer_size" "k + length p = length rq" "take (length p) (drop k rq) = p"
  shows "\<exists>c'. conn_event (http_callbacks (Suc j) env) kRead (Got (map Some p)) [] c = Inr c' \<and>
    answering env (good_reply (env_stat env) (env_open env) (env_root env) r) c'"
proof -
  let ?rep = "good_reply (env_stat env) (env_open env) (env_root env) r"
  from http_read_event [OF c p(1,2) eq_imp_le [OF p(3)] p(4), of j env] obtain s b ch where
    s: "seen rq (k + length p) s" "chan_set ch" "events ch = kRead" "savedEvents ch = kRead" and
    ev: "conn_event (http_callbacks (Suc j) env) kRead (Got (map Some p)) [] c =
      rbind (http_after env s \<lparr>ctx_keep_alive = True, ctx_req = s\<rparr>
          (set_context \<lparr>ctx_keep_alive = True, ctx_req = s\<rparr> (c\<lparr>chan := Some ch, readBuf := Some b\<rparr>))) (after_read (http_callbacks (Suc j) env))"
    by blast
  have r: "s = r" "isGood r" "\<not> isError r" using seen_status [OF c(1) s(1)] p(3) c(1) by (auto simp: complete_request_def isError_def isGood_def)
  define c1 where "c1 = set_context \<lparr>ctx_keep_alive = True, ctx_req = r\<rparr> (c\<lparr>chan := Some ch, readBuf := Some b\<rparr>)"
  have c1: "chan c1 = Some ch" "readBuf c1 = Some b" "writTasks c1 = []" "conn.sent c1 = []" "cb_writ c1" "\<not> cb_limit c1"
    using c(2) by (auto simp: c1_def set_context_def listening_def)
  from send_reply_tasks [OF c1(1) s(2-4) _ c1(3), of env ?rep] c1(2) obtain ch' n where
    h: "http_send_reply env ?rep c1 = Inr (c1\<lparr>writTasks := reply_tasks env ?rep, polled := 3, chan := Some ch', writBytes := n\<rparr>)"
      "chan_set ch'" "events ch' = 3" "savedEvents ch' = 3" by auto
  define x :: http_context where "x = \<lparr>ctx_keep_alive = False,
      ctx_req = (request_clear r)\<lparr>headers := header_entry (bytes ''Connection'') (headers (request_clear r))\<rparr>\<rparr>"
  have x: "\<not> ctx_keep_alive x" by (simp add: x_def)
  have a: "http_after env r \<lparr>ctx_keep_alive = True, ctx_req = r\<rparr> c1 =
      Inr (set_context x (c1\<lparr>writTasks := reply_tasks env ?rep, polled := 3, chan := Some ch', writBytes := n\<rparr>))"
    using r h(1) by (simp add: http_after_def Let_def x_def)
  have "\<exists>c'. after_read (http_callbacks (Suc j) env)
      (set_context x (c1\<lparr>writTasks := reply_tasks env ?rep, polled := 3, chan := Some ch', writBytes := n\<rparr>)) = Inr c' \<and> answering env ?rep c'"
    using c1 h(2-4) x
    by (auto simp: after_read_def set_context_def on_chan_def updateChanel_def enableRead_def enable_def isEventsChanged_def answering_def chan_set_def)
  then show ?thesis using ev a r(1) by (simp add: c1_def)
qed

definition http_answer :: "http_env \<Rightarrow> reply \<Rightarrow> cell list" where
  "http_answer env rep = map Some (reply_toString (env_iter env) rep) @
     (case filefd rep of None \<Rightarrow> [] | Some fd \<Rightarrow> take (nat (filesize rep)) (env_file env fd))"

text \<open>The file still has the size \<open>stat\<close> gave, and the kernel takes the text and the file.\<close>

definition kernel_takes :: "http_env \<Rightarrow> reply \<Rightarrow> nat \<Rightarrow> nat \<Rightarrow> bool" where
  "kernel_takes env rep n1 n2 \<longleftrightarrow> length (reply_toString (env_iter env) rep) \<le> n1 \<and>
     (case filefd rep of None \<Rightarrow> True | Some fd \<Rightarrow> nat (filesize rep) \<le> length (env_file env fd) \<and> nat (filesize rep) \<le> n2)"

lemma reply_nonempty: "0 < length (reply_toString iter rep)"
  by (simp add: reply_toString_def Let_def bytes_def)

lemma answer_written:
  assumes "writTasks c = reply_tasks env rep" "kernel_takes env rep n1 n2"
  shows "tryWrit [Wrote n1, Wrote n2] c =
    Inr (int (length (reply_toString (env_iter env) rep)), c\<lparr>conn.sent := conn.sent c @ http_answer env rep, writTasks := []\<rparr>)"
proof -
  define text' where "text' = reply_toString (env_iter env) rep"
  define fs where "fs = tl (reply_tasks env rep)"
  let ?t = "conn_task_new\<lparr>tbuffer := Some (Buffer_bytes text')\<rparr>"
  have ts: "reply_tasks env rep = ?t # fs" by (simp add: fs_def text'_def reply_tasks_def)
  have n: "text' \<noteq> []" "length text' \<le> n1" using reply_nonempty [of "env_iter env" rep] assms(2) by (auto simp: text'_def kernel_takes_def)
  have "gather fs = Inr []" by (auto simp: fs_def reply_tasks_def split: option.splits)
  then have g: "gather (?t # fs) = Inr (map Some text')" by (simp add: conn_task_new_def read_block_def)
  have p: "pop_written (length text') (?t # fs) = Inr (False, fs)" using n(1) by (cases fs) simp_all
  have "tryWrit [Wrote n1, Wrote n2] c = writ_loop [Wrote n2] (length text') (c\<lparr>conn.sent := conn.sent c @ map Some text', writTasks := fs\<rparr>)"
    using n g p assms(1) unfolding tryWrit_def ts
    by (subst writ_loop.simps) (simp add: conn_task_new_def Let_def min_absorb2 del: gather.simps pop_written.simps)
  also have "\<dots> = Inr (int (length text'), c\<lparr>conn.sent := conn.sent c @ http_answer env rep, writTasks := []\<rparr>)"
    using assms(2)
    by (cases "filefd rep")
      (auto simp: fs_def reply_tasks_def writ_loop.simps [of _ _ "_ \<lparr>writTasks := _\<rparr>"] kernel_takes_def http_answer_def text'_def Let_def)
  finally show ?thesis by (simp only: text'_def)
qed

lemma answer_closes:
  assumes "answering env rep c" "kernel_takes env rep n1 n2"
  shows "\<exists>c'. conn_event (http_callbacks k env') kWrit (Got []) [Wrote n1, Wrote n2] c = Inr c' \<and>
    chan c' = None \<and> udata c' = Some (Points Dead) \<and> conn.sent c' = http_answer env rep"
proof -
  from assms(1) obtain ch x where c: "chan c = Some ch" "chan_set ch" "events ch AND kErro = 0" "writTasks c = reply_tasks env rep"
    "conn.sent c = []" "cb_writ c" "udata c = Some (Points (Live x))" "\<not> ctx_keep_alive x" by (auto simp: answering_def)
  define c1 where "c1 = c\<lparr>chan := Some ((updateRevents kWrit ch)\<lparr>savedEvents := events ch\<rparr>)\<rparr>"
  have ev: "conn_event (http_callbacks k env') kWrit (Got []) [Wrote n1, Wrote n2] c = handleWritEvent (http_callbacks k env') [Wrote n1, Wrote n2] c1"
    using c by (simp add: conn_event_def handleEvent_def chan_set_def chan_isError_def Readable_def Writable_def updateRevents_def c1_def Let_def)
  have c1: "writTasks c1 = reply_tasks env rep" "conn.sent c1 = []" "cb_writ c1" "udata c1 = Some (Points (Live x))" "chan c1 \<noteq> None" using c by (simp_all add: c1_def)
  have ne: "reply_tasks env rep \<noteq> []" by (simp add: reply_tasks_def)
  let ?n = "int (length (reply_toString (env_iter env) rep))"
  let ?c2 = "c1\<lparr>conn.sent := http_answer env rep, writTasks := [], writBytes := writBytes c1 - ?n\<rparr>"
  from on_chan_live [of ?c2 "\<lambda>ch. enableWrit False (enableRead True ch)"] c1(5) obtain ch' where
    "on_chan (\<lambda>ch. enableWrit False (enableRead True ch)) ?c2 = Inr (?c2\<lparr>chan := Some ch'\<rparr>)" by auto
  moreover have "http_onWriteAll (?c2\<lparr>chan := Some ch'\<rparr>) = Inr (conn_destroy (?c2\<lparr>chan := Some ch', udata := Some (Points Dead)\<rparr>))"
    using c1(4) c(8) by (simp add: http_onWriteAll_def)
  ultimately have "handleWritEvent (http_callbacks k env') [Wrote n1, Wrote n2] c1 = Inr (conn_destroy (?c2\<lparr>chan := Some ch', udata := Some (Points Dead)\<rparr>))"
    using answer_written [OF c1(1) assms(2)] reply_nonempty [of "env_iter env" rep] c1 ne
    by (simp add: handleWritEvent_def http_callbacks_def destroy_ok(2))
  then show ?thesis unfolding ev by (simp add: conn_destroy_def)
qed

section \<open>Serving a request\<close>

definition read_events :: "byte list list \<Rightarrow> (u32 \<times> readv_result \<times> writ_result list) list" where
  "read_events ps = map (\<lambda>p. (kRead, Got (map Some p), [])) ps"

lemma request_arrives:
  assumes "complete_request rq r" "listening c" "has_read rq k c" "concat ps = drop k rq" "ps \<noteq> []"
    "list_all (\<lambda>p. p \<noteq> [] \<and> length p \<le> extraBuffer_size) ps"
  shows "\<exists>c'. http_run (http_callbacks (Suc j) env) (read_events ps) c = Inr c' \<and>
    answering env (good_reply (env_stat env) (env_open env) (env_root env) r) c'"
  using assms(2-)
proof (induction ps arbitrary: c k)
  case (Cons p ps)
  have p: "p \<noteq> []" "length p \<le> extraBuffer_size" "take (length p) (drop k rq) = p" "concat ps = drop (k + length p) rq"
    using Cons.prems(3,5) by (auto simp: append_eq_conv_conj add.commute)
  have len: "k + length p + length (concat ps) = length rq"
    using arg_cong [OF Cons.prems(3), of length] p(1) by (cases p) auto
  obtain ch where ch: "chan c \<noteq> None" using Cons.prems(1) by (auto simp: listening_def)
  show ?case
  proof (cases "ps = []")
    case True
    then have "k + length p = length rq" using len by simp
    from request_complete [OF assms(1) Cons.prems(1,2) p(1,2) this p(3), of j env] True ch show ?thesis by (auto simp: read_events_def)
  next
    case False
    then have "0 < length (concat ps)" using Cons.prems(5) by (cases ps) auto
    then have "k + length p < length rq" using len by linarith
    from more_to_come [OF assms(1) Cons.prems(1,2) p(1,2) this p(3), of j env] obtain c1 where
      c1: "conn_event (http_callbacks (Suc j) env) kRead (Got (map Some p)) [] c = Inr c1" "listening c1" "has_read rq (k + length p) c1" by blast
    from Cons.IH [OF c1(2,3) p(4) False] Cons.prems(5) c1(1) ch show ?thesis by (auto simp: read_events_def)
  qed
qed simp

lemma http_accept_listening:
  "\<exists>c. http_accept True fd = Inr c \<and> listening c \<and> has_read rq 0 c"
proof -
  have "seen rq 0 request_new" by (simp add: seen_def parse_def method_step_def findFirstOf_def)
  moreover have "wf_buffer (Buffer_length 4096)" "0 < cap (Buffer_length 4096)" "contents (Buffer_length 4096) = []" by (simp_all add: wf_Buffer_length)
  ultimately show ?thesis
    by (auto simp: http_accept_def Connection_init_def Connection_new_def http_onAccept_def set_context_def listening_def has_read_def
        chan_set_def channel_new_def enableRead_def enable_def Let_def)
qed

text \<open>
  C15. The HTTP server serves a complete request, one that parses to the end with status \<open>Good\<close> and whose
  every proper beginning parses without a fault (\<open>complete_request\<close>), in whatever non-empty pieces of at
  most the size of the extra buffer it arrives: the pieces are put together in the read buffer and parsed
  as they come; after the last one the connection is watched for writability. If then one \<open>writev\<close> takes
  the whole text of the reply and one \<open>sendfile\<close> the whole file, which is still at least as long as
  \<open>stat\<close> said (\<open>kernel_takes\<close>), the text of the reply and the contents of the file (the root followed by
  the decoded URI) have been sent, and nothing else, the context is deleted and the connection destroyed.
  Without that hypothesis the claim fails: a partial write may destroy the connection.
\<close>

theorem http_serves_request:
  assumes "complete_request rq r" and "concat ps = rq" and "list_all (\<lambda>p. p \<noteq> [] \<and> length p \<le> extraBuffer_size) ps"
    and "rep = good_reply (env_stat env) (env_open env) (env_root env) r" and "kernel_takes env rep n1 n2"
  shows "\<exists>c c' c''. http_accept True fd = Inr c \<and> http_run (http_callbacks (Suc k) env) (read_events ps) c = Inr c' \<and>
    polled c' AND kWrit \<noteq> 0 \<and>
    http_run (http_callbacks (Suc k) env) [(kWrit, Got [], [Wrote n1, Wrote n2])] c' = Inr c'' \<and>
    conn.sent c'' = http_answer env rep \<and> chan c'' = None \<and> udata c'' = Some (Points Dead)"
proof -
  from http_accept_listening obtain c where c: "http_accept True fd = Inr c" "listening c" "has_read rq 0 c" by blast
  have "ps \<noteq> []" using assms(1,2) by (auto simp: complete_request_def parse_def method_step_def findFirstOf_def isGood_def request_new_def)
  with request_arrives [OF assms(1) c(2,3), of ps k env] assms(2,3) obtain c' where
    c': "http_run (http_callbacks (Suc k) env) (read_events ps) c = Inr c'" "answering env rep c'" by (auto simp: assms(4))
  from answer_closes [OF c'(2) assms(5), of "Suc k" env] obtain c'' where
    "conn_event (http_callbacks (Suc k) env) kWrit (Got []) [Wrote n1, Wrote n2] c' = Inr c''" "chan c'' = None" "udata c'' = Some (Points Dead)"
    "conn.sent c'' = http_answer env rep" by blast
  moreover have "chan c' \<noteq> None" "polled c' AND kWrit \<noteq> 0" using c'(2) by (auto simp: answering_def)
  ultimately show ?thesis using c(1) c'(1) by auto
qed

definition demo_env :: http_env where
  "demo_env = \<lparr>env_iter = id, env_stat = (\<lambda>p. if p = bytes ''/www/a'' then 3 else -1), env_open = (\<lambda>p. if p = bytes ''/www/a'' then 7 else -1),
     env_file = (\<lambda>fd. [Some 65, Some 66, Some 67]), env_date = [], env_root = bytes ''/www'', env_junk = 0\<rparr>"

definition demo_request :: request where
  "demo_request = request_new\<lparr>rstatus := Good, rbytes := 17, rmethod := GET, uri := bytes ''/a'', version_major := 1, version_minor := 1\<rparr>"

definition demo_reply :: reply where
  "demo_reply = good_reply (env_stat demo_env) (env_open demo_env) (env_root demo_env) demo_request"

theorem http_serves_request_witness:
  "\<exists>c c' c''. http_accept True 5 = Inr c \<and>
     http_run (http_callbacks (Suc 0) demo_env) (read_events [bytes ''GET /a HT'', bytes ''TP/1.1'' @ [10, 10]]) c = Inr c' \<and>
     http_run (http_callbacks (Suc 0) demo_env) [(kWrit, Got [], [Wrote 100, Wrote 100])] c' = Inr c'' \<and> chan c'' = None \<and>
     conn.sent c'' = map Some (bytes ''HTTP/1.1 200 Ok'' @ [13, 10] @ bytes ''Content-Length: 3'' @ [13, 10] @
       bytes ''Content-Type: text/plain'' @ [13, 10, 13, 10] @ bytes ''ABC'')"
proof -
  have rq: "complete_request (bytes ''GET /a HTTP/1.1'' @ [10, 10]) demo_request" by code_simp
  have ps: "concat [bytes ''GET /a HT'', bytes ''TP/1.1'' @ [10, 10]] = bytes ''GET /a HTTP/1.1'' @ [10, 10]"
    "list_all (\<lambda>p. p \<noteq> [] \<and> length p \<le> extraBuffer_size) [bytes ''GET /a HT'', bytes ''TP/1.1'' @ [10, 10]]" by (simp_all add: bytes_def)
  have k: "kernel_takes demo_env demo_reply 100 100" by code_simp
  have a: "http_answer demo_env demo_reply = map Some (bytes ''HTTP/1.1 200 Ok'' @ [13, 10] @ bytes ''Content-Length: 3'' @ [13, 10] @
       bytes ''Content-Type: text/plain'' @ [13, 10, 13, 10] @ bytes ''ABC'')" by code_simp
  from http_serves_request [OF rq ps demo_reply_def k, of 5 0] show ?thesis unfolding a by blast
qed

end
