(* ===== verification/Conn_Echo.thy ===== *)
theory Conn_Echo
  imports Conn_Flow
begin

text \<open>
  The echo server over the library (\<open>liby_cpp/tests/echo.cpp\<close>): what it receives on a connection goes back
  through the write tasks of that connection, in order, under every sequence of events and of results
  of the system calls.
\<close>

section \<open>The server\<close>

definition echo_onAccept :: "'u conn \<Rightarrow> 'u conn res" where
  "echo_onAccept c = suspendRead False c"

text \<open>\<open>conn->send(conn->read())\<close>: the read buffer is handed over and exchanged for an empty one.\<close>

definition echo_onRead :: "'u conn \<Rightarrow> 'u conn res" where
  "echo_onRead c =
     rbind (deref (readBuf c)) (\<lambda>b.
     rbind (conn_send_buffer b c) (\<lambda>(b', c'). Inr (c'\<lparr>readBuf := Some b'\<rparr>)))"

text \<open>
  The callbacks of a connection of the server, which has none for written data, and none for errors:
  \<open>TcpServer::handleErroEventOfConn\<close> then only destroys the connection.
\<close>

definition echo_callbacks :: "'u conn_callbacks" where
  "echo_callbacks = \<lparr>readEvent = echo_onRead, writeAll = Inr, erroEvent = (\<lambda>c. Inr (conn_destroy c)), limitEvent = Inr\<rparr>"

definition echo_accept :: "nat \<Rightarrow> 'u conn res" where
  "echo_accept fd = rbind (Connection_init ((Connection_new fd)\<lparr>cb_read := True, cb_erro := True\<rparr>)) echo_onAccept"

section \<open>Runs\<close>

text \<open>A run keeps all the bytes the connection was given. A destroyed connection gets no more events.\<close>

fun conn_echo_run :: "(u32 \<times> readv_result \<times> writ_result list) list \<Rightarrow> 'u conn \<times> cell list \<Rightarrow> ('u conn \<times> cell list) res" where
  "conn_echo_run [] st = Inr st"
| "conn_echo_run ((re, rr, rs) # es) (c, rcv) =
     (if chan c = None then Inr (c, rcv)
      else rbind (conn_event echo_callbacks re rr rs c) (\<lambda>c'. conn_echo_run es (c', rcv @ bytes_read re rr c)))"

section \<open>Invariant\<close>

definition echoes :: "cell list \<Rightarrow> 'u conn \<Rightarrow> bool" where
  "echoes rcv c = (if chan c = None then \<exists>rest. conn.sent c @ rest = rcv else conn_live c \<and> attended c \<and> outgoing c = rcv)"

lemma live_echoes: "conn_live c \<Longrightarrow> attended c \<Longrightarrow> outgoing c = rcv \<Longrightarrow> echoes rcv c"
  by (auto simp: echoes_def elim: conn_liveE)

lemma erro_echoes: "cb_erro c \<Longrightarrow> conn.sent c @ rest = rcv \<Longrightarrow> \<exists>c'. handleErroEvent echo_callbacks c = Inr c' \<and> echoes rcv c'"
  by (auto simp: handleErroEvent_def echo_callbacks_def echoes_def destroy_ok)

text \<open>The callback puts the new bytes behind those that wait to be written.\<close>

lemma echo_callback:
  assumes "conn_live c" "attended c" "outgoing c = rcv" "wf_buffer b" "0 < cap b"
  shows "\<exists>c'. rbind (echo_onRead (c\<lparr>readBuf := Some b\<rparr>)) (after_read cb) = Inr c' \<and> echoes (rcv @ contents b) c'"
proof -
  let ?c = "c\<lparr>readBuf := Some b\<rparr>"
  from assms(1) obtain ch where ch: "chan ?c = Some ch" "on_erro ch" "conn_ok c" by (auto elim: conn_liveE)
  then have "conn_ok ?c" by (simp add: conn_ok_def)
  from send_buffer_ok [OF ch(1) _ assms(4,5) this] obtain ch' p n where
    e: "conn_send_buffer b ?c = Inr (Buffer_length (cap b),
      ?c\<lparr>writTasks := writTasks c @ [conn_task_new\<lparr>tbuffer := Some b\<rparr>], chan := Some ch', polled := p, writBytes := n\<rparr>)" (is "_ = Inr (_, ?c1)") and
    ch': "events ch' AND kWrit \<noteq> 0" "savedEvents ch' = events ch'" "on_erro ch'" "p AND kWrit \<noteq> 0" "events ch' AND kRead \<noteq> 0 \<longrightarrow> p AND kRead \<noteq> 0"
    using assms(2) ch by (auto simp: attended_def passed_def)
  let ?c2 = "?c1\<lparr>readBuf := Some (Buffer_length (cap b))\<rparr>"
  have "conn_ok ?c2" using ch ch' task_of_buffer(1) [OF assms(4,5)] by (simp add: conn_ok_def)
  then have l: "conn_live ?c2" using assms(1,5) ch'(3) wf_Buffer_length by (auto simp: conn_live_def)
  have w: "attended ?c2" "outgoing ?c2 = rcv @ contents b" "writTasks ?c2 \<noteq> []"
    using ch' assms(3) task_of_buffer(2) by (simp_all add: attended_def passed_def outgoing_def)
  have "echo_onRead ?c = Inr ?c2" using e by (simp add: echo_onRead_def)
  with after_read_keeps [OF l, of cb] w show ?thesis by (auto intro: live_echoes)
qed

interpretation echo: live_app echo_callbacks "\<lambda>rcv c. conn_live c \<and> attended c \<and> outgoing c = rcv" echoes
proof
  show "echoes r c" if "conn_live c \<and> attended c \<and> outgoing c = r" for r and c :: "'u conn" using that live_echoes by blast
  show "\<exists>c'. handleErroEvent echo_callbacks c1 = Inr c' \<and> echoes r c'"
    if "conn_live c \<and> attended c \<and> outgoing c = r" "cb_erro c1" "sent c1 @ rest = outgoing c" for r rest and c c1 :: "'u conn"
    using that erro_echoes [of c1 rest r] by simp
  show "\<exists>c'. rbind (readEvent echo_callbacks (c\<lparr>readBuf := Some b\<rparr>)) (after_read echo_callbacks) = Inr c' \<and> echoes (r @ contents b) c'"
    if "conn_live c \<and> attended c \<and> outgoing c = r" "wf_buffer b" "0 < cap b" for r b and c :: "'u conn"
    using echo_callback [of c r b echo_callbacks] that by (simp add: echo_callbacks_def)
qed (auto simp: keeps_def)

lemma event_echoes:
  assumes "echoes rcv c" "chan c = Some ch"
  shows "\<exists>c'. conn_event echo_callbacks re rr rs c = Inr c' \<and> echoes (rcv @ bytes_read re rr c) c'"
  by (rule echo.app_event [OF _ assms(2)]) (use assms in \<open>simp add: echoes_def\<close>)

lemma conn_echo_run_ok: "echoes rcv c \<Longrightarrow> \<exists>c' rcv'. conn_echo_run es (c, rcv) = Inr (c', rcv') \<and> echoes rcv' c'"
proof (induction es arbitrary: c rcv)
  case (Cons a es)
  obtain re rr rs where a: "a = (re, rr, rs)" by (cases a)
  show ?case
  proof (cases "chan c")
    case (Some ch)
    from event_echoes [OF Cons.prems Some, of re rr rs] obtain c1 where
      "conn_event echo_callbacks re rr rs c = Inr c1" "echoes (rcv @ bytes_read re rr c) c1" by blast
    with Cons.IH [of "rcv @ bytes_read re rr c" c1] Some show ?thesis by (auto simp: a)
  qed (use Cons.prems a in simp)
qed simp

lemma echo_accept_ok: "\<exists>c. echo_accept fd = Inr c \<and> echoes [] c"
proof -
  have "wf_buffer (Buffer_length 4096)" "0 < cap (Buffer_length 4096)" "contents (Buffer_length 4096) = []" by (simp_all add: wf_Buffer_length)
  then show ?thesis
    by (auto simp: echo_accept_def echo_onAccept_def suspendRead_def on_chan_def updateChanel_def Connection_init_def Connection_new_def
        channel_new_def enableRead_def enable_def isEventsChanged_def echoes_def conn_live_def outgoing_def attended_def conn_ok_def passed_def Let_def)
qed

section \<open>Properties\<close>

text \<open>
  C17. The echo server over the library: whatever events a connection sees and whatever the system calls
  return, no step faults and what was sent is the beginning of what was received. While the
  connection lives, the rest waits in its tasks, and it is never forgotten: it is watched for
  writability if something waits to be sent and for readability otherwise, although reading is
  suspended above the limit of waiting bytes.
\<close>

theorem connection_echoes:
  "\<exists>(c0 :: 'u conn) c rcv. echo_accept fd = Inr c0 \<and> conn_echo_run es (c0, []) = Inr (c, rcv) \<and> (\<exists>rest. conn.sent c @ rest = rcv) \<and>
     (chan c = None \<or>
      conn.sent c @ tasks_bytes (writTasks c) = rcv \<and> polled c AND (if writTasks c = [] then kRead else kWrit) \<noteq> 0)"
proof -
  from echo_accept_ok obtain c0 :: "'u conn" where c0: "echo_accept fd = Inr c0" "echoes [] c0" by blast
  from conn_echo_run_ok [OF c0(2), of es] obtain c rcv where c: "conn_echo_run es (c0, []) = Inr (c, rcv)" "echoes rcv c" by blast
  have "(\<exists>rest. conn.sent c @ rest = rcv) \<and> (chan c = None \<or>
      conn.sent c @ tasks_bytes (writTasks c) = rcv \<and> polled c AND (if writTasks c = [] then kRead else kWrit) \<noteq> 0)"
    using c(2) attended_polled [of c] by (cases "chan c") (auto simp: echoes_def outgoing_def)
  with c0(1) c(1) show ?thesis by blast
qed

end
