(* ===== verification/Tcp_Relay.thy ===== *)
theory Tcp_Relay
  imports Conn_Flow
begin

text \<open>
  The relay (\<open>liby_cpp/tests/tcp_relayer.cpp\<close>): two connections, each with a pointer to the other, and what
  is read from one is sent on the other. The theory shows that the pointers are used while they are
  valid, that the bytes arrive in order, and that the end of one connection is the end of both.
\<close>

section \<open>The relay\<close>

text \<open>
  The pointer a connection keeps in \<open>udata_\<close> is to a \<open>shared_ptr\<close> of the other connection, which
  \<open>onErroEventCallback\<close> deletes. A callback reaches the other connection through it: it works on a
  connection whose \<open>udata\<close> holds the pointer and the connection behind it.
\<close>

datatype peer_ptr = Peer | Deleted

type_synonym pipe = "peer_ptr conn"

definition with_udata :: "'v option \<Rightarrow> 'u conn \<Rightarrow> 'v conn" where
  "with_udata u c = \<lparr>chan = chan c, readBuf = readBuf c, writTasks = writTasks c, writBytes = writBytes c, writableLimit = writableLimit c,
     cb_read = cb_read c, cb_writ = cb_writ c, cb_erro = cb_erro c, cb_limit = cb_limit c, polled = polled c, sent = sent c, errno = errno c, udata = u\<rparr>"

definition view :: "pipe \<Rightarrow> pipe \<Rightarrow> (peer_ptr \<times> pipe) conn" where
  "view c peer = with_udata (map_option (\<lambda>p. (p, peer)) (udata c)) c"

definition unview :: "(peer_ptr \<times> pipe) conn \<Rightarrow> pipe \<Rightarrow> pipe \<times> pipe" where
  "unview v peer = (with_udata (map_option fst (udata v)) v, case udata v of None \<Rightarrow> peer | Some (p, peer') \<Rightarrow> peer')"

text \<open>\<open>(*c)->send(conn->read())\<close>; without a pointer only a message is logged.\<close>

definition relay_onRead :: "(peer_ptr \<times> pipe) conn \<Rightarrow> (peer_ptr \<times> pipe) conn res" where
  "relay_onRead c = (case udata c of None \<Rightarrow> Inr c
     | Some (Deleted, peer) \<Rightarrow> Inl WildDeref
     | Some (Peer, peer) \<Rightarrow>
         rbind (deref (readBuf c)) (\<lambda>b.
         rbind (conn_send_buffer b peer) (\<lambda>(b', peer'). Inr (c\<lparr>readBuf := Some b', udata := Some (Peer, peer')\<rparr>))))"

definition relay_onErro :: "(peer_ptr \<times> pipe) conn \<Rightarrow> (peer_ptr \<times> pipe) conn res" where
  "relay_onErro c = (case udata c of None \<Rightarrow> Inr c
     | Some (Deleted, peer) \<Rightarrow> Inl WildDeref
     | Some (Peer, peer) \<Rightarrow> rbind (setErro (peer\<lparr>udata := None\<rparr>)) (\<lambda>peer'. Inr (c\<lparr>udata := Some (Deleted, peer')\<rparr>)))"

text \<open>
  The error callback of an accepted connection is \<open>TcpServer::handleErroEventOfConn\<close>, which destroys the
  connection after the callback of the application; that of the client connection is the callback.
\<close>

definition relay_callbacks :: "bool \<Rightarrow> (peer_ptr \<times> pipe) conn_callbacks" where
  "relay_callbacks accepted = \<lparr>readEvent = relay_onRead, writeAll = Inr,
     erroEvent = (\<lambda>c. rbind (relay_onErro c) (\<lambda>c. Inr (if accepted then conn_destroy c else c))), limitEvent = Inr\<rparr>"

text \<open>An accepted connection is suspended until the connection to the other host is there.\<close>

definition relay_accept :: "nat \<Rightarrow> pipe res" where
  "relay_accept fd = rbind (Connection_init ((Connection_new fd)\<lparr>cb_read := True, cb_erro := True\<rparr>)) (suspendRead True)"

definition relay_client :: "nat \<Rightarrow> pipe res" where
  "relay_client fd = Connection_init ((Connection_new fd)\<lparr>cb_read := True, cb_erro := True\<rparr>)"

definition relay_onConnect :: "pipe \<Rightarrow> pipe \<Rightarrow> (pipe \<times> pipe) res" where
  "relay_onConnect conn2 conn =
     rbind (suspendRead False (conn\<lparr>udata := Some Peer\<rparr>)) (\<lambda>conn.
     rbind (suspendRead False (conn2\<lparr>udata := Some Peer\<rparr>)) (\<lambda>conn2. Inr (conn2, conn)))"

section \<open>Runs\<close>

text \<open>
  An event of one of the two connections, which may change both. A destroyed connection gets none. The
  bytes each was given are kept.
\<close>

definition relay_event :: "bool \<Rightarrow> u32 \<Rightarrow> readv_result \<Rightarrow> writ_result list \<Rightarrow> pipe \<Rightarrow> pipe \<Rightarrow> (pipe \<times> pipe) res" where
  "relay_event accepted re rr rs c peer =
     (if chan c = None then Inr (c, peer)
      else rbind (conn_event (relay_callbacks accepted) re rr rs (view c peer)) (\<lambda>v. Inr (unview v peer)))"

fun relay_run :: "(bool \<times> u32 \<times> readv_result \<times> writ_result list) list \<Rightarrow> (pipe \<times> cell list) \<times> pipe \<times> cell list \<Rightarrow>
    ((pipe \<times> cell list) \<times> pipe \<times> cell list) res" where
  "relay_run [] st = Inr st"
| "relay_run ((accepted, re, rr, rs) # es) ((a, ra), (b, rb)) =
     (if accepted then rbind (relay_event True re rr rs a b) (\<lambda>(a', b'). relay_run es ((a', ra @ bytes_read re rr a), (b', rb)))
      else rbind (relay_event False re rr rs b a) (\<lambda>(b', a'). relay_run es ((a', ra), (b', rb @ bytes_read re rr b))))"

section \<open>Views\<close>

lemma with_udata_fields [simp]:
  "chan (with_udata u c) = chan c" "readBuf (with_udata u c) = readBuf c" "writTasks (with_udata u c) = writTasks c"
  "cb_read (with_udata u c) = cb_read c" "cb_writ (with_udata u c) = cb_writ c" "cb_erro (with_udata u c) = cb_erro c" "cb_limit (with_udata u c) = cb_limit c"
  "polled (with_udata u c) = polled c" "sent (with_udata u c) = sent c" "udata (with_udata u c) = u"
  by (simp_all add: with_udata_def)

lemma with_udata_same [simp]:
  "conn_live (with_udata u c) = conn_live c" "outgoing (with_udata u c) = outgoing c" "bytes_read re rr (with_udata u c) = bytes_read re rr c"
  by (simp_all add: conn_live_def conn_ok_def outgoing_def bytes_read_def reads_def split: option.split)

section \<open>Invariant\<close>

text \<open>The two directions of a relay that lives: what one received the other has sent or will send.\<close>

definition joined :: "pipe \<Rightarrow> cell list \<Rightarrow> pipe \<Rightarrow> cell list \<Rightarrow> bool" where
  "joined a ra b rb \<longleftrightarrow> conn_live a \<and> conn_live b \<and> udata a = Some Peer \<and> udata b = Some Peer \<and> outgoing b = ra \<and> outgoing a = rb"

text \<open>A connection whose other side is gone: it has something to write, so that an event comes, and the event is an error.\<close>

definition doomed :: "pipe \<Rightarrow> bool" where
  "doomed c \<longleftrightarrow> (\<exists>ch. chan c = Some ch \<and> on_erro ch \<and> events ch AND kErro \<noteq> 0) \<and> polled c AND kWrit \<noteq> 0 \<and> cb_erro c \<and> udata c = None"

definition sent_of :: "pipe \<Rightarrow> cell list \<Rightarrow> bool" where
  "sent_of c r \<longleftrightarrow> (\<exists>rest. sent c @ rest = r)"

definition relay_ok :: "pipe \<Rightarrow> cell list \<Rightarrow> pipe \<Rightarrow> cell list \<Rightarrow> bool" where
  "relay_ok a ra b rb \<longleftrightarrow> joined a ra b rb \<or>
     (sent_of a rb \<and> sent_of b ra \<and> (chan a = None \<or> chan b = None) \<and> (chan a = None \<or> doomed a) \<and> (chan b = None \<or> doomed b))"

lemma relay_ok_swap: "relay_ok a ra b rb = relay_ok b rb a ra"
  by (auto simp: relay_ok_def joined_def)

lemma erro_bits [simp]: "enable kErro True e AND kErro \<noteq> 0"
proof -
  have b: "bit (4 :: u32) n \<longleftrightarrow> n = 2" for n using bit_exp_iff [where ?'a = "32 word", of 2 n] by (auto intro: ccontr)
  have z: "x AND kErro = 0 \<longleftrightarrow> \<not> bit x 2" for x :: u32 using and_exp_eq_0_iff_not_bit [of x 2] by simp
  show ?thesis unfolding z by (simp add: enable_def bit_or_iff b)
qed

text \<open>The other side learns of the end.\<close>

lemma setErro_dooms:
  assumes "conn_live c" "outgoing c = r"
  shows "\<exists>c'. setErro (c\<lparr>udata := None\<rparr>) = Inr c' \<and> doomed c' \<and> sent_of c' r"
proof -
  let ?c = "c\<lparr>udata := None\<rparr>"
  from assms(1) obtain ch rb where c: "chan ?c = Some ch" "on_erro ch" "readBuf c = Some rb" "conn_ok c" "cb_erro c" by (auto elim: conn_liveE)
  then have "conn_ok ?c" by (simp add: conn_ok_def)
  from push_task_passes [OF c(1) this, of "conn_task_new\<lparr>tbuffer := Some (Buffer_bytes [32])\<rparr>"] obtain ch' p where
    p: "push_task (conn_task_new\<lparr>tbuffer := Some (Buffer_bytes [32])\<rparr>) ?c =
        Inr (?c\<lparr>writTasks := writTasks c @ [conn_task_new\<lparr>tbuffer := Some (Buffer_bytes [32])\<rparr>], chan := Some ch', polled := p\<rparr>)"
    "on_erro ch'" "p AND kWrit \<noteq> 0" using c(2) by auto
  have "sent_of c r" using assms(2) by (auto simp: sent_of_def outgoing_def)
  then show ?thesis using p c
    by (simp add: setErro_def conn_send_def on_chan_def) (simp add: doomed_def sent_of_def enableErro_def)
qed

lemma erro_relay:
  assumes "cb_erro v" "udata v = Some (Peer, b)" "conn_live b" "outgoing b = ra" "sent v @ rest = rb"
  shows "\<exists>v'. handleErroEvent (relay_callbacks accepted) v = Inr v' \<and> (\<forall>x. relay_ok (fst (unview v' x)) ra (snd (unview v' x)) rb)"
proof -
  from setErro_dooms [OF assms(3,4)] obtain b' where b': "setErro (b\<lparr>udata := None\<rparr>) = Inr b'" "doomed b'" "sent_of b' ra" by blast
  let ?v = "conn_destroy (v\<lparr>udata := Some (Deleted, b')\<rparr>)"
  have "handleErroEvent (relay_callbacks accepted) v = Inr ?v"
    using assms(1,2) b'(1) by (simp add: handleErroEvent_def relay_callbacks_def relay_onErro_def) (simp add: conn_destroy_def)
  moreover have "relay_ok (fst (unview ?v x)) ra (snd (unview ?v x)) rb" for x
    using b'(2,3) assms(5) by (auto simp: unview_def relay_ok_def sent_of_def conn_destroy_def)
  ultimately show ?thesis by blast
qed
text \<open>What is handed to a connection that lives comes after all it was handed before.\<close>

lemma peer_send:
  assumes "conn_live c" "wf_buffer b" "0 < cap b"
  shows "\<exists>c'. conn_send_buffer b c = Inr (Buffer_length (cap b), c') \<and> conn_live c' \<and> outgoing c' = outgoing c @ contents b \<and> udata c' = udata c"
proof -
  from assms(1) obtain ch rb where c: "chan c = Some ch" "on_erro ch" "readBuf c = Some rb" "conn_ok c" by (auto elim: conn_liveE)
  from send_buffer_ok [OF c(1,3) assms(2,3) c(4)] obtain ch' p n where
    s: "conn_send_buffer b c = Inr (Buffer_length (cap b),
      c\<lparr>writTasks := writTasks c @ [conn_task_new\<lparr>tbuffer := Some b\<rparr>], chan := Some ch', polled := p, writBytes := n\<rparr>)" (is "_ = Inr (_, ?c)") and
    ch': "events ch' AND kWrit \<noteq> 0" "savedEvents ch' = events ch'" "on_erro ch'" "p AND kWrit \<noteq> 0" using c(2) by auto
  have "conn_ok ?c" using c ch' task_of_buffer(1) [OF assms(2,3)] by (simp add: conn_ok_def)
  then have "conn_live ?c" using assms(1) ch'(3) by (auto simp: conn_live_def)
  then show ?thesis using s by (simp add: outgoing_def task_of_buffer(2))
qed

lemma relay_callback:
  assumes "conn_live v" "udata v = Some (Peer, b)" "conn_live b" "wf_buffer d" "0 < cap d"
  shows "\<exists>v' b'. rbind (relay_onRead (v\<lparr>readBuf := Some d\<rparr>)) (after_read cb) = Inr v' \<and> conn_live v' \<and> outgoing v' = outgoing v \<and>
    udata v' = Some (Peer, b') \<and> conn_live b' \<and> outgoing b' = outgoing b @ contents d \<and> udata b' = udata b"
proof -
  from peer_send [OF assms(3-5)] obtain b' where
    b': "conn_send_buffer d b = Inr (Buffer_length (cap d), b')" "conn_live b'" "outgoing b' = outgoing b @ contents d" "udata b' = udata b" by blast
  let ?v = "v\<lparr>readBuf := Some (Buffer_length (cap d)), udata := Some (Peer, b')\<rparr>"
  have "relay_onRead (v\<lparr>readBuf := Some d\<rparr>) = Inr ?v" using assms(2) b'(1) by (simp add: relay_onRead_def)
  moreover from assms(1) have "conn_live ?v" using assms(5) wf_Buffer_length
    by (auto simp: conn_live_def conn_ok_def)
  moreover have "outgoing ?v = outgoing v" by (simp add: outgoing_def)
  ultimately show ?thesis using after_read_keeps [of ?v cb] b'(2-4) by auto
qed

text \<open>The two connections of a relay that lives, seen from one, and what any event of it may lead to.\<close>

definition relay_good :: "cell list \<Rightarrow> cell list \<Rightarrow> (peer_ptr \<times> pipe) conn \<Rightarrow> bool" where
  "relay_good rb ra v \<longleftrightarrow> conn_live v \<and> outgoing v = rb \<and> (\<exists>b. udata v = Some (Peer, b) \<and> conn_live b \<and> udata b = Some Peer \<and> outgoing b = ra)"

definition relay_safe :: "cell list \<Rightarrow> cell list \<Rightarrow> (peer_ptr \<times> pipe) conn \<Rightarrow> bool" where
  "relay_safe rb ra v \<longleftrightarrow> (\<forall>x. relay_ok (fst (unview v x)) ra (snd (unview v x)) rb)"

interpretation relay: live_app "relay_callbacks accepted" "relay_good rb" "relay_safe rb"
proof
  show "relay_safe rb ra v" if "relay_good rb ra v" for ra v
    using that by (auto simp: relay_good_def relay_safe_def relay_ok_def joined_def unview_def)
  show "\<exists>v'. handleErroEvent (relay_callbacks accepted) v1 = Inr v' \<and> relay_safe rb ra v'"
    if "relay_good rb ra v" "cb_erro v1" "udata v1 = udata v" "sent v1 @ rest = outgoing v" for ra v v1 rest
    using that erro_relay [of v1 _ ra rest rb accepted] by (auto simp: relay_good_def relay_safe_def)
  show "\<exists>v'. rbind (readEvent (relay_callbacks accepted) (v\<lparr>readBuf := Some d\<rparr>)) (after_read (relay_callbacks accepted)) = Inr v' \<and> relay_safe rb (ra @ contents d) v'"
    if g: "relay_good rb ra v" and d: "wf_buffer d" "0 < cap d" for ra v d
  proof -
    from g obtain b where v: "conn_live v" "udata v = Some (Peer, b)" "conn_live b" "outgoing v = rb" "udata b = Some Peer" "outgoing b = ra" by (auto simp: relay_good_def)
    from relay_callback [OF v(1-3) d, of "relay_callbacks accepted"] obtain v' b' where
      "rbind (relay_onRead (v\<lparr>readBuf := Some d\<rparr>)) (after_read (relay_callbacks accepted)) = Inr v'" "conn_live v'" "outgoing v' = outgoing v"
      "udata v' = Some (Peer, b')" "conn_live b'" "outgoing b' = outgoing b @ contents d" "udata b' = udata b" by blast
    with v(4-6) show ?thesis by (simp add: relay_callbacks_def relay_safe_def relay_ok_def joined_def unview_def)
  qed
qed (auto simp: relay_good_def keeps_def)

lemma joined_event:
  assumes "joined a ra b rb" "chan a = Some ch"
  shows "\<exists>a' b'. relay_event accepted re rr rs a b = Inr (a', b') \<and> relay_ok a' (ra @ bytes_read re rr a) b' rb"
proof -
  have "relay_good rb ra (view a b)" "chan (view a b) = Some ch" "bytes_read re rr (view a b) = bytes_read re rr a"
    using assms by (simp_all add: relay_good_def joined_def view_def)
  with relay.app_event [of rb ra "view a b" ch accepted re rr rs] obtain v' where
    v': "conn_event (relay_callbacks accepted) re rr rs (view a b) = Inr v'" "relay_safe rb (ra @ bytes_read re rr a) v'" by auto
  from v'(2) have "relay_ok (fst (unview v' b)) (ra @ bytes_read re rr a) (snd (unview v' b)) rb" by (simp add: relay_safe_def)
  with v'(1) show ?thesis using assms(2) by (cases "unview v' b") (simp add: relay_event_def)
qed

lemma doomed_event:
  assumes "doomed a"
  shows "\<exists>a'. relay_event accepted re rr rs a b = Inr (a', b) \<and> chan a' = None \<and> sent a' = sent a" "bytes_read re rr a = []"
proof -
  from assms obtain ch where ch: "chan a = Some ch" "on_erro ch" "events ch AND kErro \<noteq> 0" "cb_erro a" "udata a = None" by (auto simp: doomed_def)
  have h: "handleEvent (updateRevents re ch) = ((updateRevents re ch)\<lparr>savedEvents := events ch\<rparr>, Some ErroCb)"
    using ch by (simp add: handleEvent_def updateRevents_def chan_isError_def Let_def)
  then show "bytes_read re rr a = []" using ch(1) by (simp add: bytes_read_def reads_def)
  show "\<exists>a'. relay_event accepted re rr rs a b = Inr (a', b) \<and> chan a' = None \<and> sent a' = sent a"
    using ch h by (simp add: relay_event_def view_def conn_event_def handleErroEvent_def relay_callbacks_def relay_onErro_def Let_def)
      (simp add: unview_def conn_destroy_def)
qed

lemma relay_event_ok:
  assumes "relay_ok a ra b rb"
  shows "\<exists>a' b'. relay_event accepted re rr rs a b = Inr (a', b') \<and> relay_ok a' (ra @ bytes_read re rr a) b' rb"
proof (cases "chan a")
  case None
  then have "bytes_read re rr a = []" by (simp add: bytes_read_def reads_def)
  then show ?thesis using assms None by (simp add: relay_event_def)
next
  case (Some ch)
  show ?thesis
  proof (cases "joined a ra b rb")
    case True
    then show ?thesis using joined_event Some by blast
  next
    case False
    then have "doomed a" "chan b = None" "sent_of a rb" "sent_of b ra" using assms Some by (auto simp: relay_ok_def)
    then show ?thesis using doomed_event(1) [of a accepted re rr rs b] doomed_event(2) [of a re rr] by (auto simp: relay_ok_def sent_of_def)
  qed
qed

lemma relay_run_ok:
  "relay_ok a ra b rb \<Longrightarrow> \<exists>a' ra' b' rb'. relay_run es ((a, ra), (b, rb)) = Inr ((a', ra'), (b', rb')) \<and> relay_ok a' ra' b' rb'"
proof (induction es arbitrary: a ra b rb)
  case (Cons e es)
  obtain accepted re rr rs where e: "e = (accepted, re, rr, rs)" by (cases e)
  show ?case
  proof (cases accepted)
    case True
    with relay_event_ok [OF Cons.prems, of True re rr rs] Cons.IH show ?thesis by (fastforce simp: e)
  next
    case False
    have "relay_ok b rb a ra" using Cons.prems relay_ok_swap by blast
    from relay_event_ok [OF this, of False re rr rs] obtain b' a' where
      "relay_event False re rr rs b a = Inr (b', a')" "relay_ok b' (rb @ bytes_read re rr b) a' ra" by blast
    with False Cons.IH [of a' ra b' "rb @ bytes_read re rr b"] show ?thesis by (simp add: e relay_ok_swap)
  qed
qed simp

lemma relay_start:
  "\<exists>a b a0 b0. relay_accept fda = Inr a \<and> relay_client fdb = Inr b \<and> relay_onConnect a b = Inr (a0, b0) \<and> joined a0 [] b0 []"
proof -
  have "wf_buffer (Buffer_length 4096)" "0 < cap (Buffer_length 4096)" "contents (Buffer_length 4096) = []" by (simp_all add: wf_Buffer_length)
  then show ?thesis
    by (auto simp: relay_accept_def relay_client_def relay_onConnect_def suspendRead_def on_chan_def updateChanel_def Connection_init_def Connection_new_def
        channel_new_def enableRead_def enable_def isEventsChanged_def joined_def conn_live_def outgoing_def conn_ok_def Let_def)
qed

section \<open>Properties\<close>

text \<open>
  C18. The relay: whatever events the two connections see, in whatever order, and whatever the system
  calls return, no step faults, no pointer is used after it was deleted, and what was sent on one
  connection is the beginning of what was received on the other. While both live, the rest waits in
  the tasks of connections that are watched for writability. When one is gone, the other is watched
  and the next event, whatever it is, destroys it, before it sends anything more.
\<close>

theorem relay_forwards:
  "\<exists>a1 b1 a0 b0 a ra b rb. relay_accept fda = Inr a1 \<and> relay_client fdb = Inr b1 \<and> relay_onConnect a1 b1 = Inr (a0, b0) \<and>
     relay_run es ((a0, []), (b0, [])) = Inr ((a, ra), (b, rb)) \<and>
     (\<exists>rest. sent a @ rest = rb) \<and> (\<exists>rest. sent b @ rest = ra) \<and>
     (if chan a = None then if chan b = None then True else polled b AND kWrit \<noteq> 0 \<and>
        (\<forall>re rr rs. \<exists>b'. relay_event False re rr rs b a = Inr (b', a) \<and> chan b' = None \<and> sent b' = sent b)
      else if chan b = None then polled a AND kWrit \<noteq> 0 \<and>
        (\<forall>re rr rs. \<exists>a'. relay_event True re rr rs a b = Inr (a', b) \<and> chan a' = None \<and> sent a' = sent a)
      else sent b @ tasks_bytes (writTasks b) = ra \<and> sent a @ tasks_bytes (writTasks a) = rb \<and>
        (if writTasks a = [] then True else polled a AND kWrit \<noteq> 0) \<and> (if writTasks b = [] then True else polled b AND kWrit \<noteq> 0))"
proof -
  from relay_start obtain a1 b1 a0 b0 where
    start: "relay_accept fda = Inr a1" "relay_client fdb = Inr b1" "relay_onConnect a1 b1 = Inr (a0, b0)" "joined a0 [] b0 []" by blast
  then have "relay_ok a0 [] b0 []" by (simp add: relay_ok_def)
  from relay_run_ok [OF this, of es] obtain a ra b rb where
    run: "relay_run es ((a0, []), (b0, [])) = Inr ((a, ra), (b, rb))" "relay_ok a ra b rb" by blast
  have "sent_of a rb" "sent_of b ra" using run(2) by (auto simp: relay_ok_def joined_def sent_of_def outgoing_def)
  moreover have "doomed c \<Longrightarrow> polled c AND kWrit \<noteq> 0" for c by (simp add: doomed_def)
  moreover have "joined a ra b rb \<Longrightarrow> chan a \<noteq> None \<and> chan b \<noteq> None \<and> (writTasks a = [] \<or> polled a AND kWrit \<noteq> 0) \<and> (writTasks b = [] \<or> polled b AND kWrit \<noteq> 0) \<and>
      sent b @ tasks_bytes (writTasks b) = ra \<and> sent a @ tasks_bytes (writTasks a) = rb"
    using live_polled by (auto simp: joined_def outgoing_def elim: conn_liveE)
  ultimately show ?thesis using start(1-3) run doomed_event(1) unfolding relay_ok_def sent_of_def
    by (cases "chan a"; cases "chan b"; simp; blast)
qed

end
