(* ===== verification/Socks_Proxy.thy ===== *)
theory Socks_Proxy
  imports Tcp_Server Http_Server Tcp_Relay
begin

text \<open>
  The SOCKS proxy (\<open>liby_cpp/tests/tcp_proxy.cpp\<close>): the request of a client, the \<open>TcpClient\<close> it starts with
  its timer, and the relay that follows it with the callbacks of \<open>Tcp_Relay\<close>, which are those of the
  proxy word for word. Whether connecting to a host and port succeeds, with which descriptor, is an
  argument.
\<close>

section \<open>The request\<close>

text \<open>\<open>inet_ntop\<close> for the four bytes of an address, and \<open>ntohs\<close>.\<close>

definition inet_ntop4 :: "byte list \<Rightarrow> byte list" where
  "inet_ntop4 bs = decimal (unat (bs ! 0)) @ 46 # decimal (unat (bs ! 1)) @ 46 # decimal (unat (bs ! 2)) @ 46 # decimal (unat (bs ! 3))"

definition port_number :: "byte list \<Rightarrow> nat" where
  "port_number bs = 256 * unat (bs ! 0) + unat (bs ! 1)"

definition proxy_accept :: "nat \<Rightarrow> pipe res" where
  "proxy_accept fd = Connection_init ((Connection_new fd)\<lparr>cb_read := True, cb_erro := True\<rparr>)"

text \<open>
  The functions of the proxy that are set as callbacks (the one for a connection that was made has
  captured the id of the timer), and what the timer does.
\<close>

datatype proxy_callback = HandleRequest | OnConnect u64 | OnRead | OnErro

datatype proxy_timeout = FdTimeout int

text \<open>
  What the handler does with the bytes read so far: wait for more, give up, or start a client. The
  state is that of the connection, the callback it has for reading, and the timers of its poller.
\<close>

datatype proxy_action = Wait | BadRequest | Connecting "proxy_callback tcp_client"

record proxy_state =
  px_conn :: pipe
  px_read :: proxy_callback
  px_timers :: "proxy_timeout tstate"

definition handleConnectionRequest ::
    "byte \<Rightarrow> (byte list \<Rightarrow> byte list \<Rightarrow> int option) \<Rightarrow> (nat \<Rightarrow> timestamp) \<Rightarrow> nat \<Rightarrow> proxy_state \<Rightarrow> (proxy_action \<times> proxy_state) res" where
  "handleConnectionRequest junk connect clk poller s =
     (let conn = px_conn s in
      rbind (deref (readBuf conn)) (\<lambda>b.
      rbind (bsize b) (\<lambda>n.
      if n < 9 then Inr (Wait, s)
      else
        rbind (data b) (\<lambda>(m, off).
        rbind (read_block m off 8) (\<lambda>cells.
        let bs = map (cell_byte junk) cells in
        if bs ! 0 \<noteq> 4 \<or> bs ! 1 \<noteq> 1 then Inr (BadRequest, s)
        else
          let name = inet_ntop4 (drop 4 bs); port = decimal (port_number (drop 2 bs)) in
          rbind (deref (creatTcpClient_on poller (connect name port))) (\<lambda>cl.
          rbind (TimerSet_runAfter clk (Timestamp 8 0) (FdTimeout (clientfd cl)) (cl_timers cl) (px_timers s)) (\<lambda>(id, ts, st).
          let cl = TcpClient_start (cl\<lparr>cl_timers := ts, connector := Some (OnConnect id), cl_read := Some OnRead, cl_erro := Some OnErro\<rparr>) in
          rbind (suspendRead True (conn\<lparr>readBuf := Some (retrieve_all b), cb_read := True\<rparr>)) (\<lambda>conn'.
          Inr (Connecting cl, \<lparr>px_conn = conn', px_read = OnRead, px_timers = st\<rparr>)))))))))"

text \<open>
  The reply has eight bytes, of which only two are set: the others are what the stack holds. The
  handler runs as a function that the client object keeps. Cancelling the timer drops the reference to
  the client that the timer has; \<open>refs\<close> is the number of references before that. With the last one the
  client goes, and with it the function that is running and the pointer \<open>conn\<close> that it has captured.
\<close>

definition proxy_onConnect :: "nat \<Rightarrow> byte list \<Rightarrow> pipe \<Rightarrow> pipe \<Rightarrow> (pipe \<times> pipe) res" where
  "proxy_onConnect refs stack conn conn2 =
     rbind (suspendRead False (conn\<lparr>udata := Some Peer\<rparr>)) (\<lambda>conn.
     rbind (suspendRead False (conn2\<lparr>udata := Some Peer\<rparr>)) (\<lambda>conn2.
     if refs - 1 = 0 then Inl WildDeref
     else rbind (conn_send (0 # 0x5A # take 6 stack) conn) (\<lambda>conn. Inr (conn, conn2))))"

text \<open>After \<open>handleConnectionRequest\<close> has returned only the timer refers to the client.\<close>

definition proxy_client_refs :: nat where
  "proxy_client_refs = 1"

section \<open>Requests of the protocol\<close>

text \<open>A request of SOCKS 4: version, command, port, address, the name of the user and a zero byte.\<close>

definition socks4_connect :: "byte list \<Rightarrow> 16 word \<Rightarrow> byte list \<Rightarrow> byte list" where
  "socks4_connect ip port user = [4, 1, ucast (drop_bit 8 port), ucast port] @ ip @ user @ [0]"

lemma port_bytes: "256 * unat (ucast (drop_bit 8 (p :: 16 word)) :: byte) + unat (ucast p :: byte) = unat p"
proof -
  have "unat p < 65536" using unsigned_less [of p] by simp
  then have "unat p div 256 < 256" by (simp add: less_mult_imp_div_less)
  moreover have "unat (drop_bit 8 p) = unat p div 256" by (simp only: unat_drop_bit_eq) (simp add: drop_bit_eq_div)
  ultimately have "unat (ucast (drop_bit 8 p) :: byte) = unat p div 256" by (simp add: unsigned_ucast_eq take_bit_eq_mod)
  moreover have "unat (ucast p :: byte) = unat p mod 256" by (simp add: unsigned_ucast_eq take_bit_eq_mod)
  ultimately show ?thesis by simp
qed

text \<open>Suspending or resuming a connection without tasks.\<close>

lemma suspend_idle:
  assumes "chan c = Some ch" "conn_ok c" "writTasks c = []"
  shows "\<exists>ch' p. suspendRead flag c = Inr (c\<lparr>chan := Some ch', polled := p\<rparr>) \<and> on_erro ch' = on_erro ch \<and> conn_ok (c\<lparr>chan := Some ch', polled := p\<rparr>) \<and>
    events ch' = enable kRead (\<not> flag) (events ch)"
proof -
  let ?ch = "enableRead (\<not> flag) ch"
  let ?p = "if isEventsChanged ?ch then events ?ch else polled c"
  let ?c = "c\<lparr>chan := Some (?ch\<lparr>savedEvents := events ?ch\<rparr>), polled := ?p\<rparr>"
  have swap: "c\<lparr>chan := x, polled := p, chan := y\<rparr> = c\<lparr>chan := y, polled := p\<rparr>" for x y p by (cases c) simp
  have "suspendRead flag c = Inr ?c" using assms(1) by (simp add: suspendRead_def on_chan_def updateChanel_def swap)
  moreover have "conn_ok ?c" using assms by (simp add: conn_ok_def isEventsChanged_def)
  ultimately show ?thesis by (intro exI [of _ "?ch\<lparr>savedEvents := events ?ch\<rparr>"] exI [of _ ?p]) simp
qed

section \<open>Invariant of the connection before it is relayed\<close>

definition proxy_live :: "pipe \<Rightarrow> bool" where
  "proxy_live c \<longleftrightarrow> (\<exists>ch b. chan c = Some ch \<and> on_erro ch \<and> readBuf c = Some b \<and> wf_buffer b \<and> 0 < cap b) \<and>
     conn_ok c \<and> cb_read c \<and> cb_erro c \<and> \<not> cb_writ c \<and> \<not> cb_limit c \<and> writTasks c = [] \<and> conn.sent c = []"

text \<open>The 8 bytes of the request in the buffer.\<close>

lemma request_bytes:
  fixes port :: "16 word"
  assumes "proxy_live c" "readBuf c = Some b" "contents b = map Some ([4, 1, ucast (drop_bit 8 port), ucast port] @ ip @ rest)" "length ip = 4" "rest \<noteq> []"
  obtains n m off where "bsize b = Inr n" "\<not> n < 9" "data b = Inr (m, off)"
    "read_block m off 8 = Inr (map Some ([4, 1, ucast (drop_bit 8 port), ucast port] @ ip))"
proof -
  from assms have c: "wf_buffer b" "0 < cap b" by (auto simp: proxy_live_def)
  have n: "bsize b = Inr (length (contents b))" using c by simp
  have len: "9 \<le> length (contents b)" using assms(3-5) by (cases rest) simp_all
  obtain m where m: "mem b = Some m" "block b = m" using wf_memE [OF c] by (auto simp: block_def)
  have d: "data b = Inr (m, leftIndex b)" using c(1) m by (simp add: data_def wf_buffer_def)
  have "read_block m (leftIndex b) 8 = Inr (take 8 (contents b))"
    using read_contents [OF c(1), of 8] m(2) len length_contents [OF c(1)] by simp
  then have "read_block m (leftIndex b) 8 = Inr (map Some ([4, 1, ucast (drop_bit 8 port), ucast port] @ ip))"
    using assms(3,4) by simp
  with n len d that show thesis by (metis not_le)
qed

lemma request_handled:
  fixes port :: "16 word"
  assumes "bsize b = Inr n" "\<not> n < 9" "data b = Inr (m, off)" "length ip = 4"
    "read_block m off 8 = Inr (map Some ([4, 1, ucast (drop_bit 8 port), ucast port] @ ip))" "readBuf (px_conn s) = Some b"
  shows "handleConnectionRequest junk connect clk poller s =
     rbind (deref (creatTcpClient_on poller (connect (inet_ntop4 ip) (decimal (unat port))))) (\<lambda>cl.
     rbind (TimerSet_runAfter clk (Timestamp 8 0) (FdTimeout (clientfd cl)) (cl_timers cl) (px_timers s)) (\<lambda>(id, ts, st).
     rbind (suspendRead True ((px_conn s)\<lparr>readBuf := Some (retrieve_all b), cb_read := True\<rparr>)) (\<lambda>conn'.
     Inr (Connecting (TcpClient_start (cl\<lparr>cl_timers := ts, connector := Some (OnConnect id), cl_read := Some OnRead, cl_erro := Some OnErro\<rparr>)),
       \<lparr>px_conn = conn', px_read = OnRead, px_timers = st\<rparr>))))"
  using assms port_bytes [of port]
  by (simp add: handleConnectionRequest_def port_number_def cell_byte_def o_def Let_def)

lemma proxy_suspended:
  assumes "proxy_live c" "readBuf c = Some b"
  shows "\<exists>c' ch b'. suspendRead True (c\<lparr>readBuf := Some (retrieve_all b), cb_read := True\<rparr>) = Inr c' \<and> conn_live c' \<and>
    writTasks c' = [] \<and> conn.sent c' = [] \<and> readBuf c' = Some b' \<and> contents b' = [] \<and> chan c' = Some ch \<and> events ch AND kRead = 0"
proof -
  from assms obtain ch where c: "chan c = Some ch" "on_erro ch" "wf_buffer b" "0 < cap b" "conn_ok c" "writTasks c = []" by (auto simp: proxy_live_def)
  let ?c = "c\<lparr>readBuf := Some (retrieve_all b), cb_read := True\<rparr>"
  have "chan ?c = Some ch" "conn_ok ?c" "writTasks ?c = []" using c by (simp_all add: conn_ok_def)
  from suspend_idle [OF this, of True] obtain ch' p where
    s: "suspendRead True ?c = Inr (?c\<lparr>chan := Some ch', polled := p\<rparr>)" "on_erro ch' = on_erro ch" "conn_ok (?c\<lparr>chan := Some ch', polled := p\<rparr>)"
      "events ch' = enable kRead False (events ch)" by auto
  have e: "wf_buffer (retrieve_all b)" "contents (retrieve_all b) = []" "cap (retrieve_all b) = cap b"
    using c(3) by (simp_all add: retrieve_all_wf) (simp_all add: retrieve_all_def contents_def)
  have "conn_live (?c\<lparr>chan := Some ch', polled := p\<rparr>)" using assms(1) s(2,3) c e by (auto simp: conn_live_def proxy_live_def)
  then show ?thesis using assms(1) s(1,4) e(2) by (auto simp: proxy_live_def)
qed

text \<open>Starting a timer in a queue with room.\<close>

lemma runAfter_starts:
  assumes "timers_room 1 (fst st)" and "timerIds (snd st) \<noteq> 0"
  shows "\<exists>st'. runAfter clk t h st = Inr (timerIds (snd st), st') \<and>
    elems (queue (fst st')) = add_mset \<lparr>timer_id = timerIds (snd st), timeout = ts_plus t (clk (ticks (snd st))), handler = Some (Plain h)\<rparr>
      (elems (queue (fst st)))"
proof -
  let ?t = "\<lparr>timer_id = timerIds (snd st), timeout = ts_plus t (clk (ticks (snd st))), handler = Some (Plain h)\<rparr>"
  have "heap_room (queue (fst st))" "hsize (queue (fst st)) + 1 < 2 ^ 31" using assms(1) by (auto simp: timers_room_iff)
  from TimerQueue_insert_total [OF this, of ?t] assms(2) show ?thesis
    by (auto simp: runAfter_def runAt_def tick_def Timer_new_def getOneValidId_def)
qed

text \<open>Connected, the accepted connection has the reply as its first task.\<close>

lemma resume_live:
  assumes "conn_live c" "writTasks c = []"
  shows "\<exists>c'. suspendRead False (c\<lparr>udata := u\<rparr>) = Inr c' \<and> conn_live c' \<and> writTasks c' = [] \<and> conn.sent c' = conn.sent c \<and> udata c' = u"
proof -
  let ?c = "c\<lparr>udata := u\<rparr>"
  from assms(1) obtain ch where ch: "chan ?c = Some ch" "on_erro ch" "conn_ok c" by (auto elim: conn_liveE)
  moreover from this have "conn_ok ?c" "writTasks ?c = []" using assms(2) by (simp_all add: conn_ok_def)
  ultimately obtain ch' p where s: "suspendRead False ?c = Inr (?c\<lparr>chan := Some ch', polled := p\<rparr>)" "on_erro ch'"
    "conn_ok (?c\<lparr>chan := Some ch', polled := p\<rparr>)" using suspend_idle [of ?c ch False] by auto
  then have "conn_live (?c\<lparr>chan := Some ch', polled := p\<rparr>)" using assms(1) by (auto simp: conn_live_def)
  then show ?thesis using s(1) assms(2) by simp
qed

lemma proxy_connected:
  assumes "1 < refs" "conn_live c" "writTasks c = []" "conn.sent c = []" "conn_live d" "writTasks d = []" "conn.sent d = []"
  shows "\<exists>c' d'. proxy_onConnect refs stack c d = Inr (c', d') \<and> joined c' [] d' (map Some (0 # 0x5A # take 6 stack))"
proof -
  let ?t = "conn_task_new\<lparr>tbuffer := Some (Buffer_bytes (0 # 0x5A # take 6 stack))\<rparr>"
  from resume_live [OF assms(2,3)] assms(4) obtain c1 where c1: "suspendRead False (c\<lparr>udata := Some Peer\<rparr>) = Inr c1" "conn_live c1" "writTasks c1 = []"
    "conn.sent c1 = []" "udata c1 = Some Peer" by metis
  from resume_live [OF assms(5,6)] assms(7) obtain d1 where d1: "suspendRead False (d\<lparr>udata := Some Peer\<rparr>) = Inr d1" "conn_live d1" "writTasks d1 = []"
    "conn.sent d1 = []" "udata d1 = Some Peer" by metis
  from c1(2) obtain ch rb where ch: "chan c1 = Some ch" "on_erro ch" "conn_ok c1" "readBuf c1 = Some rb" by (auto elim: conn_liveE)
  from push_task_passes [OF ch(1,3), of ?t] obtain ch' p where
    p: "push_task ?t c1 = Inr (c1\<lparr>writTasks := writTasks c1 @ [?t], chan := Some ch', polled := p\<rparr>)" "events ch' AND kWrit \<noteq> 0"
      "savedEvents ch' = events ch'" "on_erro ch'" "p AND kWrit \<noteq> 0" using ch(2) by auto
  let ?c = "c1\<lparr>writTasks := [?t], chan := Some ch', polled := p, writBytes := writBytes c1 + int (2 + min (length stack) 6)\<rparr>"
  have send: "conn_send (0 # 0x5A # take 6 stack) c1 = Inr ?c" using p(1) ch(4) c1(3) by (simp add: conn_send_def)
  have "conn_ok ?c" using ch p Buffer_bytes_ok(1) by (simp add: conn_ok_def)
  then have "conn_live ?c" using c1(2) p(4) by (auto simp: conn_live_def)
  then have "joined ?c [] d1 (map Some (0 # 0x5A # take 6 stack))"
    using c1 d1 Buffer_bytes_ok(2) [of "0 # 0x5A # take 6 stack"] by (simp add: joined_def outgoing_def)
  then show ?thesis using assms(1) c1(1) d1(1) send by (simp add: proxy_onConnect_def)
qed

lemma relay_client_live: "\<exists>c. relay_client fd = Inr c \<and> conn_live c \<and> writTasks c = [] \<and> conn.sent c = []"
proof -
  have "wf_buffer (Buffer_length 4096)" "0 < cap (Buffer_length 4096)" "contents (Buffer_length 4096) = []" by (simp_all add: wf_Buffer_length)
  then show ?thesis
    by (auto simp: relay_client_def Connection_init_def Connection_new_def channel_new_def enableRead_def enable_def conn_live_def conn_ok_def Let_def)
qed

lemma proxy_accept_live: "\<exists>c b. proxy_accept fd = Inr c \<and> proxy_live c \<and> readBuf c = Some b \<and> wf_buffer b \<and> 0 < cap b \<and> contents b = []"
proof -
  have "wf_buffer (Buffer_length 4096)" "0 < cap (Buffer_length 4096)" "contents (Buffer_length 4096) = []" by (simp_all add: wf_Buffer_length)
  then show ?thesis
    by (auto simp: proxy_accept_def Connection_init_def Connection_new_def channel_new_def enableRead_def enable_def proxy_live_def conn_ok_def Let_def)
qed

text \<open>The request has been read: as much of it as fits, so the part up to the address.\<close>

lemma proxy_read:
  assumes "proxy_live c" "readBuf c = Some b" "wf_buffer b" "0 < cap b" "contents b = []" "rq = socks4_connect [w, x, y, z] port user @ early"
  shows "\<exists>n c' b' rest. tryRead (Got (map Some rq)) c = Inr (n, c') \<and> proxy_live c' \<and> readBuf c' = Some b' \<and> rest \<noteq> [] \<and>
    contents b' = map Some ([4, 1, ucast (drop_bit 8 port), ucast port] @ [w, x, y, z] @ rest)"
proof -
  define k where "k = cap b - rightIndex b + extraBuffer_size"
  define rest where "rest = take (k - 8) (user @ [0] @ early)"
  have k: "k \<ge> 8 + 1" by (simp add: k_def)
  have rest: "rest \<noteq> []" using k by (simp add: rest_def)
  have "take k rq = [4, 1, ucast (drop_bit 8 port), ucast port] @ [w, x, y, z] @ rest"
    using k by (simp add: assms(6) socks4_connect_def rest_def take_Cons' eval_nat_numeral)
  then have bs: "map Some ([4, 1, ucast (drop_bit 8 port), ucast port] @ [w, x, y, z] @ rest) = take k (map Some rq)" by (simp add: take_map)
  from conn_read_appends [OF assms(2-4) bs [unfolded k_def]] obtain b' where
    b': "tryRead (Got (map Some rq)) c = Inr (int (8 + length rest), c\<lparr>readBuf := Some b'\<rparr>)" "wf_buffer b'"
      "contents b' = map Some ([4, 1, ucast (drop_bit 8 port), ucast port] @ [w, x, y, z] @ rest)" using assms(5) by auto
  have "0 < length (contents b')" using b'(3) by simp
  then have "0 < cap b'" using b'(2) length_contents [OF b'(2)] by (auto simp: wf_buffer_def)
  then have "proxy_live (c\<lparr>readBuf := Some b'\<rparr>)" using assms(1) b'(2) by (auto simp: proxy_live_def conn_ok_def)
  then show ?thesis using b' rest by auto
qed

section \<open>Properties\<close>

text \<open>
  C25. The proxy: let the first thing read from a new connection be a SOCKS 4 request, whatever follows
  it, and let the timers of the poller have room for one more. The proxy connects to the address and
  port in the request. If that fails, it dereferences the null pointer it got instead of a client.
  Otherwise the client it made has a channel, the callbacks of the proxy and a timer of 8 seconds,
  which is in the queue of the poller; the connection has the callback of the relay, is emptied and
  not read from until the other one is there.
\<close>

theorem socks_connect_request:
  assumes "timers_room 1 (fst st)" and "timerIds (snd st) \<noteq> 0"
  shows "\<exists>c0 n c1. proxy_accept fd = Inr c0 \<and>
     tryRead (Got (map Some (socks4_connect [w, x, y, z] port user @ early))) c0 = Inr (n, c1) \<and>
     (case connect (inet_ntop4 [w, x, y, z]) (decimal (unat port)) of
        None \<Rightarrow> handleConnectionRequest junk connect clk poller \<lparr>px_conn = c1, px_read = HandleRequest, px_timers = st\<rparr> = Inl NullDeref
      | Some sock \<Rightarrow> \<exists>cl s ch b.
          handleConnectionRequest junk connect clk poller \<lparr>px_conn = c1, px_read = HandleRequest, px_timers = st\<rparr> = Inr (Connecting cl, s) \<and>
          clientfd cl = sock \<and> cl_poller cl = poller \<and> cl_chan cl \<and> connector cl = Some (OnConnect (timerIds (snd st))) \<and>
          cl_read cl = Some OnRead \<and> cl_erro cl = Some OnErro \<and> ts_ids (cl_timers cl) = [timerIds (snd st)] \<and>
          elems (queue (fst (px_timers s))) = add_mset \<lparr>timer_id = timerIds (snd st),
            timeout = ts_plus (Timestamp 8 0) (clk (ticks (snd st))), handler = Some (Plain (FdTimeout sock))\<rparr> (elems (queue (fst st))) \<and>
          px_read s = OnRead \<and> readBuf (px_conn s) = Some b \<and> contents b = [] \<and>
          chan (px_conn s) = Some ch \<and> events ch AND kRead = 0)"
proof -
  from proxy_accept_live obtain c0 b0 where c0: "proxy_accept fd = Inr c0" "proxy_live c0" "readBuf c0 = Some b0" "wf_buffer b0" "0 < cap b0" "contents b0 = []" by blast
  from proxy_read [OF c0(2-6) refl] obtain n c1 b1 rest where
    c1: "tryRead (Got (map Some (socks4_connect [w, x, y, z] port user @ early))) c0 = Inr (n, c1)" "proxy_live c1" "readBuf c1 = Some b1" "rest \<noteq> []"
      "contents b1 = map Some ([4, 1, ucast (drop_bit 8 port), ucast port] @ [w, x, y, z] @ rest)" by blast
  let ?s = "\<lparr>px_conn = c1, px_read = HandleRequest, px_timers = st\<rparr>"
  from request_bytes [OF c1(2,3,5) _ c1(4)] obtain k m off where
    r: "bsize b1 = Inr k" "\<not> k < 9" "data b1 = Inr (m, off)"
      "read_block m off 8 = Inr (map Some ([4, 1, ucast (drop_bit 8 port), ucast port] @ [w, x, y, z]))" by auto
  note eq = request_handled [OF r(1-3) _ r(4), of ?s junk connect clk poller]
  show ?thesis
  proof (cases "connect (inet_ntop4 [w, x, y, z]) (decimal (unat port))")
    case None
    then show ?thesis using eq c0(1) c1(1,3) by (simp add: creatTcpClient_on_def)
  next
    case (Some sock)
    from runAfter_starts [OF assms, of clk "Timestamp 8 0" "FdTimeout sock"] obtain st' where
      t: "runAfter clk (Timestamp 8 0) (FdTimeout sock) st = Inr (timerIds (snd st), st')"
        "elems (queue (fst st')) = add_mset \<lparr>timer_id = timerIds (snd st),
            timeout = ts_plus (Timestamp 8 0) (clk (ticks (snd st))), handler = Some (Plain (FdTimeout sock))\<rparr> (elems (queue (fst st)))" by blast
    from proxy_suspended [OF c1(2,3)] obtain c2 ch b2 where
      c2: "suspendRead True (c1\<lparr>readBuf := Some (retrieve_all b1), cb_read := True\<rparr>) = Inr c2"
        "readBuf c2 = Some b2" "contents b2 = []" "chan c2 = Some ch" "events ch AND kRead = 0" by blast
    show ?thesis
      using eq c0(1) c1(1,3) Some t c2
      by (simp add: creatTcpClient_on_def TimerSet_runAfter_def TimerSet_start_def set_insert_def TcpClient_start_def)
  qed
qed

definition proxy_idle :: "proxy_timeout tstate" where
  "proxy_idle = Timers_new"

theorem socks_connect_request_witness:
  "(\<exists>c0 n c1. proxy_accept 5 = Inr c0 \<and>
     tryRead (Got (map Some (socks4_connect [127, 0, 0, 1] 80 [] @ []))) c0 = Inr (n, c1) \<and>
     handleConnectionRequest 0 (\<lambda>host port. None) (\<lambda>k. Timestamp (int k) 0) 0
       \<lparr>px_conn = c1, px_read = HandleRequest, px_timers = proxy_idle\<rparr> = Inl NullDeref) \<and>
   (\<exists>c0 n c1 cl s. proxy_accept 5 = Inr c0 \<and>
     tryRead (Got (map Some (socks4_connect [127, 0, 0, 1] 80 [] @ []))) c0 = Inr (n, c1) \<and>
     handleConnectionRequest 0 (\<lambda>host port. Some 9) (\<lambda>k. Timestamp (int k) 0) 0
       \<lparr>px_conn = c1, px_read = HandleRequest, px_timers = proxy_idle\<rparr> = Inr (Connecting cl, s) \<and>
     clientfd cl = 9 \<and> connector cl = Some (OnConnect 1))"
proof -
  have st: "timers_room 1 (fst proxy_idle)" "timerIds (snd proxy_idle) \<noteq> 0"
    using Timers_new_room [of 1] by (simp_all add: proxy_idle_def room_def Timers_new_def)
  have i: "timerIds (snd proxy_idle) = 1" by (simp add: proxy_idle_def Timers_new_def)
  note t = socks_connect_request [OF st, where fd = 5 and w = 127 and x = 0 and y = 0 and z = 1 and port = 80 and user = "[]"
    and early = "[]" and junk = 0 and clk = "\<lambda>k. Timestamp (int k) 0" and poller = 0]
  from t [where connect = "\<lambda>host port. None"] t [where connect = "\<lambda>host port. Some 9"] show ?thesis
    by (simp only: option.case i) blast
qed

text \<open>
  The handler of the connection frees itself while it runs: the reply is sent through a pointer that is
  gone.
\<close>

theorem proxy_reply_faults:
  assumes "conn_live c" "writTasks c = []" "conn_live d" "writTasks d = []"
  shows "proxy_onConnect proxy_client_refs stack c d = Inl WildDeref"
proof -
  from resume_live [OF assms(1,2)] obtain c1 where "suspendRead False (c\<lparr>udata := Some Peer\<rparr>) = Inr c1" by blast
  moreover from resume_live [OF assms(3,4)] obtain d1 where "suspendRead False (d\<lparr>udata := Some Peer\<rparr>) = Inr d1" by blast
  ultimately show ?thesis by (simp add: proxy_onConnect_def proxy_client_refs_def)
qed

text \<open>
  If another reference kept the client, the two connections would be relayed from then on: the client
  gets the reply first and then what the other host sent.
\<close>

theorem proxy_relays_if_kept:
  assumes "1 < refs" "conn_live c" "writTasks c = []" "conn.sent c = []" "relay_client fd = Inr d"
  shows "\<exists>a0 b0 a ra b rb. proxy_onConnect refs stack c d = Inr (a0, b0) \<and>
     relay_run es ((a0, []), (b0, map Some (0 # 0x5A # take 6 stack))) = Inr ((a, ra), (b, rb)) \<and>
     (\<exists>rest. conn.sent a @ rest = rb) \<and> (\<exists>rest. conn.sent b @ rest = ra)"
proof -
  have d: "conn_live d" "writTasks d = []" "conn.sent d = []" using relay_client_live [of fd] assms(5) by auto
  from proxy_connected [OF assms(1-4) d, of stack] obtain a0 b0 where
    a0: "proxy_onConnect refs stack c d = Inr (a0, b0)" "joined a0 [] b0 (map Some (0 # 0x5A # take 6 stack))" by blast
  then have "relay_ok a0 [] b0 (map Some (0 # 0x5A # take 6 stack))" by (simp add: relay_ok_def)
  from relay_run_ok [OF this, of es] obtain a ra b rb where
    run: "relay_run es ((a0, []), (b0, map Some (0 # 0x5A # take 6 stack))) = Inr ((a, ra), (b, rb))" "relay_ok a ra b rb" by blast
  then have "sent_of a rb" "sent_of b ra" by (auto simp: relay_ok_def joined_def sent_of_def outgoing_def)
  then show ?thesis using a0(1) run(1) unfolding sent_of_def by blast
qed

end
