(* ===== verification/Sync_Calls.thy ===== *)
theory Sync_Calls
  imports Conn_Flow
begin

text \<open>
  The calls of a connection that wait for another thread (\<open>Connection::sync_send\<close>, \<open>Connection::sync_read\<close> in
  \<open>liby_cpp/Connection.cpp\<close>): the steps of the thread that calls, of the handler it posts to the poller, and of
  the events of the connection, in any order.
\<close>

section \<open>The calls\<close>

text \<open>
  A thread in \<open>sync_send\<close> or \<open>sync_read\<close>, and the thread of the poller. The callback both calls set only
  changes \<open>flag\<close>, which it captures by reference: it is kept with the connection, as \<open>udata\<close>. \<open>received\<close>
  are the bytes the kernel has handed over.
\<close>

datatype sync_pc = SetUp | Post | SetCallback | Waiting | Clear | Resume | Returned

record sync =
  spc :: sync_pc
  sconn :: "bool conn"
  posted :: bool
  sbuf :: buffer
  received :: "cell list"

definition flag :: "sync \<Rightarrow> bool" where
  "flag s \<longleftrightarrow> udata (sconn s) = Some True"

definition sync_callbacks :: "bool conn_callbacks" where
  "sync_callbacks = \<lparr>readEvent = (\<lambda>c. Inr (c\<lparr>udata := Some True\<rparr>)), writeAll = (\<lambda>c. Inr (c\<lparr>udata := Some True\<rparr>)), erroEvent = Inr, limitEvent = Inr\<rparr>"

definition sync_send :: "sync \<Rightarrow> sync res" where
  "sync_send s = (case spc s of
       SetUp \<Rightarrow> rbind (suspendWrit False (sconn s)) (\<lambda>c. Inr (s\<lparr>sconn := c, spc := Post\<rparr>))
     | Post \<Rightarrow> Inr (s\<lparr>posted := True, spc := SetCallback\<rparr>)
     | SetCallback \<Rightarrow> Inr (s\<lparr>sconn := (sconn s)\<lparr>cb_writ := True\<rparr>, spc := Waiting\<rparr>)
     | Waiting \<Rightarrow> Inr (if flag s then s\<lparr>spc := Clear\<rparr> else s)
     | Clear \<Rightarrow> Inr (s\<lparr>sconn := (sconn s)\<lparr>cb_writ := False\<rparr>, spc := Returned\<rparr>)
     | _ \<Rightarrow> Inr s)"

definition sync_read :: "sync \<Rightarrow> sync res" where
  "sync_read s = (case spc s of
       SetUp \<Rightarrow> rbind (suspendRead False (sconn s)) (\<lambda>c. Inr (s\<lparr>sconn := c, spc := SetCallback\<rparr>))
     | SetCallback \<Rightarrow> Inr (s\<lparr>sconn := (sconn s)\<lparr>cb_read := True\<rparr>, spc := Waiting\<rparr>)
     | Waiting \<Rightarrow> Inr (if flag s then s\<lparr>spc := Clear\<rparr> else s)
     | Clear \<Rightarrow> Inr (s\<lparr>sconn := (sconn s)\<lparr>cb_read := False\<rparr>, spc := Resume\<rparr>)
     | Resume \<Rightarrow> rbind (suspendRead True (sconn s)) (\<lambda>c. Inr (s\<lparr>sconn := c, spc := Returned\<rparr>))
     | _ \<Rightarrow> Inr s)"

text \<open>
  What happens next: a step of the thread that calls, the handler it has posted, or an event of the
  connection.
\<close>

datatype sync_act = Step | Handler | Event u32 readv_result "writ_result list"

fun sync_step :: "(sync \<Rightarrow> sync res) \<Rightarrow> sync_act \<Rightarrow> sync \<Rightarrow> sync res" where
  "sync_step call Step s = call s"
| "sync_step call Handler s =
     (if posted s then rbind (conn_send_buffer (sbuf s) (sconn s)) (\<lambda>(b, c). Inr (s\<lparr>sbuf := b, sconn := c, posted := False\<rparr>)) else Inr s)"
| "sync_step call (Event re rr rs) s =
     (if chan (sconn s) = None then Inr s
      else rbind (conn_event sync_callbacks re rr rs (sconn s)) (\<lambda>c.
           Inr (s\<lparr>sconn := c, received := received s @ bytes_read re rr (sconn s)\<rparr>)))"

fun sync_run :: "(sync \<Rightarrow> sync res) \<Rightarrow> sync_act list \<Rightarrow> sync \<Rightarrow> sync res" where
  "sync_run call [] s = Inr s"
| "sync_run call (x # xs) s = rbind (sync_step call x s) (sync_run call xs)"

definition sync_start :: "nat \<Rightarrow> byte list \<Rightarrow> sync res" where
  "sync_start fd bs = rbind (Connection_init ((Connection_new fd)\<lparr>udata := Some False\<rparr>)) (\<lambda>c.
     Inr \<lparr>spc = SetUp, sconn = c, posted = False, sbuf = Buffer_bytes bs, received = []\<rparr>)"

section \<open>Sending\<close>

text \<open>The handler has run.\<close>

definition handled :: "sync \<Rightarrow> bool" where
  "handled s \<longleftrightarrow> \<not> posted s \<and> spc s \<noteq> SetUp \<and> spc s \<noteq> Post"

definition plain_conn :: "bool conn \<Rightarrow> bool" where
  "plain_conn c \<longleftrightarrow> conn_ok c \<and> \<not> cb_erro c \<and> \<not> cb_limit c \<and>
     (chan c \<noteq> None \<longrightarrow> (\<exists>b. readBuf c = Some b \<and> wf_buffer b \<and> 0 < cap b))"

definition snd_ok :: "byte list \<Rightarrow> bool \<Rightarrow> bool conn \<Rightarrow> bool" where
  "snd_ok bs h c \<longleftrightarrow> plain_conn c \<and> \<not> cb_read c \<and> (chan c \<noteq> None \<longrightarrow> outgoing c = (if h then map Some bs else [])) \<and>
     (\<not> h \<longrightarrow> writTasks c = []) \<and> (udata c = Some True \<longrightarrow> h \<and> sent c = map Some bs \<and> writTasks c = [])"

definition sending :: "byte list \<Rightarrow> sync \<Rightarrow> bool" where
  "sending bs s \<longleftrightarrow> snd_ok bs (handled s) (sconn s) \<and> (\<not> handled s \<longrightarrow> sbuf s = Buffer_bytes bs) \<and>
     (posted s \<longrightarrow> spc s \<noteq> SetUp \<and> spc s \<noteq> Post) \<and> (spc s \<in> {Clear, Returned} \<longrightarrow> flag s)"

text \<open>Passing on the events of a connection that needs to write only what it has.\<close>

lemma update_plain:
  assumes "chan c = Some ch" "readBuf c = Some b" "wf_buffer b" "0 < cap b" "list_all task_ok (writTasks c)"
    and "writTasks c = [] \<or> events ch AND kWrit \<noteq> 0" "savedEvents ch AND kWrit \<noteq> 0 \<longrightarrow> polled c AND kWrit \<noteq> 0" "\<not> cb_erro c" "\<not> cb_limit c"
  shows "\<exists>ch' p. updateChanel c = Inr (c\<lparr>polled := p, chan := Some ch'\<rparr>) \<and> plain_conn (c\<lparr>polled := p, chan := Some ch'\<rparr>)"
proof -
  let ?p = "if isEventsChanged ch then events ch else polled c"
  let ?ch = "ch\<lparr>savedEvents := events ch\<rparr>"
  have "conn_ok (c\<lparr>polled := ?p, chan := Some ?ch\<rparr>)" using assms by (auto simp: conn_ok_def isEventsChanged_def)
  then have "plain_conn (c\<lparr>polled := ?p, chan := Some ?ch\<rparr>)" using assms by (simp add: plain_conn_def)
  moreover have "updateChanel c = Inr (c\<lparr>polled := ?p, chan := Some ?ch\<rparr>)" using assms(1) by (simp add: updateChanel_def)
  ultimately show ?thesis by blast
qed

lemma erro_snd:
  assumes "\<not> cb_erro c" "\<not> cb_limit c" "udata c = Some True \<longrightarrow> h \<and> sent c = map Some bs"
  shows "\<exists>c'. handleErroEvent sync_callbacks c = Inr c' \<and> snd_ok bs h c' \<and> udata c' = udata c"
proof -
  have "handleErroEvent sync_callbacks c = Inr (conn_destroy c)" using assms(1) by (simp add: handleErroEvent_def)
  moreover have "snd_ok bs h (conn_destroy c)"
    using assms by (auto simp: snd_ok_def plain_conn_def destroy_ok) (simp_all add: conn_destroy_def)
  ultimately show ?thesis by (simp add: conn_destroy_def)
qed

lemma writ_snd:
  assumes "snd_ok bs h c" "chan c = Some ch"
  shows "\<exists>c'. handleWritEvent sync_callbacks rs c = Inr c' \<and> snd_ok bs h c' \<and> (udata c = Some True \<longrightarrow> udata c' = Some True)"
proof -
  from assms obtain b where c: "conn_ok c" "readBuf c = Some b" "wf_buffer b" "0 < cap b" "\<not> cb_erro c" "\<not> cb_limit c" "\<not> cb_read c"
    "outgoing c = (if h then map Some bs else [])" "\<not> h \<longrightarrow> writTasks c = []" "udata c = Some True \<longrightarrow> h \<and> sent c = map Some bs \<and> writTasks c = []"
    by (auto simp: snd_ok_def plain_conn_def)
  have t: "list_all task_ok (writTasks c)" using c(1) assms(2) by (simp add: conn_ok_def)
  from assms(2) t show ?thesis
  proof (cases rule: writ_event_cases [where cb = sync_callbacks and rs = rs])
    case idle
    then show ?thesis using c assms(2) by (auto simp: snd_ok_def plain_conn_def conn_ok_def outgoing_def)
  next
    case (all e n c1)
    then have h: h "udata c \<noteq> Some True" using c(9,10) by auto
    define c2 where "c2 = (if cb_writ c then c1\<lparr>udata := Some True\<rparr> else c1)"
    have eq: "handleWritEvent sync_callbacks rs c = updateChanel c2" using all(2) by (simp add: c2_def all(1) sync_callbacks_def)
    have "\<exists>ch' p. updateChanel c2 = Inr (c2\<lparr>polled := p, chan := Some ch'\<rparr>) \<and> plain_conn (c2\<lparr>polled := p, chan := Some ch'\<rparr>)"
      by (rule update_plain [of _ "enableWrit False (enableRead True ch)" b]) (use c assms(2) in \<open>auto simp: c2_def all(1) conn_ok_def\<close>)
    moreover have "snd_ok bs h (c2\<lparr>polled := p, chan := Some ch'\<rparr>)" if "plain_conn (c2\<lparr>polled := p, chan := Some ch'\<rparr>)" for p ch'
      using that c h by (auto simp: snd_ok_def c2_def all(1) outgoing_def)
    ultimately show ?thesis using eq h(2) by auto
  next
    case (again ts out)
    then show ?thesis using c assms(2) by (auto simp: snd_ok_def plain_conn_def conn_ok_def outgoing_def)
  next
    case (erro ts out e)
    have "\<exists>c'. handleErroEvent sync_callbacks (c\<lparr>writTasks := ts, sent := out, errno := e\<rparr>) = Inr c' \<and> snd_ok bs h c' \<and> udata c' = udata (c\<lparr>writTasks := ts, sent := out, errno := e\<rparr>)"
      by (rule erro_snd) (use c erro(3) in auto)
    then show ?thesis unfolding erro(2) by auto
  qed
qed

lemma event_snd:
  assumes "snd_ok bs h c" "chan c = Some ch"
  shows "\<exists>c'. conn_event sync_callbacks re rr rs c = Inr c' \<and> snd_ok bs h c' \<and> (udata c = Some True \<longrightarrow> udata c' = Some True)"
  using assms(2)
proof (cases rule: conn_event_cases [where cb = sync_callbacks and re = re and rr = rr and rs = rs])
  case (event ch1)
  let ?c = "c\<lparr>chan := Some ch1\<rparr>"
  from assms obtain b where b: "readBuf c = Some b" "wf_buffer b" "0 < cap b" "\<not> cb_read c" by (auto simp: snd_ok_def plain_conn_def)
  have ok: "snd_ok bs h ?c" "chan ?c = Some ch1" "readBuf ?c = Some b"
    using assms event(1,2) b by (auto simp: snd_ok_def plain_conn_def conn_ok_def outgoing_def)
  have "\<exists>c'. handleReadEvent sync_callbacks rr ?c = Inr c' \<and> snd_ok bs h c' \<and> udata c' = udata c"
    using ok(3) b(2,3)
  proof (cases rule: read_event_cases [where cb = sync_callbacks and rr = rr])
    case again
    then show ?thesis using ok(1) by (auto simp: snd_ok_def plain_conn_def conn_ok_def outgoing_def)
  next
    case (erro b' e)
    have "\<exists>c'. handleErroEvent sync_callbacks (?c\<lparr>readBuf := Some b', errno := e\<rparr>) = Inr c' \<and> snd_ok bs h c' \<and> udata c' = udata (?c\<lparr>readBuf := Some b', errno := e\<rparr>)"
      by (rule erro_snd) (use ok(1) in \<open>auto simp: snd_ok_def plain_conn_def\<close>)
    then show ?thesis unfolding erro(1) by simp
  next
    case (got b')
    then show ?thesis using ok(1) b(4) by (auto simp: snd_ok_def plain_conn_def conn_ok_def outgoing_def)
  qed
  moreover have "\<exists>c'. handleErroEvent sync_callbacks ?c = Inr c' \<and> snd_ok bs h c' \<and> udata c' = udata ?c"
    by (rule erro_snd) (use ok(1) in \<open>auto simp: snd_ok_def plain_conn_def\<close>)
  moreover from writ_snd [OF ok(1,2)] have "\<exists>c'. handleWritEvent sync_callbacks rs ?c = Inr c' \<and> snd_ok bs h c' \<and> (udata c = Some True \<longrightarrow> udata c' = Some True)" by simp
  ultimately show ?thesis using event(4) ok(1) by auto
qed

lemma Buffer_bytes_wf: "wf_buffer (Buffer_bytes bs)" "cap (Buffer_bytes bs) = length bs" "contents (Buffer_bytes bs) = map Some bs"
  using Buffer_bytes_ok [of bs] by (auto simp: task_ok_def task_bytes_def conn_task_new_def) (simp_all add: Buffer_bytes_def)

lemma handler_snd:
  assumes "snd_ok bs False c" "bs \<noteq> []"
  shows "\<exists>b' c'. conn_send_buffer (Buffer_bytes bs) c = Inr (b', c') \<and> snd_ok bs True c'"
proof (cases "chan c")
  case None
  then have "conn_send_buffer (Buffer_bytes bs) c = Inr (Buffer_bytes bs, c)" using assms(1)
    by (simp add: conn_send_buffer_def snd_ok_def plain_conn_def conn_ok_def)
  then show ?thesis using assms(1) None by (auto simp: snd_ok_def)
next
  case (Some ch)
  from assms(1) Some obtain b where c: "readBuf c = Some b" "conn_ok c" "writTasks c = []" "outgoing c = []" "udata c \<noteq> Some True"
    by (auto simp: snd_ok_def plain_conn_def)
  have "0 < cap (Buffer_bytes bs)" using assms(2) by (simp add: Buffer_bytes_wf)
  from send_buffer_ok [OF Some c(1) Buffer_bytes_wf(1) this c(2)] obtain ch' p n where
    s: "conn_send_buffer (Buffer_bytes bs) c = Inr (Buffer_length (cap (Buffer_bytes bs)),
      c\<lparr>writTasks := writTasks c @ [conn_task_new\<lparr>tbuffer := Some (Buffer_bytes bs)\<rparr>], chan := Some ch', polled := p, writBytes := n\<rparr>)" (is "_ = Inr (_, ?c)") and
    p: "events ch' AND kWrit \<noteq> 0" "savedEvents ch' = events ch'" "p AND kWrit \<noteq> 0" by blast
  have "conn_ok ?c" using c p Buffer_bytes_ok(1) by (simp add: conn_ok_def)
  moreover have "outgoing ?c = map Some bs" using c(3,4) Buffer_bytes_ok(2) by (simp add: outgoing_def)
  ultimately have "snd_ok bs True ?c" using assms(1) c Some by (auto simp: snd_ok_def plain_conn_def)
  with s show ?thesis by blast
qed

lemma suspendWrit_snd:
  assumes "snd_ok bs False c" "suspendWrit False c = Inr c'"
  shows "snd_ok bs False c' \<and> udata c' = udata c"
proof (cases "chan c")
  case None
  then show ?thesis using assms(2) by (simp add: suspendWrit_def on_chan_def)
next
  case (Some ch)
  let ?c = "c\<lparr>chan := Some (enableWrit True ch)\<rparr>"
  from assms(1) Some obtain b where c: "readBuf c = Some b" "wf_buffer b" "0 < cap b" "conn_ok c" "writTasks c = []" "\<not> cb_erro c" "\<not> cb_limit c"
    by (auto simp: snd_ok_def plain_conn_def)
  have "\<exists>ch' p. updateChanel ?c = Inr (?c\<lparr>polled := p, chan := Some ch'\<rparr>) \<and> plain_conn (?c\<lparr>polled := p, chan := Some ch'\<rparr>)"
    by (rule update_plain [of _ "enableWrit True ch" b]) (use c Some in \<open>auto simp: conn_ok_def\<close>)
  moreover have "suspendWrit False c = updateChanel ?c" using Some by (simp add: suspendWrit_def on_chan_def)
  ultimately show ?thesis using assms Some by (auto simp: snd_ok_def outgoing_def)
qed

lemma snd_ok_cb [simp]: "snd_ok bs h (c\<lparr>cb_writ := f\<rparr>) = snd_ok bs h c"
  by (simp add: snd_ok_def plain_conn_def conn_ok_def outgoing_def split: option.split)

lemma step_sending:
  assumes "sending bs s" "bs \<noteq> []" "sync_step sync_send x s = Inr s'"
  shows "sending bs s'"
proof (cases x)
  case Step
  show ?thesis
  proof (cases "spc s")
    case SetUp
    then have "\<not> handled s" by (simp add: handled_def)
    with assms(1) have "snd_ok bs False (sconn s)" "sbuf s = Buffer_bytes bs" "\<not> posted s" using SetUp by (auto simp: sending_def)
    with suspendWrit_snd [OF this(1)] assms(3) SetUp Step show ?thesis by (auto simp: sync_send_def sending_def handled_def rbind_eq_Inr)
  qed (use assms(1,3) Step in \<open>auto simp: sync_send_def sending_def handled_def flag_def split: if_splits\<close>)
next
  case Handler
  show ?thesis
  proof (cases "posted s")
    case True
    then have "sbuf s = Buffer_bytes bs" "snd_ok bs False (sconn s)" "spc s \<noteq> SetUp" "spc s \<noteq> Post" "spc s \<notin> {Clear, Returned}"
      using assms(1) by (auto simp: sending_def handled_def flag_def snd_ok_def)
    with handler_snd [OF this(2) assms(2)] assms(3) Handler True show ?thesis by (auto simp: sending_def handled_def)
  qed (use assms Handler in auto)
next
  case (Event re rr rs)
  show ?thesis
  proof (cases "chan (sconn s)")
    case (Some ch)
    with assms(1) event_snd [OF _ Some, of bs "handled s" re rr rs] obtain c' where
      c': "conn_event sync_callbacks re rr rs (sconn s) = Inr c'" "snd_ok bs (handled s) c'" "flag s \<longrightarrow> udata c' = Some True" by (auto simp: sending_def flag_def)
    have "s' = s\<lparr>sconn := c', received := received s @ bytes_read re rr (sconn s)\<rparr>" using assms(3) Event Some c'(1) by simp
    with c'(2,3) assms(1) show ?thesis by (simp add: sending_def handled_def flag_def)
  qed (use assms Event in auto)
qed

lemma run_sending: "sync_run sync_send xs s = Inr s' \<Longrightarrow> sending bs s \<Longrightarrow> bs \<noteq> [] \<Longrightarrow> sending bs s'"
  by (induction xs arbitrary: s) (auto simp: rbind_eq_Inr dest: step_sending)

text \<open>A connection just made.\<close>

definition sync_conn :: "nat \<Rightarrow> bool conn" where
  "sync_conn fd = (Connection_new fd)\<lparr>udata := Some False, polled := kRead,
     chan := Some ((channel_new fd)\<lparr>on_read := True, on_writ := True, on_erro := True, events := kRead, savedEvents := kRead\<rparr>)\<rparr>"

lemma sync_start_eq: "sync_start fd bs = Inr \<lparr>spc = SetUp, sconn = sync_conn fd, posted = False, sbuf = Buffer_bytes bs, received = []\<rparr>"
  by (simp add: sync_start_def sync_conn_def Connection_init_def Connection_new_def channel_new_def enableRead_def enable_def Let_def)

lemma sync_conn_plain: "plain_conn (sync_conn fd)" "writTasks (sync_conn fd) = []" "sent (sync_conn fd) = []" "udata (sync_conn fd) = Some False"
  "\<not> cb_read (sync_conn fd)" "\<not> cb_writ (sync_conn fd)" "readBuf (sync_conn fd) = Some (Buffer_length 4096)"
  by (simp_all add: sync_conn_def Connection_new_def plain_conn_def conn_ok_def wf_Buffer_length)

lemma start_sending: "sync_start fd bs = Inr s \<Longrightarrow> sending bs s"
  by (auto simp: sync_start_eq sending_def handled_def flag_def snd_ok_def sync_conn_plain outgoing_def)

section \<open>Reading\<close>

text \<open>All that was received is in the buffer, and the flag is set only if there is something.\<close>

definition rcv_ok :: "cell list \<Rightarrow> bool conn \<Rightarrow> bool" where
  "rcv_ok rcv c \<longleftrightarrow> plain_conn c \<and> writTasks c = [] \<and>
     (\<forall>b. readBuf c = Some b \<longrightarrow> contents b = rcv) \<and> (udata c = Some True \<longrightarrow> rcv \<noteq> [])"

definition reading :: "sync \<Rightarrow> bool" where
  "reading s \<longleftrightarrow> rcv_ok (received s) (sconn s) \<and> \<not> posted s \<and> (spc s \<in> {Clear, Resume, Returned} \<longrightarrow> flag s)"

lemma rcv_ok_cb [simp]: "rcv_ok rcv (c\<lparr>cb_read := f\<rparr>) = rcv_ok rcv c"
  by (simp add: rcv_ok_def plain_conn_def conn_ok_def split: option.split)

lemma rcv_chan:
  assumes "rcv_ok rcv c" "chan c = Some ch" "savedEvents ch' = savedEvents ch"
  shows "\<exists>c'. updateChanel (c\<lparr>chan := Some ch'\<rparr>) = Inr c' \<and> rcv_ok rcv c' \<and> udata c' = udata c \<and> (cb_read c' \<longrightarrow> cb_read c)"
proof -
  let ?c = "c\<lparr>chan := Some ch'\<rparr>"
  from assms(1,2) obtain b where c: "readBuf c = Some b" "wf_buffer b" "0 < cap b" "conn_ok c" "writTasks c = []" "\<not> cb_erro c" "\<not> cb_limit c"
    by (auto simp: rcv_ok_def plain_conn_def)
  have "\<exists>ch' p. updateChanel ?c = Inr (?c\<lparr>polled := p, chan := Some ch'\<rparr>) \<and> plain_conn (?c\<lparr>polled := p, chan := Some ch'\<rparr>)"
    by (rule update_plain [of _ ch' b]) (use c assms(2,3) in \<open>auto simp: conn_ok_def\<close>)
  then show ?thesis using assms(1) by (auto simp: rcv_ok_def)
qed

lemma erro_rcv: "\<not> cb_erro c \<Longrightarrow> \<not> cb_limit c \<Longrightarrow> (udata c = Some True \<longrightarrow> rcv \<noteq> []) \<Longrightarrow>
  \<exists>c'. handleErroEvent sync_callbacks c = Inr c' \<and> rcv_ok rcv c' \<and> udata c' = udata c \<and> (cb_read c' \<longrightarrow> cb_read c)"
  by (simp add: handleErroEvent_def rcv_ok_def plain_conn_def destroy_ok) (simp add: conn_destroy_def)

lemma after_rcv:
  assumes "rcv_ok rcv c" "chan c = Some ch"
  shows "\<exists>c'. after_read sync_callbacks c = Inr c' \<and> rcv_ok rcv c' \<and> udata c' = udata c \<and> (cb_read c' \<longrightarrow> cb_read c)"
proof -
  from assms obtain b where c: "readBuf c = Some b" "\<not> cb_limit c" by (auto simp: rcv_ok_def plain_conn_def)
  have "updateChanel (c\<lparr>chan := Some ch\<rparr>) = updateChanel c" using assms(2) by (simp add: updateChanel_def)
  then have "after_read sync_callbacks c = updateChanel (c\<lparr>chan := Some (if writBytes c \<ge> writableLimit c then enableRead False ch else ch)\<rparr>)"
    using assms(2) c by (auto simp: after_read_def on_chan_def)
  then show ?thesis using rcv_chan [OF assms, of "if writBytes c \<ge> writableLimit c then enableRead False ch else ch"] by (auto split: if_splits)
qed

lemma event_rcv:
  assumes "rcv_ok rcv c" "chan c = Some ch"
  shows "\<exists>c'. conn_event sync_callbacks re rr rs c = Inr c' \<and> rcv_ok (rcv @ bytes_read re rr c) c' \<and> (udata c = Some True \<longrightarrow> udata c' = Some True) \<and> (\<not> cb_read c \<longrightarrow> udata c' = udata c \<and> \<not> cb_read c')"
  using assms(2)
proof (cases rule: conn_event_cases [where cb = sync_callbacks and re = re and rr = rr and rs = rs])
  case (event ch1)
  let ?c = "c\<lparr>chan := Some ch1\<rparr>"
  from assms obtain b where b: "readBuf c = Some b" "wf_buffer b" "0 < cap b" "contents b = rcv" by (auto simp: rcv_ok_def plain_conn_def)
  have ok: "rcv_ok rcv ?c" "chan ?c = Some ch1" "readBuf ?c = Some b"
    using assms event(1,2) b by (auto simp: rcv_ok_def plain_conn_def conn_ok_def)
  then have c: "\<not> cb_erro ?c" "\<not> cb_limit ?c" "udata ?c = Some True \<longrightarrow> rcv \<noteq> []" "writTasks ?c = []" by (auto simp: rcv_ok_def plain_conn_def)
  have "\<exists>c'. handleReadEvent sync_callbacks rr ?c = Inr c' \<and> rcv_ok (rcv @ kernel_bytes rr b) c' \<and> (udata c = Some True \<longrightarrow> udata c' = Some True) \<and> (\<not> cb_read c \<longrightarrow> udata c' = udata c \<and> \<not> cb_read c')"
    using ok(3) b(2,3)
  proof (cases rule: read_event_cases [where cb = sync_callbacks and rr = rr])
    case again
    then show ?thesis using ok(1) by (auto simp: rcv_ok_def plain_conn_def conn_ok_def)
  next
    case (erro b' e)
    have "\<exists>c'. handleErroEvent sync_callbacks (?c\<lparr>readBuf := Some b', errno := e\<rparr>) = Inr c' \<and> rcv_ok rcv c' \<and> udata c' = udata (?c\<lparr>readBuf := Some b', errno := e\<rparr>) \<and> (cb_read c' \<longrightarrow> cb_read (?c\<lparr>readBuf := Some b', errno := e\<rparr>))"
      by (rule erro_rcv) (use c in auto)
    then show ?thesis unfolding erro by auto
  next
    case (got b')
    let ?c1 = "?c\<lparr>readBuf := Some b', udata := if cb_read c then Some True else udata c\<rparr>"
    have n: "rcv_ok (rcv @ kernel_bytes rr b) ?c1" "chan ?c1 = Some ch1" using got ok(1) b(4) by (auto simp: rcv_ok_def plain_conn_def conn_ok_def)
    show ?thesis
    proof (cases "cb_read c")
      case True
      then show ?thesis using got(5) after_rcv [OF n] by (auto simp: sync_callbacks_def)
    next
      case False
      have "?c\<lparr>readBuf := Some b', udata := udata c\<rparr> = ?c\<lparr>readBuf := Some b'\<rparr>" by (cases c) simp
      then show ?thesis using False got(5) n(1) by simp
    qed
  qed
  moreover have "\<exists>c'. handleErroEvent sync_callbacks ?c = Inr c' \<and> rcv_ok rcv c' \<and> udata c' = udata ?c \<and> (cb_read c' \<longrightarrow> cb_read ?c)" by (rule erro_rcv [OF c(1-3)])
  moreover have "\<exists>c'. handleWritEvent sync_callbacks rs ?c = Inr c' \<and> rcv_ok rcv c' \<and> udata c' = udata ?c \<and> (cb_read c' \<longrightarrow> cb_read ?c)"
    using ok(1) c(4) by (simp add: handleWritEvent_def on_chan_def rcv_ok_def plain_conn_def conn_ok_def)
  ultimately show ?thesis using event(4) ok(1) b(1) by auto
qed

lemma step_reading:
  assumes "reading s" "sync_step sync_read x s = Inr s'"
  shows "reading s'"
proof (cases x)
  case Step
  have *: "rcv_ok (received s) c' \<and> udata c' = udata (sconn s)" if "suspendRead f (sconn s) = Inr c'" for f c'
  proof (cases "chan (sconn s)")
    case (Some ch)
    then have "suspendRead f (sconn s) = updateChanel ((sconn s)\<lparr>chan := Some (enableRead (\<not> f) ch)\<rparr>)" by (simp add: suspendRead_def on_chan_def)
    then show ?thesis using rcv_chan [OF _ Some, of "received s" "enableRead (\<not> f) ch"] assms(1) that by (auto simp: reading_def)
  qed (use that in \<open>simp add: suspendRead_def on_chan_def\<close>)
  show ?thesis using assms Step by (cases "spc s") (auto simp: sync_read_def reading_def flag_def rbind_eq_Inr dest: * split: if_splits)
next
  case Handler
  then show ?thesis using assms by (simp add: reading_def)
next
  case (Event re rr rs)
  show ?thesis
  proof (cases "chan (sconn s)")
    case (Some ch)
    with assms(1) event_rcv [OF _ Some, of "received s" re rr rs] obtain c' where
      c': "conn_event sync_callbacks re rr rs (sconn s) = Inr c'" "rcv_ok (received s @ bytes_read re rr (sconn s)) c'" "flag s \<longrightarrow> udata c' = Some True"
      by (auto simp: reading_def flag_def)
    have "s' = s\<lparr>sconn := c', received := received s @ bytes_read re rr (sconn s)\<rparr>" using assms(2) Event Some c'(1) by simp
    with c'(2,3) assms(1) show ?thesis by (simp add: reading_def flag_def)
  qed (use assms Event in auto)
qed

lemma run_reading: "sync_run sync_read xs s = Inr s' \<Longrightarrow> reading s \<Longrightarrow> reading s'"
  by (induction xs arbitrary: s) (auto simp: rbind_eq_Inr dest: step_reading)

lemma start_reading: "sync_start fd bs = Inr s \<Longrightarrow> reading s"
  by (auto simp: sync_start_eq reading_def flag_def rcv_ok_def sync_conn_plain wf_Buffer_length)

section \<open>Properties\<close>

text \<open>
  C24. \<open>sync_send\<close> of a non-empty buffer on a new connection, on which no other write is pending, returns only
  when all bytes of the buffer have been sent, whatever the steps of the thread that calls, of the handler
  and of the events of the connection are. With an earlier write pending it may return before.
\<close>

theorem sync_send_complete:
  assumes "sync_start fd bs = Inr s" and "bs \<noteq> []" and "sync_run sync_send xs s = Inr s'" and "spc s' = Returned"
  shows "sent (sconn s') = map Some bs"
proof -
  have "sending bs s'" by (rule run_sending [OF assms(3) start_sending [OF assms(1)] assms(2)])
  then show ?thesis using assms(4) by (auto simp: sending_def snd_ok_def flag_def)
qed

definition demo_send :: "sync_act list" where
  "demo_send = [Step, Step, Step, Handler, Event kWrit (Got []) [Wrote 2], Step, Step]"

theorem sync_send_complete_witness:
  "\<exists>s s'. sync_start 5 [1, 2] = Inr s \<and> sync_run sync_send demo_send s = Inr s' \<and> spc s' = Returned \<and> sent (sconn s') = [Some 1, Some 2]"
proof -
  have "\<exists>s'. sync_run sync_send demo_send \<lparr>spc = SetUp, sconn = sync_conn 5, posted = False, sbuf = Buffer_bytes [1, 2], received = []\<rparr> = Inr s' \<and> spc s' = Returned"
    by (simp add: demo_send_def sync_send_def sync_conn_def Connection_new_def channel_new_def suspendWrit_def on_chan_def updateChanel_def enableWrit_def enable_def isEventsChanged_def
      conn_send_buffer_def swap_buffers_def push_task_def conn_event_def handleEvent_def updateRevents_def chan_isError_def Readable_def Writable_def
      handleWritEvent_def tryWrit_def writ_loop.simps sync_callbacks_def flag_def Let_def Buffer_bytes_def data_def bsize_def capacity_def read_block_def conn_task_new_def)
  then show ?thesis using sync_send_complete [OF sync_start_eq [of 5 "[1, 2]"], of demo_send] by (auto simp: sync_start_eq)
qed

text \<open>
  With an earlier write pending, the callback that \<open>sync_send\<close> sets may be called for that write: the call
  returns while its handler is still posted, and nothing of its buffer has been sent.
\<close>

definition early_send :: "sync_act list" where
  "early_send = [Step, Step, Step, Event kWrit (Got []) [Wrote 1], Step, Step]"

lemma sync_send_early:
  "\<exists>c s'. conn_send [7] (sync_conn 5) = Inr c \<and>
     sync_run sync_send early_send \<lparr>spc = SetUp, sconn = c, posted = False, sbuf = Buffer_bytes [1, 2], received = []\<rparr> = Inr s' \<and>
     spc s' = Returned \<and> posted s' \<and> sent (sconn s') = [Some 7]"
  by (simp add: early_send_def sync_send_def sync_conn_def Connection_new_def channel_new_def suspendWrit_def on_chan_def updateChanel_def enableWrit_def enable_def isEventsChanged_def
      conn_send_def push_task_def conn_event_def handleEvent_def updateRevents_def chan_isError_def Readable_def Writable_def enableRead_def
      handleWritEvent_def tryWrit_def writ_loop.simps sync_callbacks_def flag_def Let_def Buffer_bytes_def data_def bsize_def capacity_def read_block_def conn_task_new_def)

text \<open>
  \<open>sync_read\<close> returns only when something has been received, and the buffer then holds all of it, if the
  connection still lives.
\<close>

theorem sync_read_complete:
  assumes "sync_start fd bs = Inr s" and "sync_run sync_read xs s = Inr s'" and "spc s' = Returned"
  shows "received s' \<noteq> [] \<and> (case readBuf (sconn s') of None \<Rightarrow> chan (sconn s') = None | Some b \<Rightarrow> contents b = received s')"
proof -
  have "reading s'" by (rule run_reading [OF assms(2) start_reading [OF assms(1)]])
  then show ?thesis using assms(3) by (auto simp: reading_def rcv_ok_def plain_conn_def flag_def split: option.splits)
qed

text \<open>
  \<open>sync_send\<close> may wait forever. The handler is posted before the callback is set: if the poller writes all
  of the buffer in between, nothing sets the flag any more, although everything was sent.
\<close>

definition missed :: "sync \<Rightarrow> bool" where
  "missed s \<longleftrightarrow> rcv_ok (received s) (sconn s) \<and> \<not> cb_read (sconn s) \<and> \<not> flag s \<and> \<not> posted s \<and> spc s = Waiting"

lemma step_missed:
  assumes "missed s"
  shows "\<exists>s'. sync_step sync_send x s = Inr s' \<and> missed s'"
proof (cases x)
  case (Event re rr rs)
  show ?thesis
  proof (cases "chan (sconn s)")
    case (Some ch)
    with assms event_rcv [OF _ Some, of "received s" re rr rs] show ?thesis by (auto simp: Event missed_def flag_def)
  qed (use assms Event in auto)
qed (use assms in \<open>auto simp: missed_def sync_send_def\<close>)

lemma run_missed: "missed s \<Longrightarrow> \<exists>s'. sync_run sync_send xs s = Inr s' \<and> missed s'"
proof (induction xs arbitrary: s)
  case (Cons x xs)
  from step_missed [OF Cons.prems, of x] Cons.IH show ?case by fastforce
qed simp

definition early_write :: "sync_act list" where
  "early_write = [Step, Step, Handler, Event kWrit (Got []) [Wrote 2], Step]"

theorem sync_send_hangs:
  "\<exists>s s'. sync_start 5 [1, 2] = Inr s \<and> sync_run sync_send early_write s = Inr s' \<and> sent (sconn s') = [Some 1, Some 2] \<and>
     (\<forall>xs. \<exists>s''. sync_run sync_send xs s' = Inr s'' \<and> spc s'' = Waiting)"
proof -
  have "\<exists>s'. sync_run sync_send early_write \<lparr>spc = SetUp, sconn = sync_conn 5, posted = False, sbuf = Buffer_bytes [1, 2], received = []\<rparr> = Inr s' \<and>
      missed s' \<and> sent (sconn s') = [Some 1, Some 2]"
    by (simp add: early_write_def sync_send_def sync_conn_def Connection_new_def channel_new_def suspendWrit_def on_chan_def updateChanel_def enableWrit_def enableRead_def enable_def
      isEventsChanged_def conn_send_buffer_def swap_buffers_def push_task_def conn_event_def handleEvent_def updateRevents_def chan_isError_def Readable_def Writable_def
      handleWritEvent_def tryWrit_def writ_loop.simps sync_callbacks_def flag_def Let_def Buffer_bytes_def data_def bsize_def capacity_def read_block_def conn_task_new_def
      missed_def rcv_ok_def plain_conn_def conn_ok_def bytes_read_def reads_def wf_Buffer_length)
  then show ?thesis using run_missed by (fastforce simp: sync_start_eq missed_def)
qed

text \<open>
  After \<open>sync_read\<close> has been woken, an error that destroys the connection makes it use the channel that is
  gone.
\<close>

theorem sync_read_faults:
  assumes "spc s = Resume" and "chan (sconn s) = Some ch" and "on_erro ch" and "events ch AND kErro \<noteq> 0 \<or> re AND kErro \<noteq> 0"
    and "\<not> cb_erro (sconn s)"
  shows "sync_run sync_read [Event re rr rs, Step] s = Inl NullDeref"
proof -
  have "handleEvent (updateRevents re ch) = ((updateRevents re ch)\<lparr>savedEvents := events ch\<rparr>, Some ErroCb)"
    using assms(3,4) by (auto simp: handleEvent_def updateRevents_def chan_isError_def Let_def)
  then show ?thesis using assms(1,2,5)
    by (simp add: conn_event_def handleErroEvent_def sync_read_def suspendRead_def on_chan_def conn_destroy_def)
qed

end
