(* ===== verification/Poller_Kevent.thy ===== *)
theory Poller_Kevent
  imports Pollers
begin

text \<open>
  The poller for \<open>kevent\<close> (\<open>PollerKevent\<close> in \<open>liby_cpp/Poller.h\<close>, \<open>Poller.cpp\<close>, the part compiled on macOS):
  registration by lists of changes and a round of the loop. Changes stop at the first that fails, and
  the loop keeps addresses of channels; both differ from the other pollers, and both matter.
\<close>

section \<open>State\<close>

text \<open>
  A queue of the kernel has a filter for reading and one for writing per descriptor, each with the
  address of a channel. A change adds a filter or deletes it.
\<close>

datatype kfilter = EVFILT_READ | EVFILT_WRITE

record kchange =
  ident :: nat
  kfilt :: kfilter
  kadd :: bool
  kudata :: "nat option"

record kqueue =
  filters :: "nat \<times> kfilter \<rightharpoonup> nat option"
  kchanges :: "kchange list"
  k_eventsSize :: nat
  k_events_size :: nat

definition PollerKevent_new :: kqueue where
  "PollerKevent_new = \<lparr>filters = Map.empty, kchanges = [], k_eventsSize = 0, k_events_size = 48\<rparr>"

text \<open>
  \<open>kevent\<close> makes the changes in order; deleting a filter that is not there fails, and without room for
  events the call then ends with an error, which the code does not look at.
\<close>

definition kchange_ok :: "kchange \<Rightarrow> (nat \<times> kfilter \<rightharpoonup> nat option) \<Rightarrow> bool" where
  "kchange_ok x fs \<longleftrightarrow> kadd x \<or> fs (ident x, kfilt x) \<noteq> None"

definition kchange_make :: "kchange \<Rightarrow> (nat \<times> kfilter \<rightharpoonup> nat option) \<Rightarrow> (nat \<times> kfilter \<rightharpoonup> nat option)" where
  "kchange_make x fs = fs((ident x, kfilt x) := (if kadd x then Some (kudata x) else None))"

fun kevent_changes :: "kchange list \<Rightarrow> (nat \<times> kfilter \<rightharpoonup> nat option) \<Rightarrow> (nat \<times> kfilter \<rightharpoonup> nat option)" where
  "kevent_changes [] fs = fs"
| "kevent_changes (x # xs) fs = (if kchange_ok x fs then kevent_changes xs (kchange_make x fs) else fs)"

section \<open>Operations\<close>

definition updateKevents :: "kqueue \<Rightarrow> kqueue" where
  "updateKevents k = (if kchanges k \<noteq> [] then k\<lparr>filters := kevent_changes (kchanges k) (filters k), kchanges := []\<rparr> else k)"

definition kevent_addChanel :: "nat \<Rightarrow> (kqueue, 'w) poller \<Rightarrow> (kqueue, 'w) poller res" where
  "kevent_addChanel a p =
     rbind (chan_at a p) (\<lambda>c.
     let k = kern p;
         k1 = (if events c AND kRead \<noteq> 0
               then k\<lparr>kchanges := kchanges k @ [\<lparr>ident = cfd c, kfilt = EVFILT_READ, kadd = True, kudata = Some a\<rparr>]\<rparr> else k);
         k2 = (if events c AND kWrit \<noteq> 0
               then k1\<lparr>kchanges := kchanges k1 @ [\<lparr>ident = cfd c, kfilt = EVFILT_WRITE, kadd = True, kudata = Some a\<rparr>]\<rparr> else k1) in
     Inr (p\<lparr>kern := updateKevents (k2\<lparr>k_eventsSize := k_eventsSize k2 + 1\<rparr>)\<rparr>))"

definition kevent_removeChanel :: "nat \<Rightarrow> (kqueue, 'w) poller \<Rightarrow> (kqueue, 'w) poller res" where
  "kevent_removeChanel a p =
     rbind (chan_at a p) (\<lambda>c.
     let k = kern p;
         f1 = kevent_changes [\<lparr>ident = cfd c, kfilt = EVFILT_READ, kadd = False, kudata = None\<rparr>] (filters k);
         f2 = kevent_changes [\<lparr>ident = cfd c, kfilt = EVFILT_WRITE, kadd = False, kudata = None\<rparr>] f1 in
     Inr (p\<lparr>kern := k\<lparr>filters := f2, k_eventsSize := k_eventsSize k - 1, kchanges := filter (\<lambda>x. kudata x \<noteq> Some a) (kchanges k)\<rparr>\<rparr>))"

definition kevent_updateChanel :: "nat \<Rightarrow> (kqueue, 'w) poller \<Rightarrow> (kqueue, 'w) poller res" where
  "kevent_updateChanel a p =
     rbind (chan_at a p) (\<lambda>c.
     let k = kern p;
         x = \<lparr>ident = cfd c, kfilt = EVFILT_READ, kadd = events c AND kRead \<noteq> 0, kudata = Some a\<rparr>;
         y = \<lparr>ident = cfd c, kfilt = EVFILT_WRITE, kadd = events c AND kWrit \<noteq> 0, kudata = Some a\<rparr> in
     Inr (p\<lparr>kern := updateKevents (k\<lparr>kchanges := kchanges k @ [x, y]\<rparr>)\<rparr>))"

text \<open>The events \<open>kevent\<close> returned: a filter with its data, and whether the flags name an error or the end.\<close>

record kevent_ready =
  ready_filter :: kfilter
  ready_erro :: bool
  ready_udata :: "nat option"

definition kevent_revent :: "kevent_ready \<Rightarrow> u32" where
  "kevent_revent e = (if ready_erro e then kErro else 0) OR (case ready_filter e of EVFILT_READ \<Rightarrow> kRead | EVFILT_WRITE \<Rightarrow> kWrit)"

fun kevent_events :: "(kqueue, 'w) callbacks \<Rightarrow> kevent_ready list \<Rightarrow> (kqueue, 'w) poller \<Rightarrow> (kqueue, 'w) poller res" where
  "kevent_events cb [] p = Inr p"
| "kevent_events cb (e # es) p =
     (case ready_udata e of None \<Rightarrow> kevent_events cb es p
      | Some a \<Rightarrow> rbind (deliver cb a (kevent_revent e) p) (kevent_events cb es))"

definition kevent_loop_once :: "(kqueue, 'w) callbacks \<Rightarrow> kevent_ready list \<Rightarrow> (kqueue, 'w) poller \<Rightarrow> (kqueue, 'w) poller res" where
  "kevent_loop_once cb es p =
     rbind (kevent_events cb (take (k_events_size (kern p)) es) p) (\<lambda>p1.
     let k = updateKevents (kern p1) in
     Inr (p1\<lparr>kern := if k_eventsSize k > k_events_size k then k\<lparr>k_events_size := k_eventsSize k * 2\<rparr> else k\<rparr>))"

section \<open>What the queue watches\<close>

definition kevent_watches :: "kqueue \<Rightarrow> nat \<Rightarrow> bool \<times> bool" where
  "kevent_watches k fd = (filters k (fd, EVFILT_READ) \<noteq> None, filters k (fd, EVFILT_WRITE) \<noteq> None)"

lemmas kevent_simps = chan_at_def updateKevents_def kchange_ok_def kchange_make_def kevent_watches_def Let_def

text \<open>A channel that is added is watched for what it wants, one that is removed for nothing.\<close>

lemma kevent_add_watches:
  assumes "store p a = Some c" "kchanges (kern p) = []" "kevent_watches (kern p) (cfd c) = (False, False)"
  shows "\<exists>q. kevent_addChanel a p = Inr q \<and> kchanges (kern q) = [] \<and> kevent_watches (kern q) (cfd c) = wants (events c)"
  using assms by (simp add: kevent_addChanel_def kevent_simps wants_def)

lemma kevent_remove_watches:
  assumes "store p a = Some c" "kchanges (kern p) = []"
  shows "\<exists>q. kevent_removeChanel a p = Inr q \<and> kchanges (kern q) = [] \<and> kevent_watches (kern q) (cfd c) = (False, False)"
  using assms by (simp add: kevent_removeChanel_def kevent_simps)

text \<open>The changes of one update.\<close>

lemma update_changes:
  "kevent_changes [\<lparr>ident = fd, kfilt = EVFILT_READ, kadd = r, kudata = u\<rparr>, \<lparr>ident = fd, kfilt = EVFILT_WRITE, kadd = w, kudata = u\<rparr>] fs =
   (if \<not> r \<and> fs (fd, EVFILT_READ) = None then fs
    else fs((fd, EVFILT_READ) := (if r then Some u else None), (fd, EVFILT_WRITE) := (if w then Some u else None)))"
  by (auto simp: kevent_simps fun_eq_iff)

section \<open>Properties\<close>

text \<open>
  C26. An update of a channel makes the queue watch exactly what the channel wants, for this descriptor
  only, unless reading was not watched and is still not wanted: then deleting the filter for reading
  fails, the change of the filter for writing is dropped with it, and nothing changes at all.
\<close>

theorem kevent_update_watches:
  assumes "store p a = Some c" and "kchanges (kern p) = []"
  shows "\<exists>q. kevent_updateChanel a p = Inr q \<and> kchanges (kern q) = [] \<and>
    kevent_watches (kern q) (cfd c) =
      (if events c AND kRead = 0 \<and> \<not> fst (kevent_watches (kern p) (cfd c)) then kevent_watches (kern p) (cfd c) else wants (events c)) \<and>
    (\<forall>fd. fd = cfd c \<or> kevent_watches (kern q) fd = kevent_watches (kern p) fd)"
proof -
  define r w where "r \<longleftrightarrow> events c AND kRead \<noteq> 0" and "w \<longleftrightarrow> events c AND kWrit \<noteq> 0"
  let ?fs = "filters (kern p)"
  let ?k = "(kern p)\<lparr>filters := if \<not> r \<and> ?fs (cfd c, EVFILT_READ) = None then ?fs
      else ?fs((cfd c, EVFILT_READ) := (if r then Some (Some a) else None), (cfd c, EVFILT_WRITE) := (if w then Some (Some a) else None)), kchanges := []\<rparr>"
  have rw: "wants (events c) = (r, w)" "(events c AND kRead = 0) = (\<not> r)" "(events c AND kWrit = 0) = (\<not> w)" by (simp_all add: wants_def r_def w_def)
  then have "kevent_updateChanel a p = Inr (p\<lparr>kern := ?k\<rparr>)"
    using assms by (simp add: kevent_updateChanel_def updateKevents_def chan_at_def Let_def update_changes
      cong: if_cong del: kevent_changes.simps split del: if_split)
  with rw show ?thesis by (cases r; cases w) (simp_all add: kevent_watches_def)
qed

text \<open>
  A connection that suspends reading and then has something to send is never watched for writability.
\<close>

definition suspended_sender :: "chan_op list" where
  "suspended_sender = [New 7 3, Want 7 kRead True, Add 7, Want 7 kRead False, Update 7, Want 7 kWrit True]"

theorem kevent_update_watches_witness:
  "\<exists>p q c. run_all kevent_addChanel kevent_updateChanel kevent_removeChanel suspended_sender (Poller_new 5 () PollerKevent_new) = Inr p \<and>
     kevent_updateChanel 7 p = Inr q \<and> store p 7 = Some c \<and> wants (events c) = (False, True) \<and> kevent_watches (kern q) 3 = (False, False)"
proof -
  let ?c0 = "(channel_new 3)\<lparr>events := kRead, savedEvents := kRead\<rparr>"
  let ?c = "(channel_new 3)\<lparr>events := kWrit\<rparr>"
  have e: "enable kRead True 0 = kRead" "enable kRead False kRead = 0" "enable kWrit True 0 = kWrit" by (simp_all add: enable_def)
  obtain p where p: "run_all kevent_addChanel kevent_updateChanel kevent_removeChanel suspended_sender (Poller_new 5 () PollerKevent_new) = Inr p"
    "store p 7 = Some ?c" "kchanges (kern p) = []" "kevent_watches (kern p) 3 = (False, False)"
    by (simp add: suspended_sender_def Poller_new_def PollerKevent_new_def put_chan_def channel_new_def Channel_add_def Channel_update_def
        kevent_addChanel_def kevent_updateChanel_def kevent_simps e)
  from kevent_update_watches [OF p(2,3)] p(1,2,4) show ?thesis by (auto simp: channel_new_def wants_def)
qed

text \<open>
  The kernel reports reading and writing of a descriptor as two events with the same address. When the
  callback of the first deletes the channel, the second is handled on freed memory: unlike the other
  pollers this one does not look the channel up again.
\<close>

theorem kevent_stale_channel:
  assumes "store p a = Some c" and "ready_udata e = Some a" and "ready_udata e' = Some a"
    and "handleEvent (updateRevents (kevent_revent e) c) = (c1, Some k)" and "cb a k (put_chan a c1 p) = Inr q" and "store q a = None"
  shows "kevent_events cb (e # e' # es) p = Inl WildDeref"
  using assms by (simp add: deliver_def chan_at_def)

theorem kevent_stale_channel_witness:
  "\<exists>q c. run_all kevent_addChanel kevent_updateChanel kevent_removeChanel [New 7 3, SetCb 7 True True True] (Poller_new 5 () PollerKevent_new) = Inr q \<and>
     store q 7 = Some c \<and>
     kevent_events (\<lambda>a k. Channel_delete kevent_removeChanel a)
       [\<lparr>ready_filter = EVFILT_READ, ready_erro = False, ready_udata = Some 7\<rparr>, \<lparr>ready_filter = EVFILT_WRITE, ready_erro = False, ready_udata = Some 7\<rparr>] q = Inl WildDeref"
proof -
  let ?c = "(channel_new 3)\<lparr>on_read := True, on_writ := True, on_erro := True\<rparr>"
  let ?e = "\<lparr>ready_filter = EVFILT_READ, ready_erro = False, ready_udata = Some 7\<rparr>"
  let ?cb = "\<lambda>a k. Channel_delete kevent_removeChanel a :: (kqueue, unit) poller \<Rightarrow> _"
  obtain q where q: "run_all kevent_addChanel kevent_updateChanel kevent_removeChanel [New 7 3, SetCb 7 True True True] (Poller_new 5 () PollerKevent_new) = Inr q"
    "store q 7 = Some ?c" by (simp add: Poller_new_def put_chan_def chan_at_def)
  let ?c1 = "?c\<lparr>revents := kRead\<rparr>"
  have h: "handleEvent (updateRevents (kevent_revent ?e) ?c) = (?c1, Some ReadCb)"
    by (simp add: handleEvent_def updateRevents_def kevent_revent_def channel_new_def chan_isError_def Readable_def Let_def)
  obtain r where r: "?cb 7 ReadCb (put_chan 7 ?c1 q) = Inr r" "store r 7 = None"
    by (simp add: Channel_delete_def kevent_removeChanel_def chan_at_def put_chan_def Let_def)
  from kevent_stale_channel [where cb = ?cb and e = ?e and es = "[]", OF q(2) _ _ h r] q show ?thesis by auto
qed

end
