(* ===== verification/Callers.thy ===== *)
theory Callers
  imports Prelude
begin

text \<open>
  Handlers of signals and of the end of the program (\<open>liby_cpp/util.cpp\<close>: \<open>Signal\<close>, \<open>ExitCaller\<close>).
\<close>

section \<open>Signals\<close>

text \<open>
  What the system does with a signal: its default, a function that was there before, or the handler of
  the library. Functions of the application are numbers; \<open>ran\<close> are those that were called, in order.
\<close>

datatype disposition = SigDfl | SigFun nat | SignalHandler

record signals =
  functors :: "nat \<rightharpoonup> nat option"
  stored_funcs :: "nat \<rightharpoonup> disposition"
  sigaction :: "nat \<Rightarrow> disposition"
  ran :: "nat list"

text \<open>\<open>functors[signo]()\<close> makes an empty function if there is none, and calling that throws.\<close>

definition signal_handler :: "nat \<Rightarrow> signals \<Rightarrow> signals res" where
  "signal_handler n s = (case functors s n of Some (Some f) \<Rightarrow> Inr (s\<lparr>ran := ran s @ [f]\<rparr>) | _ \<Rightarrow> Inl Terminate)"

definition Signal_signal :: "nat \<Rightarrow> nat option \<Rightarrow> signals \<Rightarrow> signals" where
  "Signal_signal n h s =
     (let s1 = s\<lparr>functors := (functors s)(n \<mapsto> h)\<rparr> in
      s1\<lparr>sigaction := (sigaction s1)(n := SignalHandler), stored_funcs := (stored_funcs s1)(n \<mapsto> sigaction s1 n)\<rparr>)"

definition Signal_reset :: "nat \<Rightarrow> signals \<Rightarrow> signals" where
  "Signal_reset n s =
     (let s1 = s\<lparr>functors := (functors s)(n := None)\<rparr> in
      case stored_funcs s1 n of None \<Rightarrow> s1
      | Some d \<Rightarrow> s1\<lparr>sigaction := (sigaction s1)(n := d), stored_funcs := (stored_funcs s1)(n := None)\<rparr>)"

text \<open>A signal arrives. \<open>None\<close> is the end of the program by the default of the system.\<close>

definition raise_signal :: "nat \<Rightarrow> signals \<Rightarrow> signals option res" where
  "raise_signal n s = (case sigaction s n of SigDfl \<Rightarrow> Inr None
     | SigFun f \<Rightarrow> Inr (Some (s\<lparr>ran := ran s @ [f]\<rparr>))
     | SignalHandler \<Rightarrow> rbind (signal_handler n s) (\<lambda>s. Inr (Some s)))"

section \<open>The end of the program\<close>

text \<open>
  The functions registered with \<open>ExitCaller::call\<close>, and whether the caller itself is registered with
  \<open>atexit\<close>, which its only instance does when it is made. A function may register others.
\<close>

record exit_caller =
  registered_atexit :: bool
  ExitCallerFunctors :: "nat list"

definition exit_caller_new :: exit_caller where
  "exit_caller_new = \<lparr>registered_atexit = False, ExitCallerFunctors = []\<rparr>"

definition getCaller :: "exit_caller \<Rightarrow> exit_caller" where
  "getCaller e = e\<lparr>registered_atexit := True\<rparr>"

definition callImp :: "nat \<Rightarrow> exit_caller \<Rightarrow> exit_caller" where
  "callImp f e = e\<lparr>ExitCallerFunctors := ExitCallerFunctors e @ [f]\<rparr>"

definition ExitCaller_call :: "nat \<Rightarrow> exit_caller \<Rightarrow> exit_caller" where
  "ExitCaller_call f e = callImp f (getCaller e)"

text \<open>
  The lock is held while the functions run, and it is not recursive: \<open>calls f\<close> tells whether the function
  registers another one, which then waits forever.
\<close>

fun run_functors :: "(nat \<Rightarrow> bool) \<Rightarrow> nat list \<Rightarrow> nat list \<Rightarrow> nat list res" where
  "run_functors calls [] out = Inr out"
| "run_functors calls (f # fs) out = (if calls f then Inl NoReturn else run_functors calls fs (out @ [f]))"

definition callOnExit :: "(nat \<Rightarrow> bool) \<Rightarrow> exit_caller \<Rightarrow> nat list res" where
  "callOnExit calls e = run_functors calls (ExitCallerFunctors e) []"

definition program_exit :: "(nat \<Rightarrow> bool) \<Rightarrow> exit_caller \<Rightarrow> nat list res" where
  "program_exit calls e = (if registered_atexit e then callOnExit calls e else Inr [])"

section \<open>Properties of signals\<close>

text \<open>
  A handler that is set is what a signal runs, and resetting it brings back what the system did before,
  if no handler of the library was set then.
\<close>

theorem signal_reset_restores:
  assumes "functors s n = None" and "stored_funcs s n = None"
  shows "Signal_reset n (Signal_signal n (Some f) s) = s \<and> raise_signal n (Signal_signal n (Some f) s) =
    Inr (Some ((Signal_signal n (Some f) s)\<lparr>ran := ran s @ [f]\<rparr>))"
proof
  have "(functors s)(n := None) = functors s" "(stored_funcs s)(n := None) = stored_funcs s" "(sigaction s)(n := sigaction s n) = sigaction s"
    using assms by auto
  then show "Signal_reset n (Signal_signal n (Some f) s) = s" by (cases s) (simp add: Signal_reset_def Signal_signal_def Let_def)
  show "raise_signal n (Signal_signal n (Some f) s) = Inr (Some ((Signal_signal n (Some f) s)\<lparr>ran := ran s @ [f]\<rparr>))"
    by (simp add: raise_signal_def signal_handler_def Signal_signal_def Let_def)
qed

definition demo_signals :: signals where
  "demo_signals = \<lparr>functors = Map.empty, stored_funcs = Map.empty, sigaction = (\<lambda>_. SigDfl), ran = []\<rparr>"

theorem signal_reset_restores_witness:
  "raise_signal 2 (Signal_reset 2 (Signal_signal 2 (Some 9) demo_signals)) = Inr None"
  using signal_reset_restores [of demo_signals 2 9] by (simp add: demo_signals_def raise_signal_def)

text \<open>
  A handler that is set twice and then reset leaves the handler of the library behind without a
  function: the next signal ends the program with an exception.
\<close>

theorem signal_twice_terminates:
  "raise_signal n (Signal_reset n (Signal_signal n h (Signal_signal n g s))) = Inl Terminate"
  by (simp add: raise_signal_def signal_handler_def Signal_signal_def Signal_reset_def Let_def)

section \<open>Properties of the end of the program\<close>

lemma run_functors_all: "list_all (\<lambda>f. \<not> calls f) fs \<Longrightarrow> run_functors calls fs out = Inr (out @ fs)"
  by (induction fs arbitrary: out) auto

lemma run_functors_hangs: "\<not> list_all (\<lambda>f. \<not> calls f) fs \<Longrightarrow> run_functors calls fs out = Inl NoReturn"
  by (induction fs arbitrary: out) auto

lemma calls_registered:
  "fs \<noteq> [] \<Longrightarrow> fold ExitCaller_call fs e = e\<lparr>registered_atexit := True, ExitCallerFunctors := ExitCallerFunctors e @ fs\<rparr>"
proof (induction fs arbitrary: e rule: list_nonempty_induct)
  case (single f)
  then show ?case by (cases e) (simp add: ExitCaller_call_def getCaller_def callImp_def)
next
  case (cons f fs)
  then show ?case by (cases e) (simp add: ExitCaller_call_def getCaller_def callImp_def)
qed

text \<open>
  The functions registered for the end of the program are all run then, once for each call and in that
  order; if one of them registers another, the program does not end.
\<close>

theorem exit_functors_run:
  "program_exit calls (fold ExitCaller_call fs exit_caller_new) = (if list_all (\<lambda>f. \<not> calls f) fs then Inr fs else Inl NoReturn)"
proof (cases "fs = []")
  case True
  then show ?thesis by (simp add: program_exit_def exit_caller_new_def)
next
  case False
  then show ?thesis
    by (simp add: calls_registered exit_caller_new_def program_exit_def callOnExit_def run_functors_all run_functors_hangs)
qed

end
