(* ===== verification/Spec2Isabelle.thy ===== *)
theory Spec2Isabelle
  imports Huffman_Roundtrip Liby_Props BigInt_Props Tcp_Server Logging Net_Tools Sockets Echo Chat Buffer Trie Uthread Split
    Http_Serving Conn_Echo Socks_Proxy Sync_Calls Poller_Kevent Callers
begin

text \<open>
  Verification of OldTools, a repository of small C and C++ programs and libraries. The development
  is a shallow embedding: the functions of the sources are HOL functions on records and data types,
  with explicit state, and every \<open>exit\<close>, failed assertion, bad pointer, access outside an array, uncaught
  exception and loop without end is a value of the type \<open>c_fault\<close> (theory \<open>Prelude\<close>), so that a theorem
  that a function returns \<open>Inr\<close> says that none of them happens.

  \<^bold>\<open>Parts and theories\<close>

  \<^item> \<open>HuffmanCompress/\<close>, a compressor and a decompressor for files. \<open>Huffman_Compress\<close> and
    \<open>Huffman_Decompress\<close> model the two programs (counting, the merge loop over the array of trees, the
    tables of codes, the key section and the packed bits; reading the header, rebuilding the tree,
    decoding). \<open>Huffman_Tree\<close> shows that the merge loop yields a prefix code and bounds its height by
    Fibonacci weights; the C library's \<open>qsort\<close> is the locale \<open>qsort_lib\<close>, interpreted by a stable sort.
    \<open>Huffman_Codec\<close> is about writing and reading codes, \<open>Huffman_Roundtrip\<close> has the properties: the
    round trip, and exactly when the fixed buffers overflow.
  \<^item> \<open>liby/src/\<close>, a C library for servers on epoll. \<open>Intrusive_List\<close> models \<open>list.h\<close> on a heap of nodes
    and gives the locale \<open>fifo_queue\<close>; \<open>Liby_Epoll\<close> models \<open>epoll.c\<close> and the state; \<open>Liby\<close> models the
    functions of \<open>liby.c\<close>; \<open>Liby_Queues\<close> interprets the task queues as \<open>fifo_queue\<close> and treats writing;
    \<open>Liby_Lifecycle\<close> treats creation, accepting and destruction; \<open>Liby_Props\<close> has the properties. Its
    \<open>log.c\<close> is in \<open>Logging\<close>, its \<open>socket.c\<close> in \<open>Sockets\<close>.
  \<^item> \<open>bigint/BigInt.h\<close>, integers of any size. \<open>BigInt\<close> is the model on lists of 32-bit words,
    \<open>BigInt_Arith\<close> relates the digit loops to numbers, \<open>BigInt_Props\<close> has the properties of the operators.
  \<^item> \<open>liby_cpp/\<close>, a C++ library for servers; its data structures. \<open>Binary_Heap\<close> (\<open>BinaryHeap.h\<close>) has
    the heap with its 32-bit sizes and indices, shown to be a priority queue for every comparison that is
    a weak order (locale \<open>weak_order\<close>) as long as it has fewer than $2^{31}$ elements; \<open>Timer_Queue\<close>
    (\<open>TimerQueue.h\<close>, \<open>TimerQueue.cpp\<close> and \<open>Timestamp\<close> of \<open>util.h\<close>) interprets it for timestamps and for
    timers ordered by timeout and adds the timerfd; \<open>Buffer\<close> (\<open>Buffer.h\<close>, \<open>Buffer.cpp\<close>) is a block of
    memory with two indices, shown to be a byte stream (locale \<open>byte_stream\<close>); \<open>Trie\<close> models the class
    template of \<open>util.h\<close>; \<open>Callers\<close> the handlers of signals and of the end of the program in \<open>util.cpp\<close>;
    \<open>Logging\<close> the logger and the text of timestamps; \<open>Sockets\<close> the opening of sockets.
  \<^item> \<open>liby_cpp/\<close>, events. \<open>Pollers\<close> (\<open>Channel.h\<close>, \<open>Channel.cpp\<close>, \<open>Poller.h\<close>, \<open>Poller.cpp\<close>) models channels and
    the pollers for epoll, select and poll, whose common interface is the locale \<open>poller_interface\<close>; callbacks
    may do any channel operations, deletions included;
    \<open>Poller_Kevent\<close> models the one for kevent, which does not keep that interface. \<open>Poller_Timers\<close> has the
    timers of a poller and timer sets, with the locale \<open>timer_handlers\<close> for handlers that start and cancel
    timers; \<open>Event_Queue\<close> has \<open>BlockingQueue.h\<close> and \<open>EventQueue.cpp\<close>, through which threads hand work to a
    poller; \<open>Tcp_Server\<close> has \<open>EventLoop.cpp\<close>, \<open>TcpServer.cpp\<close> and \<open>TcpClient.cpp\<close>.
  \<^item> \<open>liby_cpp/\<close>, connections. \<open>Connection\<close> (\<open>Connection.h\<close>, \<open>Connection.cpp\<close>) has the write tasks, reading and
    the handlers of events. \<open>Conn_Flow\<close> has case rules for the handlers and the locale \<open>live_app\<close>: what an
    application promises about its callbacks so that every event is safe. It is interpreted by the echo
    server over the library (\<open>Conn_Echo\<close>, \<open>tests/echo.cpp\<close>) and by the relay (\<open>Tcp_Relay\<close>,
    \<open>tests/tcp_relayer.cpp\<close>). \<open>Socks_Proxy\<close> (\<open>tests/tcp_proxy.cpp\<close>) joins the connection, the relay, the
    clients of \<open>Tcp_Server\<close> and the timers of \<open>Poller_Timers\<close>. \<open>Sync_Calls\<close> has
    \<open>sync_send\<close> and \<open>sync_read\<close>.
  \<^item> \<open>liby_cpp/http/\<close>. \<open>Http_Server\<close> models the incremental request parser, the replies and the callbacks
    of the server on the bytes of a connection. \<open>Http_Shift\<close> shows that the parser may run on a buffer
    that has dropped the bytes in front, \<open>Http_Connection\<close> puts the callbacks on the connections of
    \<open>Connection\<close> with the context behind \<open>udata_\<close>, its allocation and its deletion, and \<open>Http_Serving\<close> follows a request from its first
    piece to the last byte of the answer.
  \<^item> \<open>uthread/\<close>, threads on \<open>ucontext\<close> (\<open>Uthread\<close>): the thread list, the calls of the library as a step
    relation, and the scheduling loop of \<open>main.c\<close>. Only runs in which the main program resumes threads keep
    the invariant of one running thread; a thread that resumes another breaks it.
  \<^item> \<open>splitter/\<close> and \<open>http_parser/\<close>, and their copies in liby (\<open>C_Strings\<close>, \<open>Split\<close>, \<open>Http_Parser\<close>): cutting
    up strings in place with \<open>strsep\<close>.
  \<^item> \<open>echo/\<close> (\<open>Echo\<close>), a server on epoll; \<open>chat/chat.cpp\<close> (\<open>Chat\<close>), a server on boost.asio, which is the
    environment; \<open>time_server/\<close>, \<open>tcpping/\<close> and \<open>chat_client/\<close> (\<open>Net_Tools\<close>).

  \<^bold>\<open>How the parts interact\<close>

  The timer queue calls the heap. A connection owns a channel and a read buffer, its write tasks own
  buffers; the poller calls the channel, which calls the handler of the connection, which calls the
  application. The HTTP server, the echo server, the relay and the proxy are such applications. A TCP
  server accepts on one poller and hands connections to others through their event queues. In liby the
  loop calls the handlers of its servers and clients, whose tasks are in intrusive lists.

  \<^bold>\<open>What the theorems show\<close>

  Round trips: compressing and decompressing, printing and parsing numbers, requests, percent
  encoding, splitting and joining, the time protocol. Refinement: the heap implements a priority
  queue, the buffer a byte stream, the trie a map, three pollers one specification. Equivalence: a
  request parsed in pieces is parsed as at once. Invariants: one running thread, a connection with
  data to write is watched for writability and sends its bytes in order. Safety: the event loop never
  calls a deleted channel, the HTTP context is deleted once and it and the pointers of the relay are not used
  after they were deleted, the sockets of liby_cpp do not leak, \<open>sync_send\<close> on a new connection returns only
  when all is sent. Liveness and
  termination: expired timers run, periodic timers run again, no wake-up of an event queue is lost,
  every accepted connection reaches a poller, a request gets its whole answer, echo servers stay
  awake, the scheduler finishes all threads, loops that never end are named. Errors: the inputs and
  the orders of events on which the programs fault are theorems of their own, most of them general,
  and are listed as findings in the manifest.

  \<^bold>\<open>Loops and bounds\<close>

  Loops are recursive functions with a termination proof where they end. A loop that may run for ever on
  what it is given is a \<open>partial_function\<close> into \<open>option\<close>, for which not returning is \<open>None\<close>, and its callers
  report that as \<open>NoReturn\<close> (\<open>returned\<close> of \<open>Prelude\<close>): \<open>down_loop\<close> of \<open>Binary_Heap\<close>, whose index may wrap
  around, \<open>double_up\<close>, \<open>as_string\<close> and \<open>as_vector\<close> of \<open>Buffer\<close>, \<open>del_loop\<close> of \<open>Uthread\<close>. When they return and
  when they do not is proved. Where the number of rounds depends on a structure in memory or on callbacks
  there is fuel and the value \<open>NoReturn\<close>: the macros \<open>list_for_each\<close> of \<open>list.h\<close>
  take one more than the list has nodes; \<open>timeout_loop\<close> one more than the heap has elements, since every
  round removes one; \<open>finished_loop\<close> the number of threads; \<open>schedule_loop\<close> one more than the largest
  number of yields; \<open>Div\<close> and \<open>toString\<close> of \<open>BigInt\<close> a bound on the quotient and the number of digits;
  \<open>read_event_loop\<close> and \<open>http_read_loop\<close> one round, since the connection is always closed after a request;
  \<open>drain_loop\<close> one more than there are handlers. The theorems show that the fuel is enough, where a
  handler cannot start new work; a timer handler that always starts a timer that is already due keeps
  the loop of timers busy for ever, so the theorems about those allow \<open>NoReturn\<close>.
  Fixed sizes of the sources are kept: the buffers of the compressor, 95 children of a trie node, 48
  entries of the pollers, 1024 descriptors of select, the extra buffer of 163840 bytes.
  Integers that a long run could overflow are kept at their width (the sizes of the heap, the counter of
  \<open>Split\<close>), or the theorem bounds them; the count of the bytes of one HTTP request, an \<open>int\<close>, is a natural
  number.

  \<^bold>\<open>Parameters\<close>

  Results of system calls, the file system, the clock, callbacks of the application, \<open>qsort\<close>, boost.asio
  and the iteration order of hash maps are arguments of the definitions. Where a theorem needs
  something of them it is a hypothesis, and its witness supplies a concrete instance. Threads are
  interleaved at the accesses to what they share: the queue and the eventfd of \<open>Event_Queue\<close>, the
  connection and the flag of \<open>Sync_Calls\<close>.

  \<^bold>\<open>Not modelled\<close>

  Most failing allocations. \<open>errno\<close> is kept per connection and not per thread, and
  the field \<open>revents\<close> that \<open>PollerPoll::addChanel\<close> leaves uninitialised is 0. Starting and joining the threads of an event loop, and the worker threads and
  mutexes of liby. Conversions of timestamps to floating point, diagnostic output, options of sockets
  that only report an error. \<open>liby/src/http_parser.c\<close> is a copy of \<open>http_parser/http_parser.c\<close>. The tests of
  liby and the other tests of liby_cpp are a few calls of the libraries each; \<open>chat/main.cpp\<close>,
  \<open>chat/server.h\<close> and their companions are drafts that do not compile; \<open>killGWX/\<close> is a Windows program of
  system calls; \<open>go/\<close> and \<open>node/\<close> are in other languages.
\<close>

end
